(* ===== verification/Sim_Prelude.thy ===== *)
theory Sim_Prelude
  imports Main "HOL-Library.Word" "HOL-Library.Monad_Syntax"
begin

unbundle bit_operations_syntax

text \<open>
  Shared vocabulary of the development: the widths of the C integer types, the error codes of
  lwIP (\<^verbatim>\<open>lwip/src/include/lwip/err.h\<close>) and of the Nabto SDK, the alignment macro, the
  failing check, and the generic lemmas on lists, maps and words the component theories use.

  A C function that can stop the program (a failed \<^verbatim>\<open>LWIP_ASSERT\<close> or \<^verbatim>\<open>LWIP_ERROR\<close>, both
  \<^verbatim>\<open>abort\<close> in this configuration) or that can touch an object that is not live is modelled with
  an \<open>option\<close> result: \<open>None\<close> is "no orderly return", so an equation \<open>f s = Some r\<close> states
  that the call returns, violates no assertion and touches live memory only.
\<close>

named_theorems heap_defs \<open>operations of the lwIP heap\<close>
named_theorems pbuf_defs \<open>operations of the pbuf module\<close>
named_theorems wf_defs \<open>well-formedness predicates\<close>

type_synonym u8 = "8 word"
type_synonym u16 = "16 word"
type_synonym u32 = "32 word"
type_synonym bytes = "8 word list"

subsection \<open>Error codes\<close>

datatype err_t =
    ERR_OK | ERR_MEM | ERR_BUF | ERR_TIMEOUT | ERR_RTE | ERR_INPROGRESS | ERR_VAL
  | ERR_WOULDBLOCK | ERR_USE | ERR_ALREADY | ERR_ISCONN | ERR_CONN | ERR_IF | ERR_ABRT
  | ERR_RST | ERR_CLSD | ERR_ARG

text \<open>The codes of the Nabto SDK that the adapters of \<^verbatim>\<open>src/nabto_lwip\<close> use, by name.\<close>

datatype np_error_code =
    NABTO_EC_OK | NABTO_EC_UNKNOWN | NABTO_EC_OUT_OF_MEMORY | NABTO_EC_ABORTED
  | NABTO_EC_EOF | NABTO_EC_AGAIN | NABTO_EC_UDP_SOCKET_ERROR
  | NABTO_EC_UDP_SOCKET_CREATION_ERROR | NABTO_EC_OPERATION_IN_PROGRESS

subsection \<open>Checks and alignment\<close>

definition require :: "bool \<Rightarrow> unit option" where
  "require b = (if b then Some () else None)"

lemma require_simps [simp]:
  "require True = Some ()" "require False = None"
  "(require b = None) = (\<not> b)" "(require b = Some u) = b"
  by (auto simp: require_def)

lemma require_bind [simp]: "b \<Longrightarrow> Option.bind (require b) f = f ()"
  by simp

lemma bind_Some_conv: "(Option.bind x f = Some y) = (\<exists>a. x = Some a \<and> f a = Some y)"
  by (cases x) auto

text \<open>\<^verbatim>\<open>LWIP_MEM_ALIGN_SIZE(size)\<close> with \<^verbatim>\<open>MEM_ALIGNMENT\<close> 4 (\<^verbatim>\<open>src/lwipopts.h\<close>).\<close>

definition align_size :: "nat \<Rightarrow> nat" where
  "align_size n = (n + 3) div 4 * 4"

lemma align_size_dvd [simp]: "4 dvd align_size n"
  by (simp add: align_size_def)

lemma align_size_ge: "n \<le> align_size n"
  unfolding align_size_def by presburger

lemma align_size_less: "align_size n < n + 4"
  unfolding align_size_def by presburger

lemma align_size_id: "4 dvd n \<Longrightarrow> align_size n = n"
  unfolding align_size_def by presburger

subsection \<open>Lists\<close>

lemma distinct_middle: "distinct (xs @ b # ys) \<Longrightarrow> b \<notin> set xs \<and> b \<notin> set ys"
  by simp

definition overwrite :: "nat \<Rightarrow> 'a list \<Rightarrow> 'a list \<Rightarrow> 'a list" where
  "overwrite i new xs = take i xs @ new @ drop (i + length new) xs"

lemma length_overwrite [simp]:
  "i + length new \<le> length xs \<Longrightarrow> length (overwrite i new xs) = length xs"
  by (simp add: overwrite_def)

lemma take_drop_overwrite:
  "i + length new \<le> length xs \<Longrightarrow> take (length new) (drop i (overwrite i new xs)) = new"
  by (simp add: overwrite_def)

lemma overwrite_Nil [simp]: "overwrite i [] xs = xs"
  by (simp add: overwrite_def)

lemma overwrite_all: "length new = length xs \<Longrightarrow> overwrite 0 new xs = new"
  by (simp add: overwrite_def)

subsection \<open>Words\<close>

lemma unat_add_no_overflow:
  "unat (a :: 'a::len word) + unat b < 2 ^ LENGTH('a) \<Longrightarrow> unat (a + b) = unat a + unat b"
  by (simp add: unat_word_ariths)

lemma unat_of_nat_small: "n < 2 ^ LENGTH('a) \<Longrightarrow> unat (of_nat n :: 'a::len word) = n"
  by (simp add: unat_of_nat take_bit_nat_eq_self)

lemma unat16_less: "unat (w :: 16 word) < 65536"
  using unsigned_less [of w] by simp

end
