(* ===== verification/Mem_Heap.thy ===== *)
theory Mem_Heap
  imports Sim_Prelude
begin

text \<open>
  The lwIP heap, \<^verbatim>\<open>lwip/src/core/mem.c\<close>, in the configuration of \<^verbatim>\<open>src/lwipopts.h\<close>:
  \<^verbatim>\<open>MEM_SIZE\<close> 10240, \<^verbatim>\<open>MEM_ALIGNMENT\<close> 4, no overflow or sanity checks, a mutex around every
  operation (so one operation is one step of the model), \<^verbatim>\<open>mem_size_t\<close> 16 bits.

  The heap is an array of bytes in which blocks start with a \<^verbatim>\<open>struct mem\<close>; the model keeps the
  headers, by the index of the block in \<^verbatim>\<open>ram\<close>. Indices and sizes are natural numbers; the casts
  of the source to \<^verbatim>\<open>mem_size_t\<close> are written \<open>mod 65536\<close>, its subtraction in \<^verbatim>\<open>size_t\<close> is
  \<open>size_sub\<close>. An index with no header is memory the code must not read as a header: such a
  read is \<open>None\<close>, as is a failed \<^verbatim>\<open>LWIP_ASSERT\<close>.
\<close>

abbreviation MEM_SIZE_ALIGNED :: nat where "MEM_SIZE_ALIGNED \<equiv> 10240"
abbreviation SIZEOF_STRUCT_MEM :: nat where "SIZEOF_STRUCT_MEM \<equiv> 8"
abbreviation MIN_SIZE_ALIGNED :: nat where "MIN_SIZE_ALIGNED \<equiv> 12"

record mem_hdr =
  mem_next :: nat
  mem_prev :: nat
  mem_used :: bool

text \<open>
  \<open>ram\<close> holds the headers, \<open>lfree\<close> the index of the lowest free block (the static
  \<^verbatim>\<open>lfree\<close>), the other fields are the counters of \<^verbatim>\<open>lwip_stats.mem\<close>.
\<close>

record mheap =
  ram :: "nat \<rightharpoonup> mem_hdr"
  lfree :: nat
  st_used :: nat
  st_err :: u16
  st_illegal :: u16

text \<open>Subtraction in \<^verbatim>\<open>size_t\<close> (64 bits): it wraps below zero.\<close>

definition size_sub :: "nat \<Rightarrow> nat \<Rightarrow> nat" where
  "size_sub a b = (if b \<le> a then a - b else a + 2 ^ 64 - b)"

lemma size_sub_le [simp]: "b \<le> a \<Longrightarrow> size_sub a b = a - b"
  by (simp add: size_sub_def)

subsection \<open>Operations\<close>

definition set_hdr :: "nat \<Rightarrow> mem_hdr \<Rightarrow> mheap \<Rightarrow> mheap" where
  "set_hdr i b h = h\<lparr>ram := (ram h)(i \<mapsto> b)\<rparr>"

text \<open>\<open>if (n != MEM_SIZE_ALIGNED) ptr_to_mem(n)->prev = p\<close>, which four places of the source share.\<close>

definition link_prev :: "nat \<Rightarrow> nat \<Rightarrow> mheap \<Rightarrow> mheap option" where
  "link_prev n p h =
     (if n \<noteq> MEM_SIZE_ALIGNED
      then do { b \<leftarrow> ram h n; Some (set_hdr n (b\<lparr>mem_prev := p\<rparr>) h) }
      else Some h)"

text \<open>\<open>plug_holes\<close> merges a freed block with a free next block, then with a free previous block.\<close>

definition plug_next :: "nat \<Rightarrow> mheap \<Rightarrow> mheap option" where
  "plug_next m h = do {
     b \<leftarrow> ram h m;
     let nmem = mem_next b;
     nb \<leftarrow> ram h nmem;
     if m \<noteq> nmem \<and> \<not> mem_used nb \<and> nmem \<noteq> MEM_SIZE_ALIGNED
     then (let h' = (if lfree h = nmem then h\<lparr>lfree := m\<rparr> else h)
           in link_prev (mem_next nb) m (set_hdr m (b\<lparr>mem_next := mem_next nb\<rparr>) h'))
     else Some h }"

definition plug_prev :: "nat \<Rightarrow> mheap \<Rightarrow> mheap option" where
  "plug_prev m h = do {
     b \<leftarrow> ram h m;
     let pmem = mem_prev b;
     pb \<leftarrow> ram h pmem;
     if pmem \<noteq> m \<and> \<not> mem_used pb
     then (let h' = (if lfree h = m then h\<lparr>lfree := pmem\<rparr> else h)
           in link_prev (mem_next b) pmem (set_hdr pmem (pb\<lparr>mem_next := mem_next b\<rparr>) h'))
     else Some h }"

definition plug_holes :: "nat \<Rightarrow> mheap \<Rightarrow> mheap option" where
  "plug_holes m h = do {
     b \<leftarrow> ram h m;
     require (m < MEM_SIZE_ALIGNED);
     require (\<not> mem_used b);
     require (mem_next b \<le> MEM_SIZE_ALIGNED);
     h1 \<leftarrow> plug_next m h;
     plug_prev m h1 }"

text \<open>\<^verbatim>\<open>sys_mutex_new(&mem_mutex)\<close> of \<open>mem_init\<close> is its argument: the result of the call.\<close>

definition mem_init :: "err_t \<Rightarrow> mheap option" where
  "mem_init mutex_err =
     (if mutex_err \<noteq> ERR_OK then None
      else Some \<lparr>ram = [0 \<mapsto> \<lparr>mem_next = MEM_SIZE_ALIGNED, mem_prev = 0, mem_used = False\<rparr>,
                        MEM_SIZE_ALIGNED \<mapsto> \<lparr>mem_next = MEM_SIZE_ALIGNED,
                           mem_prev = MEM_SIZE_ALIGNED, mem_used = True\<rparr>],
                 lfree = 0, st_used = 0, st_err = 0, st_illegal = 0\<rparr>)"

definition mem_link_valid :: "nat \<Rightarrow> mheap \<Rightarrow> bool option" where
  "mem_link_valid m h = do {
     b \<leftarrow> ram h m;
     if mem_next b > MEM_SIZE_ALIGNED \<or> mem_prev b > MEM_SIZE_ALIGNED then Some False
     else do {
       pb \<leftarrow> ram h (mem_prev b);
       nb \<leftarrow> ram h (mem_next b);
       Some (\<not> ((mem_prev b \<noteq> m \<and> mem_next pb \<noteq> m) \<or>
                (mem_next b \<noteq> MEM_SIZE_ALIGNED \<and> mem_prev nb \<noteq> m))) } }"

text \<open>
  The argument of \<open>mem_free\<close> is a pointer: \<open>None\<close> for \<open>NULL\<close>, otherwise its distance
  from \<^verbatim>\<open>ram\<close> (negative below it). An illegal pointer only counts in the statistics.
\<close>

definition illegal_free :: "mheap \<Rightarrow> mheap" where
  "illegal_free h = h\<lparr>st_illegal := st_illegal h + 1\<rparr>"

definition mem_free :: "int option \<Rightarrow> mheap \<Rightarrow> mheap option" where
  "mem_free rmem h = (case rmem of
     None \<Rightarrow> Some h
   | Some r \<Rightarrow>
       if r mod 4 \<noteq> 0 then Some (illegal_free h)
       else if r - int SIZEOF_STRUCT_MEM < 0 \<or>
               r + int MIN_SIZE_ALIGNED > int MEM_SIZE_ALIGNED then Some (illegal_free h)
       else do {
         let m = nat (r - int SIZEOF_STRUCT_MEM);
         b \<leftarrow> ram h m;
         if \<not> mem_used b then Some (illegal_free h)
         else do {
           ok \<leftarrow> mem_link_valid m h;
           if \<not> ok then Some (illegal_free h)
           else (let h1 = set_hdr m (b\<lparr>mem_used := False\<rparr>) h;
                     h2 = (if m < lfree h1 then h1\<lparr>lfree := m\<rparr> else h1)
                 in plug_holes m (h2\<lparr>st_used := st_used h2 - (mem_next b - m)\<rparr>)) } })"

text \<open>
  \<open>mem_trim\<close> and \<open>mem_malloc\<close> return the pointer (\<open>None\<close> inside the pair for
  \<open>NULL\<close>) and the new heap.
\<close>

definition mem_trim :: "nat \<Rightarrow> nat \<Rightarrow> mheap \<Rightarrow> (nat option \<times> mheap) option" where
  "mem_trim rmem new_size h =
     (let ns = align_size new_size mod 65536;
          newsize = (if ns < MIN_SIZE_ALIGNED then MIN_SIZE_ALIGNED else ns)
      in if newsize > MEM_SIZE_ALIGNED \<or> newsize < new_size then Some (None, h)
         else do {
           require (rmem < MEM_SIZE_ALIGNED);
           require (SIZEOF_STRUCT_MEM \<le> rmem);
           let ptr = rmem - SIZEOF_STRUCT_MEM;
           b \<leftarrow> ram h ptr;
           let size = size_sub (size_sub (mem_next b) ptr mod 65536) SIZEOF_STRUCT_MEM mod 65536;
           require (newsize \<le> size);
           if newsize = size then Some (Some rmem, h)
           else do {
             nb \<leftarrow> ram h (mem_next b);
             let ptr2 = (ptr + SIZEOF_STRUCT_MEM + newsize) mod 65536;
             if \<not> mem_used nb then do {
               require (mem_next b \<noteq> MEM_SIZE_ALIGNED);
               let h1 = (if lfree h = mem_next b then h\<lparr>lfree := ptr2\<rparr> else h);
               let h2 = set_hdr ptr2 \<lparr>mem_next = mem_next nb, mem_prev = ptr, mem_used = False\<rparr> h1;
               let h3 = set_hdr ptr (b\<lparr>mem_next := ptr2\<rparr>) h2;
               h4 \<leftarrow> link_prev (mem_next nb) ptr2 h3;
               Some (Some rmem, h4\<lparr>st_used := st_used h4 - (size - newsize)\<rparr>) }
             else if newsize + SIZEOF_STRUCT_MEM + MIN_SIZE_ALIGNED \<le> size then do {
               require (mem_next b \<noteq> MEM_SIZE_ALIGNED);
               let h1 = (if ptr2 < lfree h then h\<lparr>lfree := ptr2\<rparr> else h);
               let h2 = set_hdr ptr2 \<lparr>mem_next = mem_next b, mem_prev = ptr, mem_used = False\<rparr> h1;
               let h3 = set_hdr ptr (b\<lparr>mem_next := ptr2\<rparr>) h2;
               h4 \<leftarrow> link_prev (mem_next b) ptr2 h3;
               Some (Some rmem, h4\<lparr>st_used := st_used h4 - (size - newsize)\<rparr>) }
             else Some (Some rmem, h) } })"

text \<open>
  The scan of \<open>mem_malloc\<close> for the first free block that is big enough, its marking or
  splitting, and the search for the next lowest free block.
\<close>

partial_function (option) scan_fit :: "nat \<Rightarrow> mheap \<Rightarrow> nat \<Rightarrow> nat option option" where
  "scan_fit msize h ptr =
     (if ptr < MEM_SIZE_ALIGNED - msize
      then do {
        b \<leftarrow> ram h ptr;
        if \<not> mem_used b \<and> size_sub (mem_next b) (ptr + SIZEOF_STRUCT_MEM) \<ge> msize
        then Some (Some ptr)
        else scan_fit msize h (mem_next b) }
      else Some None)"

partial_function (option) next_free :: "mheap \<Rightarrow> nat \<Rightarrow> nat option" where
  "next_free h cur = do {
     b \<leftarrow> ram h cur;
     if mem_used b \<and> cur \<noteq> MEM_SIZE_ALIGNED then next_free h (mem_next b) else Some cur }"

definition take_block :: "nat \<Rightarrow> nat \<Rightarrow> mheap \<Rightarrow> mheap option" where
  "take_block msize ptr h = do {
     b \<leftarrow> ram h ptr;
     if size_sub (mem_next b) (ptr + SIZEOF_STRUCT_MEM) \<ge>
          msize + SIZEOF_STRUCT_MEM + MIN_SIZE_ALIGNED
     then do {
       let ptr2 = (ptr + SIZEOF_STRUCT_MEM + msize) mod 65536;
       require (ptr2 \<noteq> MEM_SIZE_ALIGNED);
       let h1 = set_hdr ptr2 \<lparr>mem_next = mem_next b, mem_prev = ptr, mem_used = False\<rparr> h;
       let h2 = set_hdr ptr (b\<lparr>mem_next := ptr2, mem_used := True\<rparr>) h1;
       h3 \<leftarrow> link_prev (mem_next b) ptr2 h2;
       Some (h3\<lparr>st_used := st_used h3 + (msize + SIZEOF_STRUCT_MEM)\<rparr>) }
     else (let h1 = set_hdr ptr (b\<lparr>mem_used := True\<rparr>) h
           in Some (h1\<lparr>st_used := st_used h1 + (mem_next b - ptr)\<rparr>)) }"

definition mem_malloc :: "nat \<Rightarrow> mheap \<Rightarrow> (nat option \<times> mheap) option" where
  "mem_malloc size_in h =
     (if size_in = 0 then Some (None, h)
      else
        (let sz = align_size size_in mod 65536;
             size = (if sz < MIN_SIZE_ALIGNED then MIN_SIZE_ALIGNED else sz)
         in if size > MEM_SIZE_ALIGNED \<or> size < size_in then Some (None, h)
            else do {
              found \<leftarrow> scan_fit size h (lfree h);
              case found of
                None \<Rightarrow> Some (None, h\<lparr>st_err := st_err h + 1\<rparr>)
              | Some ptr \<Rightarrow> do {
                  h1 \<leftarrow> take_block size ptr h;
                  h2 \<leftarrow> (if ptr = lfree h1
                         then do {
                           cur \<leftarrow> next_free h1 (lfree h1);
                           Some (h1\<lparr>lfree := cur\<rparr>) }
                         else Some h1);
                  require (ptr + SIZEOF_STRUCT_MEM + size \<le> MEM_SIZE_ALIGNED);
                  require ((ptr + SIZEOF_STRUCT_MEM) mod 4 = 0);
                  Some (Some (ptr + SIZEOF_STRUCT_MEM), h2) } }))"

text \<open>
  \<open>mem_calloc\<close>: the product is formed in \<^verbatim>\<open>size_t\<close> and refused when it does not fit
  \<^verbatim>\<open>mem_size_t\<close>. The second component of the pointer is the number of bytes set to zero.
\<close>

definition mem_calloc :: "nat \<Rightarrow> nat \<Rightarrow> mheap \<Rightarrow> ((nat \<times> nat) option \<times> mheap) option" where
  "mem_calloc count msize h =
     (let alloc_size = (count * msize) mod 2 ^ 64
      in if alloc_size mod 65536 \<noteq> alloc_size then Some (None, h)
         else do {
           (p, h') \<leftarrow> mem_malloc alloc_size h;
           Some (map_option (\<lambda>q. (q, alloc_size)) p, h') })"

end
