(* ===== verification/Alloc_Spec.thy ===== *)
theory Alloc_Spec
  imports Sim_Prelude
begin

text \<open>
  The contract the lwIP allocators give their clients. The heap of \<^verbatim>\<open>mem.c\<close> and the element
  pools of \<^verbatim>\<open>memp.c\<close> are used the same way by \<^verbatim>\<open>pbuf.c\<close> and by the adapters: ask for an
  object, get \<open>NULL\<close> or an object no one else holds, give it back once. The locale states this
  contract over the set of live objects; the theories \<open>Heap_Refine\<close> and \<open>Memp\<close> interpret it on their
  models.

  The client lemmas are about programs that keep the objects they got in variables and free only
  what a variable holds: such a program never stops on an assertion of the allocator, and its
  objects stay pairwise distinct.
\<close>

datatype ('v, 'r) alloc_cmd = Get 'v 'r | Put 'v

fun run_cmds :: "('r \<Rightarrow> 's \<Rightarrow> ('b option \<times> 's) option) \<Rightarrow> ('b \<Rightarrow> 's \<Rightarrow> 's option) \<Rightarrow>
    ('v, 'r) alloc_cmd list \<Rightarrow> ('v \<rightharpoonup> 'b) \<times> 's \<Rightarrow> (('v \<rightharpoonup> 'b) \<times> 's) option" where
  "run_cmds al fr [] st = Some st"
| "run_cmds al fr (Get v r # cs) (vs, s) =
     (if v \<in> dom vs then run_cmds al fr cs (vs, s)
      else do { (b, s') \<leftarrow> al r s; run_cmds al fr cs (vs(v := b), s') })"
| "run_cmds al fr (Put v # cs) (vs, s) =
     (case vs v of
        None \<Rightarrow> run_cmds al fr cs (vs, s)
      | Some b \<Rightarrow> do { s' \<leftarrow> fr b s; run_cmds al fr cs (vs(v := None), s') })"

locale allocator =
  fixes live :: "'s \<Rightarrow> 'b set \<Rightarrow> bool"
    and alloc :: "'r \<Rightarrow> 's \<Rightarrow> ('b option \<times> 's) option"
    and dealloc :: "'b \<Rightarrow> 's \<Rightarrow> 's option"
  assumes alloc_live: "live s L \<Longrightarrow>
      \<exists>b s'. alloc r s = Some (b, s') \<and>
        (case b of None \<Rightarrow> live s' L | Some x \<Rightarrow> x \<notin> L \<and> live s' (insert x L))"
    and dealloc_live: "live s L \<Longrightarrow> x \<in> L \<Longrightarrow> \<exists>s'. dealloc x s = Some s' \<and> live s' (L - {x})"
begin

lemma run_cmds_live:
  fixes vs :: "'v \<rightharpoonup> 'b"
  assumes "live s L" "inj_on vs (dom vs)" "ran vs \<subseteq> L"
  shows "\<exists>vs' s' L'. run_cmds alloc dealloc cs (vs, s) = Some (vs', s') \<and> live s' L' \<and>
           inj_on vs' (dom vs') \<and> ran vs' \<subseteq> L' \<and> L' - ran vs' = L - ran vs"
  using assms
proof (induction cs arbitrary: vs s L)
  case (Cons c cs)
  note IH = Cons.IH and pre = Cons.prems
  show ?case
  proof (cases c)
    case (Get v r)
    show ?thesis
    proof (cases "v \<in> dom vs")
      case True
      then show ?thesis using IH [OF pre] Get by simp
    next
      case False
      obtain b s' where a: "alloc r s = Some (b, s')"
        "case b of None \<Rightarrow> live s' L | Some x \<Rightarrow> x \<notin> L \<and> live s' (insert x L)"
        using alloc_live [OF pre(1)] by blast
      show ?thesis
      proof (cases b)
        case None
        then have "vs(v := b) = vs" using False by auto
        then show ?thesis using IH [of s' L vs] pre(2,3) a None False Get by simp
      next
        case (Some x)
        then have x: "x \<notin> L" "live s' (insert x L)" using a by auto
        have i: "inj_on (vs(v := b)) (dom (vs(v := b)))"
          using pre(2,3) x(1) Some by (auto simp: inj_on_def ran_def)
        have r: "ran (vs(v := b)) = insert x (ran vs)" using False Some by auto
        then have "ran (vs(v := b)) \<subseteq> insert x L" using pre(3) by auto
        from IH [OF x(2) i this] obtain vs' s'' L' where "run_cmds alloc dealloc cs (vs(v := b), s') = Some (vs', s'')"
          "live s'' L'" "inj_on vs' (dom vs')" "ran vs' \<subseteq> L'" "L' - ran vs' = insert x L - insert x (ran vs)"
          unfolding r by blast
        moreover have "insert x L - insert x (ran vs) = L - ran vs" using x(1) pre(3) by auto
        ultimately show ?thesis using a(1) False Get by auto
      qed
    qed
  next
    case (Put v)
    show ?thesis
    proof (cases "vs v")
      case None
      then show ?thesis using IH [OF pre] Put by simp
    next
      case (Some b)
      then have b: "b \<in> ran vs" "b \<in> L" using pre(3) by (auto simp: ran_def)
      obtain s' where d: "dealloc b s = Some s'" "live s' (L - {b})"
        using dealloc_live [OF pre(1) b(2)] by blast
      have inj: "inj_on (vs(v := None)) (dom (vs(v := None)))"
        using pre(2) by (auto simp: inj_on_def)
      have r: "ran (vs(v := None)) = ran vs - {b}"
        using pre(2) Some by (auto simp: ran_def inj_on_def dom_def) (metis option.inject)
      have "ran (vs(v := None)) \<subseteq> L - {b}" using r pre(3) by auto
      from IH [OF d(2) inj this] obtain vs' s'' L' where "run_cmds alloc dealloc cs (vs(v := None), s') = Some (vs', s'')"
        "live s'' L'" "inj_on vs' (dom vs')" "ran vs' \<subseteq> L'" "L' - ran vs' = L - {b} - (ran vs - {b})"
        unfolding r by blast
      moreover have "L - {b} - (ran vs - {b}) = L - ran vs" using b by auto
      ultimately show ?thesis using d(1) Some Put by auto
    qed
  qed
qed auto

end

end
