(* ===== verification/Heap_Refine.thy ===== *)
theory Heap_Refine
  imports Mem_Heap Alloc_Spec
begin

text \<open>
  The correctness of the lwIP heap of \<open>Mem_Heap\<close>: the abstract view of the heap as a list of
  blocks, the refinement of every operation to its abstract counterpart (first fit, release with
  coalescing, shrinking), the contract of \<open>Alloc_Spec\<close>, and the module's properties.
\<close>

subsection \<open>The abstract view: a list of blocks\<close>

text \<open>
  What the module promises is about a partition of the heap into blocks (offset, size with the
  header, used?). \<open>seg r p a l\<close>: the headers of \<open>r\<close> from index \<open>a\<close> on, with previous block
  \<open>p\<close>, are exactly the blocks \<open>l\<close>. \<open>heap_rep h l\<close>: the heap \<open>h\<close> represents the
  partition \<open>l\<close>; this is the module's invariant: doubly linked, aligned, no two free
  neighbours, \<open>lfree\<close> the lowest free block, the \<open>used\<close> counter exact.
\<close>

type_synonym blk = "nat \<times> nat \<times> bool"

fun seg :: "(nat \<rightharpoonup> mem_hdr) \<Rightarrow> nat \<Rightarrow> nat \<Rightarrow> blk list \<Rightarrow> bool" where
  "seg r p a [] = True"
| "seg r p a ((b, n, u) # l) =
     (b = a \<and> r b = Some \<lparr>mem_next = b + n, mem_prev = p, mem_used = u\<rparr> \<and>
      20 \<le> n \<and> 4 dvd n \<and> seg r b (b + n) l)"

definition span_size :: "blk list \<Rightarrow> nat" where
  "span_size l = sum_list (map (\<lambda>(b, n, u). n) l)"

fun endp :: "nat \<Rightarrow> blk list \<Rightarrow> nat" where
  "endp p [] = p"
| "endp p ((b, n, u) # l) = endp b l"

fun alternating :: "blk list \<Rightarrow> bool" where
  "alternating ((b, n, u) # (c, m, v) # l) = ((u \<or> v) \<and> alternating ((c, m, v) # l))"
| "alternating _ = True"

fun first_free :: "blk list \<Rightarrow> nat" where
  "first_free [] = MEM_SIZE_ALIGNED"
| "first_free ((b, n, u) # l) = (if u then first_free l else b)"

definition used_bytes :: "blk list \<Rightarrow> nat" where
  "used_bytes l = sum_list (map (\<lambda>(b, n, u). if u then n else 0) l)"

definition end_hdr :: mem_hdr where
  "end_hdr = \<lparr>mem_next = MEM_SIZE_ALIGNED, mem_prev = MEM_SIZE_ALIGNED, mem_used = True\<rparr>"

definition heap_rep :: "mheap \<Rightarrow> blk list \<Rightarrow> bool" where
  "heap_rep h l \<longleftrightarrow> seg (ram h) 0 0 l \<and> span_size l = MEM_SIZE_ALIGNED \<and>
     ram h MEM_SIZE_ALIGNED = Some end_hdr \<and> alternating l \<and>
     lfree h = first_free l \<and> st_used h = used_bytes l"

text \<open>The abstract operations: first fit, and release with coalescing.\<close>

fun find_fit :: "nat \<Rightarrow> blk list \<Rightarrow> nat option" where
  "find_fit s [] = None"
| "find_fit s ((b, n, u) # l) = (if \<not> u \<and> s + 8 \<le> n then Some b else find_fit s l)"

fun occupy :: "nat \<Rightarrow> nat \<Rightarrow> blk list \<Rightarrow> blk list" where
  "occupy s c [] = []"
| "occupy s c ((b, n, u) # l) =
     (if b = c then
        (if s + 28 \<le> n then (b, s + 8, True) # (b + s + 8, n - (s + 8), False) # l
         else (b, n, True) # l)
      else (b, n, u) # occupy s c l)"

fun absorb :: "nat \<Rightarrow> nat \<Rightarrow> blk list \<Rightarrow> blk list" where
  "absorb b n ((c, m, False) # l) = (b, n + m, False) # l"
| "absorb b n l = (b, n, False) # l"

fun coalesce :: "blk list \<Rightarrow> blk list" where
  "coalesce [] = []"
| "coalesce ((b, n, u) # l) = (if u then (b, n, True) # coalesce l else absorb b n (coalesce l))"

definition release :: "nat \<Rightarrow> blk list \<Rightarrow> blk list" where
  "release c l = coalesce (map (\<lambda>(b, n, u). if b = c then (b, n, False) else (b, n, u)) l)"

lemma span_size_simps [simp]:
  "span_size [] = 0" "span_size ((b, n, u) # l) = n + span_size l" "span_size (xs @ ys) = span_size xs + span_size ys"
  by (simp_all add: span_size_def)

lemma used_bytes_simps [simp]:
  "used_bytes [] = 0" "used_bytes ((b, n, u) # l) = (if u then n else 0) + used_bytes l"
  "used_bytes (xs @ ys) = used_bytes xs + used_bytes ys"
  by (simp_all add: used_bytes_def)

lemma endp_append [simp]: "endp p (xs @ (b, n, u) # ys) = endp b ys"
  by (induction p xs rule: endp.induct) auto

lemma seg_append:
  "seg r p a (xs @ ys) = (seg r p a xs \<and> seg r (endp p xs) (a + span_size xs) ys)"
  by (induction r p a xs rule: seg.induct) (auto simp: add.assoc)

lemma seg_bounds:
  "seg r p a l \<Longrightarrow> (c, m, v) \<in> set l \<Longrightarrow> a \<le> c \<and> c + m \<le> a + span_size l \<and> 20 \<le> m"
  by (induction r p a l rule: seg.induct) auto

lemma seg_offset_lt: "seg r p a l \<Longrightarrow> c \<in> fst ` set l \<Longrightarrow> a \<le> c \<and> c + 20 \<le> a + span_size l"
  by (fastforce dest: seg_bounds)

lemma seg_cong:
  "(\<And>i. a \<le> i \<Longrightarrow> i < a + span_size l \<Longrightarrow> r' i = r i) \<Longrightarrow> seg r p a l \<Longrightarrow> seg r' p a l"
proof (induction r p a l rule: seg.induct)
  case (2 r p a b n u l)
  have "r' b = r b" using 2 by auto
  moreover have "seg r' b (b + n) l" using 2 by (auto simp: add.assoc)
  ultimately show ?case using 2 by auto
qed simp

lemma seg_aligned: "seg r p a l \<Longrightarrow> 4 dvd a \<Longrightarrow> (b, n, u) \<in> set l \<Longrightarrow> 4 dvd b"
  by (induction r p a l rule: seg.induct) auto

lemma alternating_Cons:
  "alternating ((b, n, u) # ys) \<longleftrightarrow> alternating ys \<and> (ys = [] \<or> u \<or> snd (snd (hd ys)))"
  by (cases ys) auto

lemma alternating_append:
  "alternating (xs @ ys) \<longleftrightarrow> alternating xs \<and> alternating ys \<and>
     (xs = [] \<or> ys = [] \<or> snd (snd (last xs)) \<or> snd (snd (hd ys)))"
proof (induction xs)
  case (Cons x xs)
  then show ?case
    by (cases x; cases xs) (auto simp: alternating_Cons simp del: alternating.simps(1))
qed simp

lemmas alternating_simps = alternating_append alternating_Cons

lemma absorb_used: "ys = [] \<or> snd (snd (hd ys)) \<Longrightarrow> absorb c n ys = (c, n, False) # ys"
  by (cases "(c, n, ys)" rule: absorb.cases) auto

lemma coalesce_alternating [simp]: "alternating l \<Longrightarrow> coalesce l = l"
proof (induction l)
  case (Cons x l)
  then show ?case
    by (cases x) (auto simp: alternating_Cons absorb_used simp del: alternating.simps(1))
qed simp

definition relink :: "nat \<Rightarrow> nat \<Rightarrow> (nat \<rightharpoonup> mem_hdr) \<Rightarrow> (nat \<rightharpoonup> mem_hdr)" where
  "relink n p r = (if n = MEM_SIZE_ALIGNED then r
     else case r n of None \<Rightarrow> r | Some b \<Rightarrow> r(n \<mapsto> b\<lparr>mem_prev := p\<rparr>))"

lemma relink_other: "i \<noteq> n \<Longrightarrow> relink n p r i = r i"
  by (simp add: relink_def split: option.split)

lemma relink_end: "relink n p r MEM_SIZE_ALIGNED = r MEM_SIZE_ALIGNED"
  by (simp add: relink_def split: option.split)

lemma link_prev_seg:
  assumes "seg (ram h) q c l" "c + span_size l = MEM_SIZE_ALIGNED"
  shows "link_prev c p h = Some (h\<lparr>ram := relink c p (ram h)\<rparr>)"
  using assms by (cases l) (auto simp: link_prev_def relink_def set_hdr_def)

lemma seg_relink:
  assumes "seg r q c l" "c + span_size l = MEM_SIZE_ALIGNED"
  shows "seg (relink c p r) p c l"
proof (cases l)
  case (Cons x l')
  obtain b n u where x: "x = (b, n, u)" by (cases x)
  have s: "b = c" "r c = Some \<lparr>mem_next = c + n, mem_prev = q, mem_used = u\<rparr>" "20 \<le> n" "4 dvd n"
    "seg r c (c + n) l'" "c \<noteq> MEM_SIZE_ALIGNED"
    using assms Cons x by auto
  have "seg (relink c p r) c (c + n) l'"
    by (rule seg_cong [OF _ s(5)]) (use s(3) in \<open>simp add: relink_other\<close>)
  moreover have "relink c p r c = Some \<lparr>mem_next = c + n, mem_prev = p, mem_used = u\<rparr>"
    using s by (simp add: relink_def)
  ultimately show ?thesis using s Cons x by simp
qed simp

lemma seg_relink_before:
  "seg r q a l \<Longrightarrow> a + span_size l \<le> c \<Longrightarrow> seg (relink c p r) q a l"
  by (rule seg_cong) (auto simp: relink_other)

lemma find_fit_None:
  "find_fit s l = None \<longleftrightarrow> (\<forall>b n u. (b, n, u) \<in> set l \<longrightarrow> u \<or> n < s + 8)"
  by (induction s l rule: find_fit.induct) (auto, metis)

lemma scan_fit_seg:
  assumes "seg (ram h) p a l" "a + span_size l = MEM_SIZE_ALIGNED" "s \<le> MEM_SIZE_ALIGNED"
  shows "scan_fit s h a = Some (find_fit s l)"
  using assms(1,2)
proof (induction l arbitrary: p a)
  case Nil
  then show ?case by (subst scan_fit.simps) auto
next
  case (Cons x l)
  obtain b n u where x: "x = (b, n, u)" by (cases x)
  show ?case
  proof (cases "a < MEM_SIZE_ALIGNED - s")
    case True
    have "seg (ram h) b (b + n) l" "b + n + span_size l = MEM_SIZE_ALIGNED"
      using Cons.prems x by auto
    then have "scan_fit s h (b + n) = Some (find_fit s l)"
      by (rule Cons.IH)
    moreover have "b = a" "ram h a = Some \<lparr>mem_next = a + n, mem_prev = p, mem_used = u\<rparr>" "20 \<le> n"
      using Cons.prems x by auto
    ultimately show ?thesis
      using x True by (subst scan_fit.simps) auto
  next
    case False
    have "m < s + 8" if "(c, m, v) \<in> set (x # l)" for c m v
      using seg_bounds [OF Cons.prems(1) that] Cons.prems(2) False by linarith
    then have "find_fit s (x # l) = None"
      unfolding find_fit_None by blast
    with False show ?thesis by (subst scan_fit.simps) simp
  qed
qed

lemma next_free_seg:
  assumes "seg (ram h) p a l" "a + span_size l = MEM_SIZE_ALIGNED"
    "ram h MEM_SIZE_ALIGNED = Some end_hdr"
  shows "next_free h a = Some (first_free l)"
  using assms(1,2)
proof (induction l arbitrary: p a)
  case Nil
  then show ?case using assms(3) by (subst next_free.simps) (simp add: end_hdr_def)
next
  case (Cons x l)
  obtain b n u where x: "x = (b, n, u)" by (cases x)
  have s: "seg (ram h) b (b + n) l" "b + n + span_size l = MEM_SIZE_ALIGNED" "b = a"
    "ram h a = Some \<lparr>mem_next = a + n, mem_prev = p, mem_used = u\<rparr>" "20 \<le> n"
    using Cons.prems x by auto
  from s(1,2) have "next_free h (b + n) = Some (first_free l)" by (rule Cons.IH)
  with s x show ?case by (subst next_free.simps) auto
qed

lemma find_fit_Some:
  "find_fit s l = Some c \<Longrightarrow> \<exists>xs n ys. l = xs @ (c, n, False) # ys \<and> s + 8 \<le> n"
proof (induction s l rule: find_fit.induct)
  case (2 s b n u l)
  show ?case
  proof (cases "\<not> u \<and> s + 8 \<le> n")
    case True
    then have "(b, n, u) # l = [] @ (c, n, False) # l" using 2 by auto
    with True show ?thesis by blast
  next
    case False
    then obtain xs m ys where "l = xs @ (c, m, False) # ys" "s + 8 \<le> m" using 2 by auto
    then have "(b, n, u) # l = ((b, n, u) # xs) @ (c, m, False) # ys" by simp
    with \<open>s + 8 \<le> m\<close> show ?thesis by blast
  qed
qed simp

lemma occupy_append:
  "c \<notin> fst ` set xs \<Longrightarrow> occupy s c (xs @ ys) = xs @ occupy s c ys"
  by (induction s c xs rule: occupy.induct) auto

lemma first_free_append:
  "first_free (xs @ ys) =
     (if list_all (\<lambda>(b, n, u). u) xs then first_free ys else first_free xs)"
  by (induction xs rule: first_free.induct) auto

lemma first_free_in: "\<not> list_all (\<lambda>(b, n, u). u) xs \<Longrightarrow> first_free xs \<in> fst ` set xs"
  by (induction xs rule: first_free.induct) (auto split: if_splits)

lemma seg_before_neq:
  assumes "seg r p a (xs @ (c, n, u) # ys)"
  shows "c \<notin> fst ` set xs" "c \<notin> fst ` set ys" "c = a + span_size xs"
proof -
  have s: "seg r p a xs" "c = a + span_size xs" "seg r c (c + n) ys" "20 \<le> n"
    using assms by (auto simp: seg_append)
  show "c \<notin> fst ` set xs" using seg_offset_lt [OF s(1)] s(2) by force
  show "c \<notin> fst ` set ys" using seg_offset_lt [OF s(3)] s(4) by force
  show "c = a + span_size xs" by (rule s(2))
qed

definition rep_core :: "(nat \<rightharpoonup> mem_hdr) \<Rightarrow> blk list \<Rightarrow> bool" where
  "rep_core r l \<longleftrightarrow> seg r 0 0 l \<and> span_size l = MEM_SIZE_ALIGNED \<and>
     r MEM_SIZE_ALIGNED = Some end_hdr"

lemma heap_rep_core:
  "heap_rep h l \<longleftrightarrow> rep_core (ram h) l \<and> alternating l \<and> lfree h = first_free l \<and>
     st_used h = used_bytes l"
  by (auto simp: heap_rep_def rep_core_def)

text \<open>Replacing a middle block: the headers outside stay as they are, the next block is relinked.\<close>

lemma rep_core_mark:
  assumes "rep_core r (xs @ (c, n, u) # ys)"
  shows "rep_core (r(c \<mapsto> \<lparr>mem_next = c + n, mem_prev = endp 0 xs, mem_used = v\<rparr>))
           (xs @ (c, n, v) # ys)"
proof -
  have s: "seg r 0 0 xs" "c = span_size xs" "seg r c (c + n) ys" "20 \<le> n" "4 dvd n"
    "c + n + span_size ys = MEM_SIZE_ALIGNED" "r MEM_SIZE_ALIGNED = Some end_hdr"
    using assms by (auto simp: rep_core_def seg_append)
  let ?r = "r(c \<mapsto> \<lparr>mem_next = c + n, mem_prev = endp 0 xs, mem_used = v\<rparr>)"
  have "seg ?r 0 0 xs" using s(1,2) by (intro seg_cong [OF _ s(1)]) auto
  moreover have "seg ?r c (c + n) ys" using s(3,4) by (intro seg_cong [OF _ s(3)]) auto
  ultimately show ?thesis using s by (auto simp: rep_core_def seg_append)
qed

lemma rep_core_split:
  assumes "rep_core r (xs @ (c, n, u) # ys)" "k + 20 \<le> n" "20 \<le> k" "4 dvd k"
  shows "rep_core (relink (c + n) (c + k)
            (r(c + k \<mapsto> \<lparr>mem_next = c + n, mem_prev = c, mem_used = w\<rparr>,
               c \<mapsto> \<lparr>mem_next = c + k, mem_prev = endp 0 xs, mem_used = v\<rparr>)))
           (xs @ (c, k, v) # (c + k, n - k, w) # ys)"
proof -
  have s: "seg r 0 0 xs" "c = span_size xs" "seg r c (c + n) ys" "20 \<le> n" "4 dvd n"
    "c + n + span_size ys = MEM_SIZE_ALIGNED" "r MEM_SIZE_ALIGNED = Some end_hdr"
    using assms by (auto simp: rep_core_def seg_append)
  let ?r1 = "r(c + k \<mapsto> \<lparr>mem_next = c + n, mem_prev = c, mem_used = w\<rparr>,
               c \<mapsto> \<lparr>mem_next = c + k, mem_prev = endp 0 xs, mem_used = v\<rparr>)"
  let ?r = "relink (c + n) (c + k) ?r1"
  have "seg ?r1 0 0 xs" using s(1,2) by (intro seg_cong [OF _ s(1)]) auto
  then have "seg ?r 0 0 xs" using s(2) by (intro seg_relink_before) auto
  moreover have "seg ?r1 c (c + n) ys"
    using s(3) assms(2,3) by (intro seg_cong [OF _ s(3)]) auto
  then have "seg ?r (c + k) (c + n) ys" using s(6) by (rule seg_relink)
  moreover have "?r c = ?r1 c" "?r (c + k) = ?r1 (c + k)"
    using assms(2,3) by (simp_all add: relink_other)
  moreover have "?r MEM_SIZE_ALIGNED = Some end_hdr"
    using s assms(2,3) by (simp add: relink_end)
  moreover have "4 dvd n - k" using s(5) assms(4) by simp
  ultimately show ?thesis using s assms(2,3,4) by (auto simp: rep_core_def seg_append)
qed

lemma rep_core_join:
  assumes "rep_core r (xs @ (c, n, u) # (c + n, m, w) # ys)"
  shows "rep_core (relink (c + (n + m)) c
            (r(c \<mapsto> \<lparr>mem_next = c + (n + m), mem_prev = endp 0 xs, mem_used = v\<rparr>)))
           (xs @ (c, n + m, v) # ys)"
proof -
  have s: "seg r 0 0 xs" "c = span_size xs" "seg r (c + n) (c + (n + m)) ys" "20 \<le> n" "4 dvd n"
    "20 \<le> m" "4 dvd m" "c + (n + m) + span_size ys = MEM_SIZE_ALIGNED"
    "r MEM_SIZE_ALIGNED = Some end_hdr"
    using assms by (auto simp: rep_core_def seg_append add.assoc)
  let ?r1 = "r(c \<mapsto> \<lparr>mem_next = c + (n + m), mem_prev = endp 0 xs, mem_used = v\<rparr>)"
  let ?r = "relink (c + (n + m)) c ?r1"
  have "seg ?r1 0 0 xs" using s(1,2) by (intro seg_cong [OF _ s(1)]) auto
  then have "seg ?r 0 0 xs" using s(2) by (intro seg_relink_before) auto
  moreover have "seg ?r1 (c + n) (c + (n + m)) ys"
    using s(3,4) by (intro seg_cong [OF _ s(3)]) auto
  then have "seg ?r c (c + (n + m)) ys" using s(8) by (rule seg_relink)
  moreover have "?r c = ?r1 c" using s(4) by (simp add: relink_other)
  moreover have "?r MEM_SIZE_ALIGNED = Some end_hdr"
    using s by (simp add: relink_end)
  moreover have "4 dvd n + m" "20 \<le> n + m" using s by simp_all
  ultimately show ?thesis using s(2,8) by (simp add: rep_core_def seg_append)
qed

subsection \<open>Allocation refines first fit\<close>


definition norm_size :: "nat \<Rightarrow> nat" where
  "norm_size n = (let sz = align_size n mod 65536 in if sz < MIN_SIZE_ALIGNED then MIN_SIZE_ALIGNED else sz)"

definition alloc_spec :: "nat \<Rightarrow> blk list \<Rightarrow> nat option \<times> blk list" where
  "alloc_spec n l =
     (if n = 0 \<or> norm_size n > MEM_SIZE_ALIGNED \<or> norm_size n < n then (None, l)
      else case find_fit (norm_size n) l of
             None \<Rightarrow> (None, l)
           | Some c \<Rightarrow> (Some (c + 8), occupy (norm_size n) c l))"

lemma norm_size_props: "12 \<le> norm_size n" "4 dvd norm_size n"
proof -
  have "4 dvd align_size n mod 65536" by (simp add: dvd_mod)
  then show "12 \<le> norm_size n" "4 dvd norm_size n" by (auto simp: norm_size_def Let_def)
qed

lemma take_block_rep:
  assumes "rep_core (ram h) (xs @ (c, n, False) # ys)" "s + 8 \<le> n" "12 \<le> s" "4 dvd s"
  shows "\<exists>h'. take_block s c h = Some h' \<and>
     rep_core (ram h') (xs @ occupy s c ((c, n, False) # ys)) \<and> lfree h' = lfree h \<and>
     st_used h' = st_used h + used_bytes (occupy s c ((c, n, False) # ys)) - used_bytes ys"
proof -
  have hdr: "ram h c = Some \<lparr>mem_next = c + n, mem_prev = endp 0 xs, mem_used = False\<rparr>"
    and seg: "seg (ram h) c (c + n) ys" and tot: "c + n + span_size ys = MEM_SIZE_ALIGNED"
    and n: "20 \<le> n" "c + n \<le> MEM_SIZE_ALIGNED"
    using assms(1) by (auto simp: rep_core_def seg_append)
  show ?thesis
  proof (cases "s + 28 \<le> n")
    case True
    let ?r = "(ram h)(c + (s + 8) \<mapsto> \<lparr>mem_next = c + n, mem_prev = c, mem_used = False\<rparr>,
               c \<mapsto> \<lparr>mem_next = c + (s + 8), mem_prev = endp 0 xs, mem_used = True\<rparr>)"
    have core: "rep_core (relink (c + n) (c + (s + 8)) ?r)
        (xs @ (c, s + 8, True) # (c + (s + 8), n - (s + 8), False) # ys)"
      using assms True by (intro rep_core_split) auto
    have "seg ?r c (c + n) ys" using True by (intro seg_cong [OF _ seg]) auto
    then have "link_prev (c + n) (c + (s + 8)) (h\<lparr>ram := ?r\<rparr>) =
        Some (h\<lparr>ram := relink (c + n) (c + (s + 8)) ?r\<rparr>)"
      using tot by (subst link_prev_seg) auto
    moreover have "(c + (s + 8)) mod 65536 = c + (s + 8)" "c + (s + 8) \<noteq> MEM_SIZE_ALIGNED"
      using True n by auto
    moreover have e: "c + 8 + s = c + (s + 8)" "c + s + 8 = c + (s + 8)" by simp_all
    moreover have "s + 20 \<le> n - 8" "n - 8 \<ge> s"
      using True by simp_all
    ultimately show ?thesis using core True hdr n
      by (simp add: take_block_def set_hdr_def Let_def e)
  next
    case False
    have "rep_core ((ram h)(c \<mapsto> \<lparr>mem_next = c + n, mem_prev = endp 0 xs, mem_used = True\<rparr>))
        (xs @ (c, n, True) # ys)"
      using assms(1) by (rule rep_core_mark)
    moreover have "\<not> 20 + s \<le> n - 8" using False by simp
    ultimately show ?thesis using hdr False assms(2)
      by (simp add: take_block_def set_hdr_def Let_def)
  qed
qed

lemma alternating_occupy:
  assumes "alternating (xs @ (c, n, False) # ys)"
  shows "alternating (xs @ occupy s c ((c, n, False) # ys))"
  using assms by (auto simp: alternating_simps simp del: alternating.simps)

lemma first_free_all: "list_all (\<lambda>(b, n, u). u) l \<Longrightarrow> first_free l = MEM_SIZE_ALIGNED"
  by (induction l rule: first_free.induct) auto

lemma scan_from_lfree:
  assumes "heap_rep h l" "s \<le> MEM_SIZE_ALIGNED"
  shows "scan_fit s h (lfree h) = Some (find_fit s l)"
proof -
  have split: "\<exists>xs ys. l = xs @ ys \<and> list_all (\<lambda>(b, n, u). u) xs \<and>
      (ys = [] \<or> (\<exists>n zs. ys = (first_free l, n, False) # zs))" for l
  proof (induction l)
    case (Cons x l)
    obtain b n u where x: "x = (b, n, u)" by (cases x)
    show ?case
    proof (cases u)
      case True
      from Cons obtain xs ys where "l = xs @ ys" "list_all (\<lambda>(b, n, u). u) xs"
        "ys = [] \<or> (\<exists>n zs. ys = (first_free l, n, False) # zs)" by blast
      then show ?thesis using x True by (intro exI [of _ "x # xs"] exI [of _ ys]) auto
    next
      case False
      then show ?thesis using x by (intro exI [of _ "[]"] exI [of _ "x # l"]) auto
    qed
  qed simp
  obtain xs ys where l: "l = xs @ ys" "list_all (\<lambda>(b, n, u). u) xs"
    and ys: "ys = [] \<or> (\<exists>n zs. ys = (first_free l, n, False) # zs)" using split by blast
  have "find_fit s (xs @ ys) = find_fit s ys"
    using l(2) by (induction xs) auto
  moreover have "lfree h = span_size xs"
  proof (cases "ys = []")
    case True
    then show ?thesis using assms(1) l by (auto simp: heap_rep_def first_free_all)
  next
    case False
    then obtain n zs where ys': "ys = (first_free l, n, False) # zs" using ys by blast
    have "seg (ram h) (endp 0 xs) (span_size xs) ys" "lfree h = first_free l"
      using assms(1) l by (auto simp: heap_rep_def seg_append)
    then show ?thesis unfolding ys' by simp
  qed
  moreover have "seg (ram h) (endp 0 xs) (span_size xs) ys"
    "span_size xs + span_size ys = MEM_SIZE_ALIGNED"
    using assms(1) l by (auto simp: heap_rep_def seg_append)
  ultimately show ?thesis using scan_fit_seg [OF _ _ assms(2)] l(1) by auto
qed

lemma malloc_found:
  assumes "heap_rep h l" "l = xs @ (c, m, False) # ys" "s + 8 \<le> m" "12 \<le> s" "4 dvd s"
  shows "\<exists>h1 h2. take_block s c h = Some h1 \<and>
     (if c = lfree h1 then do { cur \<leftarrow> next_free h1 (lfree h1); Some (h1\<lparr>lfree := cur\<rparr>) }
      else Some h1) = Some h2 \<and>
     c + SIZEOF_STRUCT_MEM + s \<le> MEM_SIZE_ALIGNED \<and> (c + SIZEOF_STRUCT_MEM) mod 4 = 0 \<and>
     heap_rep h2 (occupy s c l)"
proof -
  have rep: "rep_core (ram h) l" "alternating l" "lfree h = first_free l" "st_used h = used_bytes l"
    using assms(1) by (auto simp: heap_rep_core)
  note nb = seg_before_neq [OF rep(1) [unfolded rep_core_def assms(2), THEN conjunct1]]
  let ?l = "xs @ occupy s c ((c, m, False) # ys)"
  have occ: "occupy s c l = ?l" using nb(1) by (simp add: assms(2) occupy_append)
  obtain h1 where h1: "take_block s c h = Some h1" "rep_core (ram h1) ?l" "lfree h1 = lfree h"
    "st_used h1 = st_used h + used_bytes (occupy s c ((c, m, False) # ys)) - used_bytes ys"
    using take_block_rep [OF rep(1) [unfolded assms(2)] assms(3-5)] by blast
  have alt: "alternating ?l" using rep(2) assms(2) by (simp only: alternating_occupy)
  have used: "st_used h1 = used_bytes ?l" using h1(4) rep(4) assms(2) by simp
  have bound: "c + 8 + s \<le> MEM_SIZE_ALIGNED" "4 dvd c"
  proof -
    have "seg (ram h) 0 0 l" "span_size l = MEM_SIZE_ALIGNED" using rep(1) by (auto simp: rep_core_def)
    then show "c + 8 + s \<le> MEM_SIZE_ALIGNED" "4 dvd c"
      using seg_bounds [of "ram h" 0 0 l c m False] seg_aligned [of "ram h" 0 0 l c m False] assms(2,3)
      by auto
  qed
  show ?thesis
  proof (cases "c = lfree h1")
    case True
    then have all: "list_all (\<lambda>(b, n, u). u) xs"
      using h1(3) rep(3) assms(2) nb(1) first_free_in [of xs] by (auto simp: first_free_append split: if_splits)
    have "seg (ram h1) (endp 0 xs) c (occupy s c ((c, m, False) # ys))"
      "c + span_size (occupy s c ((c, m, False) # ys)) = MEM_SIZE_ALIGNED"
      "ram h1 MEM_SIZE_ALIGNED = Some end_hdr"
      using h1(2) nb(3) by (auto simp: rep_core_def seg_append)
    then have "next_free h1 c = Some (first_free (occupy s c ((c, m, False) # ys)))"
      by (rule next_free_seg)
    then show ?thesis using True h1 alt used bound all occ
      by (auto simp: heap_rep_core first_free_append mod_eq_0_iff_dvd)
  next
    case False
    then have "\<not> list_all (\<lambda>(b, n, u). u) xs"
      using h1(3) rep(3) assms(2) by (auto simp: first_free_append split: if_splits)
    then show ?thesis using False h1 alt used bound occ rep(3) assms(2)
      by (auto simp: heap_rep_core first_free_append mod_eq_0_iff_dvd)
  qed
qed

lemma mem_malloc_eq:
  "mem_malloc n h =
     (if n = 0 \<or> norm_size n > MEM_SIZE_ALIGNED \<or> norm_size n < n then Some (None, h)
      else do {
      found \<leftarrow> scan_fit (norm_size n) h (lfree h);
      case found of
        None \<Rightarrow> Some (None, h\<lparr>st_err := st_err h + 1\<rparr>)
      | Some ptr \<Rightarrow> do {
          h1 \<leftarrow> take_block (norm_size n) ptr h;
          h2 \<leftarrow> (if ptr = lfree h1
                 then do { cur \<leftarrow> next_free h1 (lfree h1); Some (h1\<lparr>lfree := cur\<rparr>) }
                 else Some h1);
          require (ptr + SIZEOF_STRUCT_MEM + norm_size n \<le> MEM_SIZE_ALIGNED);
          require ((ptr + SIZEOF_STRUCT_MEM) mod 4 = 0);
          Some (Some (ptr + SIZEOF_STRUCT_MEM), h2) } })"
  unfolding mem_malloc_def norm_size_def Let_def by (cases "n = 0") simp_all

lemma mem_malloc_rep:
  assumes "heap_rep h l"
  shows "\<exists>h'. mem_malloc n h = Some (fst (alloc_spec n l), h') \<and> heap_rep h' (snd (alloc_spec n l))"
proof (cases "n = 0 \<or> norm_size n > MEM_SIZE_ALIGNED \<or> norm_size n < n")
  case True
  with assms show ?thesis by (auto simp: mem_malloc_eq alloc_spec_def)
next
  case False
  define s where "s = norm_size n"
  have s: "s \<le> MEM_SIZE_ALIGNED" "12 \<le> s" "4 dvd s"
    using False norm_size_props [of n] by (auto simp: s_def)
  note mm = mem_malloc_eq [of n h, unfolded if_not_P [OF False], folded s_def]
  have scan: "scan_fit s h (lfree h) = Some (find_fit s l)"
    using assms s(1) by (rule scan_from_lfree)
  show ?thesis
  proof (cases "find_fit s l")
    case None
    then show ?thesis using False scan mm assms
      by (auto simp: alloc_spec_def heap_rep_def simp flip: s_def)
  next
    case (Some c)
    then obtain xs m ys where l: "l = xs @ (c, m, False) # ys" and m: "s + 8 \<le> m"
      using find_fit_Some by blast
    obtain h2 where "mem_malloc n h = Some (Some (c + 8), h2)"
      and "heap_rep h2 (occupy s c l)"
      using malloc_found [OF assms l m s(2,3)] mm scan Some by auto
    then show ?thesis using False Some
      by (auto simp: alloc_spec_def simp flip: s_def)
  qed
qed

subsection \<open>Freeing refines release with coalescing\<close>


lemma used_bytes_absorb [simp]: "used_bytes (absorb b n l) = used_bytes l"
  by (induction b n l rule: absorb.induct) auto

lemma used_bytes_coalesce [simp]: "used_bytes (coalesce l) = used_bytes l"
  by (induction l rule: coalesce.induct) auto

lemma coalesce_append:
  assumes "alternating xs" "xs = [] \<or> snd (snd (last xs))"
  shows "coalesce (xs @ zs) = xs @ coalesce zs"
  using assms
proof (induction xs)
  case (Cons x xs)
  then show ?case
    by (cases x; cases xs) (auto simp: alternating_Cons absorb_used simp del: alternating.simps(1))
qed simp

lemma plug_next_rep:
  assumes "rep_core (ram h) (xs @ (c, n, False) # ys)" "lfree h \<noteq> c + n"
  shows "\<exists>h'. plug_next c h = Some h' \<and> rep_core (ram h') (xs @ absorb c n ys) \<and>
     lfree h' = lfree h \<and> st_used h' = st_used h"
proof -
  have s: "ram h c = Some \<lparr>mem_next = c + n, mem_prev = endp 0 xs, mem_used = False\<rparr>"
    "seg (ram h) c (c + n) ys" "c + n + span_size ys = MEM_SIZE_ALIGNED" "20 \<le> n"
    "ram h MEM_SIZE_ALIGNED = Some end_hdr"
    using assms(1) by (auto simp: rep_core_def seg_append)
  show ?thesis
  proof (cases "ys = [] \<or> snd (snd (hd ys))")
    case True
    obtain nb where "ram h (c + n) = Some nb" "mem_used nb"
      using s True by (cases ys) (auto simp: end_hdr_def)
    then have "plug_next c h = Some h"
      using s(1) by (simp add: plug_next_def)
    then show ?thesis using assms(1) True by (auto simp: absorb_used)
  next
    case False
    then obtain m zs where ys: "ys = (c + n, m, False) # zs" using s(2) by (cases ys) auto
    have t: "ram h (c + n) = Some \<lparr>mem_next = c + n + m, mem_prev = c, mem_used = False\<rparr>"
      "seg (ram h) (c + n) (c + n + m) zs" "c + n + m + span_size zs = MEM_SIZE_ALIGNED" "20 \<le> m"
      using s ys by auto
    let ?r = "(ram h)(c \<mapsto> \<lparr>mem_next = c + (n + m), mem_prev = endp 0 xs, mem_used = False\<rparr>)"
    have "rep_core (relink (c + (n + m)) c ?r) (xs @ (c, n + m, False) # zs)"
      using assms(1) unfolding ys by (rule rep_core_join)
    moreover have "seg ?r (c + n) (c + (n + m)) zs"
      using s(4) by (intro seg_cong [OF _ t(2) [unfolded add.assoc]]) auto
    then have "link_prev (c + (n + m)) c (h\<lparr>ram := ?r\<rparr>) = Some (h\<lparr>ram := relink (c + (n + m)) c ?r\<rparr>)"
      using t(3) by (subst link_prev_seg) auto
    moreover have "c + n \<noteq> MEM_SIZE_ALIGNED" "n \<noteq> 0" using t s(4) by auto
    moreover have e: "c + n + m = c + (n + m)" by simp
    ultimately show ?thesis using s(1) t(1) assms(2) ys
      by (simp add: plug_next_def Let_def set_hdr_def e)
  qed
qed

lemma plug_prev_rep:
  assumes "rep_core (ram h) (xs @ (c, n, False) # ys)" "alternating xs"
    "lfree h = first_free (xs @ (c, n, False) # ys)" "ys = [] \<or> snd (snd (hd ys))" "alternating ys"
  shows "\<exists>h'. plug_prev c h = Some h' \<and> rep_core (ram h') (coalesce (xs @ (c, n, False) # ys)) \<and>
     lfree h' = lfree h \<and> st_used h' = st_used h
     \<and> first_free (coalesce (xs @ (c, n, False) # ys)) = first_free (xs @ (c, n, False) # ys)"
proof -
  have s: "ram h c = Some \<lparr>mem_next = c + n, mem_prev = endp 0 xs, mem_used = False\<rparr>"
    "seg (ram h) c (c + n) ys" "c + n + span_size ys = MEM_SIZE_ALIGNED" "20 \<le> n" "seg (ram h) 0 0 xs"
    "c = span_size xs"
    using assms(1) by (auto simp: rep_core_def seg_append)
  have z: "coalesce ((c, n, False) # ys) = (c, n, False) # ys"
    using assms(4,5) by (simp add: absorb_used)
  show ?thesis
  proof (cases "xs = [] \<or> snd (snd (last xs))")
    case True
    have "\<exists>pb. ram h (endp 0 xs) = Some pb \<and> (endp 0 xs = c \<or> mem_used pb)"
    proof (cases xs rule: rev_cases)
      case (snoc xs' x)
      obtain b m u where x: "x = (b, m, u)" by (cases x)
      then show ?thesis using s(5) True snoc by (auto simp: seg_append)
    qed (use s in auto)
    then have "plug_prev c h = Some h"
      using s(1) by (auto simp: plug_prev_def)
    then show ?thesis using assms(1,2) True z by (auto simp: coalesce_append)
  next
    case False
    then obtain xs' b m where xs: "xs = xs' @ [(b, m, False)]"
      by (cases xs rule: rev_cases) auto
    have b: "ram h b = Some \<lparr>mem_next = c, mem_prev = endp 0 xs', mem_used = False\<rparr>" "b + m = c" "20 \<le> m"
      using s(5,6) xs by (auto simp: seg_append)
    have alt: "alternating xs'" "xs' = [] \<or> snd (snd (last xs'))"
      using assms(2) xs by (auto simp: alternating_simps simp del: alternating.simps)
    let ?r = "(ram h)(b \<mapsto> \<lparr>mem_next = b + (m + n), mem_prev = endp 0 xs', mem_used = False\<rparr>)"
    have "rep_core (relink (b + (m + n)) b ?r) (xs' @ (b, m + n, False) # ys)"
      using assms(1) xs b(2) by (intro rep_core_join) auto
    moreover have "coalesce (xs @ (c, n, False) # ys) = xs' @ (b, m + n, False) # ys"
      using coalesce_append [OF alt, of "(b, m, False) # (c, n, False) # ys"] xs z by simp
    moreover have s2: "seg (ram h) c (b + (m + n)) ys" using s(2) b(2) by (simp add: add.assoc [symmetric])
    have "seg ?r c (b + (m + n)) ys"
      using b(2,3) by (intro seg_cong [OF _ s2]) auto
    then have "link_prev (b + (m + n)) b (h\<lparr>ram := ?r\<rparr>) = Some (h\<lparr>ram := relink (b + (m + n)) b ?r\<rparr>)"
      using s(3) b(2) by (subst link_prev_seg) auto
    moreover have "lfree h \<noteq> c"
    proof -
      have "first_free (xs @ (c, n, False) # ys) = first_free xs"
        using xs by (simp add: first_free_append)
      moreover have "first_free xs \<in> fst ` set xs" using xs by (intro first_free_in) simp
      moreover have "c \<notin> fst ` set xs"
        using assms(1) seg_before_neq(1) unfolding rep_core_def by blast
      ultimately show ?thesis using assms(3) by auto
    qed
    moreover have e: "c + n = b + (m + n)" using b(2) by simp
    moreover have "b \<noteq> c" "endp 0 xs = b" using b xs by auto
    ultimately show ?thesis using s(1) b(1) xs
      by (simp add: plug_prev_def Let_def set_hdr_def e first_free_append)
  qed
qed

lemma mem_link_valid_rep:
  assumes "rep_core (ram h) (xs @ (c, n, u) # ys)"
  shows "mem_link_valid c h = Some True"
proof -
  have s: "ram h c = Some \<lparr>mem_next = c + n, mem_prev = endp 0 xs, mem_used = u\<rparr>"
    "seg (ram h) c (c + n) ys" "c + n + span_size ys = MEM_SIZE_ALIGNED" "seg (ram h) 0 0 xs"
    "c = span_size xs" "ram h MEM_SIZE_ALIGNED = Some end_hdr"
    using assms(1) by (auto simp: rep_core_def seg_append)
  have "\<exists>pb. ram h (endp 0 xs) = Some pb \<and> (endp 0 xs = c \<or> mem_next pb = c) \<and> endp 0 xs \<le> c"
  proof (cases xs rule: rev_cases)
    case (snoc xs' x)
    obtain b m v where x: "x = (b, m, v)" by (cases x)
    then show ?thesis using s(4,5) snoc by (auto simp: seg_append)
  qed (use s in auto)
  moreover have "\<exists>nb. ram h (c + n) = Some nb \<and> (c + n = MEM_SIZE_ALIGNED \<or> mem_prev nb = c)"
    using s by (cases ys) auto
  ultimately show ?thesis using s(1,3) by (auto simp: mem_link_valid_def)
qed


lemma absorb_end:
  assumes "alternating ys"
  shows "\<exists>k zs. absorb c n ys = (c, k, False) # zs \<and> alternating zs \<and> (zs = [] \<or> snd (snd (hd zs)))"
proof (cases "ys = [] \<or> snd (snd (hd ys))")
  case True
  then show ?thesis using assms by (simp add: absorb_used)
next
  case False
  then obtain b m l where "ys = (b, m, False) # l" by (cases ys) auto
  then show ?thesis using assms
    by (auto simp: alternating_simps simp del: alternating.simps)
qed

lemma alternating_absorb:
  assumes "alternating xs" "alternating ys"
  shows "alternating (coalesce (xs @ (c, n, False) # ys))"
proof -
  obtain k zs where a: "absorb c n ys = (c, k, False) # zs" "alternating zs" "zs = [] \<or> snd (snd (hd zs))"
    using absorb_end [OF assms(2)] by blast
  show ?thesis
  proof (cases "xs = [] \<or> snd (snd (last xs))")
    case True
    then show ?thesis using assms a
      by (auto simp: coalesce_append alternating_simps simp del: alternating.simps)
  next
    case False
    then obtain xs' b m where xs: "xs = xs' @ [(b, m, False)]"
      by (cases xs rule: rev_cases) auto
    have alt: "alternating xs'" "xs' = [] \<or> snd (snd (last xs'))"
      using assms(1) xs by (auto simp: alternating_simps simp del: alternating.simps)
    show ?thesis
      using coalesce_append [OF alt, of "(b, m, False) # (c, n, False) # ys"] xs assms(2) a alt
      by (auto simp: alternating_simps simp del: alternating.simps)
  qed
qed

lemma coalesce_absorb:
  assumes "alternating ys" "alternating xs" "absorb c n ys = (c, k, False) # zs" 
    "alternating zs" "zs = [] \<or> snd (snd (hd zs))"
  shows "coalesce (xs @ (c, k, False) # zs) = coalesce (xs @ (c, n, False) # ys)"
proof -
  have e: "coalesce ((c, k, False) # zs) = coalesce ((c, n, False) # ys)"
    using assms by (simp add: absorb_used)
  have "coalesce (xs @ us) = coalesce (xs @ vs)" if "coalesce us = coalesce vs" for us vs
    using that by (induction xs rule: coalesce.induct) auto
  then show ?thesis using e by blast
qed

lemma plug_holes_rep:
  assumes "rep_core (ram h) (xs @ (c, n, False) # ys)" "alternating xs" "alternating ys"
    "lfree h = first_free (xs @ (c, n, False) # ys)" "st_used h = used_bytes (xs @ ys)"
  shows "\<exists>h'. plug_holes c h = Some h' \<and> heap_rep h' (coalesce (xs @ (c, n, False) # ys))"
proof -
  have s: "ram h c = Some \<lparr>mem_next = c + n, mem_prev = endp 0 xs, mem_used = False\<rparr>"
    "c + n \<le> MEM_SIZE_ALIGNED" "20 \<le> n"
    using assms(1) by (auto simp: rep_core_def seg_append)
  have le: "lfree h \<le> c"
    using assms(1,4) seg_offset_lt [of "ram h" 0 0 xs] first_free_in [of xs]
    by (force simp: first_free_append rep_core_def seg_append)
  obtain h1 where h1: "plug_next c h = Some h1" "rep_core (ram h1) (xs @ absorb c n ys)"
    "lfree h1 = lfree h" "st_used h1 = st_used h"
    using plug_next_rep [OF assms(1)] le s(3) by fastforce
  obtain k zs where a: "absorb c n ys = (c, k, False) # zs" "alternating zs" "zs = [] \<or> snd (snd (hd zs))"
    using absorb_end [OF assms(3)] by blast
  have ff: "first_free (xs @ (c, k, False) # zs) = first_free (xs @ (c, n, False) # ys)"
    by (simp add: first_free_append)
  note co = coalesce_absorb [OF assms(3,2) a]
  obtain h2 where "plug_prev c h1 = Some h2" "rep_core (ram h2) (coalesce (xs @ (c, n, False) # ys))"
    "lfree h2 = lfree h1" "st_used h2 = st_used h1"
    "first_free (coalesce (xs @ (c, n, False) # ys)) = first_free (xs @ (c, n, False) # ys)"
    using plug_prev_rep [OF h1(2) [unfolded a(1)] assms(2) _ a(3,2)] h1(3) ff assms(4) unfolding co
    by auto
  then show ?thesis
    using s h1 assms(4,5) alternating_absorb [OF assms(2,3)]
    by (auto simp: plug_holes_def heap_rep_core)
qed

lemma release_middle:
  assumes "seg r p a (xs @ (c, n, True) # ys)"
  shows "release c (xs @ (c, n, True) # ys) = coalesce (xs @ (c, n, False) # ys)"
proof -
  have "map (\<lambda>(b, n, u). if b = c then (b, n, False) else (b, n, u)) zs = zs"
    if "c \<notin> fst ` set zs" for zs :: "blk list"
    using that by (induction zs) auto
  then show ?thesis using seg_before_neq [OF assms] by (simp add: release_def)
qed

lemma mem_free_rep:
  assumes "heap_rep h l" "(c, n, True) \<in> set l"
  shows "\<exists>h'. mem_free (Some (int (c + 8))) h = Some h' \<and> heap_rep h' (release c l)"
proof -
  obtain xs ys where l: "l = xs @ (c, n, True) # ys" using assms(2) by (meson split_list)
  have rep: "rep_core (ram h) (xs @ (c, n, True) # ys)" "alternating l" "lfree h = first_free l"
    "st_used h = used_bytes l"
    using assms(1) l by (auto simp: heap_rep_core)
  have sg: "seg (ram h) 0 0 (xs @ (c, n, True) # ys)" using rep(1) by (simp add: rep_core_def)
  have s: "ram h c = Some \<lparr>mem_next = c + n, mem_prev = endp 0 xs, mem_used = True\<rparr>"
    "c + n \<le> MEM_SIZE_ALIGNED" "20 \<le> n" "4 dvd c" "seg (ram h) 0 0 xs" "c = span_size xs"
    "seg (ram h) c (c + n) ys" "c + n + span_size ys = MEM_SIZE_ALIGNED"
    using rep(1) seg_aligned [OF sg, of c n True] by (auto simp: rep_core_def seg_append)
  have alt: "alternating xs" "alternating ys"
    using rep(2) l by (auto simp: alternating_simps simp del: alternating.simps)
  define h2 where "h2 = h\<lparr>ram := (ram h)(c \<mapsto> \<lparr>mem_next = c + n, mem_prev = endp 0 xs, mem_used = False\<rparr>),
      lfree := (if c < lfree h then c else lfree h), st_used := st_used h - n\<rparr>"
  have core: "rep_core (ram h2) (xs @ (c, n, False) # ys)"
    using rep_core_mark [OF rep(1), of False] by (simp add: h2_def)
  have lf: "lfree h2 = first_free (xs @ (c, n, False) # ys)"
  proof (cases "list_all (\<lambda>(b, n, u). u) xs")
    case True
    have "c < first_free ys"
    proof (cases "list_all (\<lambda>(b, n, u). u) ys")
      case True
      then show ?thesis using s by (simp add: first_free_all)
    next
      case False
      then show ?thesis using first_free_in [OF False] seg_offset_lt [OF s(7)] s(3) by force
    qed
    with True show ?thesis using rep(3) l by (simp add: h2_def first_free_append)
  next
    case False
    then have "first_free xs < c" using first_free_in [OF False] seg_offset_lt [OF s(5)] s(6) by force
    with False show ?thesis using rep(3) l by (simp add: h2_def first_free_append)
  qed
  have "mem_free (Some (int (c + 8))) h = plug_holes c h2"
  proof -
    have "(int c + 8) mod 4 = 0" using s(4) by presburger
    moreover have "c + 20 \<le> MEM_SIZE_ALIGNED" using s by simp
    ultimately show ?thesis using s(1) mem_link_valid_rep [OF rep(1)]
      by (auto simp: mem_free_def h2_def set_hdr_def Let_def)
  qed
  moreover have "\<exists>h'. plug_holes c h2 = Some h' \<and> heap_rep h' (coalesce (xs @ (c, n, False) # ys))"
    using core alt lf rep(4) l by (intro plug_holes_rep) (auto simp: h2_def)
  ultimately show ?thesis using release_middle [OF sg] l by auto
qed

subsection \<open>Trimming\<close>

text \<open>
  A used block is cut to the wanted size; the rest joins a free next block, or becomes a free block
  of its own when it is big enough for one.
\<close>


fun shrink :: "nat \<Rightarrow> nat \<Rightarrow> blk list \<Rightarrow> blk list" where
  "shrink s c [] = []"
| "shrink s c ((b, n, u) # l) =
     (if b = c then
        (if s + 8 = n \<or> (n < s + 28 \<and> (l = [] \<or> snd (snd (hd l)))) then (b, n, u) # l
         else (b, s + 8, True) # absorb (b + (s + 8)) (n - (s + 8)) l)
      else (b, n, u) # shrink s c l)"

lemma shrink_append: "c \<notin> fst ` set xs \<Longrightarrow> shrink s c (xs @ ys) = xs @ shrink s c ys"
  by (induction s c xs rule: shrink.induct) auto

lemma mem_trim_used:
  assumes "ram h c = Some \<lparr>mem_next = c + n, mem_prev = p, mem_used = True\<rparr>"
    "c + n \<le> MEM_SIZE_ALIGNED" "20 \<le> n" "ram h (c + n) = Some nb"
    and k: "k \<le> norm_size k" "norm_size k = s" "s + 8 \<le> n"
  shows "mem_trim (c + 8) k h =
     (if s + 8 = n then Some (Some (c + 8), h)
      else if \<not> mem_used nb then do {
        require (c + n \<noteq> MEM_SIZE_ALIGNED);
        h' \<leftarrow> link_prev (mem_next nb) (c + (s + 8))
               (h\<lparr>lfree := (if lfree h = c + n then c + (s + 8) else lfree h),
                  ram := (ram h)(c + (s + 8) \<mapsto> \<lparr>mem_next = mem_next nb, mem_prev = c, mem_used = False\<rparr>,
                                c \<mapsto> \<lparr>mem_next = c + (s + 8), mem_prev = p, mem_used = True\<rparr>)\<rparr>);
        Some (Some (c + 8), h'\<lparr>st_used := st_used h' - (n - 8 - s)\<rparr>) }
      else if s + 28 \<le> n then do {
        require (c + n \<noteq> MEM_SIZE_ALIGNED);
        h' \<leftarrow> link_prev (c + n) (c + (s + 8))
               (h\<lparr>lfree := (if c + (s + 8) < lfree h then c + (s + 8) else lfree h),
                  ram := (ram h)(c + (s + 8) \<mapsto> \<lparr>mem_next = c + n, mem_prev = c, mem_used = False\<rparr>,
                                c \<mapsto> \<lparr>mem_next = c + (s + 8), mem_prev = p, mem_used = True\<rparr>)\<rparr>);
        Some (Some (c + 8), h'\<lparr>st_used := st_used h' - (n - 8 - s)\<rparr>) }
      else Some (Some (c + 8), h))"
proof -
  have sz: "n mod 65536 = n" "(n - 8) mod 65536 = n - 8" "8 \<le> n" "s \<le> n - 8"
    "(c + 8 + s) mod 65536 = c + (s + 8)" "\<not> MEM_SIZE_ALIGNED < s" "\<not> s < k" "c + 8 < MEM_SIZE_ALIGNED"
    "(s = n - 8) = (s + 8 = n)" "(20 + s \<le> n - 8) = (s + 28 \<le> n)"
    using assms(2,3) k by auto
  have ns: "(if align_size k mod 65536 < MIN_SIZE_ALIGNED then MIN_SIZE_ALIGNED else align_size k mod 65536) = s"
    using k(2) by (simp add: norm_size_def Let_def)
  show ?thesis
    unfolding mem_trim_def Let_def ns
    using assms(1,4) sz(1-4,6-8)
    by (simp add: sz(5,9,10) set_hdr_def if_distrib [of "mheap.ram_update _"] if_distrib [of "mheap.ram"])
qed

lemma relink_twice:
  "e \<noteq> c \<Longrightarrow> e \<noteq> d \<Longrightarrow>
     relink e p ((relink e q (r(c \<mapsto> x)))(d \<mapsto> y, c \<mapsto> z)) = relink e p (r(d \<mapsto> y, c \<mapsto> z))"
  by (auto simp: relink_def fun_eq_iff split: option.splits)

lemma rep_core_move:
  assumes "rep_core r (xs @ (c, n, True) # (c + n, m, w) # ys)" "k \<le> n" "20 \<le> k" "4 dvd k"
  shows "rep_core (relink (c + (n + m)) (c + k)
            (r(c + k \<mapsto> \<lparr>mem_next = c + (n + m), mem_prev = c, mem_used = False\<rparr>,
               c \<mapsto> \<lparr>mem_next = c + k, mem_prev = endp 0 xs, mem_used = True\<rparr>)))
           (xs @ (c, k, True) # (c + k, n + m - k, False) # ys)"
proof -
  have m: "20 \<le> m" "20 \<le> n" using assms(1) by (auto simp: rep_core_def seg_append)
  have "k + 20 \<le> n + m" using assms(2) m by simp
  from rep_core_split [OF rep_core_join [OF assms(1), of True] this assms(3,4), of False True]
  show ?thesis using m assms(2) by (simp add: relink_twice)
qed

lemma first_free_cut:
  assumes "seg r p a (xs @ (c, n, True) # ys)" "c + n + span_size ys = MEM_SIZE_ALIGNED"
  shows "\<not> list_all (\<lambda>(b, n, u). u) xs \<Longrightarrow> first_free (xs @ (c, n, True) # ys) < c"
    and "list_all (\<lambda>(b, n, u). u) xs \<Longrightarrow> c + n \<le> first_free (xs @ (c, n, True) # ys)"
proof -
  have s: "seg r p a xs" "c = a + span_size xs" "seg r c (c + n) ys"
    using assms by (auto simp: seg_append)
  show "first_free (xs @ (c, n, True) # ys) < c" if "\<not> list_all (\<lambda>(b, n, u). u) xs"
    using first_free_in [OF that] seg_offset_lt [OF s(1)] s(2) that by (force simp: first_free_append)
  show "c + n \<le> first_free (xs @ (c, n, True) # ys)" if "list_all (\<lambda>(b, n, u). u) xs"
  proof (cases "list_all (\<lambda>(b, n, u). u) ys")
    case True
    then show ?thesis using that assms(2) by (simp add: first_free_append first_free_all)
  next
    case False
    then show ?thesis using first_free_in [OF False] seg_offset_lt [OF s(3)] that
      by (force simp: first_free_append)
  qed
qed

lemma mem_trim_move:
  assumes "heap_rep h (xs @ (c, n, True) # (c + n, m, False) # zs)"
    and k: "k \<le> norm_size k" "norm_size k = s" "s + 8 < n"
  shows "\<exists>h'. mem_trim (c + 8) k h = Some (Some (c + 8), h') \<and>
     heap_rep h' (xs @ (c, s + 8, True) # (c + (s + 8), n + m - (s + 8), False) # zs)"
proof -
  have np: "12 \<le> s" "4 dvd s" using norm_size_props [of k] k by auto
  have rep: "rep_core (ram h) (xs @ (c, n, True) # (c + n, m, False) # zs)"
    and rest: "alternating (xs @ (c, n, True) # (c + n, m, False) # zs)"
      "lfree h = first_free (xs @ (c, n, True) # (c + n, m, False) # zs)"
      "st_used h = used_bytes xs + n + used_bytes zs"
    using assms(1) by (auto simp: heap_rep_core)
  have sg: "seg (ram h) 0 0 (xs @ (c, n, True) # (c + n, m, False) # zs)"
    using rep by (simp add: rep_core_def)
  have t: "ram h c = Some \<lparr>mem_next = c + n, mem_prev = endp 0 xs, mem_used = True\<rparr>"
    "c + n \<le> MEM_SIZE_ALIGNED" "20 \<le> n" "20 \<le> m" "seg (ram h) (c + n) (c + (n + m)) zs"
    "ram h (c + n) = Some \<lparr>mem_next = c + (n + m), mem_prev = c, mem_used = False\<rparr>"
    "c + (n + m) + span_size zs = MEM_SIZE_ALIGNED" "c + n \<noteq> MEM_SIZE_ALIGNED"
    using rep by (auto simp: rep_core_def seg_append add.assoc)
  let ?r = "(ram h)(c + (s + 8) \<mapsto> \<lparr>mem_next = c + (n + m), mem_prev = c, mem_used = False\<rparr>,
             c \<mapsto> \<lparr>mem_next = c + (s + 8), mem_prev = endp 0 xs, mem_used = True\<rparr>)"
  let ?l = "xs @ (c, s + 8, True) # (c + (s + 8), n + m - (s + 8), False) # zs"
  have "seg ?r (c + n) (c + (n + m)) zs"
    using k(3) t(3,4) by (intro seg_cong [OF _ t(5)]) auto
  then have lp: "link_prev (c + (n + m)) (c + (s + 8)) (h'\<lparr>ram := ?r\<rparr>) =
      Some (h'\<lparr>ram := relink (c + (n + m)) (c + (s + 8)) ?r\<rparr>)" for h'
    using t(7) by (subst link_prev_seg) auto
  have ff: "(if lfree h = c + n then c + (s + 8) else lfree h) = first_free ?l"
    using rest(2) first_free_cut [OF sg] t(7)
    by (cases "list_all (\<lambda>(b, n, u). u) xs") (auto simp: first_free_append)
  have "rep_core (relink (c + (n + m)) (c + (s + 8)) ?r) ?l"
    using rep k(3) np by (intro rep_core_move) auto
  moreover have "alternating ?l" using rest(1)
    by (auto simp: alternating_simps simp del: alternating.simps)
  ultimately show ?thesis
    using mem_trim_used [OF t(1-3,6) k(1,2)] k(3) t(8) lp ff rest(3)
    by (simp add: heap_rep_core)
qed

lemma mem_trim_split:
  assumes "heap_rep h (xs @ (c, n, True) # ys)" "ys \<noteq> []" "snd (snd (hd ys))"
    and k: "k \<le> norm_size k" "norm_size k = s" "s + 28 \<le> n"
  shows "\<exists>h'. mem_trim (c + 8) k h = Some (Some (c + 8), h') \<and>
     heap_rep h' (xs @ (c, s + 8, True) # (c + (s + 8), n - (s + 8), False) # ys)"
proof -
  have np: "12 \<le> s" "4 dvd s" using norm_size_props [of k] k by auto
  have rep: "rep_core (ram h) (xs @ (c, n, True) # ys)"
    and rest: "alternating (xs @ (c, n, True) # ys)" "lfree h = first_free (xs @ (c, n, True) # ys)"
      "st_used h = used_bytes xs + n + used_bytes ys"
    using assms(1) by (auto simp: heap_rep_core)
  have sg: "seg (ram h) 0 0 (xs @ (c, n, True) # ys)" using rep by (simp add: rep_core_def)
  have t: "ram h c = Some \<lparr>mem_next = c + n, mem_prev = endp 0 xs, mem_used = True\<rparr>"
    "c + n \<le> MEM_SIZE_ALIGNED" "20 \<le> n" "seg (ram h) c (c + n) ys"
    "c + n + span_size ys = MEM_SIZE_ALIGNED"
    using rep by (auto simp: rep_core_def seg_append)
  obtain nb where nb: "ram h (c + n) = Some nb" "mem_used nb" "c + n \<noteq> MEM_SIZE_ALIGNED"
    using t(4,5) assms(2,3) by (cases ys) auto
  let ?r = "(ram h)(c + (s + 8) \<mapsto> \<lparr>mem_next = c + n, mem_prev = c, mem_used = False\<rparr>,
             c \<mapsto> \<lparr>mem_next = c + (s + 8), mem_prev = endp 0 xs, mem_used = True\<rparr>)"
  let ?l = "xs @ (c, s + 8, True) # (c + (s + 8), n - (s + 8), False) # ys"
  have "seg ?r c (c + n) ys" using k(3) by (intro seg_cong [OF _ t(4)]) auto
  then have lp: "link_prev (c + n) (c + (s + 8)) (h'\<lparr>ram := ?r\<rparr>) =
      Some (h'\<lparr>ram := relink (c + n) (c + (s + 8)) ?r\<rparr>)" for h'
    using t(5) by (subst link_prev_seg) auto
  have ff: "(if c + (s + 8) < lfree h then c + (s + 8) else lfree h) = first_free ?l"
    using rest(2) first_free_cut [OF sg t(5)] k(3)
    by (cases "list_all (\<lambda>(b, n, u). u) xs") (auto simp: first_free_append)
  have "rep_core (relink (c + n) (c + (s + 8)) ?r) ?l"
    using rep k(3) np by (intro rep_core_split) auto
  moreover have "alternating ?l" using rest(1) assms(3)
    by (auto simp: alternating_simps simp del: alternating.simps)
  ultimately show ?thesis
    using mem_trim_used [OF t(1-3) nb(1) k(1,2)] k(3) nb(2,3) lp ff rest(3)
    by (simp add: heap_rep_core)
qed

lemma mem_trim_rep:
  assumes "heap_rep h l" "l = xs @ (c, n, True) # ys" "k \<le> norm_size k" "norm_size k + 8 \<le> n"
    and room: "ys \<noteq> [] \<or> n < norm_size k + 28"
  shows "\<exists>h'. mem_trim (c + 8) k h = Some (Some (c + 8), h') \<and> heap_rep h' (shrink (norm_size k) c l)"
proof -
  let ?s = "norm_size k"
  have sg: "seg (ram h) 0 0 (xs @ (c, n, True) # ys)" using assms(1,2) by (simp add: heap_rep_def)
  have t: "ram h c = Some \<lparr>mem_next = c + n, mem_prev = endp 0 xs, mem_used = True\<rparr>"
    "c + n \<le> MEM_SIZE_ALIGNED" "20 \<le> n" "seg (ram h) c (c + n) ys"
    "c + n + span_size ys = MEM_SIZE_ALIGNED" "ram h MEM_SIZE_ALIGNED = Some end_hdr"
    using assms(1,2) by (auto simp: heap_rep_def seg_append)
  obtain nb where nb: "ram h (c + n) = Some nb" "mem_used nb = (ys = [] \<or> snd (snd (hd ys)))"
    using t(4-6) by (cases ys) (auto simp: end_hdr_def)
  have sh: "shrink ?s c l = xs @ shrink ?s c ((c, n, True) # ys)"
    using seg_before_neq(1) [OF sg] unfolding assms(2) by (rule shrink_append)
  have d: "?s + 8 = n \<or> ?s + 8 < n" "n < ?s + 28 \<or> ?s + 28 \<le> n" using assms(4) by auto
  consider (same) "?s + 8 = n \<or> (n < ?s + 28 \<and> (ys = [] \<or> snd (snd (hd ys))))"
    | (used) "?s + 28 \<le> n" "ys \<noteq> []" "snd (snd (hd ys))"
    | (free) m zs where "?s + 8 < n" "ys = (c + n, m, False) # zs"
    using d room t(4) by (cases ys; cases "snd (snd (hd ys))") auto
  then show ?thesis
  proof cases
    case same
    then show ?thesis
      using mem_trim_used [OF t(1-3) nb(1) assms(3) refl assms(4)] assms(1) sh nb(2)
      by (auto simp: assms(2))
  next
    case used
    then show ?thesis
      using mem_trim_split [OF assms(1) [unfolded assms(2)] used(2,3) assms(3) refl used(1)] sh
      by (auto simp: absorb_used)
  next
    case free
    then show ?thesis
      using mem_trim_move [OF assms(1) [unfolded assms(2) free(2)] assms(3) refl free(1)] sh
      by auto
  qed
qed

lemma mem_trim_last:
  assumes "heap_rep h (xs @ [(c, n, True)])" "k \<le> norm_size k" "norm_size k + 28 \<le> n"
  shows "mem_trim (c + 8) k h = None"
proof -
  have t: "ram h c = Some \<lparr>mem_next = c + n, mem_prev = endp 0 xs, mem_used = True\<rparr>"
    "c + n = MEM_SIZE_ALIGNED" "20 \<le> n" "ram h (c + n) = Some end_hdr"
    using assms(1) by (auto simp: heap_rep_def seg_append)
  show ?thesis
    using mem_trim_used [OF t(1) _ t(3,4) assms(2) refl] t(2) assms(3) by (simp add: end_hdr_def)
qed

subsection \<open>The allocator contract\<close>

definition live_of :: "blk list \<Rightarrow> nat set" where
  "live_of l = {c + 8 | c n. (c, n, True) \<in> set l}"

definition heap_live :: "mheap \<Rightarrow> nat set \<Rightarrow> bool" where
  "heap_live h L \<longleftrightarrow> (\<exists>l. heap_rep h l \<and> L = live_of l)"

lemma set_occupy:
  assumes "seg r p a (xs @ (c, n, False) # ys)"
  shows "(d, m, True) \<in> set (occupy s c (xs @ (c, n, False) # ys)) \<longleftrightarrow>
           (d, m, True) \<in> set (xs @ (c, n, False) # ys) \<or>
           d = c \<and> m = (if s + 28 \<le> n then s + 8 else n)"
proof -
  have "occupy s c (xs @ (c, n, False) # ys) = xs @ occupy s c ((c, n, False) # ys)"
    using seg_before_neq(1) [OF assms] by (rule occupy_append)
  then show ?thesis by auto
qed

lemma coalesce_used: "(d, m, True) \<in> set (coalesce l) \<longleftrightarrow> (d, m, True) \<in> set l"
proof (induction l rule: coalesce.induct)
  case (2 b n u l)
  have "(d, m, True) \<in> set (absorb b n k) \<longleftrightarrow> (d, m, True) \<in> set k" for k
    by (cases "(b, n, k)" rule: absorb.cases) auto
  then show ?case using 2 by auto
qed simp

lemma set_release:
  "(d, m, True) \<in> set (release c l) \<longleftrightarrow> (d, m, True) \<in> set l \<and> d \<noteq> c"
  unfolding release_def coalesce_used by (induction l) (auto split: if_splits)

lemma alloc_spec_Some:
  assumes "alloc_spec n l = (Some p, l')"
  shows "\<exists>c. p = c + 8 \<and> find_fit (norm_size n) l = Some c \<and> l' = occupy (norm_size n) c l \<and>
           0 < n \<and> n \<le> norm_size n"
  using assms by (auto simp: alloc_spec_def split: if_splits option.splits)

lemma alloc_spec_None: "alloc_spec n l = (None, l') \<Longrightarrow> l' = l"
  by (auto simp: alloc_spec_def split: if_splits option.splits)

interpretation heap: allocator heap_live mem_malloc "\<lambda>p. mem_free (Some (int p))"
proof
  fix h L n
  assume "heap_live h L"
  then obtain l where l: "heap_rep h l" "L = live_of l"
    by (auto simp: heap_live_def)
  obtain b l' where al: "alloc_spec n l = (b, l')" by (cases "alloc_spec n l")
  obtain h' where h': "mem_malloc n h = Some (b, h')" "heap_rep h' l'"
    using mem_malloc_rep [OF l(1), of n] al by auto
  have "case b of None \<Rightarrow> heap_live h' L | Some x \<Rightarrow> x \<notin> L \<and> heap_live h' (insert x L)"
  proof (cases b)
    case None
    then show ?thesis using alloc_spec_None al h' l by (auto simp: heap_live_def)
  next
    case (Some p)
    then obtain c where c: "p = c + 8" "find_fit (norm_size n) l = Some c" "l' = occupy (norm_size n) c l"
      using alloc_spec_Some al by blast
    then obtain xs m ys where lx: "l = xs @ (c, m, False) # ys" using find_fit_Some by blast
    have sg: "seg (ram h) 0 0 (xs @ (c, m, False) # ys)" using l(1) lx by (simp add: heap_rep_def)
    have "(d, k, True) \<notin> set l \<or> d \<noteq> c" for d k
      using seg_before_neq(1,2) [OF sg] lx by (force simp: image_iff)
    moreover have "live_of l' = insert p L"
      using set_occupy [OF sg] c l(2) lx by (auto simp: live_of_def)
    moreover have "x \<in> L \<longleftrightarrow> (\<exists>d k. x = d + 8 \<and> (d, k, True) \<in> set l)" for x
      using l(2) by (simp add: live_of_def)
    ultimately have "p \<notin> L" "heap_live h' (insert p L)"
      using h'(2) c(1) unfolding heap_live_def by (metis add_right_cancel, metis)
    then show ?thesis using Some by simp
  qed
  then show "\<exists>b s'. mem_malloc n h = Some (b, s') \<and>
      (case b of None \<Rightarrow> heap_live s' L | Some x \<Rightarrow> x \<notin> L \<and> heap_live s' (insert x L))"
    using h'(1) by blast
next
  fix h L x
  assume "heap_live h L" "x \<in> L"
  then obtain l c n where l: "heap_rep h l" "L = live_of l"
    "x = c + 8" "(c, n, True) \<in> set l"
    by (auto simp: heap_live_def live_of_def)
  obtain h' where h': "mem_free (Some (int x)) h = Some h'" "heap_rep h' (release c l)"
    using mem_free_rep [OF l(1,4)] l(3) by auto
  have "live_of (release c l) = L - {x}"
    using l(2,3) by (auto simp: set_release live_of_def)
  then show "\<exists>s'. mem_free (Some (int x)) h = Some s' \<and> heap_live s' (L - {x})"
    using h' unfolding heap_live_def by metis
qed

lemma mem_init_rep: "mem_init ERR_OK = Some h \<Longrightarrow> heap_rep h [(0, MEM_SIZE_ALIGNED, False)]"
  by (auto simp: mem_init_def heap_rep_def end_hdr_def)

lemma release_occupy:
  assumes "heap_rep h l" "find_fit s l = Some c"
  shows "release c (occupy s c l) = l"
proof -
  obtain xs n ys where l: "l = xs @ (c, n, False) # ys" using find_fit_Some assms(2) by blast
  have sg: "seg (ram h) 0 0 (xs @ (c, n, False) # ys)" and alt: "alternating l"
    using assms(1) l by (auto simp: heap_rep_def)
  note nb = seg_before_neq(1,2) [OF sg]
  have id: "map (\<lambda>(b, n, u). if b = c then (b, n, False) else (b, n, u)) zs = zs"
    if "c \<notin> fst ` set zs" for zs :: "blk list"
    using that by (induction zs) auto
  have co: "coalesce us = coalesce vs \<Longrightarrow> coalesce (xs @ us) = coalesce (xs @ vs)" for us vs
    by (induction xs rule: coalesce.induct) auto
  have "coalesce ((c, s + 8, False) # (c + s + 8, n - (s + 8), False) # ys) =
        coalesce ((c, n, False) # ys)" if "s + 28 \<le> n"
  proof -
    have "alternating ((c, n, False) # ys)"
      using alt l by (simp add: alternating_append del: alternating.simps)
    then show ?thesis using that
      by (auto simp: alternating_Cons absorb_used simp del: alternating.simps)
  qed
  then have "release c (occupy s c l) = coalesce l"
    using nb by (auto simp: l occupy_append release_def id intro!: co)
  then show ?thesis using alt by simp
qed


lemma mem_init_live: "mem_init ERR_OK = Some h \<Longrightarrow> heap_live h {}"
  using mem_init_rep by (force simp: heap_live_def live_of_def)

text \<open>
  The contract with sizes: \<open>heap_blocks h S\<close> says that the blocks in use are exactly the domain of
  \<open>S\<close>, which gives the usable size of each.
\<close>

definition size_of :: "blk list \<Rightarrow> nat \<rightharpoonup> nat" where
  "size_of l p = map_of (map (\<lambda>(c, n, u). (c + 8, n - 8)) (filter (\<lambda>(c, n, u). u) l)) p"

definition heap_blocks :: "mheap \<Rightarrow> (nat \<rightharpoonup> nat) \<Rightarrow> bool" where
  "heap_blocks h S \<longleftrightarrow> (\<exists>l. heap_rep h l \<and> S = size_of l)"

lemma size_of_simps [simp]:
  "size_of [] = Map.empty"
  "size_of ((c, n, True) # l) = (size_of l)(c + 8 \<mapsto> n - 8)"
  "size_of ((c, n, False) # l) = size_of l"
  by (auto simp: size_of_def fun_eq_iff)

lemma size_of_append: "size_of (xs @ ys) = size_of ys ++ size_of xs"
proof (induction xs)
  case (Cons x xs)
  obtain c n u where "x = (c, n, u)" by (cases x)
  then show ?case using Cons by (cases u) (auto simp del: fun_upd_apply)
qed simp

lemma size_of_notin: "c \<notin> fst ` set l \<Longrightarrow> size_of l (c + 8) = None"
  unfolding size_of_def by (induction l) auto

lemma size_of_Some:
  assumes "size_of l p = Some k"
  shows "\<exists>c n. p = c + 8 \<and> k = n - 8 \<and> (c, n, True) \<in> set l"
  using assms unfolding size_of_def by (force dest!: map_of_SomeD)

lemma size_of_absorb [simp]: "size_of (absorb b n l) = size_of l"
  by (cases "(b, n, l)" rule: absorb.cases) auto

lemma size_of_coalesce [simp]: "size_of (coalesce l) = size_of l"
proof (induction l rule: coalesce.induct)
  case (2 b n u l)
  then show ?case by (cases u) auto
qed simp

lemma size_of_split:
  assumes "seg r p a (xs @ (c, n, u) # ys)"
  shows "size_of (xs @ (c, n, True) # ys) = (size_of ys ++ size_of xs)(c + 8 \<mapsto> n - 8)"
    and "size_of (xs @ (c, n, False) # ys) = size_of ys ++ size_of xs"
    and "(size_of ys ++ size_of xs) (c + 8) = None"
proof -
  note nb = seg_before_neq(1,2) [OF assms]
  have e: "size_of xs (c + 8) = None" "size_of ys (c + 8) = None" using nb by (simp_all add: size_of_notin)
  show "size_of (xs @ (c, n, True) # ys) = (size_of ys ++ size_of xs)(c + 8 \<mapsto> n - 8)"
    using e by (auto simp: size_of_append fun_eq_iff map_add_def split: option.splits)
  show "size_of (xs @ (c, n, False) # ys) = size_of ys ++ size_of xs"
    by (simp add: size_of_append)
  show "(size_of ys ++ size_of xs) (c + 8) = None" using e by (simp add: map_add_def)
qed

lemma heap_blocks_malloc:
  assumes "heap_blocks h S"
  shows "\<exists>r h'. mem_malloc n h = Some (r, h') \<and>
    (case r of None \<Rightarrow> heap_blocks h' S
     | Some p \<Rightarrow> S p = None \<and> (\<exists>k \<ge> n. heap_blocks h' (S(p \<mapsto> k))))"
proof -
  obtain l where l: "heap_rep h l" "S = size_of l" using assms by (auto simp: heap_blocks_def)
  obtain b l' where al: "alloc_spec n l = (b, l')" by (cases "alloc_spec n l")
  obtain h' where h': "mem_malloc n h = Some (b, h')" "heap_rep h' l'"
    using mem_malloc_rep [OF l(1), of n] al by auto
  show ?thesis
  proof (cases b)
    case None
    then show ?thesis using alloc_spec_None al h' l by (force simp: heap_blocks_def)
  next
    case (Some p)
    then obtain c where c: "p = c + 8" "find_fit (norm_size n) l = Some c" "l' = occupy (norm_size n) c l"
      "n \<le> norm_size n"
      using alloc_spec_Some al by blast
    obtain xs m ys where lx: "l = xs @ (c, m, False) # ys" "norm_size n + 8 \<le> m"
      using find_fit_Some c(2) by blast
    have sg: "seg (ram h) 0 0 (xs @ (c, m, False) # ys)" using l(1) lx by (simp add: heap_rep_def)
    have o: "l' = xs @ occupy (norm_size n) c ((c, m, False) # ys)"
      using seg_before_neq(1) [OF sg] unfolding c(3) lx(1) by (rule occupy_append)
    note e = size_of_split [OF sg]
    let ?k = "if norm_size n + 28 \<le> m then norm_size n else m - 8"
    have "size_of l' = S(p \<mapsto> ?k)"
    proof -
      have "size_of xs (c + 8) = None" using seg_before_neq(1) [OF sg] by (simp add: size_of_notin)
      then have "(T(c + 8 \<mapsto> v)) ++ size_of xs = (T ++ size_of xs)(c + 8 \<mapsto> v)" for T v
        by (auto simp: fun_eq_iff map_add_def split: option.splits)
      then show ?thesis using o e(2) c(1) l(2) lx(1) by (simp add: size_of_append)
    qed
    moreover have "n \<le> ?k" using c(4) lx(2) by auto
    moreover have "S p = None" using e(2,3) c(1) l(2) lx(1) by simp
    ultimately show ?thesis using Some h' unfolding heap_blocks_def
      by (intro exI [of _ b] exI [of _ h']) force
  qed
qed

lemma heap_blocks_free:
  assumes "heap_blocks h S" "S p = Some k"
  shows "\<exists>h'. mem_free (Some (int p)) h = Some h' \<and> heap_blocks h' (S(p := None))"
proof -
  obtain l where l: "heap_rep h l" "S = size_of l" using assms by (auto simp: heap_blocks_def)
  obtain c n where c: "p = c + 8" "(c, n, True) \<in> set l" using size_of_Some assms(2) l(2) by blast
  obtain h' where h': "mem_free (Some (int p)) h = Some h'" "heap_rep h' (release c l)"
    using mem_free_rep [OF l(1) c(2)] c(1) by auto
  obtain xs ys where lx: "l = xs @ (c, n, True) # ys" using c(2) by (meson split_list)
  have sg: "seg (ram h) 0 0 (xs @ (c, n, True) # ys)" using l(1) lx by (simp add: heap_rep_def)
  have "size_of (release c l) = S(p := None)"
    using release_middle [OF sg] size_of_split [OF sg] l(2) lx c(1) by auto
  then show ?thesis using h' unfolding heap_blocks_def by metis
qed

lemma norm_size_mono: "j \<le> k \<Longrightarrow> k \<le> 65532 \<Longrightarrow> norm_size j \<le> norm_size k"
proof -
  assume a: "j \<le> k" "k \<le> 65532"
  have "align_size j \<le> align_size k" using a(1) by (simp add: align_size_def div_le_mono)
  moreover have "align_size k < 65536" using a(2) unfolding align_size_def by presburger
  ultimately show ?thesis by (simp add: norm_size_def Let_def)
qed

lemma norm_size_ge: "k \<le> 65532 \<Longrightarrow> k \<le> norm_size k"
proof -
  assume a: "k \<le> 65532"
  have "align_size k < 65536" using a unfolding align_size_def by presburger
  then show ?thesis using align_size_ge [of k] by (simp add: norm_size_def Let_def)
qed

lemma heap_blocks_size:
  assumes "heap_blocks h S" "S p = Some k"
  shows "12 \<le> k" "k \<le> MEM_SIZE_ALIGNED - 8" "4 dvd k" "8 \<le> p" "4 dvd p"
proof -
  obtain l where l: "heap_rep h l" "S = size_of l" using assms by (auto simp: heap_blocks_def)
  obtain c n where c: "p = c + 8" "(c, n, True) \<in> set l" "k = n - 8" using size_of_Some assms(2) l(2) by blast
  have sg: "seg (ram h) 0 0 l" "span_size l = MEM_SIZE_ALIGNED" using l(1) by (auto simp: heap_rep_def)
  obtain xs ys where lx: "l = xs @ (c, n, True) # ys" using c(2) by (meson split_list)
  have "20 \<le> n" "4 dvd n" "c + n \<le> MEM_SIZE_ALIGNED" using sg lx by (auto simp: seg_append)
  then show "12 \<le> k" "k \<le> MEM_SIZE_ALIGNED - 8" "4 dvd k" "8 \<le> p" "4 dvd p"
    using c seg_aligned [OF sg(1) _ c(2)] by auto
qed

text \<open>
  \<open>mem_trim\<close> in this view: it fails only for the last block of the heap, otherwise it keeps the
  other blocks and leaves at least the wanted size.
\<close>

definition trim_safe :: "mheap \<Rightarrow> nat \<Rightarrow> nat \<Rightarrow> bool" where
  "trim_safe h p k = (case ram h (p - 8) of
     None \<Rightarrow> False
   | Some b \<Rightarrow> mem_next b \<noteq> MEM_SIZE_ALIGNED \<or> mem_next b < p + norm_size k + 20)"

lemma norm_size_le:
  assumes "k \<le> q" "12 \<le> q" "4 dvd q" "q \<le> MEM_SIZE_ALIGNED"
  shows "norm_size k \<le> q"
proof -
  have "norm_size k \<le> norm_size q" using assms by (intro norm_size_mono) auto
  also have "norm_size q = q" using assms by (simp add: norm_size_def Let_def align_size_id)
  finally show ?thesis .
qed

lemma heap_blocks_trim:
  assumes "heap_blocks h S" "S p = Some q" "k \<le> q" "trim_safe h p k"
  shows "\<exists>h' q'. mem_trim p k h = Some (Some p, h') \<and> heap_blocks h' (S(p \<mapsto> q')) \<and> k \<le> q'"
proof -
  obtain l where l: "heap_rep h l" "S = size_of l" using assms by (auto simp: heap_blocks_def)
  obtain c n where c: "p = c + 8" "(c, n, True) \<in> set l" "q = n - 8" using size_of_Some assms(2) l(2) by blast
  obtain xs ys where lx: "l = xs @ (c, n, True) # ys" using c(2) by (meson split_list)
  note q = heap_blocks_size [OF assms(1,2)]
  have ns: "norm_size k \<le> q" using norm_size_le [OF assms(3) q(1,3)] q(2) by simp
  have kn: "k \<le> norm_size k" using norm_size_ge [of k] assms(3) q(2) by simp
  have sg: "seg (ram h) 0 0 (xs @ (c, n, True) # ys)" "span_size l = MEM_SIZE_ALIGNED"
    using l(1) lx by (auto simp: heap_rep_def)
  have t: "ram h c = Some \<lparr>mem_next = c + n, mem_prev = endp 0 xs, mem_used = True\<rparr>" "20 \<le> n"
    "c + n + span_size ys = MEM_SIZE_ALIGNED" "seg (ram h) c (c + n) ys"
    using sg lx by (auto simp: seg_append)
  have room: "ys \<noteq> [] \<or> n < norm_size k + 28"
    using assms(4) t c(1) by (cases ys) (auto simp: trim_safe_def)
  have n8: "norm_size k + 8 \<le> n" using ns c(3) t(2) by simp
  obtain h' where h': "mem_trim p k h = Some (Some p, h')" "heap_rep h' (shrink (norm_size k) c l)"
    using mem_trim_rep [OF l(1) lx kn n8 room] c(1) by auto
  have xn: "size_of xs (c + 8) = None" using seg_before_neq(1) [OF sg(1)] by (simp add: size_of_notin)
  have up: "(T(c + 8 \<mapsto> v)) ++ size_of xs = (T ++ size_of xs)(c + 8 \<mapsto> v)" for T v
    using xn by (auto simp: fun_eq_iff map_add_def split: option.splits)
  have sh: "shrink (norm_size k) c l = xs @ shrink (norm_size k) c ((c, n, True) # ys)"
    using seg_before_neq(1) [OF sg(1)] unfolding lx by (rule shrink_append)
  have "size_of (shrink (norm_size k) c l) = S(p \<mapsto> q) \<or>
        size_of (shrink (norm_size k) c l) = S(p \<mapsto> norm_size k)"
    using sh up size_of_split [OF sg(1)] l(2) lx c(1,3) by (auto simp: size_of_append)
  then show ?thesis using h' kn assms(3) unfolding heap_blocks_def by metis
qed

text \<open>Concrete heaps for the witnesses: the fresh heap, one with a block of 100 bytes, a full one.\<close>

definition fresh_heap :: mheap where
  "fresh_heap = the (mem_init ERR_OK)"

lemma mem_init_fresh: "mem_init ERR_OK = Some fresh_heap"
  by (simp add: fresh_heap_def mem_init_def)

lemmas fresh_heap_rep = mem_init_rep [OF mem_init_fresh]

lemma alloc_100: "alloc_spec 100 [(0, 10240, False)] = (Some 8, [(0, 108, True), (108, 10132, False)])"
  by (simp add: alloc_spec_def norm_size_def align_size_def)

lemma alloc_all: "alloc_spec 10232 [(0, 10240, False)] = (Some 8, [(0, 10240, True)])"
  by (simp add: alloc_spec_def norm_size_def align_size_def)

lemma heap_100: "\<exists>h. mem_malloc 100 fresh_heap = Some (Some 8, h) \<and> heap_rep h [(0, 108, True), (108, 10132, False)]"
  using mem_malloc_rep [OF fresh_heap_rep, of 100] by (simp add: alloc_100)

lemma heap_full: "\<exists>h. mem_malloc 10232 fresh_heap = Some (Some 8, h) \<and> heap_rep h [(0, 10240, True)]"
  using mem_malloc_rep [OF fresh_heap_rep, of 10232] by (simp add: alloc_all)

subsection \<open>Properties\<close>

text \<open>
  C2: \<open>mem_malloc\<close> refines first fit. From a well-formed heap it always returns, with the
  pointer first fit gives (\<open>NULL\<close> exactly when no free block is big enough, when the size is 0, or
  when it is not representable), and leaves a well-formed heap that represents the partition with
  the block taken.
\<close>

theorem mem_malloc_refines:
  assumes "heap_rep h l"
  shows "\<exists>h'. mem_malloc n h = Some (fst (alloc_spec n l), h') \<and> heap_rep h' (snd (alloc_spec n l))"
  using assms by (rule mem_malloc_rep)

theorem mem_malloc_refines_witness:
  "heap_rep fresh_heap [(0, 10240, False)] \<and>
   (\<exists>h'. mem_malloc 100 fresh_heap = Some (Some 8, h') \<and> heap_rep h' [(0, 108, True), (108, 10132, False)])"
  using mem_malloc_refines [OF fresh_heap_rep, of 100] fresh_heap_rep by (simp add: alloc_100)

text \<open>
  C4: the block handed out is fresh memory: it lies in the heap, is aligned to 4, has room for
  the requested bytes, and overlaps no block that was in use.
\<close>

theorem mem_malloc_block:
  assumes "heap_rep h l" "mem_malloc n h = Some (Some p, h')"
  shows "4 dvd p \<and> 8 \<le> p \<and> p + n \<le> MEM_SIZE_ALIGNED \<and>
    (\<forall>c m. (c, m, True) \<in> set l \<longrightarrow> c + m \<le> p - 8 \<or> p + n \<le> c)"
proof -
  have "fst (alloc_spec n l) = Some p" using mem_malloc_rep [OF assms(1), of n] assms(2) by auto
  then obtain c where c: "p = c + 8" "find_fit (norm_size n) l = Some c" "n \<le> norm_size n"
    using alloc_spec_Some by (metis eq_fst_iff)
  obtain xs m ys where l: "l = xs @ (c, m, False) # ys" "norm_size n + 8 \<le> m"
    using find_fit_Some [OF c(2)] by blast
  have sg: "seg (ram h) 0 0 (xs @ (c, m, False) # ys)" "span_size l = MEM_SIZE_ALIGNED"
    using assms(1) l by (auto simp: heap_rep_def)
  have s: "seg (ram h) 0 0 xs" "seg (ram h) c (c + m) ys" "c = span_size xs"
    "c + m + span_size ys = MEM_SIZE_ALIGNED"
    using sg l(1) by (auto simp: seg_append)
  have "4 dvd c" using seg_aligned [OF sg(1), of c m False] by simp
  moreover have "d + k \<le> c \<or> c + m \<le> d" if "(d, k, True) \<in> set l" for d k
    using that l(1) seg_bounds [OF s(1), of d k True] seg_bounds [OF s(2), of d k True] s(3) by auto
  ultimately show ?thesis using c l(2) s(4) by fastforce
qed

theorem mem_malloc_block_witness:
  "\<exists>h. heap_rep fresh_heap [(0, 10240, False)] \<and> mem_malloc 100 fresh_heap = Some (Some 8, h) \<and>
     4 dvd (8 :: nat) \<and> 8 + 100 \<le> MEM_SIZE_ALIGNED"
  using heap_100 fresh_heap_rep mem_malloc_block [OF fresh_heap_rep, of 100 8] by blast



text \<open>
  A pointer that is not a block in use is refused without touching the heap: freeing \<open>NULL\<close>
  does nothing; an unaligned pointer, one outside the heap, or one to a free block (a double free)
  is only counted.
\<close>

lemma mem_free_illegal:
  assumes "heap_rep h l"
    "r mod 4 \<noteq> 0 \<or> r < 8 \<or> r > int MEM_SIZE_ALIGNED - 12 \<or> (\<exists>c n. (c, n, False) \<in> set l \<and> r = int (c + 8))"
  shows "mem_free None h = Some h \<and> mem_free (Some r) h = Some (h\<lparr>st_illegal := st_illegal h + 1\<rparr>)
    \<and> heap_rep (h\<lparr>st_illegal := st_illegal h + 1\<rparr>) l"
proof -
  have "mem_free (Some r) h = Some (h\<lparr>st_illegal := st_illegal h + 1\<rparr>)"
  proof (cases "r mod 4 \<noteq> 0 \<or> r < 8 \<or> r > int MEM_SIZE_ALIGNED - 12")
    case True
    then show ?thesis by (auto simp: mem_free_def illegal_free_def)
  next
    case False
    then have "\<exists>c n. (c, n, False) \<in> set l \<and> r = int (c + 8)" using assms(2) by auto
    then obtain c n where c: "(c, n, False) \<in> set l" "r = int (c + 8)" by blast
    then obtain xs ys where "l = xs @ (c, n, False) # ys" by (meson split_list)
    then have "\<exists>b. ram h c = Some b \<and> \<not> mem_used b" using assms(1) by (auto simp: heap_rep_def seg_append)
    then show ?thesis using False c(2) by (auto simp: mem_free_def illegal_free_def)
  qed
  then show ?thesis using assms(1) by (auto simp: mem_free_def heap_rep_def)
qed

text \<open>
  Freeing what was just allocated restores the partition of the heap exactly (no fragment
  is lost).
\<close>

lemma mem_malloc_free_roundtrip:
  assumes "heap_rep h l" "mem_malloc n h = Some (Some p, h1)"
  shows "\<exists>h2. mem_free (Some (int p)) h1 = Some h2 \<and> heap_rep h2 l"
proof -
  have r: "heap_rep h1 (snd (alloc_spec n l))" and f: "fst (alloc_spec n l) = Some p"
    using mem_malloc_rep [OF assms(1), of n] assms(2) by auto
  obtain c where c: "p = c + 8" "find_fit (norm_size n) l = Some c"
    "snd (alloc_spec n l) = occupy (norm_size n) c l"
    using alloc_spec_Some f by (metis prod.collapse)
  obtain xs m ys where l: "l = xs @ (c, m, False) # ys" using find_fit_Some [OF c(2)] by blast
  have "seg (ram h) 0 0 (xs @ (c, m, False) # ys)" using assms(1) l by (simp add: heap_rep_def)
  from set_occupy [OF this] obtain k where "(c, k, True) \<in> set (occupy (norm_size n) c l)"
    using l by blast
  from mem_free_rep [OF r [unfolded c(3)] this] show ?thesis
    unfolding release_occupy [OF assms(1) c(2)] c(1) .
qed

text \<open>
  \<open>mem_trim\<close> of a block in use to a size that fits returns the same pointer and cuts the
  block: the rest joins a free next block or becomes a free block of its own, or stays when it is
  too small. The case of the last block of the heap with a rest of at least 20 bytes is excluded.
\<close>

lemma mem_trim_refines:
  assumes "heap_rep h (xs @ (c, n, True) # ys)" "k \<le> norm_size k" "norm_size k + 8 \<le> n"
    "ys \<noteq> [] \<or> n < norm_size k + 28"
  shows "\<exists>h'. mem_trim (c + 8) k h = Some (Some (c + 8), h') \<and>
     heap_rep h' (shrink (norm_size k) c (xs @ (c, n, True) # ys))"
  using assms by (intro mem_trim_rep) auto





end
