(* ===== verification/Memp.thy ===== *)
theory Memp
  imports Alloc_Spec
begin

text \<open>
  The element pools of \<^verbatim>\<open>lwip/src/core/memp.c\<close> (\<^verbatim>\<open>MEMP_MEM_MALLOC\<close>, \<^verbatim>\<open>MEMP_OVERFLOW_CHECK\<close>
  and \<^verbatim>\<open>MEMP_SANITY_CHECK\<close> are 0, \<^verbatim>\<open>MEMP_STATS\<close> is 1). A pool is an array of equally sized
  elements; the free ones form a singly linked list through their first word. The model names
  an element by its index in the array, so the alignment assertions hold by construction
  (\<^verbatim>\<open>base\<close> and the element size are multiples of \<^verbatim>\<open>MEM_ALIGNMENT\<close>). \<^verbatim>\<open>SYS_ARCH_PROTECT\<close>
  around the list updates makes every operation one step.
\<close>

subsection \<open>The pools and their operations\<close>

datatype memp_t =
    MEMP_RAW_PCB | MEMP_UDP_PCB | MEMP_TCP_PCB | MEMP_TCP_PCB_LISTEN | MEMP_TCP_SEG
  | MEMP_ALTCP_PCB | MEMP_REASSDATA | MEMP_FRAG_PBUF | MEMP_NETBUF | MEMP_NETCONN
  | MEMP_TCPIP_MSG_API | MEMP_TCPIP_MSG_INPKT | MEMP_ARP_QUEUE | MEMP_IGMP_GROUP
  | MEMP_SYS_TIMEOUT | MEMP_NETDB | MEMP_ND6_QUEUE | MEMP_IP6_REASSDATA | MEMP_MLD6_GROUP
  | MEMP_PBUF | MEMP_PBUF_POOL

text \<open>The numbers of elements: \<^verbatim>\<open>src/lwipopts.h\<close>, and \<^verbatim>\<open>lwip/opt.h\<close> for those it leaves out.\<close>

fun memp_num :: "memp_t \<Rightarrow> nat" where
  "memp_num MEMP_RAW_PCB = 3"
| "memp_num MEMP_UDP_PCB = 8"
| "memp_num MEMP_TCP_PCB = 5"
| "memp_num MEMP_TCP_PCB_LISTEN = 8"
| "memp_num MEMP_TCP_SEG = 16"
| "memp_num MEMP_ALTCP_PCB = 5"
| "memp_num MEMP_REASSDATA = 10"
| "memp_num MEMP_FRAG_PBUF = 15"
| "memp_num MEMP_NETBUF = 2"
| "memp_num MEMP_NETCONN = 10"
| "memp_num MEMP_TCPIP_MSG_API = 16"
| "memp_num MEMP_TCPIP_MSG_INPKT = 16"
| "memp_num MEMP_ARP_QUEUE = 30"
| "memp_num MEMP_IGMP_GROUP = 8"
| "memp_num MEMP_SYS_TIMEOUT = 17"
| "memp_num MEMP_NETDB = 1"
| "memp_num MEMP_ND6_QUEUE = 20"
| "memp_num MEMP_IP6_REASSDATA = 10"
| "memp_num MEMP_MLD6_GROUP = 4"
| "memp_num MEMP_PBUF = 16"
| "memp_num MEMP_PBUF_POOL = 120"

text \<open>
  \<open>tab\<close> is the first free element (\<open>None\<close> for \<open>NULL\<close>), \<open>elem_next\<close> the \<^verbatim>\<open>next\<close> word of an
  element (meaningful while the element is free), the rest the counters of the pool.
\<close>

record memp_pool =
  tab :: "nat option"
  elem_next :: "nat \<Rightarrow> nat option"
  mp_avail :: u16
  mp_used :: u16
  mp_max :: u16
  mp_err :: u16

type_synonym memp_pools = "memp_t \<Rightarrow> memp_pool"

definition link_elem :: "nat \<Rightarrow> memp_pool \<Rightarrow> memp_pool" where
  "link_elem i p = p\<lparr>elem_next := (elem_next p)(i := tab p), tab := Some i\<rparr>"

definition memp_init_pool :: "nat \<Rightarrow> memp_pool \<Rightarrow> memp_pool" where
  "memp_init_pool num p = (fold link_elem [0..<num] (p\<lparr>tab := None\<rparr>))\<lparr>mp_avail := of_nat num\<rparr>"

definition all_pools :: "memp_t list" where
  "all_pools = [MEMP_RAW_PCB, MEMP_UDP_PCB, MEMP_TCP_PCB, MEMP_TCP_PCB_LISTEN, MEMP_TCP_SEG,
     MEMP_ALTCP_PCB, MEMP_REASSDATA, MEMP_FRAG_PBUF, MEMP_NETBUF, MEMP_NETCONN, MEMP_TCPIP_MSG_API,
     MEMP_TCPIP_MSG_INPKT, MEMP_ARP_QUEUE, MEMP_IGMP_GROUP, MEMP_SYS_TIMEOUT, MEMP_NETDB,
     MEMP_ND6_QUEUE, MEMP_IP6_REASSDATA, MEMP_MLD6_GROUP, MEMP_PBUF, MEMP_PBUF_POOL]"

definition memp_init :: "memp_pools \<Rightarrow> memp_pools" where
  "memp_init ps = fold (\<lambda>t ps. ps(t := memp_init_pool (memp_num t) (ps t))) all_pools ps"

definition do_memp_malloc_pool :: "memp_pool \<Rightarrow> nat option \<times> memp_pool" where
  "do_memp_malloc_pool p = (case tab p of
     Some e \<Rightarrow>
       (let u = mp_used p + 1
        in (Some e, p\<lparr>tab := elem_next p e, mp_used := u, mp_max := max (mp_max p) u\<rparr>))
   | None \<Rightarrow> (None, p\<lparr>mp_err := mp_err p + 1\<rparr>))"

definition do_memp_free_pool :: "nat \<Rightarrow> memp_pool \<Rightarrow> memp_pool" where
  "do_memp_free_pool e p = link_elem e (p\<lparr>mp_used := mp_used p - 1\<rparr>)"

definition memp_malloc :: "memp_t \<Rightarrow> memp_pools \<Rightarrow> nat option \<times> memp_pools" where
  "memp_malloc t ps = (let (e, p) = do_memp_malloc_pool (ps t) in (e, ps(t := p)))"

definition memp_free :: "memp_t \<Rightarrow> nat option \<Rightarrow> memp_pools \<Rightarrow> memp_pools" where
  "memp_free t mem ps = (case mem of None \<Rightarrow> ps | Some e \<Rightarrow> ps(t := do_memp_free_pool e (ps t)))"

subsection \<open>The free list\<close>

text \<open>\<open>free_chain nx a l\<close>: from \<open>a\<close>, the \<open>next\<close> words lead through exactly the elements \<open>l\<close> to \<open>NULL\<close>.\<close>

fun free_chain :: "(nat \<Rightarrow> nat option) \<Rightarrow> nat option \<Rightarrow> nat list \<Rightarrow> bool" where
  "free_chain nx a [] = (a = None)"
| "free_chain nx a (e # l) = (a = Some e \<and> free_chain nx (nx e) l)"

definition pool_rep :: "nat \<Rightarrow> memp_pool \<Rightarrow> nat list \<Rightarrow> bool" where
  "pool_rep num p l \<longleftrightarrow> free_chain (elem_next p) (tab p) l \<and> distinct l \<and> set l \<subseteq> {..<num} \<and>
     unat (mp_used p) + length l = num"

lemma free_chain_upd [simp]: "e \<notin> set l \<Longrightarrow> free_chain (nx(e := x)) a l = free_chain nx a l"
  by (induction l arbitrary: a) auto

lemma free_chain_upd_lambda [simp]:
  "e \<notin> set l \<Longrightarrow> free_chain (\<lambda>i. if i = e then x else nx i) a l = free_chain nx a l"
  by (induction l arbitrary: a) auto

lemma link_elem_sel [simp]:
  "tab (link_elem i p) = Some i" "elem_next (link_elem i p) = (elem_next p)(i := tab p)"
  "mp_used (link_elem i p) = mp_used p"
  by (simp_all add: link_elem_def)

lemma pool_rep_alloc:
  assumes "pool_rep num p l" "num < 65536"
  shows "do_memp_malloc_pool p =
      (case l of [] \<Rightarrow> (None, snd (do_memp_malloc_pool p)) | e # _ \<Rightarrow> (Some e, snd (do_memp_malloc_pool p)))"
    and "pool_rep num (snd (do_memp_malloc_pool p)) (tl l)"
proof -
  show "do_memp_malloc_pool p =
      (case l of [] \<Rightarrow> (None, snd (do_memp_malloc_pool p)) | e # _ \<Rightarrow> (Some e, snd (do_memp_malloc_pool p)))"
    using assms by (cases l) (auto simp: pool_rep_def do_memp_malloc_pool_def Let_def)
  show "pool_rep num (snd (do_memp_malloc_pool p)) (tl l)"
  proof (cases l)
    case Nil
    then show ?thesis using assms by (auto simp: pool_rep_def do_memp_malloc_pool_def)
  next
    case (Cons e l')
    have "unat (mp_used p + 1) = unat (mp_used p) + 1"
      using unat_add_no_overflow [of "mp_used p" 1] assms Cons by (auto simp: pool_rep_def)
    then show ?thesis using assms Cons by (auto simp: pool_rep_def do_memp_malloc_pool_def Let_def)
  qed
qed

lemma pool_rep_free:
  assumes "pool_rep num p l" "e < num" "e \<notin> set l"
  shows "pool_rep num (do_memp_free_pool e p) (e # l)"
proof -
  have "length l < num"
  proof -
    have "length l = card (set l)" using assms(1) by (simp add: pool_rep_def distinct_card)
    also have "\<dots> < card {..<num}"
      using assms by (intro psubset_card_mono) (auto simp: pool_rep_def)
    finally show ?thesis by simp
  qed
  then have "mp_used p \<noteq> 0" using assms(1) by (auto simp: pool_rep_def)
  then have "unat (mp_used p - 1) = unat (mp_used p) - 1" "unat (mp_used p) \<noteq> 0"
    by (simp_all add: unat_minus_one unat_eq_0)
  then show ?thesis
    using assms by (auto simp: pool_rep_def do_memp_free_pool_def)
qed

lemma memp_init_pool_rep:
  assumes "mp_used p = 0" "num < 65536"
  shows "pool_rep num (memp_init_pool num p) (rev [0..<num])"
proof -
  have "free_chain (elem_next (fold link_elem [0..<n] (p\<lparr>tab := None\<rparr>)))
          (tab (fold link_elem [0..<n] (p\<lparr>tab := None\<rparr>))) (rev [0..<n]) \<and>
        mp_used (fold link_elem [0..<n] (p\<lparr>tab := None\<rparr>)) = 0" for n
    by (induction n) (auto simp: assms(1))
  then show ?thesis using assms by (auto simp: pool_rep_def memp_init_pool_def)
qed

subsection \<open>The contract\<close>

text \<open>\<open>pool_live num p L\<close>: of the \<open>num\<close> elements of the pool, exactly those of \<open>L\<close> are handed out.\<close>

definition pool_live :: "nat \<Rightarrow> memp_pool \<Rightarrow> nat set \<Rightarrow> bool" where
  "pool_live num p L \<longleftrightarrow> num < 65536 \<and> (\<exists>l. pool_rep num p l \<and> L = {..<num} - set l)"

lemma pool_live_alloc:
  assumes "pool_live num p L"
  shows "\<exists>b p'. do_memp_malloc_pool p = (b, p') \<and>
    (case b of None \<Rightarrow> L = {..<num} \<and> pool_live num p' L
     | Some x \<Rightarrow> x \<notin> L \<and> x < num \<and> pool_live num p' (insert x L))"
proof -
  obtain l where l: "pool_rep num p l" "L = {..<num} - set l" "num < 65536"
    using assms by (auto simp: pool_live_def)
  note a = pool_rep_alloc [OF l(1,3)]
  show ?thesis
  proof (cases l)
    case Nil
    then have "do_memp_malloc_pool p = (None, snd (do_memp_malloc_pool p))" "L = {..<num}"
      using a(1) l(2) by auto
    then show ?thesis using a(2) l Nil unfolding pool_live_def by fastforce
  next
    case (Cons e l')
    have e: "e < num" "e \<notin> set l'" "e \<in> set l" using l(1) Cons by (auto simp: pool_rep_def)
    have "{..<num} - set l' = insert e L" using l(2) e Cons by auto
    then have "pool_live num (snd (do_memp_malloc_pool p)) (insert e L)"
      using a(2) l(3) Cons unfolding pool_live_def by fastforce
    moreover have "do_memp_malloc_pool p = (Some e, snd (do_memp_malloc_pool p))"
      using a(1) Cons by simp
    ultimately show ?thesis using e l(2)
      by (intro exI [of _ "Some e"] exI [of _ "snd (do_memp_malloc_pool p)"]) auto
  qed
qed

lemma pool_live_free:
  assumes "pool_live num p L" "x \<in> L"
  shows "pool_live num (do_memp_free_pool x p) (L - {x})"
proof -
  obtain l where l: "pool_rep num p l" "L = {..<num} - set l" "num < 65536"
    using assms by (auto simp: pool_live_def)
  have "pool_rep num (do_memp_free_pool x p) (x # l)"
    using pool_rep_free [OF l(1), of x] assms(2) l(2) by simp
  moreover have "L - {x} = {..<num} - set (x # l)" using l(2) by auto
  ultimately show ?thesis using l(3) unfolding pool_live_def by blast
qed

interpretation pool: allocator "pool_live num" "\<lambda>(_ :: unit) p. Some (do_memp_malloc_pool p)"
  "\<lambda>e p. Some (do_memp_free_pool e p)" for num
proof
  fix p L and r :: unit
  assume "pool_live num p L"
  from pool_live_alloc [OF this]
  show "\<exists>b s'. Some (do_memp_malloc_pool p) = Some (b, s') \<and>
      (case b of None \<Rightarrow> pool_live num s' L | Some x \<Rightarrow> x \<notin> L \<and> pool_live num s' (insert x L))"
    by (metis (mono_tags, lifting) option.case_eq_if)
next
  fix p L x
  assume "pool_live num p L" "x \<in> L"
  then show "\<exists>s'. Some (do_memp_free_pool x p) = Some s' \<and> pool_live num s' (L - {x})"
    using pool_live_free by blast
qed

lemma memp_num_less: "memp_num t < 65536"
  by (cases t) auto

lemma memp_init_live:
  assumes "\<And>t. mp_used (ps t) = 0"
  shows "pool_live (memp_num t) (memp_init ps t) {}"
proof -
  have f: "fold (\<lambda>t ps. ps(t := memp_init_pool (memp_num t) (ps t))) ts ps t =
      (if t \<in> set ts then memp_init_pool (memp_num t) (ps t) else ps t)" if "distinct ts" for ts and ps :: memp_pools
    using that by (induction ts arbitrary: ps) auto
  have "distinct all_pools" "t \<in> set all_pools" by (simp add: all_pools_def, cases t) (auto simp: all_pools_def)
  then have "memp_init ps t = memp_init_pool (memp_num t) (ps t)"
    using f [of all_pools ps] by (simp add: memp_init_def)
  then show ?thesis
    using memp_init_pool_rep [OF assms memp_num_less, of t t] memp_num_less [of t]
    unfolding pool_live_def by (auto intro!: exI [of _ "rev [0..<memp_num t]"])
qed

subsection \<open>Properties\<close>

text \<open>
  After \<open>memp_init\<close> every pool hands out each of its elements exactly once: \<open>memp_malloc\<close>
  returns \<open>NULL\<close> only when all elements are in use, otherwise an element of the pool that no one
  holds, and it changes no other pool.
\<close>

lemma memp_malloc_spec:
  assumes "pool_live (memp_num t) (ps t) L"
  shows "\<exists>b ps'. memp_malloc t ps = (b, ps') \<and> (\<forall>t'. t' \<noteq> t \<longrightarrow> ps' t' = ps t') \<and>
    (case b of None \<Rightarrow> L = {..<memp_num t} \<and> pool_live (memp_num t) (ps' t) L
     | Some e \<Rightarrow> e \<notin> L \<and> e < memp_num t \<and> pool_live (memp_num t) (ps' t) (insert e L))"
proof -
  obtain b p' where "do_memp_malloc_pool (ps t) = (b, p')"
    "case b of None \<Rightarrow> L = {..<memp_num t} \<and> pool_live (memp_num t) p' L
     | Some x \<Rightarrow> x \<notin> L \<and> x < memp_num t \<and> pool_live (memp_num t) p' (insert x L)"
    using pool_live_alloc [OF assms] by blast
  then show ?thesis
    by (intro exI [of _ b] exI [of _ "ps(t := p')"]) (auto simp: memp_malloc_def split: option.splits)
qed

definition idle_pool :: memp_pool where
  "idle_pool = \<lparr>tab = None, elem_next = (\<lambda>_. None), mp_avail = 0, mp_used = 0, mp_max = 0, mp_err = 0\<rparr>"

text \<open>
  Every sequence of allocations from a pool and frees of held elements keeps the held elements
  distinct and the pool well formed, and when all are given back the pool is full again.
\<close>

lemma memp_programs_run:
  assumes "\<And>t. mp_used (ps t) = 0"
  shows "\<exists>vs p'. run_cmds (\<lambda>(_ :: unit) p. Some (do_memp_malloc_pool p)) (\<lambda>e p. Some (do_memp_free_pool e p))
      cs (Map.empty, memp_init ps t) = Some (vs, p') \<and>
     inj_on vs (dom vs) \<and> pool_live (memp_num t) p' (ran vs)"
proof -
  obtain vs p' L where "run_cmds (\<lambda>(_ :: unit) p. Some (do_memp_malloc_pool p))
      (\<lambda>e p. Some (do_memp_free_pool e p)) cs (Map.empty, memp_init ps t) = Some (vs, p')"
    "pool_live (memp_num t) p' L" "inj_on vs (dom vs)" "ran vs \<subseteq> L" "L - ran vs = {}"
    using pool.run_cmds_live [OF memp_init_live [where ps = ps and t = t, OF assms],
        where vs = Map.empty and cs = cs] by auto
  moreover from this have "L = ran vs" by auto
  ultimately show ?thesis by auto
qed

end
