(* ===== verification/Fifo_Spec.thy ===== *)
theory Fifo_Spec
  imports Sim_Prelude
begin

text \<open>
  The contract of a bounded first-in first-out queue: \<open>rep q ds\<close> says that \<open>q\<close> holds \<open>ds\<close>, oldest
  first. A client that pushes and pops in any order gets back exactly what was accepted, in order.
\<close>

datatype 'd fifo_cmd = Push 'd | Pop

text \<open>A run collects what \<open>pop\<close> returned and what \<open>push\<close> accepted.\<close>

fun run_fifo :: "('d \<Rightarrow> 'q \<Rightarrow> (bool \<times> 'q) option) \<Rightarrow> ('q \<Rightarrow> ('d option \<times> 'q) option) \<Rightarrow>
    'd fifo_cmd list \<Rightarrow> 'q \<Rightarrow> ('d list \<times> 'd list \<times> 'q) option" where
  "run_fifo push pop [] q = Some ([], [], q)"
| "run_fifo push pop (Push d # cs) q = do {
     (ok, q1) \<leftarrow> push d q;
     (out, acc, q2) \<leftarrow> run_fifo push pop cs q1;
     Some (out, if ok then d # acc else acc, q2) }"
| "run_fifo push pop (Pop # cs) q = do {
     (r, q1) \<leftarrow> pop q;
     (out, acc, q2) \<leftarrow> run_fifo push pop cs q1;
     Some (case r of None \<Rightarrow> out | Some d \<Rightarrow> d # out, acc, q2) }"

locale fifo =
  fixes rep :: "'q \<Rightarrow> 'd list \<Rightarrow> bool"
    and cap :: "'q \<Rightarrow> nat"
    and push :: "'d \<Rightarrow> 'q \<Rightarrow> (bool \<times> 'q) option"
    and pop :: "'q \<Rightarrow> ('d option \<times> 'q) option"
  assumes push_rep: "rep q ds \<Longrightarrow>
      \<exists>q'. push d q = Some (length ds < cap q, q') \<and> rep q' (if length ds < cap q then ds @ [d] else ds) \<and> cap q' = cap q"
    and pop_rep: "rep q ds \<Longrightarrow>
      \<exists>q'. pop q = Some (if ds = [] then None else Some (hd ds), q') \<and> rep q' (tl ds) \<and> cap q' = cap q"
begin

lemma run_conserves:
  "rep q ds \<Longrightarrow> \<exists>out acc q' rest. run_fifo push pop cs q = Some (out, acc, q') \<and> rep q' rest \<and> ds @ acc = out @ rest"
proof (induction cs arbitrary: q ds)
  case Nil
  then show ?case by auto
next
  case (Cons c cs)
  show ?case
  proof (cases c)
    case (Push d)
    obtain q1 where q1: "push d q = Some (length ds < cap q, q1)" "rep q1 (if length ds < cap q then ds @ [d] else ds)"
      using push_rep [OF Cons.prems] by blast
    from Cons.IH [OF q1(2)] obtain out acc q2 rest where
      r: "run_fifo push pop cs q1 = Some (out, acc, q2)" "rep q2 rest"
        "(if length ds < cap q then ds @ [d] else ds) @ acc = out @ rest" by blast
    then show ?thesis using Push q1(1) by (cases "length ds < cap q") auto
  next
    case Pop
    obtain q1 where q1: "pop q = Some (if ds = [] then None else Some (hd ds), q1)" "rep q1 (tl ds)"
      using pop_rep [OF Cons.prems] by blast
    from Cons.IH [OF q1(2)] obtain out acc q2 rest where
      r: "run_fifo push pop cs q1 = Some (out, acc, q2)" "rep q2 rest" "tl ds @ acc = out @ rest" by blast
    then show ?thesis using Pop q1(1) by (cases ds) auto
  qed
qed

lemma push_full: "rep q ds \<Longrightarrow> cap q \<le> length ds \<Longrightarrow> \<exists>q'. push d q = Some (False, q') \<and> rep q' ds"
  using push_rep [of q ds d] by auto

end

end
