(* ===== verification/Pkt_List.thy ===== *)
theory Pkt_List
  imports Fifo_Spec
begin

text \<open>
  The bounded packet list of the network interface driver, \<^verbatim>\<open>lwip-port/netif/list.c\<close>, with the
  objects it obtains from \<^verbatim>\<open>malloc\<close>. The objects of one C type are a typed heap: a dead address has
  no object, \<open>malloc\<close> returns an address never used before, \<open>free\<close> of a dead address is \<open>None\<close>.
  Whether \<^verbatim>\<open>malloc\<close> succeeds is an argument of the operations that call it.
\<close>

subsection \<open>Objects from the C library\<close>

record 'v cheap =
  cells :: "nat \<Rightarrow> 'v option"
  brk :: nat

definition cheap_ok :: "'v cheap \<Rightarrow> bool" where
  "cheap_ok h \<longleftrightarrow> (\<forall>a \<ge> brk h. cells h a = None)"

definition empty_heap :: "'v cheap" where
  "empty_heap = \<lparr>cells = (\<lambda>_. None), brk = 0\<rparr>"

definition c_malloc :: "'v \<Rightarrow> 'v cheap \<Rightarrow> nat \<times> 'v cheap" where
  "c_malloc v h = (brk h, \<lparr>cells = (cells h)(brk h \<mapsto> v), brk = brk h + 1\<rparr>)"

definition c_free :: "nat \<Rightarrow> 'v cheap \<Rightarrow> 'v cheap option" where
  "c_free a h = (case cells h a of None \<Rightarrow> None | Some _ \<Rightarrow> Some (h\<lparr>cells := (cells h)(a := None)\<rparr>))"

definition c_store :: "nat \<Rightarrow> 'v \<Rightarrow> 'v cheap \<Rightarrow> 'v cheap option" where
  "c_store a v h = (case cells h a of None \<Rightarrow> None | Some _ \<Rightarrow> Some (h\<lparr>cells := (cells h)(a \<mapsto> v)\<rparr>))"

lemma empty_heap_ok [simp]: "cheap_ok empty_heap"
  by (simp add: cheap_ok_def empty_heap_def)

lemma c_malloc_ok: "cheap_ok h \<Longrightarrow> cheap_ok (snd (c_malloc v h)) \<and> cells h (fst (c_malloc v h)) = None"
  by (auto simp: cheap_ok_def c_malloc_def)

lemma cheap_ok_upd: "cheap_ok h \<Longrightarrow> cells h a \<noteq> None \<Longrightarrow> cheap_ok (h\<lparr>cells := (cells h)(a := v)\<rparr>)"
  by (auto simp: cheap_ok_def)

subsection \<open>The list\<close>

record 'd elem =
  e_next :: "nat option"
  e_data :: 'd

record 'd list_t =
  l_first :: "nat option"
  l_last :: "nat option"
  l_size :: int
  l_elems :: int
  l_heap :: "'d elem cheap"

text \<open>
  \<open>list_new\<close> and \<open>list_push\<close> write through the result of \<^verbatim>\<open>malloc\<close> unchecked: \<open>ok\<close> says whether it
  returned an object, \<open>None\<close> is the write through \<^verbatim>\<open>NULL\<close>.
\<close>

definition list_new :: "bool \<Rightarrow> int \<Rightarrow> 'd list_t option" where
  "list_new ok sz =
     (if ok then Some \<lparr>l_first = None, l_last = None, l_size = sz, l_elems = 0, l_heap = empty_heap\<rparr> else None)"

definition list_push :: "bool \<Rightarrow> 'd \<Rightarrow> 'd list_t \<Rightarrow> (bool \<times> 'd list_t) option" where
  "list_push ok data l =
     (if l_elems l < l_size l then
        (if ok then
           (let (a, h) = c_malloc \<lparr>e_next = None, e_data = data\<rparr> (l_heap l)
            in do {
                 h' \<leftarrow> (case l_last l of
                          None \<Rightarrow> Some h
                        | Some t \<Rightarrow> do { e \<leftarrow> cells h t; c_store t (e\<lparr>e_next := Some a\<rparr>) h });
                 Some (True, l\<lparr>l_heap := h', l_last := Some a,
                   l_first := (if l_first l = None then Some a else l_first l), l_elems := l_elems l + 1\<rparr>) })
         else None)
      else Some (False, l))"

definition list_pop :: "'d list_t \<Rightarrow> ('d option \<times> 'd list_t) option" where
  "list_pop l =
     (if l_elems l > 0 then
        (case l_first l of
           None \<Rightarrow> None
         | Some a \<Rightarrow> do {
             e \<leftarrow> cells (l_heap l) a;
             h \<leftarrow> c_free a (l_heap l);
             Some (Some (e_data e), l\<lparr>l_last := (if Some a = l_last l then e_next e else l_last l),
               l_first := e_next e, l_elems := l_elems l - 1, l_heap := h\<rparr>) })
      else Some (None, l))"

definition list_first :: "'d list_t \<Rightarrow> nat option" where
  "list_first l = l_first l"

definition list_elems :: "'d list_t \<Rightarrow> int" where
  "list_elems l = l_elems l"

text \<open>\<open>list_delete\<close> ends at the first \<open>NULL\<close>: the empty list, as the stored data are not \<^verbatim>\<open>NULL\<close>.\<close>

partial_function (option) list_delete :: "'d list_t \<Rightarrow> 'd list_t option" where
  "list_delete l = do {
     (d, l') \<leftarrow> list_pop l;
     if d \<noteq> None then list_delete l' else Some l' }"

partial_function (option) remove_loop ::
    "'d \<Rightarrow> nat option \<Rightarrow> nat option \<Rightarrow> 'd list_t \<Rightarrow> (bool \<times> 'd list_t) option" where
  "remove_loop x e p l = (case e of
     None \<Rightarrow> Some (False, l)
   | Some a \<Rightarrow> do {
       c \<leftarrow> cells (l_heap l) a;
       if e_data c = x then do {
         l1 \<leftarrow> (case p of
                  None \<Rightarrow> Some (l\<lparr>l_first := e_next c\<rparr>)
                | Some b \<Rightarrow> do { d \<leftarrow> cells (l_heap l) b; h \<leftarrow> c_store b (d\<lparr>e_next := e_next c\<rparr>) (l_heap l);
                                Some (l\<lparr>l_heap := h\<rparr>) });
         l2 \<leftarrow> (if l_last l1 = Some a then
                  (case p of
                     None \<Rightarrow> Some (l1\<lparr>l_last := None\<rparr>)
                   | Some b \<Rightarrow> do { d \<leftarrow> cells (l_heap l1) b; h \<leftarrow> c_store b (d\<lparr>e_next := None\<rparr>) (l_heap l1);
                                   Some (l1\<lparr>l_last := Some b, l_heap := h\<rparr>) })
                else Some l1);
         h \<leftarrow> c_free a (l_heap l2);
         Some (True, l2\<lparr>l_heap := h, l_elems := l_elems l2 - 1\<rparr>) }
       else remove_loop x (e_next c) (Some a) l })"

definition list_remove :: "'d \<Rightarrow> 'd list_t \<Rightarrow> (bool \<times> 'd list_t) option" where
  "list_remove x l = remove_loop x (l_first l) None l"

partial_function (option) map_loop :: "('d \<Rightarrow> 's \<Rightarrow> 's) \<Rightarrow> nat option \<Rightarrow> 'd list_t \<Rightarrow> 's \<Rightarrow> 's option" where
  "map_loop func e l s = (case e of
     None \<Rightarrow> Some s
   | Some a \<Rightarrow> do { c \<leftarrow> cells (l_heap l) a; map_loop func (e_next c) l (func (e_data c) s) })"

definition list_map :: "('d \<Rightarrow> 's \<Rightarrow> 's) \<Rightarrow> 'd list_t \<Rightarrow> 's \<Rightarrow> 's option" where
  "list_map func l s = map_loop func (l_first l) l s"

subsection \<open>The list as a queue\<close>

text \<open>The elements \<open>as\<close> with the data \<open>ds\<close>, linked from \<open>p\<close> to \<open>z\<close>.\<close>

fun lpath :: "(nat \<Rightarrow> 'd elem option) \<Rightarrow> nat option \<Rightarrow> nat list \<Rightarrow> 'd list \<Rightarrow> nat option \<Rightarrow> bool" where
  "lpath c p [] ds z = (p = z \<and> ds = [])"
| "lpath c p (a # as) ds z =
     (p = Some a \<and> (\<exists>e dt. c a = Some e \<and> ds = e_data e # dt \<and> lpath c (e_next e) as dt z))"

definition list_rep :: "'d list_t \<Rightarrow> 'd list \<Rightarrow> bool" where
  "list_rep l ds \<longleftrightarrow> (\<exists>as. lpath (cells (l_heap l)) (l_first l) as ds None \<and> distinct as \<and>
     l_last l = (if as = [] then None else Some (last as)) \<and> l_elems l = int (length ds) \<and> cheap_ok (l_heap l))"

definition list_cap :: "'d list_t \<Rightarrow> nat" where
  "list_cap l = nat (l_size l)"

lemma lpath_append: "lpath c p (us @ vs) ds z \<longleftrightarrow> (\<exists>q d1 d2. ds = d1 @ d2 \<and> lpath c p us d1 q \<and> lpath c q vs d2 z)"
proof (induction us arbitrary: p ds)
  case (Cons a us)
  show ?case
  proof
    assume "lpath c p ((a # us) @ vs) ds z"
    then obtain e dt where e: "p = Some a" "c a = Some e" "ds = e_data e # dt" "lpath c (e_next e) (us @ vs) dt z" by auto
    then obtain q d1 d2 where "dt = d1 @ d2" "lpath c (e_next e) us d1 q" "lpath c q vs d2 z" using Cons.IH by blast
    then show "\<exists>q d1 d2. ds = d1 @ d2 \<and> lpath c p (a # us) d1 q \<and> lpath c q vs d2 z"
      using e by (intro exI [of _ q] exI [of _ "e_data e # d1"] exI [of _ d2]) auto
  next
    assume "\<exists>q d1 d2. ds = d1 @ d2 \<and> lpath c p (a # us) d1 q \<and> lpath c q vs d2 z"
    then show "lpath c p ((a # us) @ vs) ds z" using Cons.IH by fastforce
  qed
qed simp

lemma lpath_cong: "(\<And>a. a \<in> set as \<Longrightarrow> c a = c' a) \<Longrightarrow> lpath c p as ds z = lpath c' p as ds z"
  by (induction as arbitrary: p ds) auto

lemma lpath_length: "lpath c p as ds z \<Longrightarrow> length ds = length as"
  by (induction as arbitrary: p ds) auto

lemma lpath_live: "lpath c p as ds z \<Longrightarrow> a \<in> set as \<Longrightarrow> c a \<noteq> None"
  by (induction as arbitrary: p ds) auto

text \<open>Redirecting the last element of a segment.\<close>

lemma lpath_redirect:
  assumes "lpath c p us d1 q" "distinct us" "us \<noteq> []" "c (last us) = Some e"
  shows "lpath (c(last us \<mapsto> e\<lparr>e_next := z\<rparr>)) p us d1 z"
  using assms
proof (induction us arbitrary: p d1)
  case (Cons a us)
  obtain ea dt where ea: "p = Some a" "c a = Some ea" "d1 = e_data ea # dt" "lpath c (e_next ea) us dt q"
    using Cons.prems(1) by auto
  show ?case
  proof (cases "us = []")
    case True
    then show ?thesis using Cons.prems ea by auto
  next
    case False
    have e: "c (last us) = Some e" "distinct us" using Cons.prems False by auto
    have IH: "lpath (c(last us \<mapsto> e\<lparr>e_next := z\<rparr>)) (e_next ea) us dt z" by (rule Cons.IH [OF ea(4) e(2) False e(1)])
    have "last us \<in> set us" using False by simp
    then have "a \<noteq> last us" using Cons.prems(2) by auto
    moreover have l: "last (a # us) = last us" using False by simp
    ultimately show ?thesis unfolding l lpath.simps using ea IH by (intro conjI exI [of _ ea] exI [of _ dt]) auto
  qed
qed simp

lemma lpath_snoc:
  assumes "lpath c p as ds None" "distinct as" "as \<noteq> []" "c (last as) = Some e" "b \<notin> set as"
  shows "lpath (c(b \<mapsto> \<lparr>e_next = None, e_data = d\<rparr>, last as \<mapsto> e\<lparr>e_next := Some b\<rparr>)) p (as @ [b]) (ds @ [d]) None"
proof -
  let ?c = "c(b \<mapsto> \<lparr>e_next = None, e_data = d\<rparr>, last as \<mapsto> e\<lparr>e_next := Some b\<rparr>)"
  have "last as \<noteq> b" using assms(3,5) last_in_set by blast
  then have "?c b = Some \<lparr>e_next = None, e_data = d\<rparr>" by simp
  moreover have "lpath ?c p as ds (Some b) = lpath (c(last as \<mapsto> e\<lparr>e_next := Some b\<rparr>)) p as ds (Some b)"
    by (rule lpath_cong) (use assms(5) in auto)
  ultimately show ?thesis using lpath_redirect [OF assms(1-4), of "Some b"]
    by (auto simp: lpath_append simp del: fun_upd_apply)
qed

lemma list_push_rep:
  assumes "list_rep l ds"
  shows "\<exists>l'. list_push True d l = Some (length ds < list_cap l, l') \<and>
    list_rep l' (if length ds < list_cap l then ds @ [d] else ds) \<and> list_cap l' = list_cap l"
proof -
  obtain as where as: "lpath (cells (l_heap l)) (l_first l) as ds None" "distinct as" "cheap_ok (l_heap l)"
    "l_last l = (if as = [] then None else Some (last as))" "l_elems l = int (length ds)"
    using assms by (auto simp: list_rep_def)
  have room: "l_elems l < l_size l \<longleftrightarrow> length ds < list_cap l" using as(5) by (auto simp: list_cap_def)
  show ?thesis
  proof (cases "length ds < list_cap l")
    case False
    then show ?thesis using room assms by (simp add: list_push_def)
  next
    case True
    define b where "b = brk (l_heap l)"
    have bn: "b \<notin> set as" using lpath_live [OF as(1), of b] as(3) by (auto simp: b_def cheap_ok_def)
    show ?thesis
    proof (cases "as = []")
      case e: True
      then have "ds = []" "l_first l = None" using as(1) by auto
      then show ?thesis using True room e as(3-5)
        by (auto simp: list_push_def c_malloc_def list_rep_def list_cap_def cheap_ok_def Let_def intro!: exI [of _ "[b]"] simp flip: b_def)
    next
      case ne: False
      then obtain a as' where c: "as = a # as'" by (cases as) auto
      obtain e where e: "cells (l_heap l) (last as) = Some e" using lpath_live [OF as(1), of "last as"] ne by auto
      have lb: "last as \<noteq> b" using bn ne by (metis last_in_set)
      let ?c = "(cells (l_heap l))(b \<mapsto> \<lparr>e_next = None, e_data = d\<rparr>, last as \<mapsto> e\<lparr>e_next := Some b\<rparr>)"
      let ?l = "l\<lparr>l_heap := \<lparr>cells = ?c, brk = b + 1\<rparr>, l_last := Some b, l_elems := l_elems l + 1\<rparr>"
      have fl: "l_first l = Some a" using as(1) c by simp
      have "list_push True d l = Some (True, ?l)"
        using True room ne as(4) e lb fl by (simp add: list_push_def c_malloc_def c_store_def Let_def fun_upd_twist flip: b_def)
      moreover have "lpath ?c (l_first l) (as @ [b]) (ds @ [d]) None" by (rule lpath_snoc [OF as(1,2) ne e bn])
      moreover have "cheap_ok \<lparr>cells = ?c, brk = b + 1\<rparr>"
        using as(3) e by (auto simp: cheap_ok_def b_def)
      ultimately have "list_rep ?l (ds @ [d])" using as(2,5) bn
        unfolding list_rep_def by (intro exI [of _ "as @ [b]"]) (simp del: fun_upd_apply)
      then show ?thesis using \<open>list_push True d l = Some (True, ?l)\<close> True by (auto simp: list_cap_def)
    qed
  qed
qed

lemma list_pop_rep:
  assumes "list_rep l ds"
  shows "\<exists>l'. list_pop l = Some (if ds = [] then None else Some (hd ds), l') \<and> list_rep l' (tl ds) \<and> list_cap l' = list_cap l"
proof -
  obtain as where as: "lpath (cells (l_heap l)) (l_first l) as ds None" "distinct as" "cheap_ok (l_heap l)"
    "l_last l = (if as = [] then None else Some (last as))" "l_elems l = int (length ds)"
    using assms by (auto simp: list_rep_def)
  show ?thesis
  proof (cases as)
    case Nil
    then have "ds = []" using as(1) by simp
    then show ?thesis using as(5) assms by (simp add: list_pop_def)
  next
    case (Cons a as')
    then obtain e dt where e: "l_first l = Some a" "cells (l_heap l) a = Some e" "ds = e_data e # dt"
      "lpath (cells (l_heap l)) (e_next e) as' dt None" using as(1) by auto
    let ?h = "(l_heap l)\<lparr>cells := (cells (l_heap l))(a := None)\<rparr>"
    let ?l = "l\<lparr>l_last := (if Some a = l_last l then e_next e else l_last l), l_first := e_next e,
      l_elems := l_elems l - 1, l_heap := ?h\<rparr>"
    have p: "list_pop l = Some (Some (e_data e), ?l)" using e as(5) by (simp add: list_pop_def c_free_def)
    have na: "a \<notin> set as'" using as(2) Cons by simp
    have "lpath (cells ?h) (e_next e) as' dt None" using e(4) by (subst lpath_cong [of as' _ "cells (l_heap l)"]) (use na in auto)
    moreover have "(if Some a = l_last l then e_next e else l_last l) = (if as' = [] then None else Some (last as'))"
      using as(4) Cons na e(4) by (cases as') auto
    ultimately have "list_rep ?l dt" using as(2,3,5) e(2,3) Cons cheap_ok_upd [of "l_heap l" a None]
      unfolding list_rep_def by (intro exI [of _ as']) (auto simp del: fun_upd_apply)
    then show ?thesis using p e(3) by (auto simp: list_cap_def)
  qed
qed

interpretation plist: fifo list_rep list_cap "list_push True" list_pop
  by unfold_locales (rule list_push_rep, assumption, rule list_pop_rep, assumption)


lemma remove_loop_miss:
  assumes "lpath (cells (l_heap l)) e vs ds None" "x \<notin> set ds"
  shows "remove_loop x e p l = Some (False, l)"
  using assms
proof (induction vs arbitrary: e p ds)
  case Nil
  then show ?case by (subst remove_loop.simps) simp
next
  case (Cons a vs)
  then obtain c dt where c: "e = Some a" "cells (l_heap l) a = Some c" "ds = e_data c # dt" "lpath (cells (l_heap l)) (e_next c) vs dt None"
    by auto
  then show ?case using Cons.IH [OF c(4)] Cons.prems(2) by (subst remove_loop.simps) auto
qed

lemma remove_loop_skip:
  assumes "lpath (cells (l_heap l)) e us d1 q" "x \<notin> set d1"
  shows "remove_loop x e p l = remove_loop x q (if us = [] then p else Some (last us)) l"
  using assms
proof (induction us arbitrary: e p d1)
  case (Cons a us)
  then obtain c dt where c: "e = Some a" "cells (l_heap l) a = Some c" "d1 = e_data c # dt" "lpath (cells (l_heap l)) (e_next c) us dt q"
    by auto
  have "remove_loop x e p l = remove_loop x (e_next c) (Some a) l"
    using c Cons.prems(2) by (subst remove_loop.simps) auto
  then show ?case using Cons.IH [OF c(4), of "Some a"] Cons.prems(2) c(3) by auto
qed simp


lemma remove_loop_hit:
  assumes p: "lpath (cells (l_heap l)) (l_first l) us d1 (Some a)" and a: "cells (l_heap l) a = Some e" "e_data e = x"
    and q: "lpath (cells (l_heap l)) (e_next e) vs d2 None" and d: "distinct (us @ a # vs)"
    and l: "l_last l = Some (last (us @ a # vs))" "l_elems l = int (length d1 + 1 + length d2)" "cheap_ok (l_heap l)"
  shows "\<exists>l'. remove_loop x (Some a) (if us = [] then None else Some (last us)) l = Some (True, l') \<and> list_rep l' (d1 @ d2)"
proof (cases "us = []")
  case True
  define c' where "c' = (cells (l_heap l))(a := None)"
  define l' where "l' = l\<lparr>l_first := e_next e, l_last := (if vs = [] then None else Some (last vs)),
    l_heap := (l_heap l)\<lparr>cells := c'\<rparr>, l_elems := l_elems l - 1\<rparr>"
  have d1: "d1 = []" using p True by simp
  have la: "last (a # vs) = a \<longleftrightarrow> vs = []" using d True last_in_set [of vs] by (cases "vs = []") auto
  have "remove_loop x (Some a) None l = Some (True, l')"
    using a True l(1) la by (subst remove_loop.simps) (cases "vs = []", auto simp: c_free_def l'_def c'_def)
  moreover have "lpath c' r vs d2 None = lpath (cells (l_heap l)) r vs d2 None" for r
    by (rule lpath_cong) (use d in \<open>auto simp: c'_def\<close>)
  moreover have "cheap_ok ((l_heap l)\<lparr>cells := c'\<rparr>)" unfolding c'_def using a l(3) by (intro cheap_ok_upd) auto
  ultimately have "list_rep l' (d1 @ d2)" using q d d1 l(2)
    unfolding list_rep_def by (intro exI [of _ vs]) (simp add: l'_def)
  then show ?thesis using \<open>remove_loop x (Some a) None l = Some (True, l')\<close> True by auto
next
  case False
  obtain b eb where b: "last us = b" "cells (l_heap l) b = Some eb" "b \<in> set us"
    using lpath_live [OF p, of "last us"] False by auto
  have ab: "a \<noteq> b" using b(3) d by auto
  define c' where "c' = (cells (l_heap l))(b \<mapsto> eb\<lparr>e_next := e_next e\<rparr>, a := None)"
  define l' where "l' = l\<lparr>l_last := (if vs = [] then Some b else l_last l),
    l_heap := (l_heap l)\<lparr>cells := c'\<rparr>, l_elems := l_elems l - 1\<rparr>"
  have la: "last (us @ a # vs) = a \<longleftrightarrow> vs = []" using d last_in_set [of vs] by (cases "vs = []") auto
  have vn: "vs = [] \<Longrightarrow> e_next e = None" using q by auto
  have "remove_loop x (Some a) (Some b) l = Some (True, l')"
    using a b ab l(1) la vn by (subst remove_loop.simps)
      (cases "vs = []", auto simp: c_free_def c_store_def l'_def c'_def fun_upd_twist)
  moreover have "lpath c' (l_first l) (us @ vs) (d1 @ d2) None"
  proof -
    have "lpath ((cells (l_heap l))(b \<mapsto> eb\<lparr>e_next := e_next e\<rparr>)) (l_first l) us d1 (e_next e)"
      using lpath_redirect [OF p _ False, of eb "e_next e"] b d by simp
    moreover have "lpath c' r us d1 (e_next e) = lpath ((cells (l_heap l))(b \<mapsto> eb\<lparr>e_next := e_next e\<rparr>)) r us d1 (e_next e)" for r
      by (rule lpath_cong) (use d in \<open>auto simp: c'_def\<close>)
    moreover have "lpath c' r vs d2 None = lpath (cells (l_heap l)) r vs d2 None" for r
      by (rule lpath_cong) (use d b(3) in \<open>auto simp: c'_def\<close>)
    ultimately show ?thesis using q unfolding lpath_append by blast
  qed
  moreover have "cheap_ok ((l_heap l)\<lparr>cells := c'\<rparr>)"
    using l(3) a(1) b(2) by (simp add: cheap_ok_def c'_def) (metis option.distinct(1))
  moreover have "l_last l' = Some (last (us @ vs))" using b(1) l(1) False by (simp add: l'_def)
  ultimately have "list_rep l' (d1 @ d2)" using d l(2) False
    unfolding list_rep_def by (intro exI [of _ "us @ vs"]) (auto simp: l'_def)
  then show ?thesis using \<open>remove_loop x (Some a) (Some b) l = Some (True, l')\<close> False b(1) by auto
qed

lemma list_remove_rep:
  assumes "list_rep l ds"
  shows "\<exists>l'. list_remove x l = Some (x \<in> set ds, l') \<and> list_rep l' (remove1 x ds)"
proof -
  obtain as where as: "lpath (cells (l_heap l)) (l_first l) as ds None" "distinct as" "cheap_ok (l_heap l)"
    "l_last l = (if as = [] then None else Some (last as))" "l_elems l = int (length ds)"
    using assms by (auto simp: list_rep_def)
  show ?thesis
  proof (cases "x \<in> set ds")
    case False
    then show ?thesis using remove_loop_miss [OF as(1) False] assms by (simp add: list_remove_def remove1_idem)
  next
    case True
    then obtain d1 d2 where ds: "ds = d1 @ x # d2" "x \<notin> set d1" by (meson split_list_first)
    define n where "n = length d1"
    have len: "length as = length ds" using lpath_length [OF as(1)] by simp
    then obtain a vs where av: "drop n as = a # vs" by (cases "drop n as") (auto simp: ds n_def)
    then have split: "as = take n as @ a # vs" by (metis append_take_drop_id)
    obtain q c1 c2 where c: "ds = c1 @ c2" "lpath (cells (l_heap l)) (l_first l) (take n as) c1 q"
      "lpath (cells (l_heap l)) q (a # vs) c2 None" using as(1) split lpath_append by metis
    have "length c1 = n" using lpath_length [OF c(2)] len ds(1) n_def by simp
    moreover have "c1 @ c2 = d1 @ x # d2" using c(1) ds(1) by simp
    ultimately have c12: "c1 = d1" "c2 = x # d2" by (simp_all add: n_def append_eq_append_conv)
    then obtain e where e: "q = Some a" "cells (l_heap l) a = Some e" "e_data e = x"
      "lpath (cells (l_heap l)) (e_next e) vs d2 None" using c(3) by auto
    note p1 = c(2) [unfolded c12 e(1)]
    have "l_last l = Some (last (take n as @ a # vs))" "l_elems l = int (length d1 + 1 + length d2)"
      using as(4,5) ds(1) av by (subst split [symmetric], auto)
    moreover have "distinct (take n as @ a # vs)" using as(2) split by metis
    ultimately obtain l' where l': "remove_loop x (Some a) (if take n as = [] then None else Some (last (take n as))) l = Some (True, l')"
      "list_rep l' (d1 @ d2)" using remove_loop_hit [OF p1 e(2,3,4)] as(3) by blast
    have "list_remove x l = Some (True, l')"
      using remove_loop_skip [OF p1 ds(2), of None] l'(1) by (simp only: list_remove_def)
    then show ?thesis using True l'(2) ds by (auto simp: remove1_append)
  qed
qed

lemma map_loop_rep:
  "lpath (cells (l_heap l)) p as ds None \<Longrightarrow> map_loop func p l s = Some (fold func ds s)"
proof (induction as arbitrary: p ds s)
  case Nil
  then show ?case by (subst map_loop.simps) simp
next
  case (Cons a as)
  then show ?case by (subst map_loop.simps) auto
qed

lemma list_map_rep: "list_rep l ds \<Longrightarrow> list_map func l s = Some (fold func ds s)"
  by (auto simp: list_map_def list_rep_def map_loop_rep)

lemma list_delete_rep: "list_rep l ds \<Longrightarrow> \<exists>l'. list_delete l = Some l' \<and> list_rep l' []"
proof (induction ds arbitrary: l)
  case Nil
  then show ?case using list_pop_rep [OF Nil] by (subst list_delete.simps) auto
next
  case (Cons d ds)
  then show ?case using list_pop_rep [OF Cons.prems] by (subst list_delete.simps) auto
qed

lemma list_new_rep: "\<exists>l. list_new True n = Some l \<and> list_rep l [] \<and> list_cap l = nat n"
  by (auto simp: list_new_def list_rep_def list_cap_def intro!: exI [of _ "[]"])

subsection \<open>Properties\<close>



text \<open>
  \<open>list_remove\<close> removes the first element with the given data, wherever it is in the list
  (head, middle or tail), reports whether there was one, frees its element, and leaves a list whose
  \<open>last\<close> pointer and element count are right for the remaining data.
\<close>

lemma list_remove_correct:
  assumes "list_rep l ds"
  shows "\<exists>l'. list_remove x l = Some (x \<in> set ds, l') \<and> list_rep l' (remove1 x ds)"
  using assms by (rule list_remove_rep)

end
