(* ===== verification/Pbuf.thy ===== *)
theory Pbuf
  imports Mem_Heap Memp
begin

text \<open>
  Packet buffers, \<^verbatim>\<open>lwip/src/core/pbuf.c\<close> and \<^verbatim>\<open>lwip/src/include/lwip/pbuf.h\<close>, on top of the
  heap and the element pools. A pointer to a \<^verbatim>\<open>struct pbuf\<close> says where the structure lives: in the
  heap (at the address \<open>mem_malloc\<close> returned), in the pool of bare structures, in the pool of
  structures with a buffer, or in memory of the caller (a custom pbuf). \<open>pb\<close> holds the live
  structures; reading another address is \<open>None\<close>. A payload pointer is a buffer with an offset:
  the memory that follows a structure (\<open>Own\<close>) or a buffer of the application (\<open>App\<close>); \<open>dat\<close>
  holds the bytes of the buffers. \<open>junk\<close> stands for whatever fresh heap memory contains.
\<close>

subsection \<open>Types\<close>

datatype ptr = Heap nat | Pbuf_elem nat | Pool_elem nat | Custom nat

datatype buf = Own ptr | App nat

type_synonym address = "(buf \<times> int) option"

record pbuf =
  pb_next :: "ptr option"
  payload :: address
  tot_len :: u16
  pb_len :: u16
  type_internal :: u8
  pb_flags :: u8
  pb_ref :: u8
  if_idx :: u8

datatype pbuf_type = PBUF_RAM | PBUF_ROM | PBUF_REF | PBUF_POOL

fun type_u8 :: "pbuf_type \<Rightarrow> u8" where
  "type_u8 PBUF_RAM = 0x80"
| "type_u8 PBUF_ROM = 0x01"
| "type_u8 PBUF_REF = 0x41"
| "type_u8 PBUF_POOL = 0x82"

datatype pbuf_layer = PBUF_TRANSPORT | PBUF_IP | PBUF_LINK | PBUF_RAW_TX | PBUF_RAW

fun layer_hlen :: "pbuf_layer \<Rightarrow> nat" where
  "layer_hlen PBUF_TRANSPORT = 74"
| "layer_hlen PBUF_IP = 54"
| "layer_hlen PBUF_LINK = 14"
| "layer_hlen PBUF_RAW_TX = 0"
| "layer_hlen PBUF_RAW = 0"

abbreviation SIZEOF_STRUCT_PBUF :: nat where "SIZEOF_STRUCT_PBUF \<equiv> 24"
abbreviation PBUF_POOL_BUFSIZE_ALIGNED :: nat where "PBUF_POOL_BUFSIZE_ALIGNED \<equiv> 1520"
abbreviation PBUF_FLAG_IS_CUSTOM :: u8 where "PBUF_FLAG_IS_CUSTOM \<equiv> 0x02"
abbreviation TCPIP_MBOX_SIZE :: nat where "TCPIP_MBOX_SIZE \<equiv> 100"

record pmem =
  hp :: mheap
  pools :: memp_pools
  pb :: "ptr \<Rightarrow> pbuf option"
  dat :: "buf \<Rightarrow> bytes"
  junk :: "nat \<Rightarrow> u8"
  custom_fn :: "ptr \<Rightarrow> nat option"
  custom_freed :: "ptr list"
  ooseq_pending :: bool
  tcpip_mbox :: "nat list"

definition deref :: "ptr option \<Rightarrow> pmem \<Rightarrow> pbuf option" where
  "deref p m = (case p of None \<Rightarrow> None | Some x \<Rightarrow> pb m x)"

definition put_pb :: "ptr \<Rightarrow> pbuf \<Rightarrow> pmem \<Rightarrow> pmem" where
  "put_pb x b m = m\<lparr>pb := (pb m)(x \<mapsto> b)\<rparr>"

text \<open>Pointer arithmetic and \<^verbatim>\<open>MEMCPY\<close>: a copy of bytes outside the buffer is \<open>None\<close>.\<close>

definition shift :: "address \<Rightarrow> int \<Rightarrow> address" where
  "shift a k = map_option (\<lambda>(b, off). (b, off + k)) a"

definition rd :: "pmem \<Rightarrow> address \<Rightarrow> nat \<Rightarrow> bytes option" where
  "rd m a n = (if n = 0 then Some []
     else case a of
       None \<Rightarrow> None
     | Some (b, off) \<Rightarrow>
         if 0 \<le> off \<and> nat off + n \<le> length (dat m b) then Some (take n (drop (nat off) (dat m b)))
         else None)"

definition wr :: "pmem \<Rightarrow> address \<Rightarrow> bytes \<Rightarrow> pmem option" where
  "wr m a bs = (if bs = [] then Some m
     else case a of
       None \<Rightarrow> None
     | Some (b, off) \<Rightarrow>
         if 0 \<le> off \<and> nat off + length bs \<le> length (dat m b)
         then Some (m\<lparr>dat := (dat m)(b := overwrite (nat off) bs (dat m b))\<rparr>)
         else None)"

subsection \<open>Allocation and release\<close>

text \<open>
  When the pool runs empty, a call of \<^verbatim>\<open>pbuf_free_ooseq\<close> is posted to the TCP/IP thread once:
  \<^verbatim>\<open>tcpip_try_callback\<close> for this one function, with the mailbox of \<^verbatim>\<open>TCPIP_MBOX_SIZE\<close> entries. The theory \<open>Tcpip\<close> models
  the mailbox with all its messages.
\<close>

definition ooseq_try_callback :: "pmem \<Rightarrow> err_t \<times> pmem" where
  "ooseq_try_callback m =
     (let (e, ps) = memp_malloc MEMP_TCPIP_MSG_API (pools m); m1 = m\<lparr>pools := ps\<rparr>
      in case e of
           None \<Rightarrow> (ERR_MEM, m1)
         | Some msg \<Rightarrow>
             if length (tcpip_mbox m1) < TCPIP_MBOX_SIZE
             then (ERR_OK, m1\<lparr>tcpip_mbox := tcpip_mbox m1 @ [msg]\<rparr>)
             else (ERR_MEM, m1\<lparr>pools := memp_free MEMP_TCPIP_MSG_API (Some msg) (pools m1)\<rparr>))"

definition pbuf_pool_is_empty :: "pmem \<Rightarrow> pmem" where
  "pbuf_pool_is_empty m =
     (let queued = ooseq_pending m; m1 = m\<lparr>ooseq_pending := True\<rparr>
      in if \<not> queued
         then (let (err, m2) = ooseq_try_callback m1
               in if err \<noteq> ERR_OK then m2\<lparr>ooseq_pending := False\<rparr> else m2)
         else m1)"

definition pbuf_init_alloced_pbuf ::
    "ptr \<Rightarrow> address \<Rightarrow> u16 \<Rightarrow> u16 \<Rightarrow> pbuf_type \<Rightarrow> u8 \<Rightarrow> pmem \<Rightarrow> pmem" where
  "pbuf_init_alloced_pbuf p pay tot ln ty fl m =
     put_pb p \<lparr>pb_next = None, payload = pay, tot_len = tot, pb_len = ln, type_internal = type_u8 ty,
       pb_flags = fl, pb_ref = 1, if_idx = 0\<rparr> m"

text \<open>
  The release of one structure in \<open>pbuf_free\<close>: a custom pbuf goes to its free function (recorded),
  the others to the allocator their type names. An allocator given a pointer of another one is
  \<open>None\<close>.
\<close>

definition forget :: "ptr \<Rightarrow> pmem \<Rightarrow> pmem" where
  "forget x m = m\<lparr>pb := (pb m)(x := None)\<rparr>"

definition dealloc_pbuf :: "ptr \<Rightarrow> pbuf \<Rightarrow> pmem \<Rightarrow> pmem option" where
  "dealloc_pbuf x b m =
     (if pb_flags b AND PBUF_FLAG_IS_CUSTOM \<noteq> 0
      then (case custom_fn m x of
              None \<Rightarrow> None
            | Some f \<Rightarrow> Some (forget x (m\<lparr>custom_freed := custom_freed m @ [x]\<rparr>)))
      else let alloc_src = type_internal b AND 0x0F
           in if alloc_src = 0x02
              then (case x of Pool_elem i \<Rightarrow>
                      Some (forget x (m\<lparr>pools := memp_free MEMP_PBUF_POOL (Some i) (pools m)\<rparr>)) | _ \<Rightarrow> None)
              else if alloc_src = 0x01
              then (case x of Pbuf_elem i \<Rightarrow>
                      Some (forget x (m\<lparr>pools := memp_free MEMP_PBUF (Some i) (pools m)\<rparr>)) | _ \<Rightarrow> None)
              else if alloc_src = 0x00
              then (case x of Heap c \<Rightarrow> do {
                      h \<leftarrow> mem_free (Some (int c)) (hp m);
                      Some (forget x (m\<lparr>hp := h, dat := (dat m)(Own x := [])\<rparr>)) } | _ \<Rightarrow> None)
              else None)"

partial_function (option) free_loop :: "ptr option \<Rightarrow> u8 \<Rightarrow> pmem \<Rightarrow> (u8 \<times> pmem) option" where
  "free_loop p count m = (case p of
     None \<Rightarrow> Some (count, m)
   | Some x \<Rightarrow> do {
       b \<leftarrow> pb m x;
       require (pb_ref b > 0);
       let r = pb_ref b - 1;
       let m1 = put_pb x (b\<lparr>pb_ref := r\<rparr>) m;
       if r = 0
       then do { m2 \<leftarrow> dealloc_pbuf x b m1; free_loop (pb_next b) (count + 1) m2 }
       else Some (count, m1) })"

definition pbuf_free :: "ptr option \<Rightarrow> pmem \<Rightarrow> (u8 \<times> pmem) option" where
  "pbuf_free p m = (case p of None \<Rightarrow> None | Some x \<Rightarrow> free_loop p 0 m)"

definition pbuf_alloc_reference :: "address \<Rightarrow> u16 \<Rightarrow> pbuf_type \<Rightarrow> pmem \<Rightarrow> (ptr option \<times> pmem) option" where
  "pbuf_alloc_reference pay ln ty m = do {
     require (ty = PBUF_REF \<or> ty = PBUF_ROM);
     let (e, ps) = memp_malloc MEMP_PBUF (pools m);
     let m1 = m\<lparr>pools := ps\<rparr>;
     case e of
       None \<Rightarrow> Some (None, m1)
     | Some i \<Rightarrow> Some (Some (Pbuf_elem i), pbuf_init_alloced_pbuf (Pbuf_elem i) pay ln ln ty 0 m1) }"

definition set_next :: "ptr option \<Rightarrow> ptr option \<Rightarrow> pmem \<Rightarrow> pmem option" where
  "set_next x q m = (case x of None \<Rightarrow> None
     | Some y \<Rightarrow> do { b \<leftarrow> pb m y; Some (put_pb y (b\<lparr>pb_next := q\<rparr>) m) })"

partial_function (option) alloc_pool_loop ::
    "ptr option \<Rightarrow> ptr option \<Rightarrow> u16 \<Rightarrow> nat \<Rightarrow> pmem \<Rightarrow> (ptr option \<times> pmem) option" where
  "alloc_pool_loop p lst rem_len off m =
     (let (e, ps) = memp_malloc MEMP_PBUF_POOL (pools m); m1 = m\<lparr>pools := ps\<rparr>
      in case e of
           None \<Rightarrow>
             (let m2 = pbuf_pool_is_empty m1
              in case p of
                   None \<Rightarrow> Some (None, m2)
                 | Some _ \<Rightarrow> do { (_, m3) \<leftarrow> pbuf_free p m2; Some (None, m3) })
         | Some i \<Rightarrow>
             (let q = Pool_elem i;
                  qlen = min rem_len (of_nat (PBUF_POOL_BUFSIZE_ALIGNED - align_size off));
                  m2 = pbuf_init_alloced_pbuf q (Some (Own q, int (align_size off))) rem_len qlen PBUF_POOL 0 m1
              in do {
                   require (PBUF_POOL_BUFSIZE_ALIGNED > align_size off);
                   m3 \<leftarrow> (if p = None then Some m2 else set_next lst (Some q) m2);
                   let p' = (if p = None then Some q else p);
                   let rem' = rem_len - qlen;
                   if rem' > 0 then alloc_pool_loop p' (Some q) rem' 0 m3 else Some (p', m3) }))"

definition pbuf_alloc :: "pbuf_layer \<Rightarrow> u16 \<Rightarrow> pbuf_type \<Rightarrow> pmem \<Rightarrow> (ptr option \<times> pmem) option" where
  "pbuf_alloc layer ln ty m =
     (let off = layer_hlen layer
      in case ty of
           PBUF_REF \<Rightarrow> pbuf_alloc_reference None ln ty m
         | PBUF_ROM \<Rightarrow> pbuf_alloc_reference None ln ty m
         | PBUF_POOL \<Rightarrow> alloc_pool_loop None None ln off m
         | PBUF_RAM \<Rightarrow>
             (let payload_len = (align_size off + align_size (unat ln)) mod 65536;
                  alloc_len = (SIZEOF_STRUCT_PBUF + payload_len) mod 65536
              in if payload_len < align_size (unat ln) \<or> alloc_len < align_size (unat ln) then Some (None, m)
                 else do {
                   (r, h) \<leftarrow> mem_malloc alloc_len (hp m);
                   let m1 = m\<lparr>hp := h\<rparr>;
                   case r of
                     None \<Rightarrow> Some (None, m1)
                   | Some c \<Rightarrow>
                       Some (Some (Heap c),
                         pbuf_init_alloced_pbuf (Heap c) (Some (Own (Heap c), int (align_size off))) ln ln PBUF_RAM 0
                           (m1\<lparr>dat := (dat m1)(Own (Heap c) := map (junk m1) [0..<payload_len])\<rparr>)) }))"

text \<open>\<open>pbuf_alloced_custom\<close>: the structure \<open>p\<close> and the buffer \<open>payload_mem\<close> are the caller's.\<close>

definition pbuf_alloced_custom ::
    "pbuf_layer \<Rightarrow> u16 \<Rightarrow> pbuf_type \<Rightarrow> nat \<Rightarrow> address \<Rightarrow> u16 \<Rightarrow> pmem \<Rightarrow> ptr option \<times> pmem" where
  "pbuf_alloced_custom l ln ty k payload_mem payload_mem_len m =
     (let off = layer_hlen l
      in if align_size off + unat ln > unat payload_mem_len then (None, m)
         else (Some (Custom k),
               pbuf_init_alloced_pbuf (Custom k) (shift payload_mem (int (align_size off))) ln ln ty
                 PBUF_FLAG_IS_CUSTOM m))"

definition pbuf_ref :: "ptr option \<Rightarrow> pmem \<Rightarrow> pmem option" where
  "pbuf_ref p m = (case p of
     None \<Rightarrow> Some m
   | Some x \<Rightarrow> do {
       b \<leftarrow> pb m x;
       let r = pb_ref b + 1;
       require (r > 0);
       Some (put_pb x (b\<lparr>pb_ref := r\<rparr>) m) })"

subsection \<open>Headers, shrinking, chaining\<close>

text \<open>The result of the header operations is the C result: \<open>True\<close> for the non-zero failure code.\<close>

definition pbuf_add_header_impl :: "ptr option \<Rightarrow> nat \<Rightarrow> bool \<Rightarrow> pmem \<Rightarrow> (bool \<times> pmem) option" where
  "pbuf_add_header_impl p inc force m = (case p of None \<Rightarrow> None | Some x \<Rightarrow>
     if inc > 0xFFFF then Some (True, m)
     else if inc = 0 then Some (False, m)
     else do {
       b \<leftarrow> pb m x;
       let mag = (of_nat inc :: u16);
       if mag + tot_len b < mag then Some (True, m)
       else if type_internal b AND 0x80 \<noteq> 0 then
         (case payload b of
            Some (Own y, off) \<Rightarrow>
              if y = x then
                (if off - int inc < 0 then Some (True, m)
                 else Some (False, put_pb x (b\<lparr>payload := Some (Own y, off - int inc),
                        pb_len := pb_len b + mag, tot_len := tot_len b + mag\<rparr>) m))
              else None
          | _ \<Rightarrow> None)
       else if force then
         (case payload b of
            None \<Rightarrow> None
          | Some (bf, off) \<Rightarrow> Some (False, put_pb x (b\<lparr>payload := Some (bf, off - int inc),
                        pb_len := pb_len b + mag, tot_len := tot_len b + mag\<rparr>) m))
       else Some (True, m) })"

definition pbuf_add_header :: "ptr option \<Rightarrow> nat \<Rightarrow> pmem \<Rightarrow> (bool \<times> pmem) option" where
  "pbuf_add_header p inc m = pbuf_add_header_impl p inc False m"

definition pbuf_add_header_force :: "ptr option \<Rightarrow> nat \<Rightarrow> pmem \<Rightarrow> (bool \<times> pmem) option" where
  "pbuf_add_header_force p inc m = pbuf_add_header_impl p inc True m"

definition pbuf_remove_header :: "ptr option \<Rightarrow> nat \<Rightarrow> pmem \<Rightarrow> (bool \<times> pmem) option" where
  "pbuf_remove_header p dec m = (case p of None \<Rightarrow> None | Some x \<Rightarrow>
     if dec > 0xFFFF then Some (True, m)
     else if dec = 0 then Some (False, m)
     else do {
       b \<leftarrow> pb m x;
       let mag = (of_nat dec :: u16);
       require (mag \<le> pb_len b);
       Some (False, put_pb x (b\<lparr>payload := shift (payload b) (int dec),
         pb_len := pb_len b - mag, tot_len := tot_len b - mag\<rparr>) m) })"

definition pbuf_header_impl :: "ptr option \<Rightarrow> int \<Rightarrow> bool \<Rightarrow> pmem \<Rightarrow> (bool \<times> pmem) option" where
  "pbuf_header_impl p inc force m =
     (if inc < 0 then pbuf_remove_header p (nat (- inc)) m
      else pbuf_add_header_impl p (nat inc) force m)"

definition pbuf_header :: "ptr option \<Rightarrow> int \<Rightarrow> pmem \<Rightarrow> (bool \<times> pmem) option" where
  "pbuf_header p inc m = pbuf_header_impl p inc False m"

definition pbuf_header_force :: "ptr option \<Rightarrow> int \<Rightarrow> pmem \<Rightarrow> (bool \<times> pmem) option" where
  "pbuf_header_force p inc m = pbuf_header_impl p inc True m"

partial_function (option) free_header_loop :: "ptr option \<Rightarrow> u16 \<Rightarrow> pmem \<Rightarrow> (ptr option \<times> pmem) option" where
  "free_header_loop p free_left m =
     (if free_left = 0 then Some (p, m)
      else case p of
        None \<Rightarrow> Some (p, m)
      | Some x \<Rightarrow> do {
          b \<leftarrow> pb m x;
          if free_left \<ge> pb_len b
          then do {
            (_, m1) \<leftarrow> pbuf_free p (put_pb x (b\<lparr>pb_next := None\<rparr>) m);
            free_header_loop (pb_next b) (free_left - pb_len b) m1 }
          else do {
            (_, m1) \<leftarrow> pbuf_remove_header p (unat free_left) m;
            free_header_loop p 0 m1 } })"

definition pbuf_free_header :: "ptr option \<Rightarrow> u16 \<Rightarrow> pmem \<Rightarrow> (ptr option \<times> pmem) option" where
  "pbuf_free_header q msize m = free_header_loop q msize m"

partial_function (option) realloc_loop :: "ptr option \<Rightarrow> u16 \<Rightarrow> u16 \<Rightarrow> pmem \<Rightarrow> (ptr \<times> u16 \<times> pmem) option" where
  "realloc_loop q rem_len shr m = (case q of
     None \<Rightarrow> None
   | Some x \<Rightarrow> do {
       b \<leftarrow> pb m x;
       if rem_len > pb_len b
       then realloc_loop (pb_next b) (rem_len - pb_len b) shr (put_pb x (b\<lparr>tot_len := tot_len b - shr\<rparr>) m)
       else Some (x, rem_len, m) })"

text \<open>The trim of a \<open>PBUF_RAM\<close> pbuf keeps the structure and the bytes up to the wanted length.\<close>

definition trim_ram :: "ptr \<Rightarrow> pbuf \<Rightarrow> u16 \<Rightarrow> pmem \<Rightarrow> pmem option" where
  "trim_ram x b rem_len m =
     (if type_internal b AND 0x0F = 0 \<and> rem_len \<noteq> pb_len b \<and> pb_flags b AND PBUF_FLAG_IS_CUSTOM = 0
      then (case (x, payload b) of
              (Heap c, Some (Own y, off)) \<Rightarrow>
                if y = x \<and> 0 \<le> off then
                  (let new_size = (SIZEOF_STRUCT_PBUF + nat off + unat rem_len) mod 65536
                   in do {
                        (r, h) \<leftarrow> mem_trim c new_size (hp m);
                        require (r \<noteq> None);
                        Some (m\<lparr>hp := h, dat := (dat m)(Own x := take (new_size - SIZEOF_STRUCT_PBUF) (dat m (Own x)))\<rparr>) })
                else None
            | _ \<Rightarrow> None)
      else Some m)"

definition pbuf_realloc :: "ptr option \<Rightarrow> u16 \<Rightarrow> pmem \<Rightarrow> pmem option" where
  "pbuf_realloc p new_len m = (case p of None \<Rightarrow> None | Some x \<Rightarrow> do {
     b0 \<leftarrow> pb m x;
     if new_len \<ge> tot_len b0 then Some m
     else do {
       (q, rem_len, m1) \<leftarrow> realloc_loop p new_len (tot_len b0 - new_len) m;
       b \<leftarrow> pb m1 q;
       m2 \<leftarrow> trim_ram q b rem_len m1;
       let m3 = put_pb q (b\<lparr>pb_len := rem_len, tot_len := rem_len\<rparr>) m2;
       m4 \<leftarrow> (if pb_next b \<noteq> None then do { (_, m') \<leftarrow> pbuf_free (pb_next b) m3; Some m' } else Some m3);
       set_next (Some q) None m4 } })"

partial_function (option) clen_loop :: "ptr option \<Rightarrow> u16 \<Rightarrow> pmem \<Rightarrow> u16 option" where
  "clen_loop p ln m = (case p of None \<Rightarrow> Some ln
     | Some x \<Rightarrow> do { b \<leftarrow> pb m x; clen_loop (pb_next b) (ln + 1) m })"

definition pbuf_clen :: "ptr option \<Rightarrow> pmem \<Rightarrow> u16 option" where
  "pbuf_clen p m = clen_loop p 0 m"

partial_function (option) cat_loop :: "ptr \<Rightarrow> ptr \<Rightarrow> pmem \<Rightarrow> (ptr \<times> pmem) option" where
  "cat_loop p t m = do {
     b \<leftarrow> pb m p;
     case pb_next b of
       None \<Rightarrow> Some (p, m)
     | Some q \<Rightarrow> do {
         tb \<leftarrow> pb m t;
         cat_loop q t (put_pb p (b\<lparr>tot_len := tot_len b + tot_len tb\<rparr>) m) } }"

definition pbuf_cat :: "ptr option \<Rightarrow> ptr option \<Rightarrow> pmem \<Rightarrow> pmem option" where
  "pbuf_cat h t m = (case (h, t) of
     (Some h, Some t) \<Rightarrow> do {
       (p, m1) \<leftarrow> cat_loop h t m;
       b \<leftarrow> pb m1 p;
       require (tot_len b = pb_len b);
       tb \<leftarrow> pb m1 t;
       Some (put_pb p (b\<lparr>tot_len := tot_len b + tot_len tb, pb_next := Some t\<rparr>) m1) }
   | _ \<Rightarrow> None)"

definition pbuf_chain :: "ptr option \<Rightarrow> ptr option \<Rightarrow> pmem \<Rightarrow> pmem option" where
  "pbuf_chain h t m = do { m1 \<leftarrow> pbuf_cat h t m; pbuf_ref t m1 }"

definition pbuf_dechain :: "ptr option \<Rightarrow> pmem \<Rightarrow> (ptr option \<times> pmem) option" where
  "pbuf_dechain p m = (case p of None \<Rightarrow> None | Some x \<Rightarrow> do {
     b \<leftarrow> pb m x;
     (case pb_next b of
        None \<Rightarrow> do { require (tot_len b = pb_len b); Some (None, m) }
      | Some q \<Rightarrow> do {
          qb \<leftarrow> pb m q;
          require (int (unat (tot_len qb)) = int (unat (tot_len b)) - int (unat (pb_len b)));
          let m1 = put_pb q (qb\<lparr>tot_len := tot_len b - pb_len b\<rparr>) m;
          b1 \<leftarrow> pb m1 x;
          (gone, m2) \<leftarrow> pbuf_free (Some q) (put_pb x (b1\<lparr>pb_next := None, tot_len := pb_len b1\<rparr>) m1);
          b2 \<leftarrow> pb m2 x;
          require (tot_len b2 = pb_len b2);
          Some (if gone > 0 then None else Some q, m2) }) })"

subsection \<open>Copying and access to the data\<close>

partial_function (option) copy_loop ::
    "ptr option \<Rightarrow> nat \<Rightarrow> ptr option \<Rightarrow> nat \<Rightarrow> pmem \<Rightarrow> (err_t \<times> pmem) option" where
  "copy_loop p_to offset_to p_from offset_from m = do {
     bt \<leftarrow> deref p_to m;
     bf \<leftarrow> deref p_from m;
     let n = (if unat (pb_len bt) - offset_to \<ge> unat (pb_len bf) - offset_from
              then unat (pb_len bf) - offset_from else unat (pb_len bt) - offset_to);
     bs \<leftarrow> rd m (shift (payload bf) (int offset_from)) n;
     m1 \<leftarrow> wr m (shift (payload bt) (int offset_to)) bs;
     let ot = offset_to + n;
     let fo = offset_from + n;
     require (ot \<le> unat (pb_len bt));
     require (fo \<le> unat (pb_len bf));
     let (fo2, from2) = (if fo \<ge> unat (pb_len bf) then (0, pb_next bf) else (fo, p_from));
     let (ot2, to2) = (if ot = unat (pb_len bt) then (0, pb_next bt) else (ot, p_to));
     require (ot = unat (pb_len bt) \<longrightarrow> to2 \<noteq> None \<or> from2 = None);
     (if from2 \<noteq> None
      then do { b \<leftarrow> deref from2 m1; require (pb_len b = tot_len b \<longrightarrow> pb_next b = None) } else Some ());
     (if to2 \<noteq> None
      then do { b \<leftarrow> deref to2 m1; require (pb_len b = tot_len b \<longrightarrow> pb_next b = None) } else Some ());
     if from2 \<noteq> None then copy_loop to2 ot2 from2 fo2 m1 else Some (ERR_OK, m1) }"

definition pbuf_copy :: "ptr option \<Rightarrow> ptr option \<Rightarrow> pmem \<Rightarrow> (err_t \<times> pmem) option" where
  "pbuf_copy p_to p_from m = do {
     bt \<leftarrow> deref p_to m;
     bf \<leftarrow> deref p_from m;
     require (tot_len bt \<ge> tot_len bf);
     copy_loop p_to 0 p_from 0 m }"

text \<open>
  The destination of \<open>pbuf_copy_partial\<close> is a buffer of the caller, given by its content; the new
  content is returned with the number of bytes copied.
\<close>

definition put_bytes :: "bytes \<Rightarrow> nat \<Rightarrow> bytes \<Rightarrow> bytes option" where
  "put_bytes dst i bs = (if i + length bs \<le> length dst then Some (overwrite i bs dst) else None)"

partial_function (option) copy_partial_loop ::
    "ptr option \<Rightarrow> bytes \<Rightarrow> u16 \<Rightarrow> u16 \<Rightarrow> u16 \<Rightarrow> pmem \<Rightarrow> (u16 \<times> bytes) option" where
  "copy_partial_loop p dst ln off left m =
     (if ln = 0 then Some (left, dst)
      else case p of
        None \<Rightarrow> Some (left, dst)
      | Some x \<Rightarrow> do {
          b \<leftarrow> pb m x;
          if off \<noteq> 0 \<and> off \<ge> pb_len b
          then copy_partial_loop (pb_next b) dst ln (off - pb_len b) left m
          else do {
            let n = (if pb_len b - off > ln then ln else pb_len b - off);
            bs \<leftarrow> rd m (shift (payload b) (int (unat off))) (unat n);
            dst' \<leftarrow> put_bytes dst (unat left) bs;
            copy_partial_loop (pb_next b) dst' (ln - n) 0 (left + n) m } })"

definition pbuf_copy_partial ::
    "ptr option \<Rightarrow> bytes option \<Rightarrow> u16 \<Rightarrow> u16 \<Rightarrow> pmem \<Rightarrow> (u16 \<times> bytes) option" where
  "pbuf_copy_partial p dataptr ln off m = do {
     require (p \<noteq> None);
     dst \<leftarrow> dataptr;
     copy_partial_loop p dst ln off 0 m }"

partial_function (option) pbuf_skip_const :: "ptr option \<Rightarrow> u16 \<Rightarrow> pmem \<Rightarrow> (ptr option \<times> u16) option" where
  "pbuf_skip_const q offset_left m = (case q of
     None \<Rightarrow> Some (None, offset_left)
   | Some x \<Rightarrow> do {
       b \<leftarrow> pb m x;
       if pb_len b \<le> offset_left then pbuf_skip_const (pb_next b) (offset_left - pb_len b) m
       else Some (Some x, offset_left) })"

definition pbuf_skip :: "ptr option \<Rightarrow> u16 \<Rightarrow> pmem \<Rightarrow> (ptr option \<times> u16) option" where
  "pbuf_skip q off m = pbuf_skip_const q off m"

datatype contiguous = No_data | In_pbuf address | In_buffer bytes

definition pbuf_get_contiguous ::
    "ptr option \<Rightarrow> bytes option \<Rightarrow> u16 \<Rightarrow> u16 \<Rightarrow> pmem \<Rightarrow> contiguous option" where
  "pbuf_get_contiguous p buffer ln off m = do {
     require (p \<noteq> None);
     dst \<leftarrow> buffer;
     require (unat ln \<le> length dst);
     (q, out) \<leftarrow> pbuf_skip_const p off m;
     case q of
       None \<Rightarrow> Some No_data
     | Some x \<Rightarrow> do {
         b \<leftarrow> pb m x;
         if unat (pb_len b) \<ge> unat out + unat ln
         then Some (In_pbuf (shift (payload b) (int (unat out))))
         else do {
           (n, dst') \<leftarrow> pbuf_copy_partial q buffer ln out m;
           Some (if n \<noteq> ln then No_data else In_buffer dst') } } }"

text \<open>
  \<open>pbuf_take\<close>: the source is the caller's buffer \<open>dataptr\<close>; reading past its end is \<open>None\<close>. A
  \<^verbatim>\<open>LWIP_ERROR\<close> stops the program, so the only value returned is \<open>ERR_OK\<close>.
\<close>

partial_function (option) take_loop :: "ptr option \<Rightarrow> bytes \<Rightarrow> nat \<Rightarrow> nat \<Rightarrow> pmem \<Rightarrow> (nat \<times> pmem) option" where
  "take_loop p src total_copy_len copied_total m =
     (if total_copy_len = 0 then Some (copied_total, m)
      else case p of
        None \<Rightarrow> None
      | Some x \<Rightarrow> do {
          b \<leftarrow> pb m x;
          let n = (if total_copy_len > unat (pb_len b) then unat (pb_len b) else total_copy_len);
          require (copied_total + n \<le> length src);
          m1 \<leftarrow> wr m (payload b) (take n (drop copied_total src));
          take_loop (pb_next b) src (total_copy_len - n) (copied_total + n) m1 })"

definition pbuf_take :: "ptr option \<Rightarrow> bytes option \<Rightarrow> u16 \<Rightarrow> pmem \<Rightarrow> (err_t \<times> pmem) option" where
  "pbuf_take p dataptr ln m = do {
     b \<leftarrow> deref p m;
     src \<leftarrow> dataptr;
     require (tot_len b \<ge> ln);
     (copied, m1) \<leftarrow> take_loop p src (unat ln) 0 m;
     require (copied = unat ln);
     Some (ERR_OK, m1) }"

definition pbuf_take_at :: "ptr option \<Rightarrow> bytes option \<Rightarrow> u16 \<Rightarrow> u16 \<Rightarrow> pmem \<Rightarrow> (err_t \<times> pmem) option" where
  "pbuf_take_at p dataptr ln off m = do {
     (q, target) \<leftarrow> pbuf_skip p off m;
     case q of
       None \<Rightarrow> Some (ERR_MEM, m)
     | Some x \<Rightarrow> do {
         b \<leftarrow> pb m x;
         if unat (tot_len b) \<ge> unat target + unat ln
         then do {
           require (target < pb_len b);
           let first = min (unat (pb_len b) - unat target) (unat ln);
           src \<leftarrow> dataptr;
           require (first \<le> length src);
           m1 \<leftarrow> wr m (shift (payload b) (int (unat target))) (take first src);
           let remaining = ln - of_nat first;
           if remaining > 0 then pbuf_take (pb_next b) (Some (drop first src)) remaining m1
           else Some (ERR_OK, m1) }
         else Some (ERR_MEM, m) } }"

definition pbuf_clone :: "pbuf_layer \<Rightarrow> pbuf_type \<Rightarrow> ptr option \<Rightarrow> pmem \<Rightarrow> (ptr option \<times> pmem) option" where
  "pbuf_clone layer ty p m = do {
     b \<leftarrow> deref p m;
     (q, m1) \<leftarrow> pbuf_alloc layer (tot_len b) ty m;
     if q = None then Some (None, m1)
     else do { (err, m2) \<leftarrow> pbuf_copy q p m1; require (err = ERR_OK); Some (q, m2) } }"

definition pbuf_coalesce :: "ptr option \<Rightarrow> pbuf_layer \<Rightarrow> pmem \<Rightarrow> (ptr option \<times> pmem) option" where
  "pbuf_coalesce p layer m = do {
     b \<leftarrow> deref p m;
     if pb_next b = None then Some (p, m)
     else do {
       (q, m1) \<leftarrow> pbuf_clone layer PBUF_RAM p m;
       if q = None then Some (p, m1)
       else do { (_, m2) \<leftarrow> pbuf_free p m1; Some (q, m2) } } }"

definition pbuf_try_get_at :: "ptr option \<Rightarrow> u16 \<Rightarrow> pmem \<Rightarrow> int option" where
  "pbuf_try_get_at p off m = do {
     (q, idx) \<leftarrow> pbuf_skip_const p off m;
     case q of
       None \<Rightarrow> Some (- 1)
     | Some x \<Rightarrow> do {
         b \<leftarrow> pb m x;
         if pb_len b > idx
         then do { bs \<leftarrow> rd m (shift (payload b) (int (unat idx))) 1; Some (int (unat (hd bs))) }
         else Some (- 1) } }"

definition pbuf_get_at :: "ptr option \<Rightarrow> u16 \<Rightarrow> pmem \<Rightarrow> u8 option" where
  "pbuf_get_at p off m = do { r \<leftarrow> pbuf_try_get_at p off m; Some (if r \<ge> 0 then of_int r else 0) }"

definition pbuf_put_at :: "ptr option \<Rightarrow> u16 \<Rightarrow> u8 \<Rightarrow> pmem \<Rightarrow> pmem option" where
  "pbuf_put_at p off v m = do {
     (q, idx) \<leftarrow> pbuf_skip p off m;
     case q of
       None \<Rightarrow> Some m
     | Some x \<Rightarrow> do {
         b \<leftarrow> pb m x;
         if pb_len b > idx then wr m (shift (payload b) (int (unat idx))) [v] else Some m } }"

partial_function (option) memcmp_loop :: "ptr option \<Rightarrow> u16 \<Rightarrow> bytes \<Rightarrow> u16 \<Rightarrow> u16 \<Rightarrow> pmem \<Rightarrow> u16 option" where
  "memcmp_loop q start s2 n i m =
     (if i < n then do {
        a \<leftarrow> pbuf_get_at q (start + i) m;
        require (unat i < length s2);
        if a \<noteq> s2 ! unat i then Some (of_nat (min (unat i + 1) 0xFFFF))
        else memcmp_loop q start s2 n (i + 1) m }
      else Some 0)"

definition pbuf_memcmp :: "ptr option \<Rightarrow> u16 \<Rightarrow> bytes \<Rightarrow> u16 \<Rightarrow> pmem \<Rightarrow> u16 option" where
  "pbuf_memcmp p off s2 n m = do {
     b \<leftarrow> deref p m;
     if unat (tot_len b) < unat off + unat n then Some 0xFFFF
     else do { (q, start) \<leftarrow> pbuf_skip_const p off m; memcmp_loop q start s2 n 0 m } }"

partial_function (option) memfind_loop :: "ptr option \<Rightarrow> bytes \<Rightarrow> u16 \<Rightarrow> u16 \<Rightarrow> u16 \<Rightarrow> pmem \<Rightarrow> u16 option" where
  "memfind_loop p mem mem_len max_start i m =
     (if i \<le> max_start then do {
        plus \<leftarrow> pbuf_memcmp p i mem mem_len m;
        if plus = 0 then Some i else memfind_loop p mem mem_len max_start (i + 1) m }
      else Some 0xFFFF)"

definition pbuf_memfind :: "ptr option \<Rightarrow> bytes \<Rightarrow> u16 \<Rightarrow> u16 \<Rightarrow> pmem \<Rightarrow> u16 option" where
  "pbuf_memfind p mem mem_len start m = do {
     b \<leftarrow> deref p m;
     if unat (tot_len b) \<ge> unat mem_len + unat start
     then memfind_loop p mem mem_len (tot_len b - mem_len) start m
     else Some 0xFFFF }"

text \<open>A C string is its bytes without the terminating zero; \<open>None\<close> is \<open>NULL\<close>.\<close>

definition pbuf_strstr :: "ptr option \<Rightarrow> bytes option \<Rightarrow> pmem \<Rightarrow> u16 option" where
  "pbuf_strstr p substr m = (case substr of
     None \<Rightarrow> Some 0xFFFF
   | Some s \<Rightarrow>
       if s = [] then Some 0xFFFF
       else do {
         b \<leftarrow> deref p m;
         if tot_len b = 0xFFFF \<or> length s \<ge> 0xFFFF then Some 0xFFFF
         else pbuf_memfind p s (of_nat (length s)) 0 m })"

end
