(* ===== verification/Pbuf_Inv.thy ===== *)
theory Pbuf_Inv
  imports Pbuf Heap_Refine
begin

text \<open>
  Chains of packet buffers and the invariant of the memory they live in.

  \<open>chain h a xs\<close>: from the pointer \<open>a\<close>, the \<open>next\<close> fields of the structures of \<open>h\<close> lead through
  exactly \<open>xs\<close> to \<open>NULL\<close>. \<open>tots h xs\<close>: the invariant \<^verbatim>\<open>pbuf.h\<close> documents, that \<open>tot_len\<close> of every
  structure is the sum of the lengths from it on (as a number: it has not wrapped).
  \<open>data_ok m xs\<close>: the payloads lie inside their buffers; \<open>content m xs\<close> is the data of the packet.
  \<open>pm_inv m\<close> ties the live structures to the allocators: each occupies an object that its allocator
  has handed out, and is labelled with that allocator.
\<close>

subsection \<open>Chains\<close>

fun path :: "(ptr \<Rightarrow> pbuf option) \<Rightarrow> ptr option \<Rightarrow> ptr list \<Rightarrow> ptr option \<Rightarrow> bool" where
  "path h a [] z = (a = z)"
| "path h a (x # xs) z =
     (a = Some x \<and> (case h x of None \<Rightarrow> False | Some b \<Rightarrow> path h (pb_next b) xs z))"

abbreviation chain :: "(ptr \<Rightarrow> pbuf option) \<Rightarrow> ptr option \<Rightarrow> ptr list \<Rightarrow> bool" where
  "chain h a xs \<equiv> path h a xs None"

definition len_at :: "(ptr \<Rightarrow> pbuf option) \<Rightarrow> ptr \<Rightarrow> nat" where
  "len_at h x = (case h x of None \<Rightarrow> 0 | Some b \<Rightarrow> unat (pb_len b))"

definition lens :: "(ptr \<Rightarrow> pbuf option) \<Rightarrow> ptr list \<Rightarrow> nat" where
  "lens h xs = sum_list (map (len_at h) xs)"

fun tots :: "(ptr \<Rightarrow> pbuf option) \<Rightarrow> ptr list \<Rightarrow> bool" where
  "tots h [] = True"
| "tots h (x # xs) = ((case h x of None \<Rightarrow> False | Some b \<Rightarrow> unat (tot_len b) = lens h (x # xs)) \<and> tots h xs)"

definition refs_pos :: "(ptr \<Rightarrow> pbuf option) \<Rightarrow> ptr list \<Rightarrow> bool" where
  "refs_pos h xs = list_all (\<lambda>x. case h x of None \<Rightarrow> False | Some b \<Rightarrow> pb_ref b > 0) xs"

lemma lens_simps [simp]:
  "lens h [] = 0" "lens h (x # xs) = len_at h x + lens h xs" "lens h (xs @ ys) = lens h xs + lens h ys"
  by (simp_all add: lens_def)

lemma len_at_Some [simp]: "h x = Some b \<Longrightarrow> len_at h x = unat (pb_len b)"
  by (simp add: len_at_def)

lemma path_Cons [simp]:
  "path h a (x # xs) z \<longleftrightarrow> a = Some x \<and> (\<exists>b. h x = Some b \<and> path h (pb_next b) xs z)"
  by (simp split: option.split)

lemma tots_Cons [simp]:
  "tots h (x # xs) \<longleftrightarrow> (\<exists>b. h x = Some b \<and> unat (tot_len b) = lens h (x # xs)) \<and> tots h xs"
  by (auto split: option.splits)

declare path.simps(2) [simp del] tots.simps(2) [simp del]

lemma path_append: "path h a (xs @ ys) z \<longleftrightarrow> (\<exists>c. path h a xs c \<and> path h c ys z)"
  by (induction xs arbitrary: a) auto

lemma chain_Some: "chain h (Some x) xs \<Longrightarrow> \<exists>ys. xs = x # ys"
  by (cases xs) auto

lemma chain_None [simp]: "chain h None xs \<longleftrightarrow> xs = []"
  by (cases xs) auto

lemma path_cong: "(\<And>x. x \<in> set xs \<Longrightarrow> h x = h' x) \<Longrightarrow> path h a xs z = path h' a xs z"
  by (induction xs arbitrary: a) auto

lemma lens_cong: "(\<And>x. x \<in> set xs \<Longrightarrow> len_at h x = len_at h' x) \<Longrightarrow> lens h xs = lens h' xs"
  by (simp add: lens_def cong: map_cong)

lemma tots_cong: "(\<And>x. x \<in> set xs \<Longrightarrow> h x = h' x) \<Longrightarrow> tots h xs = tots h' xs"
proof (induction xs)
  case (Cons x xs)
  have "h x = h' x" "lens h (x # xs) = lens h' (x # xs)" "tots h xs = tots h' xs"
    using Cons by (auto simp: len_at_def intro!: lens_cong)
  then show ?case by (simp del: lens_simps)
qed simp

lemma path_upd [simp]: "x \<notin> set xs \<Longrightarrow> path (h(x := c)) a xs z = path h a xs z"
  by (rule path_cong) auto

lemma tots_upd [simp]: "x \<notin> set xs \<Longrightarrow> tots (h(x := c)) xs = tots h xs"
  by (rule tots_cong) auto

lemma len_at_upd [simp]:
  "len_at (h(x := c)) y = (if x = y then (case c of None \<Rightarrow> 0 | Some b \<Rightarrow> unat (pb_len b)) else len_at h y)"
  by (simp add: len_at_def)

lemma lens_upd [simp]: "x \<notin> set xs \<Longrightarrow> lens (h(x := c)) xs = lens h xs"
  by (rule lens_cong) auto

lemma tots_append: "tots h (xs @ ys) \<Longrightarrow> tots h ys"
  by (induction xs) auto

lemma tots_bound: "tots h xs \<Longrightarrow> lens h xs < 65536"
proof (cases xs)
  case (Cons x ys)
  assume "tots h xs"
  then obtain b :: pbuf where "unat (tot_len b) = lens h xs" using Cons by (auto simp del: lens_simps)
  then show ?thesis using unat16_less [of "tot_len b"] by simp
qed simp

lemma chain_det: "chain h a xs \<Longrightarrow> chain h a ys \<Longrightarrow> xs = ys"
proof (induction xs arbitrary: a ys)
  case (Cons x xs)
  then show ?case by (cases ys) auto
qed (metis chain_None path.simps(1))

lemma chain_suffix: "chain h a (xs @ x # ys) \<Longrightarrow> chain h (Some x) (x # ys)"
  by (auto simp: path_append)

lemma chain_distinct: "chain h a xs \<Longrightarrow> distinct xs"
proof (induction xs arbitrary: a)
  case (Cons x xs)
  then obtain b where b: "a = Some x" "h x = Some b" "chain h (pb_next b) xs" by auto
  have "x \<notin> set xs"
  proof
    assume "x \<in> set xs"
    then obtain ys zs where xs: "xs = ys @ x # zs" by (meson split_list)
    have "chain h (Some x) (x # zs)" using chain_suffix b(3) unfolding xs by blast
    then have "x # xs = x # zs" using chain_det Cons.prems b(1) by blast
    then show False using xs by simp
  qed
  then show ?case using Cons.IH b(3) by auto
qed simp

lemma path_live: "path h a xs z \<Longrightarrow> x \<in> set xs \<Longrightarrow> \<exists>b. h x = Some b"
  by (induction xs arbitrary: a) auto

lemma refs_pos_simps [simp]:
  "refs_pos h []" 
  "refs_pos h (x # xs) \<longleftrightarrow> (\<exists>b. h x = Some b \<and> pb_ref b > 0) \<and> refs_pos h xs"
  "refs_pos h (xs @ ys) \<longleftrightarrow> refs_pos h xs \<and> refs_pos h ys"
  by (auto simp: refs_pos_def split: option.splits)

lemma refs_pos_cong: "(\<And>x. x \<in> set xs \<Longrightarrow> h x = h' x) \<Longrightarrow> refs_pos h xs = refs_pos h' xs"
  by (simp add: refs_pos_def list_all_iff)

lemma refs_pos_upd [simp]: "x \<notin> set xs \<Longrightarrow> refs_pos (h(x := c)) xs = refs_pos h xs"
  by (rule refs_pos_cong) auto

subsection \<open>The invariant\<close>

definition label_ok :: "ptr \<Rightarrow> pbuf \<Rightarrow> bool" where
  "label_ok x b = (case x of
     Heap c \<Rightarrow> pb_flags b AND 0x02 = 0 \<and> type_internal b AND 0x0F = 0
   | Pbuf_elem i \<Rightarrow> pb_flags b AND 0x02 = 0 \<and> type_internal b AND 0x0F = 0x01
   | Pool_elem i \<Rightarrow> pb_flags b AND 0x02 = 0 \<and> type_internal b AND 0x0F = 0x02
   | Custom k \<Rightarrow> pb_flags b AND 0x02 \<noteq> 0)"

text \<open>
  What the allocators have handed out: the heap blocks with their sizes, the elements of the two
  pools.
\<close>

type_synonym live = "(nat \<rightharpoonup> nat) \<times> nat set \<times> nat set"

fun drop_live :: "ptr \<Rightarrow> live \<Rightarrow> live" where
  "drop_live (Heap c) (S, P, Q) = (S(c := None), P, Q)"
| "drop_live (Pbuf_elem i) (S, P, Q) = (S, P - {i}, Q)"
| "drop_live (Pool_elem i) (S, P, Q) = (S, P, Q - {i})"
| "drop_live (Custom k) L = L"

fun held :: "live \<Rightarrow> pmem \<Rightarrow> ptr \<Rightarrow> bool" where
  "held (S, P, Q) m (Heap c) = (\<exists>k. S c = Some k \<and> SIZEOF_STRUCT_PBUF + length (dat m (Own (Heap c))) \<le> k)"
| "held (S, P, Q) m (Pbuf_elem i) = (i \<in> P)"
| "held (S, P, Q) m (Pool_elem i) = (i \<in> Q)"
| "held (S, P, Q) m (Custom k) = (custom_fn m (Custom k) \<noteq> None)"

fun alloc_inv :: "live \<Rightarrow> pmem \<Rightarrow> bool" where
  "alloc_inv (S, P, Q) m =
     (heap_blocks (hp m) S \<and>
      pool_live (memp_num MEMP_PBUF) (pools m MEMP_PBUF) P \<and>
      pool_live (memp_num MEMP_PBUF_POOL) (pools m MEMP_PBUF_POOL) Q \<and>
      (\<exists>T. pool_live (memp_num MEMP_TCPIP_MSG_API) (pools m MEMP_TCPIP_MSG_API) T) \<and>
      (\<forall>i. length (dat m (Own (Pool_elem i))) = PBUF_POOL_BUFSIZE_ALIGNED))"

definition pm_inv :: "live \<Rightarrow> pmem \<Rightarrow> bool" where
  "pm_inv L m \<longleftrightarrow> alloc_inv L m \<and> (\<forall>x b. pb m x = Some b \<longrightarrow> label_ok x b \<and> held L m x)"

lemma pm_invD:
  assumes "pm_inv L m" "pb m x = Some b"
  shows "label_ok x b" "held L m x"
  using assms by (auto simp: pm_inv_def)

lemma put_pb_sel [simp]:
  "hp (put_pb x b m) = hp m" "pools (put_pb x b m) = pools m" "pb (put_pb x b m) = (pb m)(x \<mapsto> b)"
  "dat (put_pb x b m) = dat m" "junk (put_pb x b m) = junk m" "custom_fn (put_pb x b m) = custom_fn m"
  "custom_freed (put_pb x b m) = custom_freed m"
  by (simp_all add: put_pb_def)

lemma forget_sel [simp]:
  "hp (forget x m) = hp m" "pools (forget x m) = pools m" "pb (forget x m) = (pb m)(x := None)"
  "dat (forget x m) = dat m" "junk (forget x m) = junk m" "custom_fn (forget x m) = custom_fn m"
  "custom_freed (forget x m) = custom_freed m"
  by (simp_all add: forget_def)

lemma held_cong:
  "dat m' (Own x) = dat m (Own x) \<Longrightarrow> custom_fn m' x = custom_fn m x \<Longrightarrow> held L m' x = held L m x"
  by (cases L; cases x) auto

lemma alloc_inv_cong:
  "hp m' = hp m \<Longrightarrow> pools m' = pools m \<Longrightarrow> (\<And>i. length (dat m' (Own (Pool_elem i))) = length (dat m (Own (Pool_elem i)))) \<Longrightarrow>
   alloc_inv L m' = alloc_inv L m"
  by (cases L) auto

lemma pm_inv_put:
  assumes "pm_inv L m" "pb m x = Some b0" "label_ok x b"
  shows "pm_inv L (put_pb x b m)"
proof -
  have "held L (put_pb x b m) y = held L m y" for y by (rule held_cong) auto
  moreover have "alloc_inv L (put_pb x b m) = alloc_inv L m" by (rule alloc_inv_cong) auto
  ultimately show ?thesis using assms by (auto simp: pm_inv_def)
qed

lemma held_drop:
  assumes "held L m y" "y \<noteq> x"
  shows "held (drop_live x L) m y"
  using assms by (cases L; cases x; cases y) auto

text \<open>The buffers of the heap structures among \<open>xs\<close>: freeing the structures frees these.\<close>

definition heap_bufs :: "ptr list \<Rightarrow> buf set" where
  "heap_bufs xs = {Own (Heap c) | c. Heap c \<in> set xs}"

lemma heap_bufs_simps [simp]:
  "heap_bufs [] = {}" "heap_bufs (Heap c # xs) = insert (Own (Heap c)) (heap_bufs xs)"
  "heap_bufs (Pbuf_elem i # xs) = heap_bufs xs" "heap_bufs (Pool_elem i # xs) = heap_bufs xs"
  "heap_bufs (Custom k # xs) = heap_bufs xs" "heap_bufs (map Pool_elem is) = {}"
  by (auto simp: heap_bufs_def)

lemma heap_bufs_Cons: "heap_bufs (x # xs) = heap_bufs [x] \<union> heap_bufs xs"
  by (cases x) auto

lemma dealloc_pbuf_inv:
  assumes "pm_inv L m" "pb m x = Some b0" "label_ok x b"
  shows "\<exists>m'. dealloc_pbuf x b m = Some m' \<and> pb m' = (pb m)(x := None) \<and>
    pm_inv (drop_live x L) m' \<and> (\<forall>bf. bf \<notin> heap_bufs [x] \<longrightarrow> dat m' bf = dat m bf)"
proof -
  obtain S P Q where L: "L = (S, P, Q)" by (cases L)
  have inv: "alloc_inv L m" "held L m x" "label_ok x b0"
    and others: "\<And>y c. pb m y = Some c \<Longrightarrow> label_ok y c \<and> held L m y"
    using assms by (auto simp: pm_inv_def)
  have rest: "pm_inv (drop_live x L) m'"
    if "alloc_inv (drop_live x L) m'" "pb m' = (pb m)(x := None)" "\<forall>bf. bf \<noteq> Own x \<longrightarrow> dat m' bf = dat m bf"
      "custom_fn m' = custom_fn m" for m'
  proof -
    have "held (drop_live x L) m' y" if "y \<noteq> x" "pb m y = Some c" for y c
      using held_drop [OF _ that(1), of L m] others [OF that(2)] held_cong [of m' y m "drop_live x L"]
        \<open>\<forall>bf. bf \<noteq> Own x \<longrightarrow> dat m' bf = dat m bf\<close> \<open>custom_fn m' = custom_fn m\<close> that(1) by simp
    then show ?thesis using that others by (auto simp: pm_inv_def)
  qed
  show ?thesis
  proof (cases x)
    case (Heap c)
    obtain k where k: "S c = Some k" using inv(2) L Heap by auto
    obtain h' where h': "mem_free (Some (int c)) (hp m) = Some h'" "heap_blocks h' (S(c := None))"
      using heap_blocks_free [where h = "hp m" and S = S, OF _ k] inv(1) L by auto
    let ?m = "forget x (m\<lparr>hp := h', dat := (dat m)(Own x := [])\<rparr>)"
    have "dealloc_pbuf x b m = Some ?m" using Heap assms(3) h'(1) by (simp add: dealloc_pbuf_def label_ok_def)
    moreover have "pm_inv (drop_live x L) ?m" using inv(1) L Heap h'(2) by (intro rest) auto
    ultimately show ?thesis using Heap by auto
  next
    case (Pbuf_elem i)
    let ?m = "forget x (m\<lparr>pools := memp_free MEMP_PBUF (Some i) (pools m)\<rparr>)"
    have "dealloc_pbuf x b m = Some ?m" using Pbuf_elem assms(3) by (simp add: dealloc_pbuf_def label_ok_def)
    moreover have "pm_inv (drop_live x L) ?m" using inv(1,2) L Pbuf_elem
      by (intro rest) (auto simp: memp_free_def intro: pool_live_free)
    ultimately show ?thesis by auto
  next
    case (Pool_elem i)
    let ?m = "forget x (m\<lparr>pools := memp_free MEMP_PBUF_POOL (Some i) (pools m)\<rparr>)"
    have "dealloc_pbuf x b m = Some ?m" using Pool_elem assms(3) by (simp add: dealloc_pbuf_def label_ok_def)
    moreover have "pm_inv (drop_live x L) ?m" using inv(1,2) L Pool_elem
      by (intro rest) (auto simp: memp_free_def intro: pool_live_free)
    ultimately show ?thesis by auto
  next
    case (Custom k)
    let ?m = "forget x (m\<lparr>custom_freed := custom_freed m @ [x]\<rparr>)"
    have "dealloc_pbuf x b m = Some ?m" using Custom assms(3) inv(2) L by (auto simp: dealloc_pbuf_def label_ok_def)
    moreover have "pm_inv (drop_live x L) ?m" using inv(1) L Custom by (intro rest) auto
    ultimately show ?thesis by auto
  qed
qed

end
