(* ===== verification/Pbuf_Alloc.thy ===== *)
theory Pbuf_Alloc
  imports Pbuf_Inv
begin

text \<open>
  Reference counting and allocation: \<open>pbuf_free\<close>, \<open>pbuf_ref\<close>, \<open>pbuf_alloc\<close>. The reference
  definition of freeing is \<open>unref\<close>: drop the structures at the head of the chain that have one
  reference, and take one reference from the first that has more.
\<close>

subsection \<open>Freeing\<close>

fun nfree :: "(ptr \<Rightarrow> pbuf option) \<Rightarrow> ptr list \<Rightarrow> nat" where
  "nfree h [] = 0"
| "nfree h (x # xs) = (case h x of None \<Rightarrow> 0 | Some b \<Rightarrow> if pb_ref b = 1 then Suc (nfree h xs) else 0)"

fun unref :: "(ptr \<Rightarrow> pbuf option) \<Rightarrow> ptr list \<Rightarrow> (ptr \<Rightarrow> pbuf option)" where
  "unref h [] = h"
| "unref h (x # xs) = (case h x of
     None \<Rightarrow> h
   | Some b \<Rightarrow> if pb_ref b = 1 then unref (h(x := None)) xs else h(x \<mapsto> b\<lparr>pb_ref := pb_ref b - 1\<rparr>))"

definition drop_lives :: "ptr list \<Rightarrow> live \<Rightarrow> live" where
  "drop_lives xs L = fold drop_live xs L"

lemma nfree_cong: "(\<And>x. x \<in> set xs \<Longrightarrow> h x = h' x) \<Longrightarrow> nfree h xs = nfree h' xs"
  by (induction xs) (auto split: option.split)

lemma nfree_upd [simp]: "x \<notin> set xs \<Longrightarrow> nfree (h(x := c)) xs = nfree h xs"
  by (rule nfree_cong) auto

lemma nfree_le: "nfree h xs \<le> length xs"
  by (induction xs) (auto split: option.split)

lemma unref_other: "y \<notin> set xs \<Longrightarrow> unref h xs y = h y"
  by (induction h xs rule: unref.induct) (auto split: option.split)

lemma label_ok_ref [simp]: "label_ok x (b\<lparr>pb_ref := r\<rparr>) = label_ok x b"
  by (simp add: label_ok_def split: ptr.split)

lemma label_ok_fields [simp]:
  "label_ok x (b\<lparr>pb_next := n\<rparr>) = label_ok x b" "label_ok x (b\<lparr>tot_len := t\<rparr>) = label_ok x b"
  "label_ok x (b\<lparr>pb_len := t\<rparr>) = label_ok x b" "label_ok x (b\<lparr>payload := a\<rparr>) = label_ok x b"
  by (simp_all add: label_ok_def split: ptr.split)

lemma ref_minus_one: "r > (0 :: u8) \<Longrightarrow> (r - 1 = 0) = (r = 1)"
  by (metis cancel_comm_monoid_add_class.diff_cancel eq_iff_diff_eq_0)

lemma free_loop_chain:
  assumes "pm_inv L m" "chain (pb m) p xs" "refs_pos (pb m) xs"
  shows "\<exists>m'. free_loop p count m = Some (count + of_nat (nfree (pb m) xs), m') \<and>
    pb m' = unref (pb m) xs \<and> pm_inv (drop_lives (take (nfree (pb m) xs) xs) L) m' \<and>
    (\<forall>bf. bf \<notin> heap_bufs (take (nfree (pb m) xs) xs) \<longrightarrow> dat m' bf = dat m bf)"
  using assms
proof (induction xs arbitrary: p count m L)
  case Nil
  then show ?case by (subst free_loop.simps) (auto simp: drop_lives_def)
next
  case (Cons x xs)
  obtain b where b: "p = Some x" "pb m x = Some b" "chain (pb m) (pb_next b) xs" "pb_ref b > 0"
    "refs_pos (pb m) xs"
    using Cons.prems by auto
  have x: "x \<notin> set xs" using chain_distinct [OF Cons.prems(2)] by simp
  have lab: "label_ok x b" using Cons.prems(1) b(2) by (auto simp: pm_inv_def)
  let ?m1 = "put_pb x (b\<lparr>pb_ref := pb_ref b - 1\<rparr>) m"
  have inv1: "pm_inv L ?m1" using pm_inv_put [OF Cons.prems(1) b(2)] lab by simp
  show ?case
  proof (cases "pb_ref b = 1")
    case False
    then have "free_loop p count m = Some (count, ?m1)"
      using b ref_minus_one by (subst free_loop.simps) simp
    then show ?thesis using False b inv1 by (auto simp: drop_lives_def)
  next
    case True
    have pb1: "pb ?m1 x = Some (b\<lparr>pb_ref := pb_ref b - 1\<rparr>)" by simp
    obtain m2 where m2: "dealloc_pbuf x b ?m1 = Some m2" "pb m2 = (pb ?m1)(x := None)"
      "pm_inv (drop_live x L) m2" "\<forall>bf. bf \<notin> heap_bufs [x] \<longrightarrow> dat m2 bf = dat ?m1 bf"
      using dealloc_pbuf_inv [OF inv1 pb1 lab] by blast
    have pb2: "pb m2 = (pb m)(x := None)" using m2(2) by auto
    have "chain (pb m2) (pb_next b) xs" "refs_pos (pb m2) xs" using b x by (auto simp: pb2)
    from Cons.IH [OF m2(3) this, of "count + 1"] obtain m' where m':
      "free_loop (pb_next b) (count + 1) m2 = Some (count + 1 + of_nat (nfree (pb m) xs), m')"
      "pb m' = unref (pb m2) xs" "pm_inv (drop_lives (take (nfree (pb m) xs) xs) (drop_live x L)) m'"
      "\<forall>bf. bf \<notin> heap_bufs (take (nfree (pb m) xs) xs) \<longrightarrow> dat m' bf = dat m2 bf"
      unfolding pb2 nfree_upd [OF x] by blast
    have "free_loop p count m = Some (count + of_nat (nfree (pb m) (x # xs)), m')"
      using True b m2(1) m'(1) by (subst free_loop.simps) (simp add: add.assoc)
    moreover have "pb m' = unref (pb m) (x # xs)" using True b m'(2) pb2 by simp
    moreover have "\<forall>bf. bf \<notin> heap_bufs (x # take (nfree (pb m) xs) xs) \<longrightarrow> dat m' bf = dat m bf"
      unfolding heap_bufs_Cons [of x "take (nfree (pb m) xs) xs"] using m'(4) m2(4) by simp
    ultimately show ?thesis using True b m'(3) by (auto simp: drop_lives_def)
  qed
qed

lemma pbuf_free_chain:
  assumes "pm_inv L m" "chain (pb m) (Some x) xs" "refs_pos (pb m) xs"
  shows "\<exists>m'. pbuf_free (Some x) m = Some (of_nat (nfree (pb m) xs), m') \<and>
    pb m' = unref (pb m) xs \<and> pm_inv (drop_lives (take (nfree (pb m) xs) xs) L) m' \<and>
    (\<forall>bf. bf \<notin> heap_bufs (take (nfree (pb m) xs) xs) \<longrightarrow> dat m' bf = dat m bf)"
  using free_loop_chain [OF assms, of 0] by (simp add: pbuf_free_def)

lemma nfree_all: "list_all (\<lambda>x. \<exists>b. h x = Some b \<and> pb_ref b = 1) xs \<Longrightarrow> nfree h xs = length xs"
  by (induction xs) auto

lemma unref_all:
  "distinct xs \<Longrightarrow> list_all (\<lambda>x. \<exists>b. h x = Some b \<and> pb_ref b = 1) xs \<Longrightarrow>
   unref h xs = (\<lambda>y. if y \<in> set xs then None else h y)"
proof (induction xs arbitrary: h)
  case (Cons x xs)
  have d: "distinct xs" and l: "list_all (\<lambda>y. \<exists>b. (h(x := None)) y = Some b \<and> pb_ref b = 1) xs"
    using Cons.prems by (auto simp: list_all_iff)
  note u = Cons.IH [OF d l]
  have e: "unref h (x # xs) = unref (h(x := None)) xs" using Cons.prems by auto
  show ?case unfolding e u by (auto simp: fun_eq_iff)
qed simp

subsection \<open>Allocation from the pool\<close>

definition in_buf :: "pmem \<Rightarrow> address \<Rightarrow> nat \<Rightarrow> bool" where
  "in_buf m a n = (n = 0 \<or> (case a of None \<Rightarrow> False
     | Some (bf, off) \<Rightarrow> 0 \<le> off \<and> nat off + n \<le> length (dat m bf)))"

definition data_ok :: "pmem \<Rightarrow> ptr list \<Rightarrow> bool" where
  "data_ok m xs = list_all (\<lambda>x. case pb m x of None \<Rightarrow> False
     | Some b \<Rightarrow> in_buf m (payload b) (unat (pb_len b))) xs"

text \<open>A fresh structure: one reference, no flags, its payload in the memory that follows it.\<close>

definition fresh_ok :: "pmem \<Rightarrow> ptr \<Rightarrow> bool" where
  "fresh_ok m x = (case pb m x of None \<Rightarrow> False
     | Some b \<Rightarrow> pb_ref b = 1 \<and> pb_flags b = 0 \<and> type_internal b AND 0x80 \<noteq> 0 \<and>
         (\<exists>off. payload b = Some (Own x, off) \<and> 0 \<le> off \<and> nat off + unat (pb_len b) \<le> length (dat m (Own x))))"

fun tots_with :: "(ptr \<Rightarrow> pbuf option) \<Rightarrow> ptr list \<Rightarrow> nat \<Rightarrow> bool" where
  "tots_with h [] k = True"
| "tots_with h (x # xs) k =
     ((\<exists>b. h x = Some b \<and> unat (tot_len b) = lens h (x # xs) + k) \<and> tots_with h xs k)"

lemma tots_with_0: "tots_with h xs 0 = tots h xs"
  by (induction xs) auto

lemma tots_with_append:
  "tots_with h (xs @ ys) k \<longleftrightarrow> tots_with h xs (lens h ys + k) \<and> tots_with h ys k"
  by (induction xs) (auto simp: add.assoc)

lemma tots_with_cong:
  "(\<And>x. x \<in> set xs \<Longrightarrow> map_option tot_len (h x) = map_option tot_len (h' x) \<and> len_at h x = len_at h' x) \<Longrightarrow>
   tots_with h xs k = tots_with h' xs k"
proof (induction xs)
  case (Cons x xs)
  have "lens h xs = lens h' xs" "len_at h x = len_at h' x" "tots_with h xs k = tots_with h' xs k"
    "map_option tot_len (h x) = map_option tot_len (h' x)"
    using Cons by (auto intro!: lens_cong)
  then show ?case by (cases "h x"; cases "h' x") auto
qed simp

lemma pool_is_empty_inv:
  "pm_inv L m \<Longrightarrow> pm_inv L (pbuf_pool_is_empty m)"
  "pb (pbuf_pool_is_empty m) = pb m" "dat (pbuf_pool_is_empty m) = dat m"
proof -
  have e: "hp (pbuf_pool_is_empty m) = hp m \<and> pb (pbuf_pool_is_empty m) = pb m \<and>
    dat (pbuf_pool_is_empty m) = dat m \<and> custom_fn (pbuf_pool_is_empty m) = custom_fn m \<and>
    (\<forall>t. t \<noteq> MEMP_TCPIP_MSG_API \<longrightarrow> pools (pbuf_pool_is_empty m) t = pools m t)"
    by (auto simp: pbuf_pool_is_empty_def ooseq_try_callback_def memp_malloc_def memp_free_def Let_def
        split: prod.splits option.splits)
  then show "pb (pbuf_pool_is_empty m) = pb m" "dat (pbuf_pool_is_empty m) = dat m" by auto
  have t: "\<exists>T'. pool_live (memp_num MEMP_TCPIP_MSG_API) (pools (pbuf_pool_is_empty m) MEMP_TCPIP_MSG_API) T'"
    if T: "pool_live (memp_num MEMP_TCPIP_MSG_API) (pools m MEMP_TCPIP_MSG_API) T" for T
  proof -
    obtain c p' where c: "do_memp_malloc_pool (pools m MEMP_TCPIP_MSG_API) = (c, p')"
      "case c of None \<Rightarrow> T = {..<memp_num MEMP_TCPIP_MSG_API} \<and> pool_live (memp_num MEMP_TCPIP_MSG_API) p' T
       | Some x \<Rightarrow> x \<notin> T \<and> x < memp_num MEMP_TCPIP_MSG_API \<and> pool_live (memp_num MEMP_TCPIP_MSG_API) p' (insert x T)"
      using pool_live_alloc [OF T] by blast
    have "pool_live 16 (do_memp_free_pool x p') (insert x T - {x})" if "c = Some x" for x
      using c(2) that by (intro pool_live_free) auto
    then show ?thesis using c T
      by (cases c) (auto simp: pbuf_pool_is_empty_def ooseq_try_callback_def memp_malloc_def memp_free_def Let_def)
  qed
  obtain S P Q where L: "L = (S, P, Q)" by (cases L)
  show "pm_inv L m \<Longrightarrow> pm_inv L (pbuf_pool_is_empty m)"
    unfolding pm_inv_def using e t held_cong [of "pbuf_pool_is_empty m" _ m L] L by auto
qed

lemma drop_lives_pool: "drop_lives (map Pool_elem is) (S, P, Q) = (S, P, Q - set is)"
  unfolding drop_lives_def by (induction "is" arbitrary: Q) auto

lemma pm_inv_add_pool:
  assumes "pm_inv (S, P, Q) m" "memp_malloc MEMP_PBUF_POOL (pools m) = (Some i, ps)"
    and "label_ok (Pool_elem i) b"
  shows "i \<notin> Q" "pb m (Pool_elem i) = None"
    "pm_inv (S, P, insert i Q) (put_pb (Pool_elem i) b (m\<lparr>pools := ps\<rparr>))"
proof -
  have live: "pool_live (memp_num MEMP_PBUF_POOL) (pools m MEMP_PBUF_POOL) Q" using assms(1) by (simp add: pm_inv_def)
  obtain p' where p: "do_memp_malloc_pool (pools m MEMP_PBUF_POOL) = (Some i, p')"
    "ps = (pools m)(MEMP_PBUF_POOL := p')"
    using assms(2) by (auto simp: memp_malloc_def split: prod.splits)
  have i: "i \<notin> Q" "pool_live (memp_num MEMP_PBUF_POOL) p' (insert i Q)"
    using pool_live_alloc [OF live] p(1) by auto
  show "i \<notin> Q" by (rule i(1))
  show "pb m (Pool_elem i) = None" using pm_invD(2) [OF assms(1)] i(1) by fastforce
  let ?m = "put_pb (Pool_elem i) b (m\<lparr>pools := ps\<rparr>)"
  have "held (S, P, insert i Q) ?m y" if "held (S, P, Q) m y" for y
    using that by (cases y) auto
  then show "pm_inv (S, P, insert i Q) ?m" using assms(1,3) i p(2) by (auto simp: pm_inv_def)
qed

lemma pool_alloc_None:
  assumes "pm_inv L m" "memp_malloc MEMP_PBUF_POOL (pools m) = (None, ps)"
  shows "pm_inv L (m\<lparr>pools := ps\<rparr>)"
proof -
  obtain S P Q where L: "L = (S, P, Q)" by (cases L)
  have live: "pool_live (memp_num MEMP_PBUF_POOL) (pools m MEMP_PBUF_POOL) Q" using assms(1) L by (simp add: pm_inv_def)
  obtain p' where p: "do_memp_malloc_pool (pools m MEMP_PBUF_POOL) = (None, p')"
    "ps = (pools m)(MEMP_PBUF_POOL := p')"
    using assms(2) by (auto simp: memp_malloc_def split: prod.splits)
  have "pool_live (memp_num MEMP_PBUF_POOL) p' Q" using pool_live_alloc [OF live] p(1) by auto
  moreover have "held L (m\<lparr>pools := ps\<rparr>) y = held L m y" for y by (rule held_cong) auto
  ultimately show ?thesis using assms(1) L p(2) by (auto simp: pm_inv_def)
qed


lemma fresh_ok_next:
  "pb m x = Some c \<Longrightarrow> pb m' x = Some (c\<lparr>pb_next := n\<rparr>) \<Longrightarrow> dat m' (Own x) = dat m (Own x) \<Longrightarrow> fresh_ok m' x = fresh_ok m x"
  by (auto simp: fresh_ok_def split: option.split)

lemma fresh_ok_cong:
  "pb m' x = pb m x \<Longrightarrow> dat m' (Own x) = dat m (Own x) \<Longrightarrow> fresh_ok m' x = fresh_ok m x"
  by (auto simp: fresh_ok_def split: option.split)

definition built :: "pmem \<Rightarrow> (ptr \<Rightarrow> pbuf option) \<Rightarrow> nat list \<Rightarrow> nat \<Rightarrow> bool" where
  "built m h is k \<longleftrightarrow>
     chain (pb m) (if is = [] then None else Some (Pool_elem (hd is))) (map Pool_elem is) \<and>
     tots_with (pb m) (map Pool_elem is) k \<and>
     (\<forall>i \<in> set is. fresh_ok m (Pool_elem i) \<and> h (Pool_elem i) = None) \<and>
     (\<forall>y. y \<notin> Pool_elem ` set is \<longrightarrow> pb m y = h y)"

lemma built_snoc:
  assumes "built m h is (unat rem_len)" "pb m (Pool_elem i) = None" "h (Pool_elem i) = None"
    and b: "pb_next b = None" "unat (tot_len b) = unat rem_len" "pb_len b \<le> rem_len"
    and m': "is = [] \<Longrightarrow> pb m' = (pb m)(Pool_elem i \<mapsto> b)"
      "is \<noteq> [] \<Longrightarrow> \<exists>c. pb m (Pool_elem (last is)) = Some c \<and>
         pb m' = (pb m)(Pool_elem i \<mapsto> b, Pool_elem (last is) \<mapsto> c\<lparr>pb_next := Some (Pool_elem i)\<rparr>)"
    and fr: "dat m' = dat m" "fresh_ok m' (Pool_elem i)"
  shows "built m' h (is @ [i]) (unat (rem_len - pb_len b))"
proof -
  let ?xs = "map Pool_elem is"
  have i: "Pool_elem i \<notin> set ?xs" using assms(1,2) path_live unfolding built_def by fastforce
  have sub: "unat (rem_len - pb_len b) + unat (pb_len b) = unat rem_len"
    using b(3) by (simp add: unat_sub word_le_nat_alt)
  have same: "map_option tot_len (pb m' x) = map_option tot_len (pb m x)" "len_at (pb m') x = len_at (pb m) x"
    if "x \<in> set ?xs" for x
  proof -
    have "is \<noteq> []" "x \<noteq> Pool_elem i" using that i by auto
    then show "map_option tot_len (pb m' x) = map_option tot_len (pb m x)" "len_at (pb m') x = len_at (pb m) x"
      using m'(2) by (auto simp: len_at_def)
  qed
  have pbi: "pb m' (Pool_elem i) = Some b"
    using m' i by (cases "is = []") (auto simp: image_iff)
  have "tots_with (pb m') ?xs (unat rem_len)"
    using assms(1) tots_with_cong [of ?xs "pb m'" "pb m"] same by (simp add: built_def)
  then have tots: "tots_with (pb m') (map Pool_elem (is @ [i])) (unat (rem_len - pb_len b))"
    using pbi sub b(2) by (simp add: tots_with_append add.commute)
  have fresh: "fresh_ok m' (Pool_elem j) \<and> h (Pool_elem j) = None" if "j \<in> set (is @ [i])" for j
  proof (cases "j = i")
    case True
    then show ?thesis using fr(2) assms(3) by simp
  next
    case False
    then have "is \<noteq> []" "j \<in> set is" using that by auto
    moreover have "fresh_ok m' (Pool_elem j) = fresh_ok m (Pool_elem j)"
    proof (cases "j = last is")
      case True
      then show ?thesis using m'(2) \<open>is \<noteq> []\<close> fr(1) using fresh_ok_next [of m "Pool_elem j" _ m'] by auto
    next
      case False
      then show ?thesis using m'(2) \<open>is \<noteq> []\<close> fr(1) \<open>j \<noteq> i\<close> using fresh_ok_cong [of m' "Pool_elem j" m] by auto
    qed
    ultimately show ?thesis using assms(1) by (simp add: built_def)
  qed
  have other: "pb m' y = h y" if "y \<notin> Pool_elem ` set (is @ [i])" for y
    using that assms(1) m' by (cases "is = []") (auto simp: built_def)
  have ch': "chain (pb m') (Some (Pool_elem (hd (is @ [i])))) (map Pool_elem (is @ [i]))"
  proof (cases "is = []")
    case True
    then show ?thesis using pbi b(1) by simp
  next
    case False
    obtain us l where us: "is = us @ [l]" using False by (cases "is" rule: rev_cases) auto
    obtain c where c: "pb m (Pool_elem l) = Some c"
      "pb m' = (pb m)(Pool_elem i \<mapsto> b, Pool_elem l \<mapsto> c\<lparr>pb_next := Some (Pool_elem i)\<rparr>)"
      using m'(2) False us by auto
    have ch: "chain (pb m) (Some (Pool_elem (hd is))) (map Pool_elem us @ [Pool_elem l])"
      using assms(1) False us by (simp add: built_def)
    have l: "Pool_elem l \<notin> set (map Pool_elem us)" using chain_distinct [OF ch] by simp
    have "path (pb m) (Some (Pool_elem (hd is))) (map Pool_elem us) (Some (Pool_elem l))"
      using ch by (auto simp: path_append)
    then have "path (pb m') (Some (Pool_elem (hd is))) (map Pool_elem us) (Some (Pool_elem l))"
      unfolding c(2) using l i us by simp
    moreover have "hd (is @ [i]) = hd is" using False by simp
    moreover have "map Pool_elem (is @ [i]) = map Pool_elem us @ [Pool_elem l, Pool_elem i]" using us by simp
    moreover have "pb m' (Pool_elem l) = Some (c\<lparr>pb_next := Some (Pool_elem i)\<rparr>)" using c(2) by simp
    ultimately show ?thesis using pbi b(1) by (auto simp: path_append)
  qed
  show ?thesis unfolding built_def
  proof (intro conjI ballI allI impI)
    show "chain (pb m') (if is @ [i] = [] then None else Some (Pool_elem (hd (is @ [i])))) (map Pool_elem (is @ [i]))"
      using ch' by simp
  qed (use tots fresh other in blast)+
qed


lemma qlen_step:
  assumes "align_size off < 1520" and q_def: "q = min r (of_nat (1520 - align_size off) :: u16)"
  shows "q \<le> r" "unat q \<le> 1520 - align_size off" "r > 0 \<Longrightarrow> unat (r - q) < unat r"
proof -
  have u: "unat (of_nat (1520 - align_size off) :: u16) = 1520 - align_size off"
    by (rule unat_of_nat_small) simp
  show "q \<le> r" by (simp add: q_def)
  then have "unat q \<le> unat r" by (simp add: word_le_nat_alt)
  have "q \<le> of_nat (1520 - align_size off)" by (simp add: q_def)
  then show "unat q \<le> 1520 - align_size off" using u by (simp add: word_le_nat_alt)
  assume "r > 0"
  then have "q > 0" using u assms(1) by (auto simp: q_def word_less_nat_alt)
  then have "0 < unat q" by (simp add: word_less_nat_alt)
  then show "unat (r - q) < unat r" using \<open>q \<le> r\<close> \<open>unat q \<le> unat r\<close> by (simp add: unat_sub)
qed

abbreviation pool_hd :: "nat list \<Rightarrow> ptr option" where
  "pool_hd is \<equiv> (if is = [] then None else Some (Pool_elem (hd is)))"

abbreviation pool_last :: "nat list \<Rightarrow> ptr option" where
  "pool_last is \<equiv> (if is = [] then None else Some (Pool_elem (last is)))"

text \<open>The pool is empty: everything allocated so far goes back.\<close>

lemma alloc_pool_fail:
  assumes "pm_inv (S, P, Q \<union> set is) m" "Q \<inter> set is = {}" "built m h is k"
    "memp_malloc MEMP_PBUF_POOL (pools m) = (None, ps)"
  shows "\<exists>m'. alloc_pool_loop (pool_hd is) (pool_last is) r off m = Some (None, m') \<and> dat m' = dat m \<and>
    pm_inv (S, P, Q) m' \<and> pb m' = h"
proof -
  let ?m2 = "pbuf_pool_is_empty (m\<lparr>pools := ps\<rparr>)"
  let ?xs = "map Pool_elem is"
  have inv: "pm_inv (S, P, Q \<union> set is) ?m2" and pb: "pb ?m2 = pb m" and dat: "dat ?m2 = dat m"
    using pool_alloc_None [OF assms(1,4)] pool_is_empty_inv by auto
  show ?thesis
  proof (cases "is = []")
    case True
    then have "alloc_pool_loop (pool_hd is) (pool_last is) r off m = Some (None, ?m2)"
      using assms(4) by (subst alloc_pool_loop.simps) simp
    moreover have "pb m = h" using assms(3) True by (auto simp: built_def)
    ultimately show ?thesis using inv pb dat True by auto
  next
    case False
    have ch: "chain (pb ?m2) (Some (Pool_elem (hd is))) ?xs" and fr: "\<forall>i \<in> set is. fresh_ok m (Pool_elem i)"
      using assms(3) False pb by (auto simp: built_def)
    have ones: "list_all (\<lambda>x. \<exists>b. pb ?m2 x = Some b \<and> pb_ref b = 1) ?xs"
      using fr pb by (auto simp: list_all_iff fresh_ok_def split: option.splits)
    then have "refs_pos (pb ?m2) ?xs" by (auto simp: refs_pos_def list_all_iff split: option.splits)
    from pbuf_free_chain [OF inv ch this] obtain m3 where m3:
      "pbuf_free (Some (Pool_elem (hd is))) ?m2 = Some (of_nat (length is), m3)"
      "pb m3 = unref (pb ?m2) ?xs" "pm_inv (drop_lives ?xs (S, P, Q \<union> set is)) m3"
      "\<forall>bf. dat m3 bf = dat ?m2 bf"
      using nfree_all [OF ones] by auto
    have "pb m3 = h"
      using m3(2) unref_all [OF chain_distinct [OF ch] ones] assms(3) pb
      by (auto simp: built_def fun_eq_iff)
    moreover have "pm_inv (S, P, Q) m3"
      using m3(3) assms(2) by (simp add: drop_lives_pool Un_Diff Diff_triv)
    moreover have "dat m3 = dat m" using m3(4) dat by auto
    moreover have "alloc_pool_loop (pool_hd is) (pool_last is) r off m = Some (None, m3)"
      using assms(4) False m3(1) by (subst alloc_pool_loop.simps) simp
    ultimately show ?thesis by auto
  qed
qed

text \<open>One round of the loop: a structure for the next \<open>ql\<close> bytes is appended to the chain.\<close>

lemma pool_link:
  assumes "pm_inv (S, P, Q \<union> set is) m" "built m h is k" "memp_malloc MEMP_PBUF_POOL (pools m) = (Some i, ps)"
    and b: "label_ok (Pool_elem i) b"
  shows "\<exists>m3. (if pool_hd is = None then Some (put_pb (Pool_elem i) b (m\<lparr>pools := ps\<rparr>))
           else set_next (pool_last is) (Some (Pool_elem i)) (put_pb (Pool_elem i) b (m\<lparr>pools := ps\<rparr>))) = Some m3 \<and>
     pm_inv (S, P, Q \<union> set (is @ [i])) m3 \<and> dat m3 = dat m \<and> pb m3 (Pool_elem i) = Some b \<and>
     (if is = [] then pb m3 = (pb m)(Pool_elem i \<mapsto> b)
      else \<exists>c. pb m (Pool_elem (last is)) = Some c \<and>
        pb m3 = (pb m)(Pool_elem i \<mapsto> b, Pool_elem (last is) \<mapsto> c\<lparr>pb_next := Some (Pool_elem i)\<rparr>))"
proof (cases "is = []")
  case True
  then show ?thesis using pm_inv_add_pool [OF assms(1,3) b] by auto
next
  case False
  note add = pm_inv_add_pool [OF assms(1,3) b]
  let ?q = "Pool_elem i"
  let ?m2 = "put_pb ?q b (m\<lparr>pools := ps\<rparr>)"
  have "Pool_elem (last is) \<in> set (map Pool_elem is)" using False by simp
  moreover have "chain (pb m) (Some (Pool_elem (hd is))) (map Pool_elem is)"
    using assms(2) False unfolding built_def by simp
  ultimately obtain c where c: "pb m (Pool_elem (last is)) = Some c" using path_live by blast
  have ne: "last is \<noteq> i" using add(1) False last_in_set by blast
  let ?m3 = "put_pb (Pool_elem (last is)) (c\<lparr>pb_next := Some ?q\<rparr>) ?m2"
  have c2: "pb ?m2 (Pool_elem (last is)) = Some c" using c ne by simp
  have "label_ok (Pool_elem (last is)) (c\<lparr>pb_next := Some ?q\<rparr>)" using pm_invD(1) [OF assms(1) c] by simp
  from pm_inv_put [OF add(3) c2 this]
  have "pm_inv (S, P, Q \<union> set (is @ [i])) ?m3" by simp
  then show ?thesis using False c c2 ne by (intro exI [of _ ?m3]) (auto simp: set_next_def)
qed

lemma alloc_pool_step:
  assumes "pm_inv (S, P, Q \<union> set is) m" "Q \<inter> set is = {}" "built m h is (unat r)" "align_size off < 1520"
    "memp_malloc MEMP_PBUF_POOL (pools m) = (Some i, ps)"
    and ql: "ql = min r (of_nat (1520 - align_size off))"
  shows "\<exists>m3. alloc_pool_loop (pool_hd is) (pool_last is) r off m =
        (if r - ql > 0 then alloc_pool_loop (pool_hd (is @ [i])) (pool_last (is @ [i])) (r - ql) 0 m3
         else Some (pool_hd (is @ [i]), m3)) \<and>
     pm_inv (S, P, Q \<union> set (is @ [i])) m3 \<and> dat m3 = dat m \<and> Q \<inter> set (is @ [i]) = {} \<and>
     built m3 h (is @ [i]) (unat (r - ql)) \<and>
     (\<exists>b. pb m3 (Pool_elem i) = Some b \<and> tot_len b = r \<and> pb_len b = ql) \<and>
     (\<forall>j \<in> set is. map_option tot_len (pb m3 (Pool_elem j)) = map_option tot_len (pb m (Pool_elem j)))"
proof -
  let ?q = "Pool_elem i"
  define b where "b = \<lparr>pb_next = None, payload = Some (Own ?q, int (align_size off)), tot_len = r, pb_len = ql,
    type_internal = type_u8 PBUF_POOL, pb_flags = 0, pb_ref = 1, if_idx = 0\<rparr>"
  note qs = qlen_step [OF assms(4) ql]
  have lab: "label_ok ?q b" by (simp add: b_def label_ok_def)
  note add = pm_inv_add_pool [OF assms(1,5) lab]
  have hq: "h ?q = None" using assms(3) add(1,2) by (auto simp: built_def image_iff)
  obtain m3 where m3: "(if pool_hd is = None then Some (put_pb ?q b (m\<lparr>pools := ps\<rparr>))
       else set_next (pool_last is) (Some ?q) (put_pb ?q b (m\<lparr>pools := ps\<rparr>))) = Some m3"
    and inv3: "pm_inv (S, P, Q \<union> set (is @ [i])) m3" and dat3: "dat m3 = dat m" and pb3: "pb m3 ?q = Some b"
    and e3: "if is = [] then pb m3 = (pb m)(?q \<mapsto> b)
      else \<exists>c. pb m (Pool_elem (last is)) = Some c \<and>
        pb m3 = (pb m)(?q \<mapsto> b, Pool_elem (last is) \<mapsto> c\<lparr>pb_next := Some ?q\<rparr>)"
    using pool_link [OF assms(1,3,5) lab] by blast
  have "align_size off + unat ql \<le> 1520" "length (dat m (Own ?q)) = 1520"
    using qs(2) assms(1,4) by (auto simp: pm_inv_def)
  then have fr: "fresh_ok m3 ?q" using pb3 dat3 by (simp add: fresh_ok_def b_def)
  have "built m3 h (is @ [i]) (unat (r - ql))"
    using built_snoc [OF assms(3) add(2) hq, of b m3] e3 dat3 fr qs(1) by (simp add: b_def split: if_splits)
  moreover have "Q \<inter> set (is @ [i]) = {}" using assms(2) add(1) by auto
  moreover have "map_option tot_len (pb m3 (Pool_elem j)) = map_option tot_len (pb m (Pool_elem j))" if "j \<in> set is" for j
  proof -
    have "is \<noteq> []" "j \<noteq> i" using that add(1) by auto
    then show ?thesis using e3 by auto
  qed
  moreover have "\<exists>b. pb m3 ?q = Some b \<and> tot_len b = r \<and> pb_len b = ql" using pb3 by (simp add: b_def)
  moreover have "alloc_pool_loop (pool_hd is) (pool_last is) r off m =
      (if r - ql > 0 then alloc_pool_loop (pool_hd (is @ [i])) (pool_last (is @ [i])) (r - ql) 0 m3
       else Some (pool_hd (is @ [i]), m3))"
    using m3 assms(4,5) unfolding b_def ql
    by (subst alloc_pool_loop.simps) (auto simp: pbuf_init_alloced_pbuf_def Let_def)
  ultimately show ?thesis using inv3 dat3 by blast
qed

lemma alloc_pool_loop_spec:
  assumes "pm_inv (S, P, Q \<union> set is) m" "Q \<inter> set is = {}" "built m h is (unat r)" "align_size off < 1520"
  shows "\<exists>res m'. alloc_pool_loop (pool_hd is) (pool_last is) r off m = Some (res, m') \<and> dat m' = dat m \<and>
    (case res of
       None \<Rightarrow> pm_inv (S, P, Q) m' \<and> pb m' = h
     | Some x \<Rightarrow> \<exists>js. js \<noteq> [] \<and> res = pool_hd (is @ js) \<and> pm_inv (S, P, Q \<union> set (is @ js)) m' \<and>
         Q \<inter> set (is @ js) = {} \<and> built m' h (is @ js) 0 \<and> lens (pb m') (map Pool_elem js) = unat r \<and>
         (\<forall>j \<in> set is. map_option tot_len (pb m' (Pool_elem j)) = map_option tot_len (pb m (Pool_elem j))))"
  using assms
proof (induction "unat r" arbitrary: "is" r off m rule: less_induct)
  case less
  obtain e ps where mm: "memp_malloc MEMP_PBUF_POOL (pools m) = (e, ps)" by fastforce
  show ?case
  proof (cases e)
    case None
    then show ?thesis using alloc_pool_fail [OF less.prems(1-3)] mm by fastforce
  next
    case (Some i)
    define ql where "ql = min r (of_nat (1520 - align_size off) :: u16)"
    note qs = qlen_step [OF less.prems(4) ql_def]
    obtain m3 b where loop: "alloc_pool_loop (pool_hd is) (pool_last is) r off m =
        (if r - ql > 0 then alloc_pool_loop (pool_hd (is @ [i])) (pool_last (is @ [i])) (r - ql) 0 m3
         else Some (pool_hd (is @ [i]), m3))"
      and s: "pm_inv (S, P, Q \<union> set (is @ [i])) m3" "Q \<inter> set (is @ [i]) = {}"
        "built m3 h (is @ [i]) (unat (r - ql))" "dat m3 = dat m"
        "pb m3 (Pool_elem i) = Some b" "tot_len b = r" "pb_len b = ql"
        "\<forall>j \<in> set is. map_option tot_len (pb m3 (Pool_elem j)) = map_option tot_len (pb m (Pool_elem j))"
      using alloc_pool_step [OF less.prems] mm Some ql_def by blast
    show ?thesis
    proof (cases "r - ql > 0")
      case False
      then have z: "r = ql" by (simp add: word_gt_0)
      have "lens (pb m3) (map Pool_elem [i]) = unat r" using s(5,7) z by simp
      then show ?thesis using loop False s z
        by (intro exI [of _ "pool_hd (is @ [i])"] exI [of _ m3]) (auto intro!: exI [of _ "[i]"])
    next
      case True
      then have "r > 0" using qs(1) by (auto simp: word_gt_0)
      have a0: "align_size 0 < 1520" by (simp add: align_size_def)
      from less.hyps [OF qs(3) [OF \<open>r > 0\<close>] s(1-3) a0] obtain res m' where
        ih: "alloc_pool_loop (pool_hd (is @ [i])) (pool_last (is @ [i])) (r - ql) 0 m3 = Some (res, m')"
          "dat m' = dat m3"
        and cs: "case res of None \<Rightarrow> pm_inv (S, P, Q) m' \<and> pb m' = h
         | Some x \<Rightarrow> \<exists>js. js \<noteq> [] \<and> res = pool_hd ((is @ [i]) @ js) \<and> pm_inv (S, P, Q \<union> set ((is @ [i]) @ js)) m' \<and>
           Q \<inter> set ((is @ [i]) @ js) = {} \<and> built m' h ((is @ [i]) @ js) 0 \<and>
           lens (pb m') (map Pool_elem js) = unat (r - ql) \<and>
           (\<forall>j \<in> set (is @ [i]). map_option tot_len (pb m' (Pool_elem j)) = map_option tot_len (pb m3 (Pool_elem j)))"
        by blast
      show ?thesis
      proof (cases res)
        case None
        then show ?thesis using loop True ih cs s(4) by auto
      next
        case res: (Some x)
        then obtain js where js: "res = pool_hd ((is @ [i]) @ js)" "pm_inv (S, P, Q \<union> set ((is @ [i]) @ js)) m'"
          "Q \<inter> set ((is @ [i]) @ js) = {}" "built m' h ((is @ [i]) @ js) 0"
          "\<forall>j \<in> set (is @ [i]). map_option tot_len (pb m' (Pool_elem j)) = map_option tot_len (pb m3 (Pool_elem j))"
          using cs by auto
        have "map_option tot_len (pb m' (Pool_elem i)) = Some r" using js(5) s(5,6) by simp
        then have "lens (pb m') (map Pool_elem (i # js)) = unat r"
          using js(4) by (auto simp: built_def tots_with_append)
        then show ?thesis using loop True ih js s(4,8) res
          by (intro exI [of _ res] exI [of _ m']) (auto intro!: exI [of _ "i # js"])
      qed
    qed
  qed
qed


subsection \<open>Allocation\<close>

text \<open>
  \<open>new_packet m L m' L' x xs n\<close>: compared with \<open>m\<close>, the memory \<open>m'\<close> has one more packet, the chain
  \<open>xs\<close> from \<open>x\<close>, of \<open>n\<close> bytes, with structures that were not live before; everything else is as
  it was.
\<close>

definition new_packet :: "pmem \<Rightarrow> pmem \<Rightarrow> ptr \<Rightarrow> ptr list \<Rightarrow> nat \<Rightarrow> bool" where
  "new_packet m m' x xs n \<longleftrightarrow>
     chain (pb m') (Some x) xs \<and> tots (pb m') xs \<and> lens (pb m') xs = n \<and> list_all (fresh_ok m') xs \<and>
     (\<forall>y \<in> set xs. pb m y = None) \<and> (\<forall>y. y \<notin> set xs \<longrightarrow> pb m' y = pb m y) \<and>
     (\<forall>bf. bf \<notin> heap_bufs xs \<longrightarrow> dat m' bf = dat m bf)"

lemma layer_hlen_align: "align_size (layer_hlen l) \<le> 76"
  by (cases l) (simp_all add: align_size_def)

lemma pbuf_alloc_pool:
  assumes "pm_inv L m"
  shows "\<exists>r m'. pbuf_alloc l n PBUF_POOL m = Some (r, m') \<and>
    (case r of None \<Rightarrow> pm_inv L m' \<and> pb m' = pb m \<and> dat m' = dat m
     | Some x \<Rightarrow> \<exists>xs L'. new_packet m m' x xs (unat n) \<and> pm_inv L' m' \<and> drop_lives xs L' = L)"
proof -
  obtain S P Q where L: "L = (S, P, Q)" by (cases L)
  have inv: "pm_inv (S, P, Q \<union> set []) m" using assms L by simp
  have off: "align_size (layer_hlen l) < 1520" using layer_hlen_align [of l] by simp
  have "built m (pb m) [] (unat n)" by (simp add: built_def)
  from alloc_pool_loop_spec [OF inv _ this off, unfolded append_Nil] obtain res m' where
    r: "alloc_pool_loop None None n (layer_hlen l) m = Some (res, m')" "dat m' = dat m"
    and cs: "case res of None \<Rightarrow> pm_inv (S, P, Q) m' \<and> pb m' = pb m
      | Some x \<Rightarrow> \<exists>js. js \<noteq> [] \<and> res = pool_hd js \<and> pm_inv (S, P, Q \<union> set js) m' \<and> Q \<inter> set js = {} \<and>
          built m' (pb m) js 0 \<and> lens (pb m') (map Pool_elem js) = unat n \<and>
          (\<forall>j \<in> set []. map_option tot_len (pb m' (Pool_elem j)) = map_option tot_len (pb m (Pool_elem j)))"
    by auto
  have al: "pbuf_alloc l n PBUF_POOL m = Some (res, m')" using r by (simp add: pbuf_alloc_def)
  show ?thesis
  proof (cases res)
    case None
    then show ?thesis using al cs r(2) L by auto
  next
    case (Some x)
    then obtain js where js: "js \<noteq> []" "x = Pool_elem (hd js)" "pm_inv (S, P, Q \<union> set js) m'" "Q \<inter> set js = {}"
      "built m' (pb m) js 0" "lens (pb m') (map Pool_elem js) = unat n"
      using cs by auto
    have "new_packet m m' x (map Pool_elem js) (unat n)"
      using js r(2) by (auto simp: new_packet_def built_def tots_with_0 list_all_iff)
    moreover have "drop_lives (map Pool_elem js) (S, P, Q \<union> set js) = L"
      using js(4) L by (auto simp: drop_lives_pool)
    ultimately show ?thesis using al Some js(3) by auto
  qed
qed

lemma no_wrap: "x \<le> 100 \<Longrightarrow> A \<le> (x + A) mod 65536 \<Longrightarrow> (x + A) mod 65536 = x + (A :: nat)"
proof (cases "x + A < 65536")
  case False
  assume "x \<le> 100" "A \<le> (x + A) mod 65536"
  moreover have "(x + A) mod 65536 = (x + A - 65536) mod 65536" using False by (intro le_mod_geq) simp
  moreover have "(x + A - 65536) mod 65536 \<le> x + A - 65536" by (rule mod_less_eq_dividend)
  ultimately show ?thesis using False by linarith
qed simp

lemma pbuf_alloc_ram:
  assumes "pm_inv L m"
  shows "\<exists>r m'. pbuf_alloc l n PBUF_RAM m = Some (r, m') \<and>
    (case r of None \<Rightarrow> pm_inv L m' \<and> pb m' = pb m \<and> dat m' = dat m
     | Some x \<Rightarrow> \<exists>xs L'. new_packet m m' x xs (unat n) \<and> pm_inv L' m' \<and> drop_lives xs L' = L)"
proof -
  obtain S P Q where L: "L = (S, P, Q)" by (cases L)
  define off where "off = align_size (layer_hlen l)"
  define pl where "pl = (off + align_size (unat n)) mod 65536"
  define al where "al = (24 + pl) mod 65536"
  have o: "off \<le> 76" using layer_hlen_align [of l] by (simp add: off_def)
  have an: "unat n \<le> align_size (unat n)" "align_size (unat n) < 65540"
    using align_size_ge align_size_less [of "unat n"] unat16_less [of n] by auto
  have inv: "heap_blocks (hp m) S" using assms L by (simp add: pm_inv_def)
  show ?thesis
  proof (cases "pl < align_size (unat n) \<or> al < align_size (unat n)")
    case True
    then have "pbuf_alloc l n PBUF_RAM m = Some (None, m)"
      by (auto simp: pbuf_alloc_def Let_def off_def pl_def al_def)
    then show ?thesis using assms by auto
  next
    case False
    have pl: "pl = off + align_size (unat n)" "al = 24 + pl"
      using False o no_wrap [of off "align_size (unat n)"] no_wrap [of "24 + off" "align_size (unat n)"]
      by (auto simp: pl_def al_def add.assoc)
    obtain r h where mal: "mem_malloc al (hp m) = Some (r, h)"
      "case r of None \<Rightarrow> heap_blocks h S | Some p \<Rightarrow> S p = None \<and> (\<exists>k \<ge> al. heap_blocks h (S(p \<mapsto> k)))"
      using heap_blocks_malloc [OF inv, of al] by blast
    have eq: "pbuf_alloc l n PBUF_RAM m =
      (case r of None \<Rightarrow> Some (None, m\<lparr>hp := h\<rparr>)
       | Some c \<Rightarrow> Some (Some (Heap c), pbuf_init_alloced_pbuf (Heap c) (Some (Own (Heap c), int off)) n n PBUF_RAM 0
           (m\<lparr>hp := h, dat := (dat m)(Own (Heap c) := map (junk m) [0..<pl])\<rparr>)))"
      using False mal(1) unfolding pbuf_alloc_def Let_def off_def pl_def al_def
      by (auto split: option.split)
    show ?thesis
    proof (cases r)
      case None
      have "held L (m\<lparr>hp := h\<rparr>) y = held L m y" for y by (rule held_cong) auto
      then show ?thesis using eq None mal(2) assms L by (auto simp: pm_inv_def)
    next
      case (Some c)
      then obtain k where k: "S c = None" "al \<le> k" "heap_blocks h (S(c \<mapsto> k))" using mal(2) by auto
      define b where "b = \<lparr>pb_next = None, payload = Some (Own (Heap c), int off), tot_len = n, pb_len = n,
        type_internal = type_u8 PBUF_RAM, pb_flags = 0, pb_ref = 1, if_idx = 0\<rparr>"
      define m' where "m' = put_pb (Heap c) b (m\<lparr>hp := h, dat := (dat m)(Own (Heap c) := map (junk m) [0..<pl])\<rparr>)"
      have res: "pbuf_alloc l n PBUF_RAM m = Some (Some (Heap c), m')"
        using eq Some by (simp add: m'_def b_def pbuf_init_alloced_pbuf_def)
      have no: "pb m (Heap c) = None" using pm_invD(2) [OF assms, of "Heap c"] L k(1) by (cases "pb m (Heap c)") auto
      have pb': "pb m' = (pb m)(Heap c \<mapsto> b)" by (simp add: m'_def)
      have "fresh_ok m' (Heap c)" using an pl by (simp add: fresh_ok_def pb' b_def m'_def)
      then have np: "new_packet m m' (Heap c) [Heap c] (unat n)"
        using no by (auto simp: new_packet_def pb' b_def m'_def)
      have "held (S(c \<mapsto> k), P, Q) m' y" if "pb m' y \<noteq> None" for y
      proof (cases "y = Heap c")
        case True
        then show ?thesis using k(2) pl(2) by (simp add: m'_def)
      next
        case False
        then have "held (S, P, Q) m y" using that pm_invD(2) [OF assms] L by (auto simp: pb')
        then show ?thesis using False by (cases y) (auto simp: m'_def)
      qed
      moreover have "label_ok y d" if "pb m' y = Some d" for y d
        using that pm_invD(1) [OF assms] unfolding pb' by (auto simp: b_def label_ok_def split: if_splits)
      ultimately have "pm_inv (S(c \<mapsto> k), P, Q) m'"
        using assms L k(3) by (auto simp: pm_inv_def m'_def)
      moreover have "drop_lives [Heap c] (S(c \<mapsto> k), P, Q) = L" using k(1) L by (auto simp: drop_lives_def)
      ultimately show ?thesis using res np by auto
    qed
  qed
qed


lemma pbuf_alloc_spec:
  assumes "pm_inv L m" "ty = PBUF_RAM \<or> ty = PBUF_POOL"
  shows "\<exists>r m'. pbuf_alloc l n ty m = Some (r, m') \<and>
    (case r of None \<Rightarrow> pm_inv L m' \<and> pb m' = pb m \<and> dat m' = dat m
     | Some x \<Rightarrow> \<exists>xs L'. new_packet m m' x xs (unat n) \<and> pm_inv L' m' \<and> drop_lives xs L' = L)"
  using assms(2) pbuf_alloc_pool [OF assms(1)] pbuf_alloc_ram [OF assms(1)] by (elim disjE) simp_all

lemma new_packet_refs:
  assumes "new_packet m m' x xs n"
  shows "refs_pos (pb m') xs" "list_all (\<lambda>y. \<exists>b. pb m' y = Some b \<and> pb_ref b = 1) xs"
  using assms by (auto simp: new_packet_def refs_pos_def list_all_iff fresh_ok_def split: option.splits)

subsection \<open>The other pools\<close>

lemma dealloc_pools:
  assumes "dealloc_pbuf x b (put_pb x b' m) = Some m2" "t \<noteq> MEMP_PBUF" "t \<noteq> MEMP_PBUF_POOL"
  shows "pools m2 t = pools m t"
  using assms by (auto simp: dealloc_pbuf_def forget_def put_pb_def memp_free_def Let_def bind_Some_conv split: if_splits option.splits ptr.splits)

lemma free_loop_pools:
  assumes "free_loop p n m = Some r" "t \<noteq> MEMP_PBUF" "t \<noteq> MEMP_PBUF_POOL"
  shows "pools (snd r) t = pools m t"
proof (rule free_loop.raw_induct [where P = "\<lambda>p n m r. pools (snd r) t = pools m t", OF _ assms(1)], goal_cases)
  case (1 f p n m r)
  show ?case
  proof (cases p)
    case None
    then show ?thesis using 1(2) by auto
  next
    case (Some x)
    obtain b where b: "pb m x = Some b" using 1(2) Some by (auto simp: bind_Some_conv)
    show ?thesis
    proof (cases "pb_ref b - 1 = 0")
      case True
      obtain m2 where d: "dealloc_pbuf x b (put_pb x (b\<lparr>pb_ref := 0\<rparr>) m) = Some m2" "f (pb_next b) (n + 1) m2 = Some r"
        using 1(2) Some b True by (auto simp: bind_Some_conv)
      then show ?thesis using 1(1) [OF d(2)] dealloc_pools [OF d(1) assms(2,3)] by simp
    next
      case False
      then show ?thesis using 1(2) Some b by (auto simp: bind_Some_conv put_pb_def)
    qed
  qed
qed

lemma alloc_ram_pools:
  assumes "pbuf_alloc l n PBUF_RAM m = Some (r, m')"
  shows "pools m' = pools m"
  using assms by (auto simp: pbuf_alloc_def Let_def bind_Some_conv pbuf_init_alloced_pbuf_def put_pb_def split: if_splits option.splits)

subsection \<open>A concrete memory\<close>

text \<open>The memory after initialisation, all buffers zero; and one packet of 20 bytes in it.\<close>

definition start_mem :: pmem where
  "start_mem = \<lparr>hp = fresh_heap, pools = memp_init (\<lambda>_. idle_pool), pb = (\<lambda>_. None),
     dat = (\<lambda>bf. case bf of Own (Pool_elem i) \<Rightarrow> replicate 1520 0 | _ \<Rightarrow> []), junk = (\<lambda>_. 0),
     custom_fn = (\<lambda>_. None), custom_freed = [], ooseq_pending = False, tcpip_mbox = []\<rparr>"

lemma start_inv: "pm_inv (Map.empty, {}, {}) start_mem"
proof -
  have "heap_blocks fresh_heap Map.empty"
    unfolding heap_blocks_def using fresh_heap_rep by (intro exI) auto
  moreover have "pool_live (memp_num t) (memp_init (\<lambda>_. idle_pool) t) {}" for t
    by (rule memp_init_live) (simp add: idle_pool_def)
  ultimately show ?thesis by (auto simp: pm_inv_def start_mem_def simp del: memp_num.simps)
qed

lemma start_alloc: "\<exists>m'. pbuf_alloc PBUF_RAW 20 PBUF_RAM start_mem = Some (Some (Heap 8), m')"
proof -
  have "alloc_spec 44 [(0, 10240, False)] = (Some 8, [(0, 52, True), (52, 10188, False)])"
    by (simp add: alloc_spec_def norm_size_def align_size_def)
  then obtain h where "mem_malloc 44 fresh_heap = Some (Some 8, h)"
    using mem_malloc_rep [OF fresh_heap_rep, of 44] by auto
  then show ?thesis by (simp add: pbuf_alloc_def start_mem_def align_size_def)
qed

lemma start_packet:
  "\<exists>m' xs L'. pbuf_alloc PBUF_RAW 20 PBUF_RAM start_mem = Some (Some (Heap 8), m') \<and>
     new_packet start_mem m' (Heap 8) xs 20 \<and> pm_inv L' m' \<and> drop_lives xs L' = (Map.empty, {}, {})"
proof -
  obtain m1 where a: "pbuf_alloc PBUF_RAW 20 PBUF_RAM start_mem = Some (Some (Heap 8), m1)"
    using start_alloc by blast
  from pbuf_alloc_spec [OF start_inv, of PBUF_RAM PBUF_RAW 20] a show ?thesis by simp
qed

subsection \<open>Properties\<close>

text \<open>
  C5: \<open>pbuf_alloc\<close> for packets with a buffer (\<open>PBUF_RAM\<close>, \<open>PBUF_POOL\<close>) always returns. On success
  it returns a chain of fresh structures with one reference each, whose lengths add up to the
  requested length, whose \<open>tot_len\<close> fields are right, and whose payloads lie in their own buffers;
  every other structure and buffer is unchanged. On failure it gives back whatever it had
  allocated: the structures, the buffers and the allocators' live objects are as before.
\<close>

theorem pbuf_alloc_correct:
  assumes "pm_inv L m" "ty = PBUF_RAM \<or> ty = PBUF_POOL"
  shows "\<exists>r m'. pbuf_alloc l n ty m = Some (r, m') \<and>
    (case r of None \<Rightarrow> pm_inv L m' \<and> pb m' = pb m \<and> dat m' = dat m
     | Some x \<Rightarrow> \<exists>xs L'. new_packet m m' x xs (unat n) \<and> pm_inv L' m' \<and> drop_lives xs L' = L)"
  using assms by (rule pbuf_alloc_spec)

theorem pbuf_alloc_correct_witness:
  "pm_inv (Map.empty, {}, {}) start_mem \<and>
   (\<exists>m' xs L'. pbuf_alloc PBUF_RAW 20 PBUF_RAM start_mem = Some (Some (Heap 8), m') \<and>
      new_packet start_mem m' (Heap 8) xs 20 \<and> pm_inv L' m')"
proof -
  obtain m1 where a: "pbuf_alloc PBUF_RAW 20 PBUF_RAM start_mem = Some (Some (Heap 8), m1)"
    using start_alloc by blast
  have "\<exists>xs L'. new_packet start_mem m1 (Heap 8) xs 20 \<and> pm_inv L' m1"
    using pbuf_alloc_correct [OF start_inv, of PBUF_RAM PBUF_RAW 20] a by auto
  then show ?thesis using a start_inv by blast
qed

text \<open>
  C6: \<open>pbuf_free\<close> on a chain with positive counts returns without a failed assertion, deallocates
  exactly the structures at the head that have one reference, takes one reference from the first
  that has more, returns the number of deallocated structures (modulo 256, it is a \<^verbatim>\<open>u8_t\<close>),
  leaves the rest of the memory alone, and hands the objects back to the allocators they came from.
\<close>

theorem pbuf_free_correct:
  assumes "pm_inv L m" "chain (pb m) (Some x) xs" "refs_pos (pb m) xs"
  shows "\<exists>m'. pbuf_free (Some x) m = Some (of_nat (nfree (pb m) xs), m') \<and>
    pb m' = unref (pb m) xs \<and> pm_inv (drop_lives (take (nfree (pb m) xs) xs) L) m' \<and>
    (\<forall>bf. bf \<notin> heap_bufs (take (nfree (pb m) xs) xs) \<longrightarrow> dat m' bf = dat m bf)"
  using assms by (rule pbuf_free_chain)

theorem pbuf_free_correct_witness:
  "\<exists>L m xs m'. pm_inv L m \<and> chain (pb m) (Some (Heap 8)) xs \<and> refs_pos (pb m) xs \<and>
     pbuf_free (Some (Heap 8)) m = Some (of_nat (length xs), m') \<and> pm_inv (Map.empty, {}, {}) m'"
proof -
  obtain m xs L where m: "new_packet start_mem m (Heap 8) xs 20" "pm_inv L m" "drop_lives xs L = (Map.empty, {}, {})"
    using start_packet by blast
  have "chain (pb m) (Some (Heap 8)) xs" using m(1) by (simp add: new_packet_def)
  moreover note r = new_packet_refs [OF m(1)] and n = nfree_all [OF new_packet_refs(2) [OF m(1)]]
  ultimately obtain m' where "pbuf_free (Some (Heap 8)) m = Some (of_nat (length xs), m')"
    "pm_inv (Map.empty, {}, {}) m'"
    using pbuf_free_correct [OF m(2), of "Heap 8" xs] m(3) n by auto
  then show ?thesis using \<open>chain (pb m) (Some (Heap 8)) xs\<close> m(2) r(1) by blast
qed

text \<open>
  Allocate and free is the identity on the structures and on the allocators: a packet that is
  allocated and then freed leaves no structure behind and no object handed out.
\<close>

lemma pbuf_alloc_free_roundtrip:
  assumes "pm_inv L m" "ty = PBUF_RAM \<or> ty = PBUF_POOL" "pbuf_alloc l n ty m = Some (Some x, m1)"
  shows "\<exists>k m2. pbuf_free (Some x) m1 = Some (k, m2) \<and> pb m2 = pb m \<and> pm_inv L m2"
proof -
  obtain xs L' where np: "new_packet m m1 x xs (unat n)" "pm_inv L' m1" "drop_lives xs L' = L"
    using pbuf_alloc_spec [OF assms(1,2), of l n] assms(3) by auto
  note r = new_packet_refs [OF np(1)]
  have ch: "chain (pb m1) (Some x) xs" using np(1) by (simp add: new_packet_def)
  from pbuf_free_chain [OF np(2) ch r(1)] nfree_all [OF r(2)] np(3) obtain k m2 where
    m2: "pbuf_free (Some x) m1 = Some (k, m2)" "pb m2 = unref (pb m1) xs" "pm_inv L m2" by auto
  have "pb m2 = pb m"
    using m2(2) unref_all [OF chain_distinct [OF ch] r(2)] np(1) by (auto simp: new_packet_def fun_eq_iff)
  then show ?thesis using m2 by blast
qed

text \<open>
  An extra reference protects a packet: after \<open>pbuf_ref\<close>, \<open>pbuf_free\<close> frees nothing and
  restores the memory; only a count of 255 makes \<open>pbuf_ref\<close> stop on its assertion.
\<close>

lemma pbuf_ref_free_roundtrip:
  assumes "pb m x = Some b" "0 < pb_ref b" "pb_ref b < 255"
  shows "\<exists>m1. pbuf_ref (Some x) m = Some m1 \<and> pbuf_free (Some x) m1 = Some (0, m)"
proof -
  have r: "pb_ref b + 1 > 0" "pb_ref b + 1 \<noteq> 1"
  proof -
    have "unat (pb_ref b + 1) = unat (pb_ref b) + 1"
      using assms(3) unat_add_no_overflow [of "pb_ref b" 1] by (auto simp: word_less_nat_alt)
    then show "pb_ref b + 1 > 0" by (simp add: word_less_nat_alt)
    show "pb_ref b + 1 \<noteq> 1" using assms(2) by (simp add: word_gt_0)
  qed
  let ?m1 = "put_pb x (b\<lparr>pb_ref := pb_ref b + 1\<rparr>) m"
  have "pbuf_ref (Some x) m = Some ?m1" using assms(1) r(1) by (simp add: pbuf_ref_def)
  moreover have "put_pb x b ?m1 = m" using assms(1) by (simp add: put_pb_def fun_upd_idem)
  then have "free_loop (Some x) 0 ?m1 = Some (0, m)"
    using r assms(2) by (subst free_loop.simps) (auto simp: word_gt_0)
  ultimately show ?thesis by (simp add: pbuf_free_def)
qed

end
