(* ===== verification/Pbuf_Data.thy ===== *)
theory Pbuf_Data
  imports Pbuf_Alloc
begin

text \<open>
  Reading the data of a packet. \<open>content m xs\<close> is the byte string a chain holds; the access
  functions of \<^verbatim>\<open>pbuf.c\<close> are shown to read this string, wherever it is cut into structures.
\<close>

subsection \<open>The data of a chain\<close>

definition bytes_at :: "pmem \<Rightarrow> address \<Rightarrow> nat \<Rightarrow> bytes" where
  "bytes_at m a n = (case a of None \<Rightarrow> [] | Some (bf, off) \<Rightarrow> take n (drop (nat off) (dat m bf)))"

definition pay :: "pmem \<Rightarrow> ptr \<Rightarrow> bytes" where
  "pay m x = (case pb m x of None \<Rightarrow> [] | Some b \<Rightarrow> bytes_at m (payload b) (unat (pb_len b)))"

definition content :: "pmem \<Rightarrow> ptr list \<Rightarrow> bytes" where
  "content m xs = concat (map (pay m) xs)"

lemma content_simps [simp]:
  "content m [] = []" "content m (x # xs) = pay m x @ content m xs" "content m (xs @ ys) = content m xs @ content m ys"
  by (simp_all add: content_def)

lemma data_ok_simps [simp]:
  "data_ok m []"
  "data_ok m (x # xs) \<longleftrightarrow> (\<exists>b. pb m x = Some b \<and> in_buf m (payload b) (unat (pb_len b))) \<and> data_ok m xs"
  "data_ok m (xs @ ys) \<longleftrightarrow> data_ok m xs \<and> data_ok m ys"
  by (auto simp: data_ok_def split: option.splits)

lemma length_pay:
  assumes "pb m x = Some b" "in_buf m (payload b) (unat (pb_len b))"
  shows "length (pay m x) = unat (pb_len b)"
  using assms by (auto simp: pay_def bytes_at_def in_buf_def split: option.splits prod.splits)

lemma length_content: "data_ok m xs \<Longrightarrow> length (content m xs) = lens (pb m) xs"
  by (induction xs) (auto simp: length_pay)

lemma shift_0 [simp]: "shift a 0 = a"
  by (cases a) (auto simp: shift_def)

lemma rd_pay:
  assumes "pb m x = Some b" "in_buf m (payload b) (unat (pb_len b))" "k + n \<le> unat (pb_len b)"
  shows "rd m (shift (payload b) (int k)) n = Some (take n (drop k (pay m x)))"
proof (cases "n = 0")
  case False
  then obtain bf off where a: "payload b = Some (bf, off)" "0 \<le> off" "nat off + unat (pb_len b) \<le> length (dat m bf)"
    using assms(2,3) by (auto simp: in_buf_def split: option.splits prod.splits)
  have "nat (off + int k) = nat off + k" using a(2) by simp
  then show ?thesis using False a assms(1,3)
    by (auto simp: rd_def shift_def pay_def bytes_at_def drop_take add.commute min_def)
qed (simp add: rd_def)

text \<open>The position of an offset: the structure it falls in and the offset within it.\<close>

fun locate :: "(ptr \<Rightarrow> pbuf option) \<Rightarrow> ptr list \<Rightarrow> nat \<Rightarrow> (ptr option \<times> nat)" where
  "locate h [] off = (None, off)"
| "locate h (x # xs) off = (if len_at h x \<le> off then locate h xs (off - len_at h x) else (Some x, off))"

lemma skip_chain:
  assumes "chain (pb m) p xs"
  shows "pbuf_skip_const p off m = Some (fst (locate (pb m) xs (unat off)), of_nat (snd (locate (pb m) xs (unat off))))"
  using assms
proof (induction xs arbitrary: p off)
  case Nil
  then show ?case by (subst pbuf_skip_const.simps) simp
next
  case (Cons x xs)
  then obtain b where b: "p = Some x" "pb m x = Some b" "chain (pb m) (pb_next b) xs" by auto
  show ?case
  proof (cases "pb_len b \<le> off")
    case True
    then have "unat (off - pb_len b) = unat off - unat (pb_len b)" "unat (pb_len b) \<le> unat off"
      by (simp_all add: unat_sub word_le_nat_alt)
    then show ?thesis using Cons.IH [OF b(3), of "off - pb_len b"] True b
      by (subst pbuf_skip_const.simps) simp
  next
    case False
    then have "\<not> unat (pb_len b) \<le> unat off" by (simp add: word_le_nat_alt)
    then show ?thesis using False b by (subst pbuf_skip_const.simps) simp
  qed
qed

lemma locate_None: "fst (locate h xs off) = None \<longleftrightarrow> lens h xs \<le> off"
  by (induction h xs off rule: locate.induct) auto

lemma locate_Some:
  assumes "off < lens h xs"
  shows "\<exists>us x vs. xs = us @ x # vs \<and> locate h xs off = (Some x, off - lens h us) \<and> lens h us \<le> off \<and>
    off - lens h us < len_at h x"
  using assms
proof (induction h xs off rule: locate.induct)
  case (2 h y ys off)
  show ?case
  proof (cases "len_at h y \<le> off")
    case True
    then have "off - len_at h y < lens h ys" using 2 by simp
    with 2 True obtain us x vs where "ys = us @ x # vs" "locate h ys (off - len_at h y) = (Some x, off - len_at h y - lens h us)"
      "lens h us \<le> off - len_at h y" "off - len_at h y - lens h us < len_at h x" by blast
    then show ?thesis using True by (intro exI [of _ "y # us"] exI [of _ x] exI [of _ vs]) auto
  next
    case False
    then show ?thesis by (intro exI [of _ "[]"]) auto
  qed
qed simp

lemma content_nth:
  assumes "data_ok m (us @ x # vs)" "lens (pb m) us \<le> off" "off - lens (pb m) us < len_at (pb m) x"
  shows "content m (us @ x # vs) ! off = pay m x ! (off - lens (pb m) us)"
    and "length (pay m x) = len_at (pb m) x"
proof -
  obtain b where b: "pb m x = Some b" "in_buf m (payload b) (unat (pb_len b))" using assms(1) by auto
  show l: "length (pay m x) = len_at (pb m) x" using length_pay [OF b] b(1) by simp
  have "length (content m us) = lens (pb m) us" using assms(1) by (simp add: length_content)
  then show "content m (us @ x # vs) ! off = pay m x ! (off - lens (pb m) us)"
    using assms(2,3) l by (simp add: nth_append)
qed

lemma try_get_at_chain:
  assumes "chain (pb m) p xs" "data_ok m xs"
  shows "pbuf_try_get_at p off m =
    Some (if unat off < lens (pb m) xs then int (unat (content m xs ! unat off)) else - 1)"
proof (cases "unat off < lens (pb m) xs")
  case False
  then have "fst (locate (pb m) xs (unat off)) = None" using locate_None by fastforce
  then show ?thesis using False skip_chain [OF assms(1), of off] by (simp add: pbuf_try_get_at_def)
next
  case True
  from locate_Some [OF this] obtain us x vs where l: "xs = us @ x # vs"
    "locate (pb m) xs (unat off) = (Some x, unat off - lens (pb m) us)" "lens (pb m) us \<le> unat off"
    "unat off - lens (pb m) us < len_at (pb m) x" by blast
  define k where "k = unat off - lens (pb m) us"
  obtain b where b: "pb m x = Some b" "in_buf m (payload b) (unat (pb_len b))" using assms(2) l(1) by auto
  note c = content_nth [OF assms(2) [unfolded l(1)] l(3,4)]
  have u: "unat (of_nat k :: u16) = k" using unat16_less [of off] by (intro unat_of_nat_small) (simp add: k_def)
  have "k < unat (pb_len b)" using l(4) b(1) by (simp add: k_def)
  then have "rd m (shift (payload b) (int k)) 1 = Some (take 1 (drop k (pay m x)))"
    using b by (intro rd_pay) auto
  moreover have "hd (take 1 (drop k (pay m x))) = pay m x ! k"
    using \<open>k < unat (pb_len b)\<close> c(2) b(1) by (simp add: hd_drop_conv_nth)
  ultimately show ?thesis
    using True skip_chain [OF assms(1), of off] l(2) b(1) c(1) u \<open>k < unat (pb_len b)\<close>
    by (simp add: pbuf_try_get_at_def word_less_nat_alt flip: k_def l(1))
qed

lemma get_at_chain:
  assumes "chain (pb m) p xs" "data_ok m xs"
  shows "pbuf_get_at p off m = Some (if unat off < lens (pb m) xs then content m xs ! unat off else 0)"
  using try_get_at_chain [OF assms, of off] by (simp add: pbuf_get_at_def)

lemma overwrite_append:
  "i + length as + length bs \<le> length xs \<Longrightarrow>
   overwrite (i + length as) bs (overwrite i as xs) = overwrite i (as @ bs) xs"
  by (auto simp: overwrite_def ac_simps)

lemma copy_partial_loop_chain:
  assumes "chain (pb m) p xs" "data_ok m xs" "unat left + unat ln < 65536"
    and "bs = take (unat ln) (drop (unat off) (content m xs))" "unat left + length bs \<le> length dst"
  shows "copy_partial_loop p dst ln off left m = Some (of_nat (unat left + length bs), overwrite (unat left) bs dst)"
  using assms
proof (induction xs arbitrary: p ln off left bs dst)
  case Nil
  then show ?case by (subst copy_partial_loop.simps) simp
next
  case (Cons x xs)
  then obtain b where b: "p = Some x" "pb m x = Some b" "in_buf m (payload b) (unat (pb_len b))"
    "chain (pb m) (pb_next b) xs" "data_ok m xs" by auto
  have lp: "length (pay m x) = unat (pb_len b)" by (rule length_pay [OF b(2,3)])
  show ?case
  proof (cases "ln = 0")
    case True
    then show ?thesis using Cons.prems by (subst copy_partial_loop.simps) simp
  next
    case ln: False
    show ?thesis
    proof (cases "off \<noteq> 0 \<and> off \<ge> pb_len b")
      case True
      then have u: "unat (off - pb_len b) = unat off - unat (pb_len b)" "unat (pb_len b) \<le> unat off"
        by (simp_all add: unat_sub word_le_nat_alt)
      have "copy_partial_loop (pb_next b) dst ln (off - pb_len b) left m =
          Some (of_nat (unat left + length bs), overwrite (unat left) bs dst)"
        using Cons.prems lp u by (intro Cons.IH b(4,5)) auto
      then show ?thesis using True ln b(1,2) by (subst copy_partial_loop.simps) simp
    next
      case False
      then have le: "off \<le> pb_len b" by auto
      then have u: "unat (pb_len b - off) = unat (pb_len b) - unat off" "unat off \<le> unat (pb_len b)"
        by (simp_all add: unat_sub word_le_nat_alt)
      define n where "n = (if pb_len b - off > ln then ln else pb_len b - off)"
      have n: "unat n = min (unat (pb_len b) - unat off) (unat ln)"
        using u by (auto simp: n_def word_less_nat_alt min_def)
      define as where "as = take (unat n) (drop (unat off) (pay m x))"
      have las: "length as = unat n" using n lp by (simp add: as_def)
      have rd: "rd m (shift (payload b) (int (unat off))) (unat n) = Some as"
        unfolding as_def using b n u by (intro rd_pay) auto
      have r: "unat (ln - n) = unat ln - unat n" using n by (simp add: unat_sub word_le_nat_alt)
      define cs where "cs = take (unat (ln - n)) (drop (unat (0 :: u16)) (content m xs))"
      have bs: "bs = as @ cs" using Cons.prems(4) lp u n r by (auto simp: as_def cs_def min_def)
      have put: "put_bytes dst (unat left) as = Some (overwrite (unat left) as dst)"
        using Cons.prems(5) bs by (simp add: put_bytes_def)
      have l: "unat (left + n) = unat left + length as"
        using Cons.prems(3) n las by (subst unat_add_no_overflow) auto
      have ow: "overwrite (unat (left + n)) cs (overwrite (unat left) as dst) = overwrite (unat left) bs dst"
        unfolding l bs using Cons.prems(5) bs by (intro overwrite_append) simp
      have "unat (left + n) + unat (ln - n) < 65536" using Cons.prems(3) l r n las by linarith
      moreover have "unat (left + n) + length cs \<le> length (overwrite (unat left) as dst)"
        using Cons.prems(5) bs l by simp
      ultimately have "copy_partial_loop (pb_next b) (overwrite (unat left) as dst) (ln - n) 0 (left + n) m =
          Some (of_nat (unat (left + n) + length cs), overwrite (unat left) bs dst)"
        using Cons.IH [OF b(4,5) _ cs_def] ow by metis
      moreover have "unat (left + n) + length cs = unat left + length bs" using l bs by simp
      ultimately have "copy_partial_loop (pb_next b) (overwrite (unat left) as dst) (ln - n) 0 (left + n) m =
          Some (of_nat (unat left + length bs), overwrite (unat left) bs dst)" by (simp only:)
      then show ?thesis using if_not_P [OF False] ln b(1,2) rd put
        by (subst copy_partial_loop.simps) (simp only: Let_def n_def [symmetric] option.case bind.bind_lunit if_False)
    qed
  qed
qed

lemma copy_partial_chain:
  assumes "chain (pb m) (Some x) xs" "data_ok m xs" "bs = take (unat ln) (drop (unat off) (content m xs))"
    and "length bs \<le> length dst"
  shows "pbuf_copy_partial (Some x) (Some dst) ln off m = Some (of_nat (length bs), overwrite 0 bs dst)"
  using copy_partial_loop_chain [OF assms(1,2), of 0 ln bs off dst] assms(3,4) unat16_less [of ln]
  by (simp add: pbuf_copy_partial_def)

subsection \<open>Comparing and searching\<close>

text \<open>\<open>first_diff\<close> is 0 for equal strings, one more than the first position where they differ otherwise.\<close>

fun first_diff :: "bytes \<Rightarrow> bytes \<Rightarrow> nat \<Rightarrow> nat" where
  "first_diff (a # as) (b # bs) i = (if a \<noteq> b then i + 1 else first_diff as bs (i + 1))"
| "first_diff _ _ i = 0"

lemma first_diff_0: "length as = length bs \<Longrightarrow> first_diff as bs i = 0 \<longleftrightarrow> as = bs"
  by (induction as bs i rule: first_diff.induct) auto

lemma first_diff_pos:
  "length as = length bs \<Longrightarrow> first_diff as bs i = Suc k \<Longrightarrow>
   i \<le> k \<and> k - i < length as \<and> as ! (k - i) \<noteq> bs ! (k - i) \<and> take (k - i) as = take (k - i) bs"
proof (induction as bs i rule: first_diff.induct)
  case (1 a as b bs i)
  show ?case
  proof (cases "a = b")
    case True
    then have "i + 1 \<le> k \<and> k - (i + 1) < length as \<and> as ! (k - (i + 1)) \<noteq> bs ! (k - (i + 1)) \<and>
      take (k - (i + 1)) as = take (k - (i + 1)) bs" using 1 by simp
    moreover from this obtain j where "k - i = Suc j" "k - (i + 1) = j" by (cases "k - i") auto
    ultimately show ?thesis using True by simp
  next
    case False
    then show ?thesis using 1 by simp
  qed
qed auto

lemma memcmp_loop_chain:
  assumes "chain (pb m) q xs" "data_ok m xs" "unat start + unat n \<le> lens (pb m) xs" "unat n \<le> length s2"
    and "lens (pb m) xs < 65536" "unat i \<le> unat n"
    and "as = take (unat n) (drop (unat start) (content m xs))" "bs = take (unat n) s2"
  shows "memcmp_loop q start s2 n i m = Some (of_nat (first_diff (drop (unat i) as) (drop (unat i) bs) (unat i)))"
  using assms(6)
proof (induction "unat n - unat i" arbitrary: i)
  case 0
  then have "\<not> i < n" by (simp add: word_less_nat_alt)
  then show ?case using 0 assms(7,8) by (subst memcmp_loop.simps) simp
next
  case (Suc k)
  then have i: "i < n" "unat i < unat n" by (simp_all add: word_less_nat_alt)
  have u1: "unat (i + 1) = unat i + 1"
    using i(2) unat16_less [of n] by (subst unat_add_no_overflow) auto
  have u2: "unat (start + i) = unat start + unat i"
    using i(2) assms(3,5) by (subst unat_add_no_overflow) auto
  have lc: "length (content m xs) = lens (pb m) xs" by (rule length_content [OF assms(2)])
  have la: "length as = unat n" "length bs = unat n" using assms(3,4,7,8) lc by auto
  have a: "pbuf_get_at q (start + i) m = Some (as ! unat i)"
    using get_at_chain [OF assms(1,2), of "start + i"] u2 i(2) assms(3,7) lc by simp
  have d: "drop (unat i) as = as ! unat i # drop (unat i + 1) as"
    "drop (unat i) bs = bs ! unat i # drop (unat i + 1) bs"
    using i(2) la by (simp_all add: Cons_nth_drop_Suc)
  have b: "bs ! unat i = s2 ! unat i" using i(2) assms(8) by simp
  have "unat i + 1 \<le> 65535" using i(2) unat16_less [of n] by simp
  moreover have "memcmp_loop q start s2 n (i + 1) m =
      Some (of_nat (first_diff (drop (unat i + 1) as) (drop (unat i + 1) bs) (unat i + 1)))"
    using Suc(1) [of "i + 1"] Suc(2) i(2) u1 by simp
  ultimately show ?case using i a d b assms(4) by (subst memcmp_loop.simps) (simp add: min_def)
qed

lemma locate_suffix:
  assumes "off < lens h xs" "chain h p xs"
  shows "\<exists>us x vs. xs = us @ x # vs \<and> locate h xs off = (Some x, off - lens h us) \<and> lens h us \<le> off \<and>
    off - lens h us < len_at h x \<and> chain h (Some x) (x # vs)"
proof -
  from locate_Some [OF assms(1)] obtain us x vs where "xs = us @ x # vs"
    "locate h xs off = (Some x, off - lens h us)" "lens h us \<le> off" "off - lens h us < len_at h x" by blast
  moreover from this have "chain h (Some x) (x # vs)" using chain_suffix assms(2) by blast
  ultimately show ?thesis by blast
qed

lemma memcmp_chain:
  assumes "chain (pb m) (Some y) xs" "data_ok m xs" "tots (pb m) xs" "unat n \<le> length s2"
  shows "pbuf_memcmp (Some y) off s2 n m = Some (if lens (pb m) xs < unat off + unat n then 0xFFFF
    else of_nat (first_diff (take (unat n) (drop (unat off) (content m xs))) (take (unat n) s2) 0))"
proof -
  obtain ys b where ys: "xs = y # ys" "pb m y = Some b" using assms(1) chain_Some by fastforce
  then have t: "unat (tot_len b) = lens (pb m) xs" using assms(3) by simp
  have bnd: "lens (pb m) xs < 65536" by (rule tots_bound [OF assms(3)])
  show ?thesis
  proof (cases "lens (pb m) xs < unat off + unat n")
    case True
    then show ?thesis using t ys(2) by (simp add: pbuf_memcmp_def deref_def)
  next
    case fit: False
    show ?thesis
    proof (cases "n = 0")
      case True
      obtain q s where "pbuf_skip_const (Some y) off m = Some (q, s)" using skip_chain [OF assms(1)] by blast
      then show ?thesis using True fit t ys(2)
        by (simp add: pbuf_memcmp_def deref_def) (subst memcmp_loop.simps, simp)
    next
      case False
      then have "unat off < lens (pb m) xs" using fit unat_gt_0 [of n] by linarith
      from locate_suffix [OF this assms(1)] obtain us x vs where l: "xs = us @ x # vs"
        "locate (pb m) xs (unat off) = (Some x, unat off - lens (pb m) us)" "lens (pb m) us \<le> unat off"
        "chain (pb m) (Some x) (x # vs)" by blast
      define k where "k = unat off - lens (pb m) us"
      have u: "unat (of_nat k :: u16) = k" using unat16_less [of off] by (intro unat_of_nat_small) (simp add: k_def)
      have "length (content m us) = lens (pb m) us" using assms(2) l(1) by (simp add: length_content)
      then have c: "drop (unat off) (content m xs) = drop k (content m (x # vs))"
        using l(1,3) by (simp add: k_def)
      have "memcmp_loop (Some x) (of_nat k) s2 n 0 m = Some (of_nat (first_diff
          (drop (unat (0 :: u16)) (take (unat n) (drop (unat (of_nat k :: u16)) (content m (x # vs)))))
          (drop (unat (0 :: u16)) (take (unat n) s2)) (unat (0 :: u16))))"
        by (rule memcmp_loop_chain [OF l(4)]) (use assms(2,4) l(1,3) u fit bnd in \<open>auto simp: k_def\<close>)
      then show ?thesis using fit t ys(2) skip_chain [OF assms(1), of off] l(2) c u
        by (simp add: pbuf_memcmp_def deref_def flip: k_def)
    qed
  qed
qed

definition occurs :: "bytes \<Rightarrow> bytes \<Rightarrow> nat \<Rightarrow> bool" where
  "occurs pat txt i \<longleftrightarrow> i + length pat \<le> length txt \<and> take (length pat) (drop i txt) = pat"

lemma memcmp_occurs:
  assumes "chain (pb m) (Some y) xs" "data_ok m xs" "tots (pb m) xs" "unat n = length pat"
    and "unat off + unat n \<le> lens (pb m) xs"
  shows "\<exists>r. pbuf_memcmp (Some y) off pat n m = Some r \<and> (r = 0 \<longleftrightarrow> occurs pat (content m xs) (unat off))"
proof -
  define r where "r = first_diff (take (unat n) (drop (unat off) (content m xs))) (take (unat n) pat) 0"
  have lc: "length (content m xs) = lens (pb m) xs" by (rule length_content [OF assms(2)])
  have z: "r = 0 \<longleftrightarrow> occurs pat (content m xs) (unat off)"
    unfolding r_def using assms(4,5) lc by (subst first_diff_0) (auto simp: occurs_def)
  have "r \<le> unat n"
  proof (cases r)
    case (Suc k)
    then show ?thesis using first_diff_pos [of "take (unat n) (drop (unat off) (content m xs))" "take (unat n) pat" 0 k]
        assms(4,5) lc by (auto simp: r_def)
  qed simp
  then have "unat (of_nat r :: u16) = r" using unat16_less [of n] by (intro unat_of_nat_small) simp
  then have "(of_nat r :: u16) = 0 \<longleftrightarrow> r = 0"
    using unat_eq_0 [of "of_nat r :: u16"] by (simp only: eq_commute)
  then show ?thesis using memcmp_chain [OF assms(1-3), of n pat off] assms(4,5) z by (auto simp: r_def)
qed

lemma memfind_loop_chain:
  assumes c: "chain (pb m) (Some y) xs" "data_ok m xs" "tots (pb m) xs" "unat n = length pat"
    and mx: "unat mx + unat n = lens (pb m) xs"
    and i: "unat i \<le> unat mx + 1"
  shows "\<exists>r. memfind_loop (Some y) pat n mx i m = Some r \<and>
    (if \<exists>j\<ge>unat i. occurs pat (content m xs) j
     then unat r = (LEAST j. unat i \<le> j \<and> occurs pat (content m xs) j) else r = 0xFFFF)"
  using i
proof (induction "unat mx + 1 - unat i" arbitrary: i)
  case 0
  then have "\<not> i \<le> mx" by (simp add: word_le_nat_alt)
  moreover have "\<not> occurs pat (content m xs) j" if "unat i \<le> j" for j
    using that 0 mx c(4) length_content [OF c(2)] by (simp add: occurs_def)
  ultimately show ?case by (subst memfind_loop.simps) auto
next
  case (Suc k)
  then have le: "i \<le> mx" "unat i \<le> unat mx" by (simp_all add: word_le_nat_alt)
  obtain r where r: "pbuf_memcmp (Some y) i pat n m = Some r" "r = 0 \<longleftrightarrow> occurs pat (content m xs) (unat i)"
    using memcmp_occurs [OF c, of i] le mx by auto
  show ?case
  proof (cases "r = 0")
    case True
    then have o: "occurs pat (content m xs) (unat i)" using r by simp
    then have "(LEAST j. unat i \<le> j \<and> occurs pat (content m xs) j) = unat i" by (intro Least_equality) auto
    then show ?thesis using True r le o by (subst memfind_loop.simps) auto
  next
    case False
    then have no: "\<not> occurs pat (content m xs) (unat i)" using r by simp
    have "unat mx \<noteq> 65535"
    proof
      assume "unat mx = 65535"
      then have "length pat = 0" using mx tots_bound [OF c(3)] c(4) by linarith
      then show False using no le mx length_content [OF c(2)] by (simp add: occurs_def)
    qed
    then have "unat mx < 65535" using unat16_less [of mx] by linarith
    then have u: "unat (i + 1) = unat i + 1" using le by (subst unat_add_no_overflow) auto
    have eq: "(unat i + 1 \<le> j \<and> occurs pat (content m xs) j) = (unat i \<le> j \<and> occurs pat (content m xs) j)" for j
      using no by (cases "j = unat i") auto
    have "\<exists>r. memfind_loop (Some y) pat n mx (i + 1) m = Some r \<and>
      (if \<exists>j\<ge>unat (i + 1). occurs pat (content m xs) j
       then unat r = (LEAST j. unat (i + 1) \<le> j \<and> occurs pat (content m xs) j) else r = 0xFFFF)"
      using Suc(1) [of "i + 1"] Suc(2) u le by simp
    then show ?thesis unfolding u eq using False r le by (subst memfind_loop.simps) simp
  qed
qed

lemma memfind_chain:
  assumes "chain (pb m) (Some y) xs" "data_ok m xs" "tots (pb m) xs" "unat n = length pat"
  shows "\<exists>r. pbuf_memfind (Some y) pat n start m = Some r \<and>
    (if \<exists>j\<ge>unat start. occurs pat (content m xs) j
     then unat r = (LEAST j. unat start \<le> j \<and> occurs pat (content m xs) j) else r = 0xFFFF)"
proof -
  obtain ys b where ys: "xs = y # ys" "pb m y = Some b" using assms(1) chain_Some by fastforce
  then have t: "unat (tot_len b) = lens (pb m) xs" using assms(3) by simp
  show ?thesis
  proof (cases "unat n + unat start \<le> lens (pb m) xs")
    case False
    then have "\<not> occurs pat (content m xs) j" if "unat start \<le> j" for j
      using that assms(4) length_content [OF assms(2)] by (simp add: occurs_def)
    then show ?thesis using False t ys(2) by (auto simp: pbuf_memfind_def deref_def)
  next
    case True
    have u: "unat (tot_len b - n) = lens (pb m) xs - unat n" using True t by (simp add: unat_sub word_le_nat_alt)
    show ?thesis using memfind_loop_chain [OF assms, of "tot_len b - n" start] True u t ys(2)
      by (simp add: pbuf_memfind_def deref_def)
  qed
qed
end
