(* ===== verification/Pbuf_Write.thy ===== *)
theory Pbuf_Write
  imports Pbuf_Data
begin

text \<open>
  Writing and copying the data of a packet: \<open>pbuf_take\<close>, \<open>pbuf_take_at\<close>, \<open>pbuf_put_at\<close>,
  \<open>pbuf_copy\<close>, \<open>pbuf_clone\<close> and \<open>pbuf_coalesce\<close>. A write changes bytes of the buffers of a chain
  and nothing else; on a chain whose structures have different buffers it is \<open>overwrite\<close> on the
  content.
\<close>

definition buf_at :: "pmem \<Rightarrow> ptr \<Rightarrow> buf list" where
  "buf_at m x = (case pb m x of None \<Rightarrow> []
     | Some b \<Rightarrow> (case payload b of None \<Rightarrow> [] | Some (bf, off) \<Rightarrow> [bf]))"

definition bufs :: "pmem \<Rightarrow> ptr list \<Rightarrow> buf list" where
  "bufs m xs = concat (map (buf_at m) xs)"

definition writes :: "buf set \<Rightarrow> pmem \<Rightarrow> pmem \<Rightarrow> bool" where
  "writes B m m' \<longleftrightarrow> (\<exists>d. m' = m\<lparr>dat := d\<rparr> \<and> (\<forall>bf. length (d bf) = length (dat m bf)) \<and>
     (\<forall>bf. bf \<notin> B \<longrightarrow> d bf = dat m bf))"

lemma bufs_simps [simp]:
  "bufs m [] = []" "bufs m (x # xs) = buf_at m x @ bufs m xs" "bufs m (xs @ ys) = bufs m xs @ bufs m ys"
  by (simp_all add: bufs_def)

lemma writes_refl [simp]: "writes B m m"
  by (simp add: writes_def) (rule exI [of _ "dat m"], simp)

lemma writes_trans: "writes A m m1 \<Longrightarrow> writes B m1 m2 \<Longrightarrow> A \<union> B \<subseteq> C \<Longrightarrow> writes C m m2"
  by (auto simp: writes_def) (metis in_mono)

lemma writes_sel:
  assumes "writes B m m'"
  shows "pb m' = pb m" "hp m' = hp m" "pools m' = pools m" "custom_fn m' = custom_fn m" "tcpip_mbox m' = tcpip_mbox m"
  using assms by (auto simp: writes_def)

lemma writes_pm_inv: "writes B m m' \<Longrightarrow> pm_inv L m' = pm_inv L m"
proof -
  assume w: "writes B m m'"
  have "held L m' x = held L m x" for x by (cases L; cases x) (use w in \<open>auto simp: writes_def\<close>)
  moreover have "alloc_inv L m' = alloc_inv L m" by (cases L) (use w in \<open>auto simp: writes_def\<close>)
  ultimately show ?thesis using writes_sel(1) [OF w] by (simp add: pm_inv_def)
qed

lemma writes_in_buf: "writes B m m' \<Longrightarrow> in_buf m' a n = in_buf m a n"
  by (auto simp: writes_def in_buf_def split: option.split prod.split)

lemma writes_data_ok:
  assumes w: "writes B m m'"
  shows "data_ok m' xs = data_ok m xs"
  unfolding data_ok_def writes_in_buf [OF w] writes_sel(1) [OF w] ..

lemma writes_bufs:
  assumes w: "writes B m m'"
  shows "bufs m' xs = bufs m xs"
proof -
  have "buf_at m' = buf_at m" by (rule ext) (simp add: buf_at_def writes_sel(1) [OF w])
  then show ?thesis by (simp add: bufs_def)
qed

lemma writes_pay:
  assumes w: "writes B m m'" and "set (buf_at m x) \<inter> B = {}"
  shows "pay m' x = pay m x"
  using assms by (auto simp: pay_def bytes_at_def buf_at_def writes_def split: option.split prod.split)

lemma writes_content:
  assumes "writes B m m'" and "set (bufs m xs) \<inter> B = {}"
  shows "content m' xs = content m xs"
  using assms(2) by (induction xs) (auto simp: Int_Un_distrib2 writes_pay [OF assms(1)])

lemma drop_overwrite:
  "j + length ys \<le> n \<Longrightarrow> k + n \<le> length zs \<Longrightarrow>
   take n (drop k (overwrite (k + j) ys zs)) = overwrite j ys (take n (drop k zs))"
proof (cases "ys = []")
  case False
  assume a: "j + length ys \<le> n" "k + n \<le> length zs"
  moreover have "j < n" using False a(1) by (cases ys) auto
  ultimately show ?thesis by (simp add: overwrite_def drop_take min_def ac_simps)
qed simp

lemma take_split: "j \<le> n \<Longrightarrow> take n xs = take j xs @ take (n - j) (drop j xs)"
  by (metis le_add_diff_inverse take_add)

lemma wr_pay:
  assumes "pb m x = Some b" "in_buf m (payload b) (unat (pb_len b))" "k + length ys \<le> unat (pb_len b)"
  shows "\<exists>m'. wr m (shift (payload b) (int k)) ys = Some m' \<and> writes (set (buf_at m x)) m m' \<and>
    pay m' x = overwrite k ys (pay m x)"
proof (cases "ys = []")
  case False
  then obtain bf off where a: "payload b = Some (bf, off)" "0 \<le> off" "nat off + unat (pb_len b) \<le> length (dat m bf)"
    using assms(2,3) by (auto simp: in_buf_def split: option.splits prod.splits)
  define m' where "m' = m\<lparr>dat := (dat m)(bf := overwrite (nat off + k) ys (dat m bf))\<rparr>"
  have "nat (off + int k) = nat off + k" using a(2) by simp
  then have "wr m (shift (payload b) (int k)) ys = Some m'"
    using False a assms(3) by (simp add: wr_def shift_def m'_def)
  moreover have "writes (set (buf_at m x)) m m'"
    using a assms unfolding writes_def m'_def
    by (intro exI [of _ "(dat m)(bf := overwrite (nat off + k) ys (dat m bf))"]) (simp add: buf_at_def)
  moreover have "pay m' x = overwrite k ys (pay m x)"
    using a assms(1,3) drop_overwrite [of k ys "unat (pb_len b)" "nat off" "dat m bf"]
    by (simp add: pay_def bytes_at_def m'_def)
  ultimately show ?thesis by blast
qed (simp add: wr_def)

lemma overwrite_front:
  "i + length as = length xs \<Longrightarrow> overwrite i (as @ bs) (xs @ ys) = overwrite i as xs @ overwrite 0 bs ys"
proof -
  assume a: "i + length as = length xs"
  then have "i + (length as + length bs) - length xs = length bs" by linarith
  then show ?thesis using a by (simp add: overwrite_def)
qed

lemma overwrite_inner: "i + length as \<le> length xs \<Longrightarrow> overwrite i as (xs @ ys) = overwrite i as xs @ ys"
  by (simp add: overwrite_def)

lemma overwrite_skip: "overwrite (length xs + i) as (xs @ ys) = xs @ overwrite i as ys"
  by (simp add: overwrite_def)

lemma take_loop_chain:
  assumes "chain (pb m) p xs" "data_ok m xs" "distinct (bufs m xs)" "n \<le> lens (pb m) xs" "k + n \<le> length src"
  shows "\<exists>m'. take_loop p src n k m = Some (k + n, m') \<and> writes (set (bufs m xs)) m m' \<and>
    content m' xs = overwrite 0 (take n (drop k src)) (content m xs)"
  using assms
proof (induction xs arbitrary: p n k m)
  case Nil
  then show ?case by (subst take_loop.simps) auto
next
  case (Cons x xs)
  then obtain b where b: "p = Some x" "pb m x = Some b" "in_buf m (payload b) (unat (pb_len b))"
    "chain (pb m) (pb_next b) xs" "data_ok m xs" by auto
  have lp: "length (pay m x) = unat (pb_len b)" by (rule length_pay [OF b(2,3)])
  show ?case
  proof (cases "n = 0")
    case True
    then show ?thesis by (subst take_loop.simps) auto
  next
    case False
    define j where "j = min n (unat (pb_len b))"
    have j: "(if n > unat (pb_len b) then unat (pb_len b) else n) = j" by (simp add: j_def min_def)
    define as where "as = take j (drop k src)"
    have kj: "k + j \<le> length src" using Cons.prems(5) by (simp add: j_def)
    have las: "length as = j" using Cons.prems(5) by (simp add: as_def j_def)
    obtain m1 where m1: "wr m (payload b) as = Some m1" "writes (set (buf_at m x)) m m1" "pay m1 x = overwrite 0 as (pay m x)"
      using wr_pay [OF b(2,3), of 0 as] las by (auto simp: j_def shift_def option.map_ident_strong case_prod_unfold)
    have c1: "content m1 xs = content m xs" using Cons.prems(3) by (intro writes_content [OF m1(2)]) auto
    have "\<exists>m'. take_loop (pb_next b) src (n - j) (k + j) m1 = Some (k + j + (n - j), m') \<and> writes (set (bufs m1 xs)) m1 m' \<and>
      content m' xs = overwrite 0 (take (n - j) (drop (k + j) src)) (content m1 xs)"
      using b(2,4,5) Cons.prems(3-5) writes_sel(1) [OF m1(2)] writes_data_ok [OF m1(2)] writes_bufs [OF m1(2)]
      by (intro Cons.IH) (auto simp: j_def)
    then obtain m' where m': "take_loop (pb_next b) src (n - j) (k + j) m1 = Some (k + n, m')" "writes (set (bufs m xs)) m1 m'"
      "content m' xs = overwrite 0 (take (n - j) (drop (k + j) src)) (content m xs)"
      using c1 writes_bufs [OF m1(2)] by (auto simp: j_def)
    have "take_loop p src n k m = Some (k + n, m')"
      using False b(1,2) j kj m1(1) m'(1)
      by (subst take_loop.simps) (simp add: as_def)
    moreover have "writes (set (bufs m (x # xs))) m m'" using m1(2) m'(2) by (rule writes_trans) auto
    moreover have "pay m' x = pay m1 x"
    proof -
      have "buf_at m1 x = buf_at m x" using writes_sel(1) [OF m1(2)] by (simp add: buf_at_def)
      then show ?thesis using Cons.prems(3) by (intro writes_pay [OF m'(2)]) auto
    qed
    moreover have "overwrite 0 (take n (drop k src)) (pay m x @ content m xs) =
      overwrite 0 as (pay m x) @ overwrite 0 (take (n - j) (drop (k + j) src)) (content m xs)"
    proof (cases "n \<le> unat (pb_len b)")
      case True
      then show ?thesis using lp Cons.prems(5) by (simp add: j_def as_def overwrite_inner)
    next
      case nle: False
      then have "take n (drop k src) = as @ take (n - j) (drop (k + j) src)"
        using take_split [of j n "drop k src"] by (simp add: as_def j_def add.commute)
      then show ?thesis using lp las nle by (simp add: overwrite_front j_def)
    qed
    ultimately show ?thesis using m1(3) m'(3) by auto
  qed
qed

lemma take_chain:
  assumes "chain (pb m) (Some x) xs" "data_ok m xs" "tots (pb m) xs" "distinct (bufs m xs)"
    and "unat n \<le> lens (pb m) xs" "unat n \<le> length src"
  shows "\<exists>m'. pbuf_take (Some x) (Some src) n m = Some (ERR_OK, m') \<and> writes (set (bufs m xs)) m m' \<and>
    content m' xs = overwrite 0 (take (unat n) src) (content m xs)"
proof -
  obtain ys b where ys: "xs = x # ys" "pb m x = Some b" using assms(1) chain_Some by fastforce
  then have t: "n \<le> tot_len b" using assms(3,5) by (simp add: word_le_nat_alt)
  from take_loop_chain [OF assms(1,2,4,5), of 0 src] assms(6) obtain m' where
    "take_loop (Some x) src (unat n) 0 m = Some (unat n, m')" "writes (set (bufs m xs)) m m'"
    "content m' xs = overwrite 0 (take (unat n) src) (content m xs)" by auto
  then show ?thesis using t ys(2) by (simp add: pbuf_take_def deref_def)
qed

lemma writes_mono: "writes A m m' \<Longrightarrow> A \<subseteq> B \<Longrightarrow> writes B m m'"
  by (auto simp: writes_def)

lemma put_at_chain:
  assumes "chain (pb m) p xs" "data_ok m xs" "distinct (bufs m xs)"
  shows "\<exists>m'. pbuf_put_at p off v m = Some m' \<and> writes (set (bufs m xs)) m m' \<and>
    content m' xs = (content m xs)[unat off := v]"
proof (cases "unat off < lens (pb m) xs")
  case False
  then have "fst (locate (pb m) xs (unat off)) = None" using locate_None by fastforce
  then show ?thesis using False skip_chain [OF assms(1), of off] length_content [OF assms(2)]
    by (simp add: pbuf_put_at_def pbuf_skip_def list_update_beyond)
next
  case True
  from locate_suffix [OF this assms(1)] obtain us x vs where l: "xs = us @ x # vs"
    "locate (pb m) xs (unat off) = (Some x, unat off - lens (pb m) us)" "lens (pb m) us \<le> unat off"
    "unat off - lens (pb m) us < len_at (pb m) x" by blast
  define k where "k = unat off - lens (pb m) us"
  obtain b where b: "pb m x = Some b" "in_buf m (payload b) (unat (pb_len b))" using assms(2) l(1) by auto
  have lp: "length (pay m x) = unat (pb_len b)" by (rule length_pay [OF b])
  have lu: "length (content m us) = lens (pb m) us" using assms(2) l(1) by (simp add: length_content)
  have u: "unat (of_nat k :: u16) = k" using unat16_less [of off] by (intro unat_of_nat_small) (simp add: k_def)
  have k: "k < unat (pb_len b)" using l(4) b(1) by (simp add: k_def)
  obtain m' where m': "wr m (shift (payload b) (int k)) [v] = Some m'" "writes (set (buf_at m x)) m m'"
    "pay m' x = overwrite k [v] (pay m x)" using wr_pay [OF b, of k "[v]"] k by auto
  have "content m' us = content m us" "content m' vs = content m vs"
    using assms(3) l(1) by (auto intro!: writes_content [OF m'(2)])
  moreover have "overwrite k [v] (pay m x) = (pay m x)[k := v]"
    using k lp by (simp add: overwrite_def upd_conv_take_nth_drop)
  moreover have "unat off = length (content m us) + k" using l(3) lu by (simp add: k_def)
  ultimately have "content m' xs = (content m xs)[unat off := v]"
    using l(1) m'(3) k lp by (simp add: list_update_append)
  moreover have "writes (set (bufs m xs)) m m'" using m'(2) l(1) by (auto intro: writes_mono)
  moreover have "pbuf_put_at p off v m = Some m'"
    using skip_chain [OF assms(1), of off] l(2) b(1) u k m'(1)
    by (simp add: pbuf_put_at_def pbuf_skip_def word_less_nat_alt flip: k_def)
  ultimately show ?thesis by blast
qed

lemma take_at_fits:
  assumes "chain (pb m) p xs" "data_ok m xs" "tots (pb m) xs" "distinct (bufs m xs)"
    and "unat off < lens (pb m) xs" "unat off + unat n \<le> lens (pb m) xs" "unat n \<le> length src"
  shows "\<exists>m'. pbuf_take_at p (Some src) n off m = Some (ERR_OK, m') \<and> writes (set (bufs m xs)) m m' \<and>
    content m' xs = overwrite (unat off) (take (unat n) src) (content m xs)"
proof -
  from locate_suffix [OF assms(5,1)] obtain us x vs where l: "xs = us @ x # vs"
    "locate (pb m) xs (unat off) = (Some x, unat off - lens (pb m) us)" "lens (pb m) us \<le> unat off"
    "unat off - lens (pb m) us < len_at (pb m) x" "chain (pb m) (Some x) (x # vs)" by blast
  define k where "k = unat off - lens (pb m) us"
  obtain b where b: "pb m x = Some b" "in_buf m (payload b) (unat (pb_len b))" using assms(2) l(1) by auto
  have tv: "tots (pb m) (x # vs)" using assms(3) l(1) by (metis tots_append)
  then have tb: "unat (tot_len b) = unat (pb_len b) + lens (pb m) vs" using b(1) by simp
  have lp: "length (pay m x) = unat (pb_len b)" by (rule length_pay [OF b])
  have lu: "length (content m us) = lens (pb m) us" using assms(2) l(1) by (simp add: length_content)
  have lv: "length (content m vs) = lens (pb m) vs" using assms(2) l(1) by (simp add: length_content)
  have u: "unat (of_nat k :: u16) = k" using unat16_less [of off] by (intro unat_of_nat_small) (simp add: k_def)
  have k: "k < unat (pb_len b)" "k + unat n \<le> unat (tot_len b)" using l(1,3,4) b(1) tb assms(6) by (auto simp: k_def)
  define j where "j = min (unat (pb_len b) - k) (unat n)"
  define as where "as = take j src"
  have las: "length as = j" using assms(7) by (simp add: as_def j_def)
  have ju: "unat (of_nat j :: u16) = j" using unat16_less [of n] by (intro unat_of_nat_small) (simp add: j_def)
  have rem: "unat (n - of_nat j) = unat n - j" using ju by (simp add: unat_sub word_le_nat_alt j_def)
  have jb: "j \<le> unat (pb_len b) - k" "j \<le> unat n" by (simp_all add: j_def)
  have kj: "k + length as \<le> unat (pb_len b)" using jb k las by linarith
  obtain m1 where m1: "wr m (shift (payload b) (int k)) as = Some m1" "writes (set (buf_at m x)) m m1"
    "pay m1 x = overwrite k as (pay m x)" using wr_pay [OF b kj] by blast
  have c1: "content m1 us = content m us" "content m1 vs = content m vs"
    using assms(4) l(1) by (auto intro!: writes_content [OF m1(2)])
  have "unat off = length (content m us) + k" using l(3) lu by (simp add: k_def)
  then have goal: "overwrite (unat off) (take (unat n) src) (content m xs) =
      content m us @ overwrite k (take (unat n) src) (pay m x @ content m vs)"
    using l(1) by (simp add: overwrite_skip)
  have call: "pbuf_take_at p (Some src) n off m =
      (if n - of_nat j > 0 then pbuf_take (pb_next b) (Some (drop j src)) (n - of_nat j) m1 else Some (ERR_OK, m1))"
    using skip_chain [OF assms(1), of off] l(2) b(1) u k m1(1) assms(7)
    by (simp add: pbuf_take_at_def pbuf_skip_def word_less_nat_alt as_def j_def Let_def flip: k_def)
  show ?thesis
  proof (cases "n - of_nat j > 0")
    case False
    then have "unat n - j = 0" using rem by (simp add: word_gt_0)
    then have "as = take (unat n) src" using jb(2) by (simp add: as_def)
    then have "content m1 xs = overwrite (unat off) (take (unat n) src) (content m xs)"
      unfolding goal using l(1) c1 m1(3) kj lp by (simp add: overwrite_inner)
    then show ?thesis using call False m1(2) l(1) by (auto intro: writes_mono)
  next
    case True
    then have jn: "j < unat n" using rem by (simp add: word_less_nat_alt)
    then have jl: "j = unat (pb_len b) - k" by (simp add: j_def)
    have "lens (pb m) vs \<noteq> 0" using jn jl k tb by linarith
    then obtain y ws where vs: "vs = y # ws" by (cases vs) auto
    have nx: "pb_next b = Some y" using l(5) b(1) vs by auto
    have "chain (pb m1) (Some y) vs" "tots (pb m1) vs"
      using l(5) b(1) nx tv writes_sel(1) [OF m1(2)] by auto
    moreover have "data_ok m1 vs" "distinct (bufs m1 vs)"
      using assms(2,4) l(1) writes_data_ok [OF m1(2)] writes_bufs [OF m1(2)] by auto
    moreover have "unat (n - of_nat j) \<le> lens (pb m1) vs" "unat (n - of_nat j) \<le> length (drop j src)"
      unfolding rem writes_sel(1) [OF m1(2)] using jl k tb assms(7) by auto
    ultimately obtain m' where m': "pbuf_take (Some y) (Some (drop j src)) (n - of_nat j) m1 = Some (ERR_OK, m')"
      "writes (set (bufs m1 vs)) m1 m'"
      "content m' vs = overwrite 0 (take (unat n - j) (drop j src)) (content m1 vs)"
      using take_chain [of m1 y vs "n - of_nat j" "drop j src"] unfolding rem by blast
    have "content m' us = content m1 us" "pay m' x = pay m1 x"
      using assms(4) l(1) writes_bufs [OF m1(2)] writes_sel(1) [OF m1(2)]
      by (auto intro!: writes_content [OF m'(2)] writes_pay [OF m'(2)] simp: buf_at_def)
    moreover have "take (unat n) src = as @ take (unat n - j) (drop j src)"
      unfolding as_def using jn by (intro take_split) simp
    then have "overwrite k (take (unat n) src) (pay m x @ content m vs) =
        overwrite k as (pay m x) @ overwrite 0 (take (unat n - j) (drop j src)) (content m vs)"
      using jl k lp las by (simp add: overwrite_front)
    ultimately have "content m' xs = overwrite (unat off) (take (unat n) src) (content m xs)"
      unfolding goal using l(1) c1 m1(3) m'(3) by simp
    moreover have "writes (set (bufs m xs)) m m'"
      using m1(2) m'(2) by (rule writes_trans) (use l(1) writes_bufs [OF m1(2)] in auto)
    ultimately show ?thesis using call True nx m'(1) by auto
  qed
qed

subsection \<open>Copying from chain to chain\<close>

text \<open>
  \<open>pbuf_copy\<close> does not accept packet queues: a structure whose \<open>len\<close> and \<open>tot_len\<close> agree has to be
  the last one. In a chain with right totals this means that no non-empty tail is empty of data.
\<close>

fun packet_ok :: "(ptr \<Rightarrow> pbuf option) \<Rightarrow> ptr list \<Rightarrow> bool" where
  "packet_ok h (x # y # zs) = (0 < lens h (y # zs) \<and> packet_ok h (y # zs))"
| "packet_ok h _ = True"

lemma packet_ok_cong: "(\<And>x. x \<in> set xs \<Longrightarrow> h x = h' x) \<Longrightarrow> packet_ok h xs = packet_ok h' xs"
proof (induction h xs rule: packet_ok.induct)
  case (1 h x y zs)
  have "lens h (y # zs) = lens h' (y # zs)" by (rule lens_cong) (use 1(2) in \<open>simp add: len_at_def\<close>)
  moreover have "packet_ok h (y # zs) = packet_ok h' (y # zs)" using 1 by simp
  ultimately show ?case by (simp only: packet_ok.simps)
qed auto

lemma packet_ok_tl: "packet_ok h (x # xs) \<Longrightarrow> packet_ok h xs \<and> (xs \<noteq> [] \<longrightarrow> 0 < lens h xs)"
  by (cases xs) auto

lemma no_queue:
  assumes "chain (pb m) q zs" "tots (pb m) zs" "packet_ok (pb m) zs" "zs \<noteq> []"
  shows "\<exists>b. deref q m = Some b \<and> (pb_len b = tot_len b \<longrightarrow> pb_next b = None)"
proof -
  obtain z ws where zs: "zs = z # ws" using assms(4) by (cases zs) auto
  then obtain b where b: "q = Some z" "pb m z = Some b" "chain (pb m) (pb_next b) ws"
    "unat (tot_len b) = unat (pb_len b) + lens (pb m) ws" using assms by auto
  have "pb_next b = None" if "pb_len b = tot_len b"
    using that b(3,4) assms(3) zs by (cases ws) auto
  then show ?thesis using b by (auto simp: deref_def)
qed

definition hd_ptr :: "ptr list \<Rightarrow> ptr option" where
  "hd_ptr xs = (case xs of [] \<Rightarrow> None | x # _ \<Rightarrow> Some x)"

lemma hd_ptr_simps [simp]: "hd_ptr [] = None" "hd_ptr (x # xs) = Some x"
  by (simp_all add: hd_ptr_def)

lemma chain_hd: "chain h p xs \<Longrightarrow> p = hd_ptr xs"
  by (cases xs) auto

text \<open>One turn of the copy loop: the cursor after \<open>n\<close> bytes of the first structure.\<close>

definition advance :: "(ptr \<Rightarrow> pbuf option) \<Rightarrow> ptr \<Rightarrow> ptr list \<Rightarrow> nat \<Rightarrow> ptr list \<times> nat" where
  "advance h x xs k = (if k = len_at h x then (xs, 0) else (x # xs, k))"

lemma copy_loop_step:
  assumes x: "pb m x = Some bt" "chain (pb m) (pb_next bt) xs" "tots (pb m) (x # xs)" "packet_ok (pb m) (x # xs)"
    and y: "pb m y = Some bf" "chain (pb m) (pb_next bf) ys" "tots (pb m) (y # ys)" "packet_ok (pb m) (y # ys)"
    and n: "n = min (unat (pb_len bt) - ot) (unat (pb_len bf) - fo)" "ot \<le> unat (pb_len bt)" "fo \<le> unat (pb_len bf)"
    and io: "rd m (shift (payload bf) (int fo)) n = Some bs" "wr m (shift (payload bt) (int ot)) bs = Some m1" "pb m1 = pb m"
    and a: "advance (pb m) x xs (ot + n) = (xs2, ot2)" "advance (pb m) y ys (fo + n) = (ys2, fo2)"
    and r: "ys2 \<noteq> [] \<Longrightarrow> xs2 \<noteq> []"
  shows "copy_loop (Some x) ot (Some y) fo m =
    (if ys2 = [] then Some (ERR_OK, m1) else copy_loop (hd_ptr xs2) ot2 (hd_ptr ys2) fo2 m1)"
proof -
  have cx: "chain (pb m) (hd_ptr xs2) xs2 \<and> tots (pb m) xs2 \<and> packet_ok (pb m) xs2"
    using a(1) x chain_hd [OF x(2)] packet_ok_tl [OF x(4)] by (auto simp: advance_def split: if_splits)
  have cy: "chain (pb m) (hd_ptr ys2) ys2 \<and> tots (pb m) ys2 \<and> packet_ok (pb m) ys2"
    using a(2) y chain_hd [OF y(2)] packet_ok_tl [OF y(4)] by (auto simp: advance_def split: if_splits)
  have qx: "\<exists>b. deref (hd_ptr xs2) m1 = Some b \<and> (pb_len b = tot_len b \<longrightarrow> pb_next b = None)" if "xs2 \<noteq> []"
    using no_queue [of m1 "hd_ptr xs2" xs2] cx io(3) that by auto
  have qy: "\<exists>b. deref (hd_ptr ys2) m1 = Some b \<and> (pb_len b = tot_len b \<longrightarrow> pb_next b = None)" if "ys2 \<noteq> []"
    using no_queue [of m1 "hd_ptr ys2" ys2] cy io(3) that by auto
  have le: "ot + n \<le> unat (pb_len bt)" "fo + n \<le> unat (pb_len bf)" using n by auto
  have n': "(if unat (pb_len bt) - ot \<ge> unat (pb_len bf) - fo then unat (pb_len bf) - fo else unat (pb_len bt) - ot) = n"
    using n(1) by (simp add: min_def)
  have ex: "(if ot + n = unat (pb_len bt) then (0, pb_next bt) else (ot + n, Some x)) = (ot2, hd_ptr xs2)"
    using a(1) x(1) chain_hd [OF x(2)] by (auto simp: advance_def split: if_splits)
  have ey: "(if fo + n \<ge> unat (pb_len bf) then (0, pb_next bf) else (fo + n, Some y)) = (fo2, hd_ptr ys2)"
    using a(2) y(1) chain_hd [OF y(2)] le(2) by (auto simp: advance_def split: if_splits)
  have d: "deref (Some x) m = Some bt" "deref (Some y) m = Some bf" using x(1) y(1) by (simp_all add: deref_def)
  note step = copy_loop.simps [of "Some x" ot "Some y" fo m,
    unfolded d bind.bind_lunit Let_def n' io(1,2) ex ey prod.case]
  show ?thesis
  proof (cases ys2)
    case Nil
    then show ?thesis using step le qx by (cases xs2) auto
  next
    case (Cons z zs)
    moreover obtain w ws where "xs2 = w # ws" using r Cons by (cases xs2) auto
    ultimately show ?thesis using step le qx qy by auto
  qed
qed

lemma advance_content:
  assumes "data_ok m (y # ys)" "k \<le> len_at (pb m) y" "advance (pb m) y ys k = (ys2, k2)"
  shows "drop k (content m (y # ys)) = drop k2 (content m ys2)" "k2 \<le> lens (pb m) ys2"
    and "data_ok m ys2" "lens (pb m) ys2 - k2 = lens (pb m) (y # ys) - k" "ys2 = ys \<or> ys2 = y # ys"
proof -
  obtain b where b: "pb m y = Some b" "in_buf m (payload b) (unat (pb_len b))" using assms(1) by auto
  have "length (pay m y) = len_at (pb m) y" using length_pay [OF b] b(1) by simp
  then show "drop k (content m (y # ys)) = drop k2 (content m ys2)" "k2 \<le> lens (pb m) ys2"
    "data_ok m ys2" "lens (pb m) ys2 - k2 = lens (pb m) (y # ys) - k" "ys2 = ys \<or> ys2 = y # ys"
    using assms by (auto simp: advance_def split: if_splits)
qed

text \<open>
  A cursor: a chain and an offset in its first structure. The loop copies while the target cursor
  has room for what the source cursor still holds.
\<close>

definition cursor :: "pmem \<Rightarrow> ptr list \<Rightarrow> nat \<Rightarrow> bool" where
  "cursor m xs k \<longleftrightarrow> chain (pb m) (hd_ptr xs) xs \<and> data_ok m xs \<and> tots (pb m) xs \<and> packet_ok (pb m) xs \<and>
     (xs \<noteq> [] \<longrightarrow> k \<le> len_at (pb m) (hd xs))"

definition copy_ready :: "pmem \<Rightarrow> ptr list \<Rightarrow> nat \<Rightarrow> ptr list \<Rightarrow> nat \<Rightarrow> bool" where
  "copy_ready m xs ot ys fo \<longleftrightarrow> cursor m xs ot \<and> cursor m ys fo \<and>
     distinct (bufs m xs) \<and> set (bufs m xs) \<inter> set (bufs m ys) = {} \<and>
     lens (pb m) ys - fo \<le> lens (pb m) xs - ot"

lemma copy_ready_writes:
  assumes "writes B m m1"
  shows "copy_ready m1 xs ot ys fo = copy_ready m xs ot ys fo"
  unfolding copy_ready_def cursor_def writes_sel(1) [OF assms] writes_data_ok [OF assms] writes_bufs [OF assms] ..

lemma advance_cursor:
  assumes "cursor m (x # xs) k0" "k \<le> len_at (pb m) x" "advance (pb m) x xs k = (xs2, k2)"
  shows "cursor m xs2 k2"
proof (cases "k = len_at (pb m) x")
  case True
  obtain b where "pb m x = Some b" "chain (pb m) (pb_next b) xs" using assms(1) by (auto simp: cursor_def)
  then show ?thesis using assms True chain_hd packet_ok_tl [of "pb m" x xs] by (fastforce simp: cursor_def advance_def)
qed (use assms in \<open>auto simp: cursor_def advance_def\<close>)

lemma copy_turn:
  assumes "copy_ready m (x # xs) ot (y # ys) fo"
  shows "\<exists>m1 bs xs2 ot2 ys2 fo2. advance (pb m) x xs (ot + length bs) = (xs2, ot2) \<and>
    advance (pb m) y ys (fo + length bs) = (ys2, fo2) \<and> ot + length bs \<le> len_at (pb m) x \<and>
    length xs2 + length ys2 < length (x # xs) + length (y # ys) \<and> (ys2 \<noteq> [] \<longrightarrow> xs2 \<noteq> []) \<and>
    copy_ready m xs2 ot2 ys2 fo2 \<and> writes (set (buf_at m x)) m m1 \<and> pay m1 x = overwrite ot bs (pay m x) \<and>
    drop fo (content m (y # ys)) = bs @ drop fo2 (content m ys2) \<and>
    copy_loop (Some x) ot (Some y) fo m =
      (if ys2 = [] then Some (ERR_OK, m1) else copy_loop (hd_ptr xs2) ot2 (hd_ptr ys2) fo2 m1)"
proof -
  note p = assms [unfolded copy_ready_def cursor_def]
  obtain bt where bt: "pb m x = Some bt" "in_buf m (payload bt) (unat (pb_len bt))" "chain (pb m) (pb_next bt) xs"
    using p by auto
  obtain bf where bf: "pb m y = Some bf" "in_buf m (payload bf) (unat (pb_len bf))" "chain (pb m) (pb_next bf) ys"
    using p by auto
  have ly: "length (pay m y) = unat (pb_len bf)" using length_pay bf(1,2) by blast
  have off: "ot \<le> unat (pb_len bt)" "fo \<le> unat (pb_len bf)" using p bt(1) bf(1) by auto
  define n where "n = min (unat (pb_len bt) - ot) (unat (pb_len bf) - fo)"
  have le: "ot + n \<le> unat (pb_len bt)" "fo + n \<le> unat (pb_len bf)"
    and eq: "ot + n = unat (pb_len bt) \<or> fo + n = unat (pb_len bf)" using off by (auto simp: n_def min_def)
  define bs where "bs = take n (drop fo (pay m y))"
  have lbs: "length bs = n" using le ly by (simp add: bs_def)
  have rd: "rd m (shift (payload bf) (int fo)) n = Some bs" unfolding bs_def by (rule rd_pay [OF bf(1,2) le(2)])
  obtain m1 where m1: "wr m (shift (payload bt) (int ot)) bs = Some m1" "writes (set (buf_at m x)) m m1"
    "pay m1 x = overwrite ot bs (pay m x)" using wr_pay [OF bt(1,2), of ot bs] le lbs by auto
  obtain xs2 ot2 where ax: "advance (pb m) x xs (ot + n) = (xs2, ot2)" by (cases "advance (pb m) x xs (ot + n)")
  obtain ys2 fo2 where ay: "advance (pb m) y ys (fo + n) = (ys2, fo2)" by (cases "advance (pb m) y ys (fo + n)")
  have lex: "ot + n \<le> len_at (pb m) x" and ley: "fo + n \<le> len_at (pb m) y" using le bt(1) bf(1) by auto
  have dx: "data_ok m (x # xs)" and dy: "data_ok m (y # ys)" and px: "packet_ok (pb m) (x # xs)"
    and py: "packet_ok (pb m) (y # ys)" and tx: "tots (pb m) (x # xs)" and ty: "tots (pb m) (y # ys)" using p by auto
  note cx = advance_content [OF dx lex ax] and cy = advance_content [OF dy ley ay]
  have cap: "lens (pb m) ys2 - fo2 \<le> lens (pb m) xs2 - ot2" using cx(4) cy(4) p by linarith
  have pos: "0 < lens (pb m) ys2 - fo2" if "ys2 \<noteq> []"
    using that ay packet_ok_tl [OF py] le(2) bf(1) by (auto simp: advance_def split: if_splits)
  have ne: "xs2 \<noteq> []" if "ys2 \<noteq> []" using pos [OF that] cap by auto
  have "drop fo (content m (y # ys)) = bs @ drop fo2 (content m ys2)"
  proof -
    have "bs = take n (drop fo (content m (y # ys)))" using ly le by (simp add: bs_def)
    then show ?thesis using cy(1) by (metis append_take_drop_id drop_drop add.commute)
  qed
  moreover have "copy_ready m xs2 ot2 ys2 fo2"
    using advance_cursor [OF _ lex ax] advance_cursor [OF _ ley ay] assms cx(5) cy(5) cap
    by (auto simp: copy_ready_def)
  moreover have "length xs2 + length ys2 < length (x # xs) + length (y # ys)"
    using eq ax ay bt(1) bf(1) by (auto simp: advance_def split: if_splits)
  moreover have "copy_loop (Some x) ot (Some y) fo m =
      (if ys2 = [] then Some (ERR_OK, m1) else copy_loop (hd_ptr xs2) ot2 (hd_ptr ys2) fo2 m1)"
    by (rule copy_loop_step [OF bt(1,3) tx px bf(1,3) ty py n_def off rd m1(1) writes_sel(1) [OF m1(2)] ax ay ne])
  ultimately show ?thesis
    using ax ay lex ne m1(2,3) unfolding lbs [symmetric]
    by (intro exI [of _ m1] exI [of _ bs] exI [of _ xs2] exI [of _ ot2] exI [of _ ys2] exI [of _ fo2]) blast
qed

lemma copy_loop_chain:
  assumes "copy_ready m (x # xs) ot (y # ys) fo"
  shows "\<exists>m'. copy_loop (Some x) ot (Some y) fo m = Some (ERR_OK, m') \<and> writes (set (bufs m (x # xs))) m m' \<and>
    content m' (x # xs) = overwrite ot (drop fo (content m (y # ys))) (content m (x # xs))"
  using assms
proof (induction "length (x # xs) + length (y # ys)" arbitrary: x xs y ys ot fo m rule: less_induct)
  case less
  from copy_turn [OF less.prems] obtain m1 bs xs2 ot2 ys2 fo2 where
    a: "advance (pb m) x xs (ot + length bs) = (xs2, ot2)" "advance (pb m) y ys (fo + length bs) = (ys2, fo2)"
      "ot + length bs \<le> len_at (pb m) x" "length xs2 + length ys2 < length (x # xs) + length (y # ys)" "ys2 \<noteq> [] \<longrightarrow> xs2 \<noteq> []"
    and r: "copy_ready m xs2 ot2 ys2 fo2" and w: "writes (set (buf_at m x)) m m1" and px: "pay m1 x = overwrite ot bs (pay m x)"
    and R: "drop fo (content m (y # ys)) = bs @ drop fo2 (content m ys2)"
    and c: "copy_loop (Some x) ot (Some y) fo m =
      (if ys2 = [] then Some (ERR_OK, m1) else copy_loop (hd_ptr xs2) ot2 (hd_ptr ys2) fo2 m1)" by blast
  have d: "distinct (bufs m (x # xs))" "set (bufs m (x # xs)) \<inter> set (bufs m (y # ys)) = {}" "data_ok m (x # xs)"
    using less.prems by (auto simp: copy_ready_def cursor_def)
  have lx: "length (pay m x) = len_at (pb m) x" using d(3) length_pay by fastforce
  have c1: "content m1 xs = content m xs" using d(1) by (intro writes_content [OF w]) auto
  have cx1: "content m1 (x # xs) = overwrite ot bs (content m (x # xs))"
    using c1 px a(3) lx by (simp add: overwrite_inner)
  have cy1: "content m1 ys2 = content m ys2"
    using d(2) a(2) by (intro writes_content [OF w]) (auto simp: advance_def split: if_splits)
  show ?case
  proof (cases "ys2 = []")
    case True
    then show ?thesis using c cx1 R writes_mono [OF w, of "set (bufs m (x # xs))"] by auto
  next
    case False
    then obtain x' xs' y' ys' where s: "xs2 = x' # xs'" "ys2 = y' # ys'" using a(5) by (cases xs2; cases ys2) auto
    have "copy_ready m1 (x' # xs') ot2 (y' # ys') fo2" using r s copy_ready_writes [OF w] by simp
    with less.hyps a(4) s obtain m' where m': "copy_loop (Some x') ot2 (Some y') fo2 m1 = Some (ERR_OK, m')"
      "writes (set (bufs m xs2)) m1 m'"
      "content m' xs2 = overwrite ot2 (drop fo2 (content m ys2)) (content m1 xs2)"
      using writes_bufs [OF w] cy1 by metis
    have sub: "set (bufs m xs2) \<subseteq> set (bufs m (x # xs))" using a(1) by (auto simp: advance_def split: if_splits)
    have "writes (set (bufs m (x # xs))) m m'" using w m'(2) by (rule writes_trans) (use sub in auto)
    moreover have "content m' (x # xs) = overwrite ot (drop fo (content m (y # ys))) (content m (x # xs))"
    proof (cases "ot + length bs = len_at (pb m) x")
      case True
      then have e: "xs2 = xs" "ot2 = 0" using a(1) by (auto simp: advance_def)
      have "buf_at m1 x = buf_at m x" using writes_sel(1) [OF w] by (simp add: buf_at_def)
      then have "pay m' x = pay m1 x" using d(1) e by (intro writes_pay [OF m'(2)]) auto
      then show ?thesis using m'(3) e px c1 R True lx by (simp add: overwrite_front)
    next
      case False
      then have e: "xs2 = x # xs" "ot2 = ot + length bs" using a(1) by (auto simp: advance_def)
      have len: "lens (pb m) xs2 - ot2 \<ge> lens (pb m) ys2 - fo2" "data_ok m ys2" using r by (auto simp: copy_ready_def cursor_def)
      show ?thesis unfolding R using m'(3) e cx1 a(3) len length_content [OF d(3)] length_content [OF len(2)]
        by (simp only: e cx1) (intro overwrite_append, simp)
    qed
    ultimately show ?thesis using c False s m'(1) by auto
  qed
qed

lemma copy_chain:
  assumes "cursor m (x # xs) 0" "cursor m (y # ys) 0" "distinct (bufs m (x # xs))"
    and "set (bufs m (x # xs)) \<inter> set (bufs m (y # ys)) = {}" "lens (pb m) (y # ys) \<le> lens (pb m) (x # xs)"
  shows "\<exists>m'. pbuf_copy (Some x) (Some y) m = Some (ERR_OK, m') \<and> writes (set (bufs m (x # xs))) m m' \<and>
    content m' (x # xs) = overwrite 0 (content m (y # ys)) (content m (x # xs))"
proof -
  obtain bt bf where b: "pb m x = Some bt" "unat (tot_len bt) = lens (pb m) (x # xs)"
    "pb m y = Some bf" "unat (tot_len bf) = lens (pb m) (y # ys)" using assms(1,2) by (auto simp: cursor_def)
  then have "tot_len bf \<le> tot_len bt" using assms(5) by (simp add: word_le_nat_alt)
  moreover have "copy_ready m (x # xs) 0 (y # ys) 0" using assms by (simp add: copy_ready_def)
  from copy_loop_chain [OF this] obtain m' where "copy_loop (Some x) 0 (Some y) 0 m = Some (ERR_OK, m')"
    "writes (set (bufs m (x # xs))) m m'"
    "content m' (x # xs) = overwrite 0 (content m (y # ys)) (content m (x # xs))" by auto
  ultimately show ?thesis using b by (simp add: pbuf_copy_def deref_def)
qed

subsection \<open>Clones\<close>

lemma alloc_ram_single:
  assumes "pbuf_alloc l n PBUF_RAM m = Some (Some x, m')"
  shows "\<exists>b. pb m' x = Some b \<and> pb_next b = None"
  using assms
  by (auto simp: pbuf_alloc_def pbuf_init_alloced_pbuf_def Let_def bind_Some_conv split: option.splits if_splits prod.splits)

text \<open>The buffers of the packet belong to live structures or to the application.\<close>

definition bufs_live :: "pmem \<Rightarrow> ptr list \<Rightarrow> bool" where
  "bufs_live m xs \<longleftrightarrow> (\<forall>z. Own z \<in> set (bufs m xs) \<longrightarrow> pb m z \<noteq> None)"

lemma packet_frame:
  assumes pb: "\<And>z. z \<in> set ys \<Longrightarrow> pb m1 z = pb m z" and dat: "\<And>bf. bf \<in> set (bufs m ys) \<Longrightarrow> dat m1 bf = dat m bf"
  shows "content m1 ys = content m ys" "bufs m1 ys = bufs m ys" "lens (pb m1) ys = lens (pb m) ys"
    "chain (pb m1) a ys = chain (pb m) a ys" "tots (pb m1) ys = tots (pb m) ys" "data_ok m1 ys = data_ok m ys"
    "refs_pos (pb m1) ys = refs_pos (pb m) ys" "packet_ok (pb m1) ys = packet_ok (pb m) ys"
proof -
  have d: "pay m1 z = pay m z \<and> buf_at m1 z = buf_at m z \<and>
      (\<forall>b. pb m z = Some b \<longrightarrow> in_buf m1 (payload b) (unat (pb_len b)) = in_buf m (payload b) (unat (pb_len b)))"
    if z: "z \<in> set ys" for z
  proof -
    have "set (buf_at m z) \<subseteq> set (bufs m ys)" using z by (auto simp: bufs_def)
    then show ?thesis using pb [OF z] dat
      by (auto simp: pay_def bytes_at_def buf_at_def in_buf_def split: option.splits prod.splits)
  qed
  show "content m1 ys = content m ys" "bufs m1 ys = bufs m ys"
    using d by (auto simp: content_def bufs_def intro!: arg_cong [of _ _ concat])
  show "lens (pb m1) ys = lens (pb m) ys" by (rule lens_cong) (simp add: pb len_at_def)
  show "packet_ok (pb m1) ys = packet_ok (pb m) ys" "tots (pb m1) ys = tots (pb m) ys"
    "chain (pb m1) a ys = chain (pb m) a ys" "refs_pos (pb m1) ys = refs_pos (pb m) ys"
    by (rule packet_ok_cong [OF pb], assumption)
      (rule tots_cong [OF pb], assumption, rule path_cong [OF pb], assumption, rule refs_pos_cong [OF pb], assumption)
  have "(case pb m1 z of None \<Rightarrow> False | Some b \<Rightarrow> in_buf m1 (payload b) (unat (pb_len b))) =
      (case pb m z of None \<Rightarrow> False | Some b \<Rightarrow> in_buf m (payload b) (unat (pb_len b)))" if "z \<in> set ys" for z
    using d [OF that] pb [OF that] by (auto split: option.splits)
  then show "data_ok m1 ys = data_ok m ys" unfolding data_ok_def list_all_iff by blast
qed

lemma new_packet_cursor:
  assumes n: "new_packet m m1 x xs n" and c: "cursor m ys k" "bufs_live m ys"
  shows "cursor m1 ys k" "content m1 ys = content m ys" "bufs m1 ys = bufs m ys" "lens (pb m1) ys = lens (pb m) ys"
    and "set (bufs m ys) \<inter> Own ` set xs = {}"
proof -
  have live: "pb m z \<noteq> None" if "z \<in> set ys" for z using c(1) that path_live by (fastforce simp: cursor_def)
  have pb: "pb m1 z = pb m z" if "z \<in> set ys" for z
    using n live [OF that] unfolding new_packet_def by metis
  show dis: "set (bufs m ys) \<inter> Own ` set xs = {}" using n c(2) by (auto simp: bufs_live_def new_packet_def)
  moreover have "heap_bufs xs \<subseteq> Own ` set xs" by (auto simp: heap_bufs_def)
  ultimately have nh: "bf \<notin> heap_bufs xs" if "bf \<in> set (bufs m ys)" for bf using that by blast
  have dat: "dat m1 bf = dat m bf" if "bf \<in> set (bufs m ys)" for bf
    using n nh [OF that] by (simp add: new_packet_def)
  note f = packet_frame [OF pb dat]
  show "content m1 ys = content m ys" "bufs m1 ys = bufs m ys" "lens (pb m1) ys = lens (pb m) ys" by (rule f; assumption)+
  have "len_at (pb m1) (hd ys) = len_at (pb m) (hd ys)" if "ys \<noteq> []"
    using pb [of "hd ys"] that by (simp add: len_at_def)
  then show "cursor m1 ys k" using c(1) f(4-6,8) unfolding cursor_def by auto
qed

lemma clone_ram:
  assumes inv: "pm_inv L m" and c: "cursor m (y # ys) 0" "bufs_live m (y # ys)"
  shows "\<exists>r m'. pbuf_clone l PBUF_RAM (Some y) m = Some (r, m') \<and>
    (case r of None \<Rightarrow> pm_inv L m' \<and> pb m' = pb m \<and> dat m' = dat m
     | Some x \<Rightarrow> (\<exists>L'. new_packet m m' x [x] (lens (pb m) (y # ys)) \<and> pm_inv L' m' \<and> drop_lives [x] L' = L) \<and>
         content m' [x] = content m (y # ys) \<and> content m' (y # ys) = content m (y # ys))"
proof -
  obtain b where b: "pb m y = Some b" "unat (tot_len b) = lens (pb m) (y # ys)" using c(1) by (auto simp: cursor_def)
  obtain r m1 where al: "pbuf_alloc l (tot_len b) PBUF_RAM m = Some (r, m1)" and
    cs: "case r of None \<Rightarrow> pm_inv L m1 \<and> pb m1 = pb m \<and> dat m1 = dat m
     | Some x \<Rightarrow> \<exists>xs L'. new_packet m m1 x xs (unat (tot_len b)) \<and> pm_inv L' m1 \<and> drop_lives xs L' = L"
    using pbuf_alloc_spec [OF inv, of PBUF_RAM l "tot_len b"] by auto
  show ?thesis
  proof (cases r)
    case None
    then show ?thesis using b al cs by (simp add: pbuf_clone_def deref_def)
  next
    case (Some x)
    then obtain xs L' where np: "new_packet m m1 x xs (unat (tot_len b))" "pm_inv L' m1" "drop_lives xs L' = L"
      using cs by auto
    obtain bx where bx: "pb m1 x = Some bx" "pb_next bx = None" using alloc_ram_single al Some by blast
    then have xs: "xs = [x]" using np(1) chain_Some by (fastforce simp: new_packet_def)
    note n = np(1) [unfolded xs]
    note y = new_packet_cursor [OF n c]
    obtain off where fr: "payload bx = Some (Own x, off)" "in_buf m1 (payload bx) (unat (pb_len bx))"
      using n bx by (auto simp: new_packet_def fresh_ok_def in_buf_def)
    then have bufx: "bufs m1 [x] = [Own x]" using bx by (simp add: buf_at_def)
    have cx: "cursor m1 [x] 0" using n bx fr by (auto simp: cursor_def new_packet_def)
    have lx: "lens (pb m1) [x] = lens (pb m) (y # ys)" using n b(2) by (simp add: new_packet_def)
    have "set (bufs m1 [x]) \<inter> set (bufs m1 (y # ys)) = {}" "distinct (bufs m1 [x])"
      unfolding bufx y(3) using y(5) by auto
    from copy_chain [OF cx y(1) this(2,1)] obtain m' where
      m': "pbuf_copy (Some x) (Some y) m1 = Some (ERR_OK, m')" "writes {Own x} m1 m'"
      "content m' [x] = overwrite 0 (content m (y # ys)) (content m1 [x])"
      unfolding lx y(2,4) bufx by auto
    have "length (content m (y # ys)) = length (content m1 [x])"
      using length_content [of m "y # ys"] length_content [of m1 "[x]"] c(1) cx lx by (simp only: cursor_def)
    then have "content m' [x] = content m (y # ys)" using m'(3) by (simp only: overwrite_all)
    moreover have "content m' (y # ys) = content m (y # ys)"
      unfolding y(2) [symmetric] by (rule writes_content [OF m'(2)], unfold y(3)) (use y(5) in auto)
    moreover have "new_packet m m' x [x] (lens (pb m) (y # ys))"
    proof -
      have "fresh_ok m' x = fresh_ok m1 x"
        using m'(2) by (auto simp: writes_def fresh_ok_def split: option.split)
      moreover have "heap_bufs [x] = {Own x}"
        using al Some by (auto simp: pbuf_alloc_def Let_def bind_Some_conv split: option.splits if_splits prod.splits)
      ultimately show ?thesis using n b(2) m'(2) writes_sel(1) [OF m'(2)] by (auto simp: new_packet_def writes_def)
    qed
    moreover have "pbuf_clone l PBUF_RAM (Some y) m = Some (Some x, m')"
      using b(1) al Some m'(1) by (simp add: pbuf_clone_def deref_def)
    moreover have "pm_inv L' m' \<and> drop_lives [x] L' = L" using np(2,3) xs writes_pm_inv [OF m'(2)] by simp
    ultimately show ?thesis by (intro exI [of _ "Some x"] exI [of _ m']) (simp only: option.case, blast)
  qed
qed

lemma coalesce_chain:
  assumes inv: "pm_inv L m" and c: "cursor m (y # ys) 0" "bufs_live m (y # ys)" "ys \<noteq> []"
    and r1: "list_all (\<lambda>z. \<exists>b. pb m z = Some b \<and> pb_ref b = 1) (y # ys)"
  shows "\<exists>q m'. pbuf_coalesce (Some y) l m = Some (Some q, m') \<and>
    (q = y \<and> pm_inv L m' \<and> pb m' = pb m \<and> dat m' = dat m \<or>
     pb m q = None \<and> chain (pb m') (Some q) [q] \<and> content m' [q] = content m (y # ys) \<and>
     (\<forall>z \<in> set (y # ys). pb m' z = None) \<and> (\<exists>L'. pm_inv L' m'))"
proof -
  obtain b where b: "pb m y = Some b" "pb_next b \<noteq> None" "chain (pb m) (Some y) (y # ys)"
    using c(1,3) by (cases ys) (auto simp: cursor_def)
  obtain r m1 where cl: "pbuf_clone l PBUF_RAM (Some y) m = Some (r, m1)" and
    cs: "case r of None \<Rightarrow> pm_inv L m1 \<and> pb m1 = pb m \<and> dat m1 = dat m
     | Some x \<Rightarrow> (\<exists>L'. new_packet m m1 x [x] (lens (pb m) (y # ys)) \<and> pm_inv L' m1 \<and> drop_lives [x] L' = L) \<and>
         content m1 [x] = content m (y # ys) \<and> content m1 (y # ys) = content m (y # ys)"
    using clone_ram [OF inv c(1,2)] by blast
  show ?thesis
  proof (cases r)
    case None
    then show ?thesis using b cl cs by (auto simp: pbuf_coalesce_def deref_def)
  next
    case (Some x)
    then obtain L' where n: "new_packet m m1 x [x] (lens (pb m) (y # ys))" "pm_inv L' m1" "content m1 [x] = content m (y # ys)"
      using cs by auto
    have x: "pb m x = None" "\<And>z. z \<noteq> x \<Longrightarrow> pb m1 z = pb m z" using n(1) by (auto simp: new_packet_def)
    have nx: "x \<notin> set (y # ys)" using r1 x(1) by (auto simp: list_all_iff)
    have pb: "pb m1 z = pb m z" if "z \<in> set (y # ys)" for z using x(2) [of z] nx that by blast
    have "chain (pb m1) (Some y) (y # ys) = chain (pb m) (Some y) (y # ys)" by (rule path_cong) (rule pb)
    then have ch: "chain (pb m1) (Some y) (y # ys)" using b(3) by (simp only:)
    have r1': "list_all (\<lambda>z. \<exists>b. pb m1 z = Some b \<and> pb_ref b = 1) (y # ys)"
      using r1 pb unfolding list_all_iff by metis
    then have rp: "refs_pos (pb m1) (y # ys)" by (auto simp: refs_pos_def list_all_iff)
    from pbuf_free_chain [OF n(2) ch rp] obtain k m2 where
      m2: "pbuf_free (Some y) m1 = Some (k, m2)" "pb m2 = unref (pb m1) (y # ys)" "\<exists>L2. pm_inv L2 m2"
        "\<forall>bf. bf \<notin> heap_bufs (y # ys) \<longrightarrow> dat m2 bf = dat m1 bf"
      unfolding nfree_all [OF r1'] take_all [OF order_refl] by blast
    have "Own x \<notin> heap_bufs (y # ys)" using nx by (auto simp: heap_bufs_def)
    then have dx: "dat m2 (Own x) = dat m1 (Own x)" using m2(4) by blast
    have px: "pb m2 x = pb m1 x" unfolding m2(2) by (rule unref_other [OF nx])
    obtain bx off where bx: "pb m1 x = Some bx" "payload bx = Some (Own x, off)"
      using n(1) by (auto simp: new_packet_def fresh_ok_def split: option.splits)
    have "content m2 [x] = content m (y # ys)" using n(3) px bx dx by (simp add: pay_def bytes_at_def)
    moreover have "chain (pb m2) (Some x) [x]" using n(1) px by (auto simp: new_packet_def)
    moreover have "\<forall>z \<in> set (y # ys). pb m2 z = None"
      using unref_all [OF chain_distinct [OF ch] r1'] m2(2) by auto
    moreover have "pbuf_coalesce (Some y) l m = Some (Some x, m2)"
      using b(1,2) cl Some m2(1) by (auto simp: pbuf_coalesce_def deref_def)
    ultimately show ?thesis using x(1) m2(3) by blast
  qed
qed

subsection \<open>A concrete packet of two structures\<close>

definition part :: "ptr option \<Rightarrow> ptr \<Rightarrow> int \<Rightarrow> u16 \<Rightarrow> u16 \<Rightarrow> pbuf" where
  "part nx x off tot ln = \<lparr>pb_next = nx, payload = Some (Own x, off), tot_len = tot, pb_len = ln,
     type_internal = 0x82, pb_flags = 0, pb_ref = 1, if_idx = 0\<rparr>"

definition two_mem :: pmem where
  "two_mem = start_mem\<lparr>
     pb := [Pool_elem 0 \<mapsto> part (Some (Pool_elem 1)) (Pool_elem 0) 2 5 3, Pool_elem 1 \<mapsto> part None (Pool_elem 1) 0 2 2],
     dat := (\<lambda>bf. if bf = Own (Pool_elem 0) then [0, 0, 10, 20, 30] else if bf = Own (Pool_elem 1) then [20, 40] else [])\<rparr>"

abbreviation two_ptrs :: "ptr list" where "two_ptrs \<equiv> [Pool_elem 0, Pool_elem 1]"

lemma two_mem_ok:
  "chain (pb two_mem) (Some (Pool_elem 0)) two_ptrs" "data_ok two_mem two_ptrs" "tots (pb two_mem) two_ptrs"
  "distinct (bufs two_mem two_ptrs)" "content two_mem two_ptrs = [10, 20, 30, 20, 40]" "lens (pb two_mem) two_ptrs = 5"
  by (simp_all add: two_mem_def part_def in_buf_def buf_at_def pay_def bytes_at_def len_at_def)

subsection \<open>Properties\<close>

text \<open>
  \<open>pbuf_copy_partial\<close> reads a packet as one byte string: wherever the packet is cut into
  structures, it returns the number of bytes available from \<open>offset\<close> on, at most \<open>len\<close>, and has
  put exactly these bytes at the start of the caller's buffer; the rest of the buffer is
  unchanged. It returns whenever the buffer has room for these bytes.
\<close>

lemma pbuf_copy_partial_correct:
  assumes "chain (pb m) (Some x) xs" "data_ok m xs"
    and "bs = take (unat ln) (drop (unat off) (content m xs))" "length bs \<le> length dst"
  shows "pbuf_copy_partial (Some x) (Some dst) ln off m = Some (of_nat (length bs), overwrite 0 bs dst)"
  using assms by (rule copy_partial_chain)

text \<open>
  \<open>pbuf_memfind\<close> returns the first position from the start offset on at which the searched
  bytes occur in the packet, also across structure boundaries, and \<^verbatim>\<open>0xFFFF\<close> if there is none; the
  search always ends.
\<close>

lemma pbuf_memfind_correct:
  assumes "chain (pb m) (Some y) xs" "data_ok m xs" "tots (pb m) xs" "unat n = length pat"
  shows "\<exists>r. pbuf_memfind (Some y) pat n start m = Some r \<and>
    (if \<exists>j\<ge>unat start. occurs pat (content m xs) j
     then unat r = (LEAST j. unat start \<le> j \<and> occurs pat (content m xs) j) else r = 0xFFFF)"
  using assms by (rule memfind_chain)

text \<open>
  Bytes written with \<open>pbuf_take_at\<close> are read back by \<open>pbuf_copy_partial\<close>: a write that fits
  returns \<open>ERR_OK\<close>, replaces exactly the bytes at its offset, changes no structure, and a read of
  the same range returns the written bytes.
\<close>

lemma pbuf_take_at_roundtrip:
  assumes "chain (pb m) (Some x) xs" "data_ok m xs" "tots (pb m) xs" "distinct (bufs m xs)"
    and "unat off < lens (pb m) xs" "unat off + unat n \<le> lens (pb m) xs" "unat n = length src" "length dst = length src"
  shows "\<exists>m'. pbuf_take_at (Some x) (Some src) n off m = Some (ERR_OK, m') \<and> pb m' = pb m \<and>
    content m' xs = overwrite (unat off) src (content m xs) \<and>
    pbuf_copy_partial (Some x) (Some dst) n off m' = Some (n, src)"
proof -
  obtain m' where m': "pbuf_take_at (Some x) (Some src) n off m = Some (ERR_OK, m')" "writes (set (bufs m xs)) m m'"
    "content m' xs = overwrite (unat off) src (content m xs)"
    using take_at_fits [OF assms(1-6), of src] assms(7) by auto
  have "take (unat n) (drop (unat off) (content m' xs)) = src"
    using take_drop_overwrite [of "unat off" src "content m xs"] m'(3) assms(6,7) length_content [OF assms(2)] by simp
  then have "pbuf_copy_partial (Some x) (Some dst) n off m' = Some (of_nat (length src), overwrite 0 src dst)"
    using assms(1,2,8) writes_sel(1) [OF m'(2)] writes_data_ok [OF m'(2)] by (intro copy_partial_chain) auto
  moreover have "of_nat (length src) = n" unfolding assms(7) [symmetric] by simp
  ultimately show ?thesis using m' writes_sel(1) [OF m'(2)] assms(8) by (auto simp: overwrite_all)
qed

text \<open>
  \<open>pbuf_clone\<close> to a heap packet always returns. On success the clone is one fresh structure
  with the bytes of the original; the original keeps its bytes and its structures, and every other
  structure is untouched. If the heap has no room it returns \<^verbatim>\<open>NULL\<close> and nothing changes.
\<close>

lemma pbuf_clone_correct:
  assumes "pm_inv L m" "cursor m (y # ys) 0" "bufs_live m (y # ys)"
  shows "\<exists>r m'. pbuf_clone l PBUF_RAM (Some y) m = Some (r, m') \<and>
    (case r of None \<Rightarrow> pm_inv L m' \<and> pb m' = pb m \<and> dat m' = dat m
     | Some x \<Rightarrow> (\<exists>L'. new_packet m m' x [x] (lens (pb m) (y # ys)) \<and> pm_inv L' m' \<and> drop_lives [x] L' = L) \<and>
         content m' [x] = content m (y # ys) \<and> content m' (y # ys) = content m (y # ys))"
  using assms by (rule clone_ram)

end
