(* ===== verification/Pbuf_Chain.thy ===== *)
theory Pbuf_Chain
  imports Pbuf_Write
begin

text \<open>
  Joining and splitting packets: \<open>pbuf_cat\<close>, \<open>pbuf_chain\<close>, \<open>pbuf_dechain\<close>, \<open>pbuf_clen\<close>, the
  header operations, \<open>pbuf_realloc\<close> and \<open>pbuf_free_header\<close>, as operations on the content.
\<close>

subsection \<open>Concatenation\<close>

definition relink :: "(ptr \<Rightarrow> pbuf option) \<Rightarrow> ptr list \<Rightarrow> u16 \<Rightarrow> ptr option \<Rightarrow> (ptr \<Rightarrow> pbuf option)" where
  "relink h xs k q = (\<lambda>z. if z \<in> set xs
     then map_option (\<lambda>b. b\<lparr>tot_len := tot_len b + k, pb_next := (if z = last xs then q else pb_next b)\<rparr>) (h z)
     else h z)"

lemma relink_one: "relink h [x] k q = h(x := map_option (\<lambda>b. b\<lparr>tot_len := tot_len b + k, pb_next := q\<rparr>) (h x))"
  by (auto simp: relink_def)

lemma relink_Cons:
  assumes "x \<notin> set (y # zs)"
  shows "relink h (x # y # zs) k q = relink (h(x := map_option (\<lambda>b. b\<lparr>tot_len := tot_len b + k\<rparr>) (h x))) (y # zs) k q"
proof
  fix z
  have "last (x # y # zs) \<in> set (y # zs)" using last_in_set [of "y # zs"] by simp
  then have "x \<noteq> last (x # y # zs)" using assms by metis
  then show "relink h (x # y # zs) k q z =
      relink (h(x := map_option (\<lambda>b. b\<lparr>tot_len := tot_len b + k\<rparr>) (h x))) (y # zs) k q z"
    using assms by (cases "h x") (auto simp: relink_def)
qed

lemma cat_loop_chain:
  assumes "chain (pb m) (Some x) (x # xs)" "pb m t = Some tb" "t \<notin> set (x # xs)"
  shows "\<exists>b m1. cat_loop x t m = Some (last (x # xs), m1) \<and> pb m1 (last (x # xs)) = Some b \<and> pb m (last (x # xs)) = Some b \<and>
    pb m1 t = Some tb \<and>
    put_pb (last (x # xs)) (b\<lparr>tot_len := tot_len b + tot_len tb, pb_next := Some t\<rparr>) m1 =
      m\<lparr>pb := relink (pb m) (x # xs) (tot_len tb) (Some t)\<rparr>"
  using assms
proof (induction xs arbitrary: x m)
  case Nil
  then obtain b where b: "pb m x = Some b" "pb_next b = None" by auto
  have "cat_loop x t m = Some (x, m)" using b by (subst cat_loop.simps) simp
  then show ?case using b Nil(2) by (simp add: put_pb_def relink_one del: fun_upd_apply)
next
  case (Cons y ys)
  then obtain b where b: "pb m x = Some b" "pb_next b = Some y" "chain (pb m) (Some y) (y # ys)" by auto
  have d: "x \<notin> set (y # ys)" using chain_distinct [OF Cons.prems(1)] by simp
  define m0 where "m0 = put_pb x (b\<lparr>tot_len := tot_len b + tot_len tb\<rparr>) m"
  have "chain (pb m0) (Some y) (y # ys)" unfolding m0_def put_pb_sel using b(3) path_upd [OF d] by blast
  moreover have "pb m0 t = Some tb" "t \<notin> set (y # ys)" using Cons.prems(2,3) by (auto simp: m0_def)
  ultimately obtain b' m1 where IH: "cat_loop y t m0 = Some (last (y # ys), m1)" "pb m1 (last (y # ys)) = Some b'"
    "pb m0 (last (y # ys)) = Some b'" "pb m1 t = Some tb"
    "put_pb (last (y # ys)) (b'\<lparr>tot_len := tot_len b' + tot_len tb, pb_next := Some t\<rparr>) m1 =
      m0\<lparr>pb := relink (pb m0) (y # ys) (tot_len tb) (Some t)\<rparr>"
    using Cons.IH by blast
  have "last (y # ys) \<noteq> x" using d last_in_set [of "y # ys"] by auto
  moreover have "cat_loop x t m = cat_loop y t m0"
    using b Cons.prems(2) by (subst cat_loop.simps) (simp add: m0_def)
  moreover have "m0\<lparr>pb := relink (pb m0) (y # ys) (tot_len tb) (Some t)\<rparr> =
      m\<lparr>pb := relink (pb m) (x # y # ys) (tot_len tb) (Some t)\<rparr>"
    unfolding relink_Cons [OF d] using b(1) by (simp add: m0_def put_pb_def del: fun_upd_apply)
  ultimately show ?case using IH by (auto simp: m0_def)
qed

lemma last_tot:
  assumes "chain h (Some x) xs" "tots h xs"
  shows "\<exists>b. h (last xs) = Some b \<and> tot_len b = pb_len b"
  using assms
proof (induction xs arbitrary: x)
  case (Cons y ys)
  then obtain b where b: "h y = Some b" "chain h (pb_next b) ys" "tots h ys" "unat (tot_len b) = unat (pb_len b) + lens h ys"
    by auto
  show ?case
  proof (cases ys)
    case Nil
    then show ?thesis using b by (auto intro: word_unat_eq_iff [THEN iffD2])
  next
    case (Cons z zs)
    then show ?thesis using Cons.IH [of z] b by auto
  qed
qed simp

lemma cat_eq:
  assumes "chain (pb m) (Some x) xs" "tots (pb m) xs" "pb m t = Some tb" "t \<notin> set xs"
  shows "pbuf_cat (Some x) (Some t) m = Some (m\<lparr>pb := relink (pb m) xs (tot_len tb) (Some t)\<rparr>)"
proof -
  obtain ys where ys: "xs = x # ys" using chain_Some [OF assms(1)] by blast
  from cat_loop_chain [of m x ys t tb] assms ys obtain b m1 where
    c: "cat_loop x t m = Some (last xs, m1)" "pb m1 (last xs) = Some b" "pb m (last xs) = Some b" "pb m1 t = Some tb"
      "put_pb (last xs) (b\<lparr>tot_len := tot_len b + tot_len tb, pb_next := Some t\<rparr>) m1 =
        m\<lparr>pb := relink (pb m) xs (tot_len tb) (Some t)\<rparr>" by auto
  have "tot_len b = pb_len b" using last_tot [OF assms(1,2)] c(3) by simp
  then show ?thesis using c by (simp add: pbuf_cat_def)
qed

lemma relink_path:
  assumes "path h a xs None" "xs \<noteq> []"
  shows "path (relink h xs k q) a xs q"
  using assms
proof (induction xs arbitrary: a h)
  case (Cons x xs)
  have d: "distinct (x # xs)" by (rule chain_distinct [OF Cons.prems(1)])
  obtain b where b: "a = Some x" "h x = Some b" "path h (pb_next b) xs None" using Cons.prems(1) by auto
  show ?case
  proof (cases xs)
    case Nil
    then show ?thesis using b by (simp add: relink_one)
  next
    case (Cons y ys)
    let ?h = "h(x := map_option (\<lambda>b. b\<lparr>tot_len := tot_len b + k\<rparr>) (h x))"
    have dx: "x \<notin> set (y # ys)" using d Cons by simp
    have "path ?h (pb_next b) xs None" using b(3) d path_upd by auto
    then have "path (relink ?h xs k q) (pb_next b) xs q" using Cons.IH Cons by blast
    moreover have "relink ?h xs k q x = Some (b\<lparr>tot_len := tot_len b + k\<rparr>)"
      using d b(2) by (simp add: relink_def)
    moreover have "relink h (x # xs) k q = relink ?h xs k q" unfolding Cons by (rule relink_Cons [OF dx])
    ultimately show ?thesis using b(1) by auto
  qed
qed simp


text \<open>Two stores agree but for the links: the fields \<open>next\<close> and \<open>tot_len\<close>.\<close>

definition same_cells :: "(ptr \<Rightarrow> pbuf option) \<Rightarrow> (ptr \<Rightarrow> pbuf option) \<Rightarrow> bool" where
  "same_cells h h' \<longleftrightarrow> (\<forall>z. map_option (\<lambda>b. b\<lparr>tot_len := 0, pb_next := None\<rparr>) (h z) =
     map_option (\<lambda>b. b\<lparr>tot_len := 0, pb_next := None\<rparr>) (h' z))"

lemma same_cells_refl [simp]: "same_cells h h"
  by (simp add: same_cells_def)

lemma same_cellsD:
  assumes "same_cells h h'" "h z = Some b"
  shows "\<exists>b'. h' z = Some b' \<and> payload b' = payload b \<and> pb_len b' = pb_len b \<and> type_internal b' = type_internal b \<and>
    pb_flags b' = pb_flags b \<and> pb_ref b' = pb_ref b"
proof -
  have e: "map_option (\<lambda>b. b\<lparr>tot_len := 0, pb_next := None\<rparr>) (h z) =
      map_option (\<lambda>b. b\<lparr>tot_len := 0, pb_next := None\<rparr>) (h' z)" using assms(1) unfolding same_cells_def by blast
  show ?thesis
  proof (cases "h' z")
    case (Some b')
    then show ?thesis using e assms(2) by (cases b; cases b') auto
  qed (use e assms(2) in simp)
qed

lemma same_cells_None:
  assumes "same_cells h h'"
  shows "h z = None \<longleftrightarrow> h' z = None"
proof -
  have "map_option (\<lambda>b. b\<lparr>tot_len := 0, pb_next := None\<rparr>) (h z) =
     map_option (\<lambda>b. b\<lparr>tot_len := 0, pb_next := None\<rparr>) (h' z)" using assms by (simp add: same_cells_def)
  then show ?thesis by (cases "h z"; cases "h' z") auto
qed

lemma same_cells_len: "same_cells h h' \<Longrightarrow> len_at h' z = len_at h z"
  using same_cellsD [of h h' z] same_cells_None [of h h' z] by (cases "h z") (auto simp: len_at_def)

lemma same_cells_lens: "same_cells h h' \<Longrightarrow> lens h' xs = lens h xs"
  by (rule lens_cong) (rule same_cells_len)

text \<open>The packet memory with other links has the same data, buffers and allocated objects.\<close>

lemma same_cells_mem:
  assumes s: "same_cells (pb m) h"
  shows "pay (m\<lparr>pb := h\<rparr>) z = pay m z" "buf_at (m\<lparr>pb := h\<rparr>) z = buf_at m z"
    "data_ok (m\<lparr>pb := h\<rparr>) xs = data_ok m xs" "pm_inv L (m\<lparr>pb := h\<rparr>) = pm_inv L m"
    "refs_pos h xs = refs_pos (pb m) xs"
proof -
  have c: "(\<exists>b b'. pb m z = Some b \<and> h z = Some b' \<and> payload b' = payload b \<and> pb_len b' = pb_len b \<and>
      type_internal b' = type_internal b \<and> pb_flags b' = pb_flags b \<and> pb_ref b' = pb_ref b) \<or> pb m z = None \<and> h z = None" for z
    using same_cellsD [OF s, of z] same_cells_None [OF s, of z] by (cases "pb m z") auto
  show "pay (m\<lparr>pb := h\<rparr>) z = pay m z" "buf_at (m\<lparr>pb := h\<rparr>) z = buf_at m z"
    using c [of z] by (auto simp: pay_def bytes_at_def buf_at_def split: option.splits)
  have "(case h z of None \<Rightarrow> False | Some b \<Rightarrow> in_buf (m\<lparr>pb := h\<rparr>) (payload b) (unat (pb_len b))) =
      (case pb m z of None \<Rightarrow> False | Some b \<Rightarrow> in_buf m (payload b) (unat (pb_len b)))" for z
    using c [of z] by (auto simp: in_buf_def split: option.split prod.split)
  then show "data_ok (m\<lparr>pb := h\<rparr>) xs = data_ok m xs" by (simp add: data_ok_def)
  have "(case h z of None \<Rightarrow> False | Some b \<Rightarrow> 0 < pb_ref b) = (case pb m z of None \<Rightarrow> False | Some b \<Rightarrow> 0 < pb_ref b)" for z
    using c [of z] by auto
  then show "refs_pos h xs = refs_pos (pb m) xs" by (simp add: refs_pos_def)
  have "held L (m\<lparr>pb := h\<rparr>) z = held L m z" for z by (rule held_cong) auto
  moreover have "alloc_inv L (m\<lparr>pb := h\<rparr>) = alloc_inv L m" by (rule alloc_inv_cong) auto
  moreover have "(\<forall>b. h z = Some b \<longrightarrow> label_ok z b) = (\<forall>b. pb m z = Some b \<longrightarrow> label_ok z b)" for z
    using c [of z] by (auto simp: label_ok_def split: ptr.splits)
  moreover have "h z = None \<longleftrightarrow> pb m z = None" for z using c [of z] by auto
  ultimately show "pm_inv L (m\<lparr>pb := h\<rparr>) = pm_inv L m" unfolding pm_inv_def by (simp add: ) (metis not_None_eq)
qed

lemma relink_same: "same_cells h (relink h xs k q)"
  by (auto simp: same_cells_def relink_def option.map_comp comp_def)

lemma relink_tots:
  assumes "chain h (Some x) xs" "tots h xs" "unat k + lens h xs < 65536"
  shows "tots_with (relink h xs k q) xs (unat k)"
proof -
  have "tots_with (relink h zs k q) ys (unat k)" if "set ys \<subseteq> set zs" "tots h ys" "unat k + lens h ys < 65536" for ys zs
    using that
  proof (induction ys)
    case (Cons y ys)
    then obtain b where b: "h y = Some b" "unat (tot_len b) = unat (pb_len b) + lens h ys" "tots h ys" by auto
    have "unat (tot_len b + k) = unat (pb_len b) + lens h ys + unat k"
      using Cons.prems(3) b(1,2) by (subst unat_add_no_overflow) auto
    then show ?case using Cons b same_cells_lens [OF relink_same, of h zs k q ys] same_cells_len [OF relink_same, of h zs k q y]
      by (auto simp: relink_def)
  qed simp
  then show ?thesis using assms by blast
qed

lemma cat_chain:
  assumes x: "chain (pb m) (Some x) xs" "tots (pb m) xs" and y: "chain (pb m) (Some y) ys" "tots (pb m) ys"
    and d: "set xs \<inter> set ys = {}" and l: "lens (pb m) xs + lens (pb m) ys < 65536"
  shows "\<exists>h. pbuf_cat (Some x) (Some y) m = Some (m\<lparr>pb := h\<rparr>) \<and> same_cells (pb m) h \<and>
    chain h (Some x) (xs @ ys) \<and> tots h (xs @ ys) \<and> (\<forall>z. z \<notin> set xs \<longrightarrow> h z = pb m z)"
proof -
  obtain zs tb where ys: "ys = y # zs" "pb m y = Some tb" "unat (tot_len tb) = lens (pb m) ys"
    using chain_Some [OF y(1)] y by auto
  let ?h = "relink (pb m) xs (tot_len tb) (Some y)"
  have "y \<notin> set xs" using d ys by auto
  then have c: "pbuf_cat (Some x) (Some y) m = Some (m\<lparr>pb := ?h\<rparr>)" using cat_eq [OF x ys(2)] by blast
  have o: "?h z = pb m z" if "z \<notin> set xs" for z using that by (simp add: relink_def)
  have "path ?h (Some x) xs (Some y)" using relink_path [OF x(1)] x(1) by (cases xs) auto
  moreover have yh: "chain ?h (Some y) ys = chain (pb m) (Some y) ys" "tots ?h ys = tots (pb m) ys"
    using d o by (auto intro!: path_cong tots_cong)
  moreover have "tots_with ?h xs (unat (tot_len tb))" by (rule relink_tots [OF x]) (use ys(3) l in simp)
  ultimately have "chain ?h (Some x) (xs @ ys)" "tots ?h (xs @ ys)"
    using y ys(3) same_cells_lens [OF relink_same, of "pb m" xs "tot_len tb" "Some y" ys]
    by (auto simp: path_append tots_with_append simp flip: tots_with_0)
  then show ?thesis using c o relink_same by blast
qed


lemma same_cells_content: "same_cells (pb m) h \<Longrightarrow> content (m\<lparr>pb := h\<rparr>) xs = content m xs"
  by (simp add: content_def same_cells_mem(1) cong: map_cong)

subsection \<open>Chaining and dechaining\<close>

lemma free_shared:
  assumes "pb m y = Some b" "1 < pb_ref b"
  shows "pbuf_free (Some y) m = Some (0, put_pb y (b\<lparr>pb_ref := pb_ref b - 1\<rparr>) m)"
proof -
  have "0 < unat (pb_ref b)" "1 < unat (pb_ref b)" using assms(2) by (simp_all add: word_less_nat_alt)
  moreover have "unat (pb_ref b - 1) = unat (pb_ref b) - 1"
    using calculation by (subst unat_sub) (auto simp: word_le_nat_alt)
  ultimately have "pb_ref b > 0" "pb_ref b - 1 \<noteq> 0" by (auto simp: word_less_nat_alt)
  then have "free_loop (Some y) 0 m = Some (0, put_pb y (b\<lparr>pb_ref := pb_ref b - 1\<rparr>) m)"
    using assms(1) by (subst free_loop.simps) (simp add: word_gt_0)
  then show ?thesis by (simp add: pbuf_free_def)
qed

lemma dechain_shared:
  assumes x: "pb m x = Some b" "pb_next b = Some y" "pb m y = Some c" "x \<noteq> y"
    and t: "unat (tot_len b) = unat (pb_len b) + unat (tot_len c)" and r: "1 < pb_ref c"
  shows "pbuf_dechain (Some x) m =
    Some (Some y, put_pb y (c\<lparr>pb_ref := pb_ref c - 1\<rparr>) (put_pb x (b\<lparr>pb_next := None, tot_len := pb_len b\<rparr>) m))"
proof -
  have "unat (tot_len b - pb_len b) = unat (tot_len c)" using t by (simp add: unat_sub word_le_nat_alt)
  then have e: "tot_len b - pb_len b = tot_len c" by (rule word_unat_eq_iff [THEN iffD2])
  then have "c\<lparr>tot_len := tot_len b - pb_len b\<rparr> = c" by simp
  then have m1: "put_pb y (c\<lparr>tot_len := tot_len b - pb_len b\<rparr>) m = m" using x(3) by (simp add: put_pb_def fun_upd_idem)
  let ?m2 = "put_pb x (b\<lparr>pb_next := None, tot_len := pb_len b\<rparr>) m"
  have "pb ?m2 y = Some c" using x(3,4) by simp
  from free_shared [OF this r] have f: "pbuf_free (Some y) ?m2 = Some (0, put_pb y (c\<lparr>pb_ref := pb_ref c - 1\<rparr>) ?m2)" .
  show ?thesis unfolding pbuf_dechain_def using x t f by (simp add: m1)
qed

lemma chain_dechain:
  assumes x: "pb m x = Some b" "pb_next b = None" "tot_len b = pb_len b"
    and y: "chain (pb m) (Some y) ys" "tots (pb m) ys" "x \<notin> set ys" "pb m y = Some c" "0 < pb_ref c" "pb_ref c < 255"
    and l: "unat (pb_len b) + lens (pb m) ys < 65536"
  shows "\<exists>m1. pbuf_chain (Some x) (Some y) m = Some m1 \<and> chain (pb m1) (Some x) (x # ys) \<and> tots (pb m1) (x # ys) \<and>
    content m1 (x # ys) = pay m x @ content m ys \<and> pbuf_dechain (Some x) m1 = Some (Some y, m)"
proof -
  obtain zs where ys: "ys = y # zs" using chain_Some [OF y(1)] by blast
  then have tc: "unat (tot_len c) = lens (pb m) ys" using y(2,4) by simp
  have xy: "x \<noteq> y" using y(3) ys by auto
  let ?b = "b\<lparr>tot_len := tot_len b + tot_len c, pb_next := Some y\<rparr>"
  have c1: "pbuf_cat (Some x) (Some y) m = Some (put_pb x ?b m)"
    using cat_eq [of m x "[x]" y c] x y(4) xy by (simp add: relink_one put_pb_def del: fun_upd_apply)
  have rc: "unat (pb_ref c + 1) = unat (pb_ref c) + 1"
    using y(6) by (subst unat_add_no_overflow) (auto simp: word_less_nat_alt)
  have r1: "pb_ref c + 1 > 0" "1 < pb_ref c + 1" using rc y(5) by (simp_all add: word_less_nat_alt)
  let ?m1 = "put_pb y (c\<lparr>pb_ref := pb_ref c + 1\<rparr>) (put_pb x ?b m)"
  have c2: "pbuf_chain (Some x) (Some y) m = Some ?m1" using c1 y(4) xy r1(1) by (simp add: pbuf_chain_def pbuf_ref_def)
  have tb: "unat (tot_len ?b) = unat (pb_len b) + lens (pb m) ys"
    using l x(3) tc by (simp add: unat_add_no_overflow)
  have h: "pb ?m1 = ((pb m)(x \<mapsto> ?b))(y \<mapsto> c\<lparr>pb_ref := pb_ref c + 1\<rparr>)" by simp
  have zs: "x \<notin> set zs" "y \<notin> set zs" using y(3) chain_distinct [OF y(1)] ys by auto
  have "chain (pb ?m1) (Some x) (x # ys)" "tots (pb ?m1) (x # ys)"
    using y(1,2,4) xy zs tb ys by (auto simp: h simp del: fun_upd_apply) (auto simp: len_at_def)
  moreover have "content ?m1 (x # ys) = pay m x @ content m ys"
  proof -
    have "pay ?m1 z = pay m z" for z using x(1) y(4) xy
      by (auto simp: pay_def bytes_at_def split: option.split prod.split)
    then show ?thesis by (simp add: content_def cong: map_cong)
  qed
  moreover have "pbuf_dechain (Some x) ?m1 = Some (Some y, m)"
  proof -
    have "pbuf_dechain (Some x) ?m1 = Some (Some y,
        put_pb y (c\<lparr>pb_ref := pb_ref c + 1, pb_ref := pb_ref c + 1 - 1\<rparr>) (put_pb x (?b\<lparr>pb_next := None, tot_len := pb_len b\<rparr>) ?m1))"
      using dechain_shared [of ?m1 x ?b y "c\<lparr>pb_ref := pb_ref c + 1\<rparr>"] xy tb tc r1(2) by simp
    moreover have "put_pb y (c\<lparr>pb_ref := pb_ref c + 1, pb_ref := pb_ref c + 1 - 1\<rparr>) (put_pb x (?b\<lparr>pb_next := None, tot_len := pb_len b\<rparr>) ?m1) = m"
      using x y(4) xy by (auto simp: put_pb_def fun_eq_iff intro!: pmem.equality)
    ultimately show ?thesis by simp
  qed
  ultimately show ?thesis using c2 by blast
qed

subsection \<open>Headers\<close>

lemma add_header_own:
  assumes b: "pb m x = Some b" "type_internal b AND 0x80 \<noteq> 0" "payload b = Some (Own x, off)" "0 \<le> off"
    and n: "int n \<le> off" "unat (tot_len b) + n < 65536" "pb_len b \<le> tot_len b"
  shows "\<exists>m1. pbuf_add_header (Some x) n m = Some (False, m1) \<and> pbuf_remove_header (Some x) n m1 = Some (False, m) \<and>
    len_at (pb m1) x = len_at (pb m) x + n \<and>
    (in_buf m (payload b) (unat (pb_len b)) \<longrightarrow> drop n (pay m1 x) = pay m x)"
proof (cases "n = 0")
  case True
  then show ?thesis by (simp add: pbuf_add_header_def pbuf_add_header_impl_def pbuf_remove_header_def)
next
  case False
  let ?k = "of_nat n :: u16"
  have k: "unat ?k = n" using n(2) by (intro unat_of_nat_small) simp
  have ut: "unat (?k + tot_len b) = n + unat (tot_len b)" "unat (tot_len b + ?k) = unat (tot_len b) + n"
    "unat (pb_len b + ?k) = unat (pb_len b) + n"
    using n(2,3) k by (auto simp: word_le_nat_alt intro!: trans [OF unat_add_no_overflow])
  let ?m1 = "put_pb x (b\<lparr>payload := Some (Own x, off - int n), pb_len := pb_len b + ?k, tot_len := tot_len b + ?k\<rparr>) m"
  have "pbuf_add_header (Some x) n m = Some (False, ?m1)"
    using b n False k ut by (simp add: pbuf_add_header_def pbuf_add_header_impl_def Let_def word_less_nat_alt)
  moreover have "pbuf_remove_header (Some x) n ?m1 = Some (False, m)"
    using b n(2) False k ut by (simp add: pbuf_remove_header_def Let_def word_le_nat_alt shift_def)
      (auto simp: put_pb_def fun_eq_iff intro!: pmem.equality)
  moreover have "len_at (pb ?m1) x = len_at (pb m) x + n" using b(1) ut by simp
  moreover have "drop n (pay ?m1 x) = pay m x" if "in_buf m (payload b) (unat (pb_len b))"
  proof -
    have "nat (off - int n) + n = nat off" using n(1) by simp
    then show ?thesis using b ut(3) by (simp add: pay_def bytes_at_def drop_take add.commute)
  qed
  ultimately show ?thesis by blast
qed

lemma add_header_no_room:
  assumes "pb m x = Some b" "type_internal b AND 0x80 \<noteq> 0" "payload b = Some (Own x, off)" "off < int n"
  shows "pbuf_add_header (Some x) n m = Some (True, m) \<or> n = 0"
  using assms by (simp add: pbuf_add_header_def pbuf_add_header_impl_def Let_def)


subsection \<open>Releasing a header\<close>

text \<open>A packet that owns its buffers: every structure has its payload in the memory behind it.\<close>

definition own_packet :: "pmem \<Rightarrow> ptr option \<Rightarrow> ptr list \<Rightarrow> bool" where
  "own_packet m p xs \<longleftrightarrow> chain (pb m) p xs \<and> tots (pb m) xs \<and> data_ok m xs \<and> refs_pos (pb m) xs \<and>
     list_all (\<lambda>x. buf_at m x = [Own x]) xs"

lemma own_bufs: "list_all (\<lambda>x. buf_at m x = [Own x]) xs \<Longrightarrow> bufs m xs = map Own xs"
  by (induction xs) auto

lemma own_packet_frame:
  assumes "\<And>z. z \<in> set xs \<Longrightarrow> pb m1 z = pb m z" "\<And>z. z \<in> set xs \<Longrightarrow> dat m1 (Own z) = dat m (Own z)" "own_packet m p xs"
  shows "own_packet m1 p xs" "content m1 xs = content m xs"
proof -
  have "bufs m xs = map Own xs" using assms(3) by (intro own_bufs) (simp add: own_packet_def)
  then have "dat m1 bf = dat m bf" if "bf \<in> set (bufs m xs)" for bf using that assms(2) by auto
  note f = packet_frame [OF assms(1) this]
  show "content m1 xs = content m xs" by (rule f(1))
  have "list_all (\<lambda>x. buf_at m1 x = [Own x]) xs = list_all (\<lambda>x. buf_at m x = [Own x]) xs"
    unfolding list_all_iff by (rule ball_cong [OF refl]) (simp add: buf_at_def assms(1))
  then show "own_packet m1 p xs" using assms(3) f(4-7) by (simp add: own_packet_def)
qed

lemma own_packet_tl:
  assumes "own_packet m p (x # xs)"
  shows "\<exists>b. p = Some x \<and> pb m x = Some b \<and> own_packet m (pb_next b) xs \<and> x \<notin> set xs \<and>
    in_buf m (payload b) (unat (pb_len b)) \<and> unat (tot_len b) = unat (pb_len b) + lens (pb m) xs \<and> 0 < pb_ref b \<and>
    (\<exists>off. payload b = Some (Own x, off))"
proof -
  have "chain (pb m) p (x # xs)" using assms by (simp only: own_packet_def)
  then have "x \<notin> set xs" using chain_distinct [of "pb m" p "x # xs"] by simp
  then show ?thesis using assms by (auto simp: own_packet_def buf_at_def split: option.splits)
qed

lemma free_head:
  assumes inv: "pm_inv L m" and p: "own_packet m p (x # xs)" "pb m x = Some b"
  shows "\<exists>k m1 L1. pbuf_free (Some x) (put_pb x (b\<lparr>pb_next := None\<rparr>) m) = Some (k, m1) \<and> pm_inv L1 m1 \<and>
    own_packet m1 (pb_next b) xs \<and> content m1 xs = content m xs"
proof -
  let ?m = "put_pb x (b\<lparr>pb_next := None\<rparr>) m"
  have b: "own_packet m (pb_next b) xs" "x \<notin> set xs" "0 < pb_ref b" using own_packet_tl [OF p(1)] p(2) by auto
  have "label_ok x (b\<lparr>pb_next := None\<rparr>)" using pm_invD(1) [OF inv p(2)] by simp
  then have "pm_inv L ?m" using pm_inv_put [OF inv p(2)] by blast
  moreover have "chain (pb ?m) (Some x) [x]" "refs_pos (pb ?m) [x]" using b(3) by simp_all
  ultimately obtain k m1 where m1: "pbuf_free (Some x) ?m = Some (k, m1)" "pb m1 = unref (pb ?m) [x]" "\<exists>L1. pm_inv L1 m1"
    "\<forall>bf. bf \<notin> heap_bufs (take (nfree (pb ?m) [x]) [x]) \<longrightarrow> dat m1 bf = dat ?m bf"
    using pbuf_free_chain by blast
  have "pb m1 z = pb m z" if "z \<in> set xs" for z
    using m1(2) b(2) that unref_other [of z "[x]" "pb ?m"] by auto
  moreover have "dat m1 (Own z) = dat m (Own z)" if "z \<in> set xs" for z
  proof -
    have "Own z \<notin> heap_bufs (take (nfree (pb ?m) [x]) [x])"
      using b(2) that by (auto simp: heap_bufs_def dest: in_set_takeD)
    then show ?thesis using m1(4) by simp
  qed
  ultimately show ?thesis using own_packet_frame [OF _ _ b(1), of m1] m1(1,3) by blast
qed

lemma remove_header_head:
  assumes p: "own_packet m p (x # xs)" and b: "pb m x = Some b" "n \<le> pb_len b" "0 < n"
  shows "\<exists>b'. pbuf_remove_header (Some x) (unat n) m = Some (False, put_pb x b' m) \<and> label_ok x b' = label_ok x b \<and>
    own_packet (put_pb x b' m) p (x # xs) \<and> content (put_pb x b' m) (x # xs) = drop (unat n) (content m (x # xs))"
proof -
  obtain off where o: "p = Some x" "own_packet m (pb_next b) xs" "x \<notin> set xs" "in_buf m (payload b) (unat (pb_len b))"
    "unat (tot_len b) = unat (pb_len b) + lens (pb m) xs" "0 < pb_ref b" "payload b = Some (Own x, off)"
    using own_packet_tl [OF p] b(1) by auto
  define b' where "b' = b\<lparr>payload := Some (Own x, off + int (unat n)), pb_len := pb_len b - n, tot_len := tot_len b - n\<rparr>"
  let ?m = "put_pb x b' m"
  have n: "0 < unat n" "unat n \<le> unat (pb_len b)" "unat n < 65536"
    using b(2,3) unat16_less by (auto simp: word_less_nat_alt word_le_nat_alt)
  have u: "unat (pb_len b - n) = unat (pb_len b) - unat n" "unat (tot_len b - n) = unat (tot_len b) - unat n"
    using n o(5) by (simp_all add: unat_sub word_le_nat_alt)
  have io: "0 \<le> off" "nat off + unat (pb_len b) \<le> length (dat m (Own x))" using o(4,7) n by (auto simp: in_buf_def)
  have "pbuf_remove_header (Some x) (unat n) m = Some (False, ?m)"
    using b n o(7) by (simp add: pbuf_remove_header_def Let_def word_le_nat_alt shift_def b'_def)
  moreover have "label_ok x b' = label_ok x b" by (simp add: b'_def label_ok_def split: ptr.split)
  moreover have "pb ?m z = pb m z" if "z \<in> set xs" for z using that o(3) by auto
  note tl = own_packet_frame [OF this _ o(2), simplified put_pb_sel, OF _ refl]
  moreover have "own_packet ?m p (x # xs)"
    using tl(1) o(1,5,6) u n io unfolding own_packet_def
    by (auto simp: b'_def in_buf_def buf_at_def nat_add_distrib o(3))
  moreover have "pay ?m x = drop (unat n) (pay m x)"
    using b(1) o(7) u n io by (simp add: pay_def bytes_at_def b'_def nat_add_distrib drop_take add.commute)
  moreover have "length (pay m x) = unat (pb_len b)" using length_pay [OF b(1) o(4)] .
  ultimately show ?thesis using n by (intro exI [of _ b']) simp
qed

lemma free_header_chain:
  assumes "pm_inv L m" "own_packet m p xs"
  shows "\<exists>p' m' ys L'. free_header_loop p n m = Some (p', m') \<and> pm_inv L' m' \<and> own_packet m' p' ys \<and>
    content m' ys = drop (unat n) (content m xs)"
  using assms
proof (induction xs arbitrary: p n m L)
  case Nil
  then have "p = None" by (simp add: own_packet_def)
  then have "free_header_loop p n m = Some (None, m)" by (subst free_header_loop.simps) simp
  moreover have "own_packet m None []" by (simp add: own_packet_def)
  ultimately show ?case using Nil(1) by (intro exI [of _ None] exI [of _ m] exI [of _ "[]"] exI [of _ L]) simp
next
  case (Cons x xs)
  obtain b where b: "p = Some x" "pb m x = Some b" "in_buf m (payload b) (unat (pb_len b))"
    using own_packet_tl [OF Cons.prems(2)] by blast
  have lp: "length (pay m x) = unat (pb_len b)" by (rule length_pay [OF b(2,3)])
  consider "n = 0" | "n \<noteq> 0" "pb_len b \<le> n" | "n \<noteq> 0" "n < pb_len b" by force
  then show ?case
  proof cases
    case 1
    then have "free_header_loop p n m = Some (p, m)" by (subst free_header_loop.simps) simp
    then show ?thesis using Cons.prems 1 by (intro exI [of _ p] exI [of _ m] exI [of _ "x # xs"] exI [of _ L]) simp
  next
    case 2
    obtain k m1 L1 where m1: "pbuf_free (Some x) (put_pb x (b\<lparr>pb_next := None\<rparr>) m) = Some (k, m1)" "pm_inv L1 m1"
      "own_packet m1 (pb_next b) xs" "content m1 xs = content m xs"
      using free_head [OF Cons.prems b(2)] by blast
    have u: "unat (n - pb_len b) = unat n - unat (pb_len b)" "unat (pb_len b) \<le> unat n"
      using 2 by (simp_all add: unat_sub word_le_nat_alt)
    have "free_header_loop p n m = free_header_loop (pb_next b) (n - pb_len b) m1"
      using 2 b(1,2) m1(1) by (subst free_header_loop.simps) simp
    moreover have "drop (unat n) (content m (x # xs)) = drop (unat (n - pb_len b)) (content m1 xs)"
      using m1(4) lp u by simp
    ultimately show ?thesis using Cons.IH [OF m1(2,3), of "n - pb_len b"] by simp
  next
    case 3
    obtain b' where b': "pbuf_remove_header (Some x) (unat n) m = Some (False, put_pb x b' m)" "label_ok x b' = label_ok x b"
      "own_packet (put_pb x b' m) p (x # xs)" "content (put_pb x b' m) (x # xs) = drop (unat n) (content m (x # xs))"
      using remove_header_head [OF Cons.prems(2) b(2) order_less_imp_le [OF 3(2)]] 3(1) by (auto simp: word_gt_0)
    have "free_header_loop p n m = free_header_loop p 0 (put_pb x b' m)"
      using 3 b(1,2) b'(1) by (subst free_header_loop.simps) auto
    then have "free_header_loop p n m = Some (p, put_pb x b' m)" by (subst (asm) (2) free_header_loop.simps) simp
    moreover have "pm_inv L (put_pb x b' m)"
      using pm_inv_put [OF Cons.prems(1) b(2)] b'(2) pm_invD(1) [OF Cons.prems(1) b(2)] by blast
    ultimately show ?thesis using b'(3,4) by blast
  qed
qed


subsection \<open>Shrinking\<close>

definition cut_tots :: "(ptr \<Rightarrow> pbuf option) \<Rightarrow> ptr list \<Rightarrow> u16 \<Rightarrow> (ptr \<Rightarrow> pbuf option)" where
  "cut_tots h us k = (\<lambda>z. if z \<in> set us then map_option (\<lambda>b. b\<lparr>tot_len := tot_len b - k\<rparr>) (h z) else h z)"

lemma cut_tots_Nil [simp]: "cut_tots h [] k = h"
  by (simp add: cut_tots_def)

lemma cut_tots_Cons:
  "x \<notin> set us \<Longrightarrow> h x = Some b \<Longrightarrow> cut_tots h (x # us) k = cut_tots (h(x \<mapsto> b\<lparr>tot_len := tot_len b - k\<rparr>)) us k"
  by (auto simp: cut_tots_def fun_eq_iff)

lemma cut_tots_same: "same_cells h (cut_tots h us k)"
  by (auto simp: same_cells_def cut_tots_def option.map_comp comp_def)

lemma cut_tots_with:
  assumes "tots_with h us K" "unat k \<le> K"
  shows "tots_with (cut_tots h us k) us (K - unat k)"
proof -
  have "tots_with (cut_tots h zs k) ys (K - unat k)" if "set ys \<subseteq> set zs" "tots_with h ys K" for ys zs
    using that
  proof (induction ys)
    case (Cons y ys)
    then obtain b where b: "h y = Some b" "unat (tot_len b) = lens h (y # ys) + K" by auto
    have "unat (tot_len b - k) = lens h (y # ys) + (K - unat k)"
      using b(2) assms(2) by (subst unat_sub) (auto simp: word_le_nat_alt)
    then show ?case
      using Cons b same_cells_lens [OF cut_tots_same, of h zs k "y # ys"] by (auto simp: cut_tots_def)
  qed simp
  then show ?thesis using assms by blast
qed

lemma path_next_cong:
  "(\<And>x. x \<in> set xs \<Longrightarrow> map_option pb_next (h x) = map_option pb_next (h' x)) \<Longrightarrow> path h a xs z = path h' a xs z"
proof (induction xs arbitrary: a)
  case (Cons x xs)
  have "map_option pb_next (h x) = map_option pb_next (h' x)" "\<And>a. path h a xs z = path h' a xs z" using Cons by auto
  then show ?case by (cases "h x"; cases "h' x") auto
qed simp

lemma realloc_loop_chain:
  assumes "chain (pb m) p xs" "unat n < lens (pb m) xs \<or> unat n = 0 \<and> xs \<noteq> []"
  shows "\<exists>us q vs b. xs = us @ q # vs \<and> pb m q = Some b \<and> lens (pb m) us \<le> unat n \<and>
    unat n - lens (pb m) us \<le> unat (pb_len b) \<and>
    realloc_loop p n k m = Some (q, of_nat (unat n - lens (pb m) us), m\<lparr>pb := cut_tots (pb m) us k\<rparr>)"
  using assms
proof (induction xs arbitrary: p n m)
  case (Cons x xs)
  then obtain b where b: "p = Some x" "pb m x = Some b" "chain (pb m) (pb_next b) xs" by auto
  have d: "x \<notin> set xs" using chain_distinct [OF Cons.prems(1)] by simp
  show ?case
  proof (cases "n > pb_len b")
    case False
    then have "realloc_loop p n k m = Some (x, n, m)" using b by (subst realloc_loop.simps) simp
    moreover have "unat n \<le> unat (pb_len b)" using False by (simp add: word_less_nat_alt)
    ultimately show ?thesis using b by (intro exI [of _ "[]"]) auto
  next
    case True
    let ?m = "put_pb x (b\<lparr>tot_len := tot_len b - k\<rparr>) m"
    have u: "unat (n - pb_len b) = unat n - unat (pb_len b)" "unat (pb_len b) < unat n"
      using True by (simp_all add: unat_sub word_le_nat_alt word_less_nat_alt)
    have l: "lens (pb ?m) zs = lens (pb m) zs" "pb ?m z = pb m z" if "x \<notin> set zs" "z \<noteq> x" for zs z using that by auto
    have "chain (pb ?m) (pb_next b) xs" "unat (n - pb_len b) < lens (pb ?m) xs"
      using b d Cons.prems(2) u by (auto simp: l)
    then obtain us q vs c where IH: "xs = us @ q # vs" "pb ?m q = Some c" "lens (pb ?m) us \<le> unat (n - pb_len b)"
      "unat (n - pb_len b) - lens (pb ?m) us \<le> unat (pb_len c)"
      "realloc_loop (pb_next b) (n - pb_len b) k ?m =
        Some (q, of_nat (unat (n - pb_len b) - lens (pb ?m) us), ?m\<lparr>pb := cut_tots (pb ?m) us k\<rparr>)"
      using Cons.IH by blast
    have xu: "x \<notin> set us" "q \<noteq> x" using d IH(1) by auto
    have "?m\<lparr>pb := cut_tots (pb ?m) us k\<rparr> = m\<lparr>pb := cut_tots (pb m) (x # us) k\<rparr>"
      using cut_tots_Cons [of x us "pb m" b k] xu(1) b(2) by (simp add: put_pb_def del: fun_upd_apply)
    moreover have "realloc_loop p n k m = realloc_loop (pb_next b) (n - pb_len b) k ?m"
      using True b by (subst realloc_loop.simps) simp
    ultimately show ?thesis using IH b(2) u xu
      by (intro exI [of _ "x # us"] exI [of _ q] exI [of _ vs] exI [of _ c]) auto
  qed
qed simp

text \<open>A block that is not the last one of the heap can be trimmed.\<close>

definition inner_block :: "mheap \<Rightarrow> nat \<Rightarrow> bool" where
  "inner_block h c \<longleftrightarrow> (\<exists>b. ram h (c - 8) = Some b \<and> mem_next b \<noteq> MEM_SIZE_ALIGNED)"

lemma trim_ram_inv:
  assumes inv: "pm_inv L m" and b: "pb m q = Some b" "payload b = Some (Own q, off)" "in_buf m (payload b) (unat (pb_len b))"
    and r: "unat rem \<le> unat (pb_len b)" and t: "\<And>c. q = Heap c \<Longrightarrow> inner_block (hp m) c"
  shows "\<exists>m2 L2. trim_ram q b rem m = Some m2 \<and> pm_inv L2 m2 \<and> pb m2 = pb m \<and>
    (\<forall>bf. bf \<noteq> Own q \<longrightarrow> dat m2 bf = dat m bf) \<and> in_buf m2 (payload b) (unat rem) \<and>
    bytes_at m2 (payload b) (unat rem) = take (unat rem) (pay m q)"
proof (cases "type_internal b AND 0x0F = 0 \<and> rem \<noteq> pb_len b \<and> pb_flags b AND PBUF_FLAG_IS_CUSTOM = 0")
  case False
  then have "trim_ram q b rem m = Some m" by (auto simp: trim_ram_def)
  moreover have "in_buf m (payload b) (unat rem)" using b(3) r by (auto simp: in_buf_def split: option.splits)
  ultimately show ?thesis using inv b r
    by (intro exI [of _ m] exI [of _ L]) (auto simp: bytes_at_def pay_def min_def)
next
  case True
  have "unat rem \<noteq> unat (pb_len b)" using True by (simp add: word_unat_eq_iff)
  then have r0: "0 \<le> off" and len: "nat off + unat (pb_len b) \<le> length (dat m (Own q))"
    using b(2,3) r by (auto simp: in_buf_def)
  obtain c where c: "q = Heap c"
    using True pm_invD(1) [OF inv b(1)] by (cases q) (auto simp: label_ok_def)
  obtain S P Q where L: "L = (S, P, Q)" by (cases L)
  obtain k where k: "S c = Some k" "24 + length (dat m (Own q)) \<le> k" using pm_invD(2) [OF inv b(1)] c L by auto
  have hb: "heap_blocks (hp m) S" using inv L by (simp add: pm_inv_def)
  define ns where "ns = 24 + nat off + unat rem"
  have kb: "k \<le> 10240" using heap_blocks_size(2) [OF hb k(1)] by simp
  have ns24: "24 \<le> ns" by (simp add: ns_def)
  have ns: "ns \<le> k" "ns < 65536" using k(2) kb len r by (auto simp: ns_def)
  have "trim_safe (hp m) c ns" using t [OF c] by (auto simp: inner_block_def trim_safe_def)
  from heap_blocks_trim [OF hb k(1) ns(1) this] obtain h' q' where
    h': "mem_trim c ns (hp m) = Some (Some c, h')" "heap_blocks h' (S(c \<mapsto> q'))" "ns \<le> q'" by blast
  let ?d = "(dat m)(Own q := take (ns - 24) (dat m (Own q)))"
  let ?m2 = "m\<lparr>hp := h', dat := ?d\<rparr>"
  have "trim_ram q b rem m = Some ?m2"
    using True b(2) c r0 h'(1) ns(2) by (simp add: trim_ram_def Let_def ns_def)
  moreover have "pm_inv (S(c \<mapsto> q'), P, Q) ?m2"
    unfolding pm_inv_def
  proof (intro conjI allI impI)
    show "alloc_inv (S(c \<mapsto> q'), P, Q) ?m2" using inv L h'(2) c by (auto simp: pm_inv_def simp del: memp_num.simps)
    fix z bz assume z: "pb ?m2 z = Some bz"
    then show "label_ok z bz" using pm_invD(1) [OF inv, of z bz] by simp
    have "held (S, P, Q) m z" using z pm_invD(2) [OF inv, of z bz] L by simp
    then show "held (S(c \<mapsto> q'), P, Q) ?m2 z" using c ns h'(3) ns24 by (cases z) auto
  qed
  moreover have "in_buf ?m2 (payload b) (unat rem)" using b(2) r r0 len by (simp add: in_buf_def ns_def)
  moreover have "bytes_at ?m2 (payload b) (unat rem) = take (unat rem) (pay m q)"
    using b(1,2) r by (simp add: bytes_at_def pay_def ns_def drop_take min_def)
  ultimately show ?thesis by (intro exI [of _ ?m2] exI [of _ "(S(c \<mapsto> q'), P, Q)"]) auto
qed

lemma own_packet_split:
  assumes "own_packet m p (us @ q # vs)"
  shows "path (pb m) p us (Some q)" "tots_with (pb m) us (lens (pb m) (q # vs))" "data_ok m us" "refs_pos (pb m) us"
    "list_all (\<lambda>x. buf_at m x = [Own x]) us" "own_packet m (Some q) (q # vs)" "distinct (us @ q # vs)"
  using assms chain_distinct [of "pb m" p "us @ q # vs"]
  by (auto simp: own_packet_def path_append refs_pos_def tots_with_append simp flip: tots_with_0)

text \<open>What the first part of the packet looks like when the structures agree but for the totals.\<close>

lemma realloc_join:
  assumes o: "own_packet m p (us @ q # vs)" and k: "unat k \<le> lens (pb m) (q # vs)"
    and h: "\<And>z. z \<in> set us \<Longrightarrow> pb m' z = cut_tots (pb m) us k z" "\<And>z. z \<in> set us \<Longrightarrow> dat m' (Own z) = dat m (Own z)"
    and q: "pb m q = Some b" "pb m' q = Some b'" "pb_next b' = None" "tot_len b' = pb_len b'" "0 < pb_ref b'" "payload b' = payload b"
      "unat (pb_len b') = lens (pb m) (q # vs) - unat k" "in_buf m' (payload b) (unat (pb_len b'))"
  shows "own_packet m' p (us @ [q])" "content m' us = content m us"
proof -
  note s = own_packet_split [OF o]
  let ?m = "m\<lparr>pb := cut_tots (pb m) us k\<rparr>"
  note c = same_cells_mem [where m = m and h = "cut_tots (pb m) us k", OF cut_tots_same]
  have bu: "bufs m us = map Own us" by (rule own_bufs [OF s(5)])
  have "buf_at ?m z = buf_at m z" for z by (rule c(2))
  then have bu': "bufs ?m us = map Own us" using bu by (simp add: bufs_def cong: map_cong)
  have pb': "pb m' z = pb ?m z" if "z \<in> set us" for z using h(1) [OF that] by simp
  have dat': "dat m' bf = dat ?m bf" if "bf \<in> set (bufs ?m us)" for bf using that h(2) bu' by auto
  note f = packet_frame [OF pb' dat']
  show ct: "content m' us = content m us" using f(1) same_cells_content [where m = m and h = "cut_tots (pb m) us k", OF cut_tots_same] by simp
  have "path (pb m') p us (Some q) = path (pb m) p us (Some q)"
    by (rule path_next_cong) (use pb' in \<open>auto simp: cut_tots_def option.map_comp comp_def\<close>)
  then have "chain (pb m') p (us @ [q])" using s(1) q(2,3) by (auto simp: path_append)
  moreover have "tots_with (pb m') us (unat (pb_len b'))"
  proof -
    have "tots_with (cut_tots (pb m) us k) us (unat (pb_len b'))" unfolding q(7) by (rule cut_tots_with [OF s(2) k])
    moreover have "tots_with (pb m') us K = tots_with (cut_tots (pb m) us k) us K" for K
      by (rule tots_with_cong) (use pb' in \<open>auto simp: len_at_def\<close>)
    ultimately show ?thesis by simp
  qed
  then have "tots (pb m') (us @ [q])" using q(2,4) by (auto simp: tots_with_append simp flip: tots_with_0)
  moreover have "data_ok m' (us @ [q])" using f(6) c(3) s(3) q(2,6,8) by simp
  moreover have "refs_pos (pb m') (us @ [q])" using f(7) c(5) s(4) q(2,5) by (auto simp: refs_pos_def)
  moreover have "list_all (\<lambda>x. buf_at m' x = [Own x]) (us @ [q])"
  proof -
    have "buf_at m' z = buf_at ?m z" if "z \<in> set us" for z using pb' [OF that] by (simp add: buf_at_def)
    moreover have "buf_at m' q = [Own q]"
      using own_packet_tl [OF s(6)] q(1,2,6) by (auto simp: buf_at_def)
    ultimately show ?thesis using s(5) c(2) by (auto simp: list_all_iff)
  qed
  ultimately show "own_packet m' p (us @ [q])" by (simp add: own_packet_def)
qed


lemma free_tail:
  assumes "pm_inv L m" "chain (pb m) q vs" "refs_pos (pb m) vs"
  shows "\<exists>m' L'. (if q \<noteq> None then do { (_, m') \<leftarrow> pbuf_free q m; Some m' } else Some m) = Some m' \<and> pm_inv L' m' \<and>
    (\<forall>z. z \<notin> set vs \<longrightarrow> pb m' z = pb m z \<and> dat m' (Own z) = dat m (Own z))"
proof (cases q)
  case None
  then show ?thesis using assms(1) by (intro exI [of _ m] exI [of _ L]) simp
next
  case (Some v)
  then obtain k m' where m': "pbuf_free (Some v) m = Some (k, m')" "pb m' = unref (pb m) vs" "\<exists>L'. pm_inv L' m'"
    "\<forall>bf. bf \<notin> heap_bufs (take (nfree (pb m) vs) vs) \<longrightarrow> dat m' bf = dat m bf"
    using pbuf_free_chain [OF assms(1) _ assms(3), of v] assms(2) by blast
  have "dat m' (Own z) = dat m (Own z)" if "z \<notin> set vs" for z
  proof -
    have "Own z \<notin> heap_bufs (take (nfree (pb m) vs) vs)" using that by (auto simp: heap_bufs_def dest: in_set_takeD)
    then show ?thesis using m'(4) by blast
  qed
  then show ?thesis using Some m'(1,2) m'(3) unref_other [of _ vs "pb m"] by auto
qed

lemma realloc_cut:
  assumes inv: "pm_inv L m" and o: "own_packet m p (us @ q # vs)" and q: "pb m q = Some b" "unat rem \<le> unat (pb_len b)"
    and t: "\<And>c. q = Heap c \<Longrightarrow> inner_block (hp m) c" and m1: "m1 = m\<lparr>pb := cut_tots (pb m) us k\<rparr>"
  shows "\<exists>m2 m3 L3. pb m1 q = Some b \<and> trim_ram q b rem m1 = Some m2 \<and> m3 = put_pb q (b\<lparr>pb_len := rem, tot_len := rem\<rparr>) m2 \<and>
    pm_inv L3 m3 \<and> own_packet m3 (pb_next b) vs \<and> in_buf m3 (payload b) (unat rem) \<and>
    bytes_at m3 (payload b) (unat rem) = take (unat rem) (pay m q) \<and>
    (\<forall>z \<in> set us. pb m3 z = cut_tots (pb m) us k z \<and> dat m3 (Own z) = dat m (Own z))"
proof -
  note s = own_packet_split [OF o]
  obtain off where b: "own_packet m (pb_next b) vs" "q \<notin> set vs" "in_buf m (payload b) (unat (pb_len b))"
    "payload b = Some (Own q, off)" using own_packet_tl [OF s(6)] q(1) by auto
  have qu: "q \<notin> set us" "set us \<inter> set vs = {}" using s(7) by auto
  have m1': "pb m1 q = Some b" "dat m1 = dat m" "hp m1 = hp m" "pm_inv L m1" "pay m1 q = pay m q"
    using qu q(1) inv same_cells_mem [where m = m and h = "cut_tots (pb m) us k", OF cut_tots_same]
    by (auto simp: m1 cut_tots_def)
  have ib: "in_buf m1 (payload b) (unat (pb_len b))" using b(3,4) m1'(2) by (simp add: in_buf_def)
  have tq: "inner_block (hp m1) c" if "q = Heap c" for c using t that m1'(3) by auto
  obtain m2 L2 where m2: "trim_ram q b rem m1 = Some m2" "pm_inv L2 m2" "pb m2 = pb m1"
    "\<forall>bf. bf \<noteq> Own q \<longrightarrow> dat m2 bf = dat m1 bf" "in_buf m2 (payload b) (unat rem)"
    "bytes_at m2 (payload b) (unat rem) = take (unat rem) (pay m q)"
    using trim_ram_inv [OF m1'(4,1) b(4) ib q(2) tq] m1'(5) by auto
  let ?b3 = "b\<lparr>pb_len := rem, tot_len := rem\<rparr>"
  let ?m3 = "put_pb q ?b3 m2"
  have "label_ok q ?b3" using pm_invD(1) [OF inv q(1)] by simp
  then have "pm_inv L2 ?m3" using pm_inv_put [OF m2(2)] m2(3) m1'(1) by simp
  moreover have "pb ?m3 z = pb m z" "dat ?m3 (Own z) = dat m (Own z)" if "z \<in> set vs" for z
    using that qu b(2) m2(3,4) m1'(2) by (auto simp: m1 cut_tots_def)
  then have "own_packet ?m3 (pb_next b) vs" using own_packet_frame [OF _ _ b(1)] by blast
  moreover have "in_buf ?m3 (payload b) (unat rem)" "bytes_at ?m3 (payload b) (unat rem) = take (unat rem) (pay m q)"
    using m2(5,6) b(4) by (simp_all add: in_buf_def bytes_at_def)
  moreover have "\<forall>z \<in> set us. pb ?m3 z = cut_tots (pb m) us k z \<and> dat ?m3 (Own z) = dat m (Own z)"
    using qu m2(3,4) m1'(2) by (auto simp: m1)
  ultimately show ?thesis using m1'(1) m2(1) by blast
qed

lemma realloc_packet:
  assumes inv: "pm_inv L m" and o: "own_packet m (Some x) xs" and n: "unat n < lens (pb m) xs"
    and t: "\<And>c. Heap c \<in> set xs \<Longrightarrow> inner_block (hp m) c"
  shows "\<exists>m' us q vs L'. pbuf_realloc (Some x) n m = Some m' \<and> xs = us @ q # vs \<and> own_packet m' (Some x) (us @ [q]) \<and>
    content m' (us @ [q]) = take (unat n) (content m xs) \<and> pm_inv L' m'"
proof -
  obtain b0 where b0: "pb m x = Some b0" "unat (tot_len b0) = lens (pb m) xs"
    using o chain_Some [of "pb m" x xs] by (auto simp: own_packet_def)
  define k where "k = tot_len b0 - n"
  have nl: "\<not> n \<ge> tot_len b0" using n b0(2) by (simp add: word_le_nat_alt)
  have k: "unat k = lens (pb m) xs - unat n" using n b0(2) by (simp add: k_def unat_sub word_le_nat_alt)
  obtain us q vs b where l: "xs = us @ q # vs" "pb m q = Some b" "lens (pb m) us \<le> unat n"
    "unat n - lens (pb m) us \<le> unat (pb_len b)"
    "realloc_loop (Some x) n k m = Some (q, of_nat (unat n - lens (pb m) us), m\<lparr>pb := cut_tots (pb m) us k\<rparr>)"
    using realloc_loop_chain [of m "Some x" xs n k] o n by (auto simp: own_packet_def)
  define rem where "rem = (of_nat (unat n - lens (pb m) us) :: u16)"
  have rem: "unat rem = unat n - lens (pb m) us"
    unfolding rem_def using unat16_less [of n] by (intro unat_of_nat_small) simp
  note s = own_packet_split [OF o [unfolded l(1)]]
  obtain off where q: "q \<notin> set vs" "in_buf m (payload b) (unat (pb_len b))" "0 < pb_ref b" "payload b = Some (Own q, off)"
    using own_packet_tl [OF s(6)] l(2) by auto
  let ?b3 = "b\<lparr>pb_len := rem, tot_len := rem\<rparr>"
  define m1 where "m1 = m\<lparr>pb := cut_tots (pb m) us k\<rparr>"
  have "\<And>c. q = Heap c \<Longrightarrow> inner_block (hp m) c" "unat rem \<le> unat (pb_len b)" using t l(1,4) rem by auto
  from realloc_cut [OF inv o [unfolded l(1)] l(2) this(2,1) m1_def] obtain m2 m3 L3 where
    m3: "pb m1 q = Some b" "trim_ram q b rem m1 = Some m2" "m3 = put_pb q ?b3 m2" "pm_inv L3 m3" "own_packet m3 (pb_next b) vs"
      "in_buf m3 (payload b) (unat rem)" "bytes_at m3 (payload b) (unat rem) = take (unat rem) (pay m q)"
      "\<forall>z \<in> set us. pb m3 z = cut_tots (pb m) us k z \<and> dat m3 (Own z) = dat m (Own z)" by metis
  have "chain (pb m3) (pb_next b) vs" "refs_pos (pb m3) vs" using m3(5) by (simp_all add: own_packet_def)
  from free_tail [OF m3(4) this] obtain m4 L4 where
    m4: "(if pb_next b \<noteq> None then do { (_, m') \<leftarrow> pbuf_free (pb_next b) m3; Some m' } else Some m3) = Some m4"
    "pm_inv L4 m4" "\<forall>z. z \<notin> set vs \<longrightarrow> pb m4 z = pb m3 z \<and> dat m4 (Own z) = dat m3 (Own z)" by blast
  have q4: "pb m4 q = Some ?b3" using m4(3) q(1) m3(3) by simp
  define m5 where "m5 = put_pb q (?b3\<lparr>pb_next := None\<rparr>) m4"
  have "set_next (Some q) None m4 = Some m5" using q4 by (simp add: set_next_def m5_def)
  then have r: "pbuf_realloc (Some x) n m = Some m5"
    unfolding pbuf_realloc_def using b0(1) nl l(5) m3(1,2) m4(1)
    by (simp only: option.case bind.bind_lunit if_False Let_def k_def [symmetric] rem_def [symmetric] m1_def [symmetric]
      m3(3) [symmetric] prod.case)
  have "pb m5 z = cut_tots (pb m) us k z" "dat m5 (Own z) = dat m (Own z)" if "z \<in> set us" for z
    using that m3(8) m4(3) s(7) by (auto simp: m5_def)
  note us = this
  have kl: "unat k \<le> lens (pb m) (q # vs)" "lens (pb m) (q # vs) - unat k = unat rem" using k l(1,3) rem n by auto
  have d5: "dat m5 (Own q) = dat m3 (Own q)" using m4(3) q(1) by (simp add: m5_def)
  have i5: "in_buf m5 (payload b) (unat rem)" using m3(6) d5 q(4) by (simp add: in_buf_def)
  have "pb m5 q = Some (?b3\<lparr>pb_next := None\<rparr>)" by (simp add: m5_def)
  from realloc_join [OF o [unfolded l(1)] kl(1) us l(2) this] kl(2) i5 q(3)
  have j: "own_packet m5 (Some x) (us @ [q])" "content m5 us = content m us" by auto
  have "pay m5 q = take (unat rem) (pay m q)"
    using m3(7) d5 q(4) by (simp add: m5_def pay_def bytes_at_def)
  moreover have "length (content m us) = lens (pb m) us" using s(3) by (rule length_content)
  moreover have "length (pay m q) = unat (pb_len b)" by (rule length_pay [OF l(2) q(2)])
  ultimately have "content m5 (us @ [q]) = take (unat n) (content m xs)" using j(2) l(1,3,4) rem by simp
  moreover have "label_ok q (?b3\<lparr>pb_next := None\<rparr>)" using pm_invD(1) [OF inv l(2)] by simp
  then have "pm_inv L4 m5" unfolding m5_def by (rule pm_inv_put [OF m4(2) q4])
  ultimately show ?thesis using r j(1) l(1) by blast
qed


subsection \<open>A concrete packet in the heap\<close>

lemma new_packet_own: "new_packet m m' x xs n \<Longrightarrow> own_packet m' (Some x) xs"
  by (auto simp: own_packet_def new_packet_def fresh_ok_def list_all_iff data_ok_def in_buf_def buf_at_def refs_pos_def
      split: option.splits)

lemma ram_packet_single:
  assumes "pbuf_alloc l n PBUF_RAM m = Some (Some x, m1)" "new_packet m m1 x xs k"
  shows "xs = [x]"
  using assms(2) alloc_ram_single [OF assms(1)] chain_Some by (fastforce simp: new_packet_def)

text \<open>A pbuf that can be sent: its payload lies in the memory behind it, even when it is empty, and its reference count has room.\<close>

definition sendable :: "pmem \<Rightarrow> ptr \<Rightarrow> bool" where
  "sendable m x \<longleftrightarrow> (\<exists>b off. pb m x = Some b \<and> pb_ref b < 255 \<and> payload b = Some (Own x, off) \<and> 0 \<le> off \<and>
     nat off + unat (pb_len b) \<le> length (dat m (Own x)))"

lemma new_sendable:
  assumes "new_packet m m1 x (x # xs) n" "writes B m1 m2"
  shows "sendable m2 x"
  using assms by (auto simp: new_packet_def fresh_ok_def sendable_def writes_def split: option.splits)

lemma take_new:
  assumes n: "new_packet m m1 x [x] (length bs)" and inv: "pm_inv L m1" and l: "length bs < 65536" "length bs \<le> length src" "take (length bs) src = bs"
  shows "\<exists>m2. pbuf_take (Some x) (Some src) (of_nat (length bs)) m1 = Some (ERR_OK, m2) \<and> content m2 [x] = bs \<and>
    own_packet m2 (Some x) [x] \<and> sendable m2 x \<and> pm_inv L m2"
proof -
  have own: "own_packet m1 (Some x) [x]" using new_packet_own [OF n] .
  then have c: "chain (pb m1) (Some x) [x]" "data_ok m1 [x]" "tots (pb m1) [x]" "distinct (bufs m1 [x])" "bufs m1 [x] = [Own x]"
    unfolding own_packet_def by auto
  have u: "unat (of_nat (length bs) :: u16) = length bs" using l(1) by (simp add: unat_of_nat_small)
  have le: "lens (pb m1) [x] = length bs" using n by (simp add: new_packet_def)
  obtain m2 where m2: "pbuf_take (Some x) (Some src) (of_nat (length bs)) m1 = Some (ERR_OK, m2)" "writes {Own x} m1 m2"
    "content m2 [x] = overwrite 0 bs (content m1 [x])"
    using take_chain [OF c(1-4), of "of_nat (length bs)" src] l(2,3) u le c(5) by auto
  have "content m2 [x] = bs" using m2(3) length_content [OF c(2)] le by (simp add: overwrite_all)
  moreover have "own_packet m2 (Some x) [x]" using own writes_sel(1) [OF m2(2)] writes_data_ok [OF m2(2), of "[x]"]
    by (simp add: own_packet_def buf_at_def)
  ultimately show ?thesis using m2(1) writes_pm_inv [OF m2(2)] new_sendable [OF n m2(2)] inv by auto
qed

lemma start_own:
  "\<exists>m L. pm_inv L m \<and> own_packet m (Some (Heap 8)) [Heap 8] \<and> lens (pb m) [Heap 8] = 20 \<and> inner_block (hp m) 8"
proof -
  obtain m where a: "pbuf_alloc PBUF_RAW 20 PBUF_RAM start_mem = Some (Some (Heap 8), m)" using start_alloc by blast
  obtain xs L where n: "new_packet start_mem m (Heap 8) xs 20" "pm_inv L m"
    using pbuf_alloc_spec [OF start_inv, of PBUF_RAM PBUF_RAW 20] a by auto
  have xs: "xs = [Heap 8]" using ram_packet_single [OF a n(1)] .
  have "alloc_spec 44 [(0, 10240, False)] = (Some 8, [(0, 52, True), (52, 10188, False)])"
    by (simp add: alloc_spec_def norm_size_def align_size_def)
  then obtain h where h: "mem_malloc 44 fresh_heap = Some (Some 8, h)" "heap_rep h [(0, 52, True), (52, 10188, False)]"
    using mem_malloc_rep [OF fresh_heap_rep, of 44] by auto
  then have "hp m = h" using a
    by (auto simp: pbuf_alloc_def start_mem_def align_size_def pbuf_init_alloced_pbuf_def Let_def)
  then have "inner_block (hp m) 8" using h(2) by (auto simp: inner_block_def heap_rep_def)
  moreover have "lens (pb m) [Heap 8] = 20" using n(1) xs by (simp only: new_packet_def)
  ultimately show ?thesis using new_packet_own [OF n(1)] n(2) xs by blast
qed

subsection \<open>Properties\<close>

text \<open>
  \<open>pbuf_cat\<close> concatenates two packets: it returns, the structures of the first followed by
  those of the second form one chain with right totals, its content is the concatenation, and
  nothing but the links and totals of the first packet has changed.
\<close>

lemma pbuf_cat_correct:
  assumes "chain (pb m) (Some x) xs" "tots (pb m) xs" "chain (pb m) (Some y) ys" "tots (pb m) ys"
    and "set xs \<inter> set ys = {}" "lens (pb m) xs + lens (pb m) ys < 65536"
  shows "\<exists>h. pbuf_cat (Some x) (Some y) m = Some (m\<lparr>pb := h\<rparr>) \<and> same_cells (pb m) h \<and>
    chain h (Some x) (xs @ ys) \<and> tots h (xs @ ys) \<and> (\<forall>z. z \<notin> set xs \<longrightarrow> h z = pb m z) \<and>
    content (m\<lparr>pb := h\<rparr>) (xs @ ys) = content m xs @ content m ys"
  using cat_chain [OF assms] same_cells_content [of m _ "xs @ ys"] by auto

definition apart_mem :: pmem where
  "apart_mem = two_mem\<lparr>pb := (pb two_mem)(Pool_elem 0 \<mapsto> part None (Pool_elem 0) 2 3 3)\<rparr>"

lemma apart_mem_ok:
  "chain (pb apart_mem) (Some (Pool_elem 0)) [Pool_elem 0]" "tots (pb apart_mem) [Pool_elem 0]"
  "chain (pb apart_mem) (Some (Pool_elem 1)) [Pool_elem 1]" "tots (pb apart_mem) [Pool_elem 1]"
  "lens (pb apart_mem) [Pool_elem 0] = 3" "lens (pb apart_mem) [Pool_elem 1] = 2"
  "content apart_mem [Pool_elem 0] = [10, 20, 30]" "content apart_mem [Pool_elem 1] = [20, 40]"
  by (simp_all add: apart_mem_def two_mem_def part_def pay_def bytes_at_def len_at_def)

text \<open>
  \<open>pbuf_chain\<close> and \<open>pbuf_dechain\<close> are inverse: chaining a packet behind a single structure
  gives the concatenation with one more reference to the tail; dechaining returns the tail and
  restores the memory exactly, reference counts included.
\<close>

lemma pbuf_chain_dechain_roundtrip:
  assumes "pb m x = Some b" "pb_next b = None" "tot_len b = pb_len b"
    and "chain (pb m) (Some y) ys" "tots (pb m) ys" "x \<notin> set ys" "pb m y = Some c" "0 < pb_ref c" "pb_ref c < 255"
    and "unat (pb_len b) + lens (pb m) ys < 65536"
  shows "\<exists>m1. pbuf_chain (Some x) (Some y) m = Some m1 \<and> chain (pb m1) (Some x) (x # ys) \<and> tots (pb m1) (x # ys) \<and>
    content m1 (x # ys) = pay m x @ content m ys \<and> pbuf_dechain (Some x) m1 = Some (Some y, m)"
  using assms by (rule chain_dechain)

text \<open>
  \<open>pbuf_realloc\<close> shrinks a packet to a prefix: it returns, keeps the structures up to the one
  in which the new length falls, frees the others, gives the cut-off part of a heap structure back
  to the heap, and the content is the first \<open>new_len\<close> bytes of the old content. The hypothesis on
  heap structures excludes the last block of the heap (\<open>mem_trim\<close> stops the program on it).
\<close>

lemma pbuf_realloc_correct:
  assumes "pm_inv L m" "own_packet m (Some x) xs" "unat n < lens (pb m) xs"
    and "\<And>c. Heap c \<in> set xs \<Longrightarrow> inner_block (hp m) c"
  shows "\<exists>m' us q vs L'. pbuf_realloc (Some x) n m = Some m' \<and> xs = us @ q # vs \<and> own_packet m' (Some x) (us @ [q]) \<and>
    content m' (us @ [q]) = take (unat n) (content m xs) \<and> pm_inv L' m'"
  using assms by (rule realloc_packet)

text \<open>
  Headers. If the structure has room in front of its payload, \<open>pbuf_add_header\<close> succeeds, the
  old payload follows the new header, and \<open>pbuf_remove_header\<close> of the same size restores the
  memory.
\<close>

lemma pbuf_header_roundtrip:
  assumes "pb m x = Some b" "type_internal b AND 0x80 \<noteq> 0" "payload b = Some (Own x, off)" "0 \<le> off"
    and "int n \<le> off" "unat (tot_len b) + n < 65536" "pb_len b \<le> tot_len b"
  shows "\<exists>m1. pbuf_add_header (Some x) n m = Some (False, m1) \<and> pbuf_remove_header (Some x) n m1 = Some (False, m) \<and>
    len_at (pb m1) x = len_at (pb m) x + n \<and>
    (in_buf m (payload b) (unat (pb_len b)) \<longrightarrow> drop n (pay m1 x) = pay m x)"
  using assms by (rule add_header_own)

end
