(* ===== verification/Tapif.thy ===== *)
theory Tapif
  imports Pkt_List Pbuf_Chain
begin

text \<open>
  The TAP network interface, \<^verbatim>\<open>lwip-port/netif/tapif.c\<close>: packets of the stack are copied out of
  their pbufs into the output list and written to the device by one thread; another thread reads
  frames from the device into the input list, and a FreeRTOS task turns them into pbufs for the
  stack. The device is the sequence of the calls of \<^verbatim>\<open>write\<close>; what \<^verbatim>\<open>open\<close>, \<^verbatim>\<open>ioctl\<close>, \<^verbatim>\<open>read\<close> and
  \<^verbatim>\<open>malloc\<close> return are arguments, and the function \<^verbatim>\<open>netif->input\<close> is a parameter. A call of
  \<^verbatim>\<open>exit(1)\<close> is \<open>None\<close>. The operations are the steps of \<open>tap_step\<close>: the lists are not locked by
  the code, so the steps are whole operations, in any order.
\<close>

abbreviation MAX_PACKET_LENGTH :: nat where "MAX_PACKET_LENGTH \<equiv> 1518"
abbreviation SIZEOF_STRUCT_TAPIF :: nat where "SIZEOF_STRUCT_TAPIF \<equiv> 56"

record packet =
  pk_data :: bytes
  pk_dataLength :: nat

record tap_state =
  tap_fd :: int
  inList :: "nat list_t"
  outList :: "nat list_t"
  out_signals :: nat
  threads :: "string list"
  packets :: "packet cheap"
  wire :: "bytes list"
  lwip :: pmem

record netif =
  nif_name :: string
  nif_mtu :: u16
  hwaddr :: bytes
  hwaddr_len :: u8
  nif_flags :: u8

subsection \<open>Set-up\<close>

definition netif_set_link_up :: "netif \<Rightarrow> netif" where
  "netif_set_link_up n = (if nif_flags n AND 0x04 = 0 then n\<lparr>nif_flags := nif_flags n OR 0x04\<rparr> else n)"

definition low_level_init :: "int \<Rightarrow> int \<Rightarrow> bool \<Rightarrow> bool \<Rightarrow> bool \<Rightarrow> netif \<Rightarrow> tap_state \<Rightarrow> (netif \<times> tap_state) option" where
  "low_level_init fd ioctl ok1 ok2 task n s = do {
     let n1 = n\<lparr>hwaddr := [0x02, 0x12, 0x34, 0x56, 0x78, 0xab], hwaddr_len := 6, nif_flags := 0x02 OR 0x08 OR 0x20\<rparr>;
     require (fd \<noteq> -1);
     require (ioctl \<ge> 0);
     il \<leftarrow> list_new ok1 42;
     ol \<leftarrow> list_new ok2 42;
     Some (netif_set_link_up n1,
       s\<lparr>tap_fd := fd, inList := il, outList := ol, out_signals := 0,
         threads := [''tapif_in_thread'', ''tapif_out_thread''] @ (if task then [''freertos_thread''] else [])\<rparr>) }"

definition tapif_init :: "int \<Rightarrow> int \<Rightarrow> bool \<Rightarrow> bool \<Rightarrow> bool \<Rightarrow> netif \<Rightarrow> tap_state \<Rightarrow> (err_t \<times> netif \<times> tap_state) option" where
  "tapif_init fd ioctl ok1 ok2 task n s = do {
     (a, h) \<leftarrow> mem_malloc SIZEOF_STRUCT_TAPIF (hp (lwip s));
     let s1 = s\<lparr>lwip := (lwip s)\<lparr>hp := h\<rparr>\<rparr>;
     if a = None then Some (ERR_MEM, n, s1)
     else do {
       (n1, s2) \<leftarrow> low_level_init fd ioctl ok1 ok2 task (n\<lparr>nif_name := ''tp'', nif_mtu := 1500\<rparr>) s1;
       Some (ERR_OK, n1, s2) } }"

subsection \<open>Output\<close>

partial_function (option) output_copy :: "ptr option \<Rightarrow> nat \<Rightarrow> bytes \<Rightarrow> pmem \<Rightarrow> bytes option" where
  "output_copy p i dst m = (case p of
     None \<Rightarrow> Some dst
   | Some x \<Rightarrow> do {
       b \<leftarrow> pb m x;
       bs \<leftarrow> rd m (payload b) (unat (pb_len b));
       dst' \<leftarrow> put_bytes dst i bs;
       output_copy (pb_next b) (i + unat (pb_len b)) dst' m })"

text \<open>
  \<open>ok1\<close> and \<open>ok2\<close> are the results of the two calls of \<^verbatim>\<open>malloc\<close>, \<open>mem\<close> is what the packet object
  contains when it is obtained. The length test comes after the first one.
\<close>

definition low_level_output :: "bool \<Rightarrow> bytes \<Rightarrow> bool \<Rightarrow> ptr option \<Rightarrow> tap_state \<Rightarrow> (err_t \<times> tap_state) option" where
  "low_level_output ok1 mem ok2 p s = do {
     let (a, h) = c_malloc \<lparr>pk_data = mem, pk_dataLength = 0\<rparr> (packets s);
     let s1 = (if ok1 then s\<lparr>packets := h\<rparr> else s);
     b \<leftarrow> deref p (lwip s1);
     if unat (tot_len b) > MAX_PACKET_LENGTH then Some (ERR_MEM, s1)
     else do {
       require ok1;
       d \<leftarrow> output_copy p 0 mem (lwip s1);
       h1 \<leftarrow> c_store a \<lparr>pk_data = d, pk_dataLength = unat (tot_len b)\<rparr> h;
       (pushed, ol) \<leftarrow> list_push ok2 a (outList s1);
       if \<not> pushed
       then do { h2 \<leftarrow> c_free a h1; Some (ERR_MEM, s1\<lparr>packets := h2, outList := ol\<rparr>) }
       else Some (ERR_OK, s1\<lparr>packets := h1, outList := ol, out_signals := out_signals s1 + 1\<rparr>) } }"

definition try_send_packet :: "tap_state \<Rightarrow> (bool \<times> tap_state) option" where
  "try_send_packet s = do {
     (r, ol) \<leftarrow> list_pop (outList s);
     case r of
       None \<Rightarrow> Some (False, s\<lparr>outList := ol\<rparr>)
     | Some a \<Rightarrow> do {
         p \<leftarrow> cells (packets s) a;
         h \<leftarrow> c_free a (packets s);
         Some (True, s\<lparr>outList := ol, wire := wire s @ [take (pk_dataLength p) (pk_data p)], packets := h\<rparr>) } }"

text \<open>One wake-up of the output thread: it sends until the list is empty.\<close>

partial_function (option) tapif_out_drain :: "tap_state \<Rightarrow> tap_state option" where
  "tapif_out_drain s = do {
     (ok, s1) \<leftarrow> try_send_packet s;
     if ok then tapif_out_drain s1 else Some s1 }"

subsection \<open>Input\<close>

text \<open>\<open>frame\<close> is what \<^verbatim>\<open>read\<close> stores, \<open>None\<close> a negative result; it stores at most \<open>MAX_PACKET_LENGTH\<close> bytes.\<close>

definition low_level_input :: "bool \<Rightarrow> bytes \<Rightarrow> bytes option \<Rightarrow> tap_state \<Rightarrow> (nat option \<times> tap_state) option" where
  "low_level_input ok mem frame s =
     (if \<not> ok then Some (None, s)
      else do {
        bs \<leftarrow> frame;
        d \<leftarrow> put_bytes mem 0 bs;
        let (a, h) = c_malloc \<lparr>pk_data = d, pk_dataLength = length bs\<rparr> (packets s);
        Some (Some a, s\<lparr>packets := h\<rparr>) })"

definition tapif_input :: "bool \<Rightarrow> bytes \<Rightarrow> bool \<Rightarrow> bytes option \<Rightarrow> tap_state \<Rightarrow> tap_state option" where
  "tapif_input ok1 mem ok2 frame s = do {
     (p, s1) \<leftarrow> low_level_input ok1 mem frame s;
     case p of
       None \<Rightarrow> Some s1
     | Some a \<Rightarrow> do {
         (pushed, il) \<leftarrow> list_push ok2 a (inList s1);
         if \<not> pushed
         then do { h \<leftarrow> c_free a (packets s1); Some (s1\<lparr>packets := h, inList := il\<rparr>) }
         else Some (s1\<lparr>inList := il\<rparr>) } }"

text \<open>
  One turn of the FreeRTOS task in two parts: \<open>rx_prepare\<close> pops a packet, copies it to a pbuf and
  frees it; \<open>rx_finish\<close> calls \<^verbatim>\<open>netif->input\<close>, and frees the packet again if that fails.
\<close>

definition rx_prepare :: "tap_state \<Rightarrow> ((nat \<times> ptr option) option \<times> tap_state) option" where
  "rx_prepare s = do {
     (r, il) \<leftarrow> list_pop (inList s);
     case r of
       None \<Rightarrow> Some (None, s\<lparr>inList := il\<rparr>)
     | Some a \<Rightarrow> do {
         k \<leftarrow> cells (packets s) a;
         (p, m1) \<leftarrow> pbuf_alloc PBUF_RAW (of_nat (pk_dataLength k)) PBUF_RAM (lwip s);
         (e, m2) \<leftarrow> pbuf_take p (Some (pk_data k)) (of_nat (pk_dataLength k)) m1;
         h \<leftarrow> c_free a (packets s);
         Some (Some (a, p), s\<lparr>inList := il, packets := h, lwip := m2\<rparr>) } }"

type_synonym input_fn = "ptr option \<Rightarrow> pmem \<Rightarrow> (err_t \<times> pmem) option"

definition rx_finish :: "input_fn \<Rightarrow> nat \<Rightarrow> ptr option \<Rightarrow> tap_state \<Rightarrow> tap_state option" where
  "rx_finish input a p s = do {
     (err, m) \<leftarrow> input p (lwip s);
     if err \<noteq> ERR_OK
     then do { h \<leftarrow> c_free a (packets s); Some (s\<lparr>lwip := m, packets := h\<rparr>) }
     else Some (s\<lparr>lwip := m\<rparr>) }"

partial_function (option) freertos_drain :: "input_fn \<Rightarrow> tap_state \<Rightarrow> tap_state option" where
  "freertos_drain input s = do {
     (r, s1) \<leftarrow> rx_prepare s;
     case r of
       None \<Rightarrow> Some s1
     | Some (a, p) \<Rightarrow> do { s2 \<leftarrow> rx_finish input a p s1; freertos_drain input s2 } }"

subsection \<open>The state between two operations\<close>

text \<open>
  \<open>tap_rep F s ins outs\<close>: the lists hold distinct live packets with the frames \<open>ins\<close> and \<open>outs\<close>,
  oldest first; \<open>F\<close> are the live packets that are in no list, which nothing will free.
\<close>

definition packet_holds :: "(nat \<Rightarrow> packet option) \<Rightarrow> nat \<Rightarrow> bytes \<Rightarrow> bool" where
  "packet_holds h a bs = (case h a of None \<Rightarrow> False
     | Some k \<Rightarrow> length (pk_data k) = MAX_PACKET_LENGTH \<and> pk_dataLength k \<le> MAX_PACKET_LENGTH \<and>
         take (pk_dataLength k) (pk_data k) = bs)"

definition tap_lists :: "nat set \<Rightarrow> tap_state \<Rightarrow> nat list \<Rightarrow> bytes list \<Rightarrow> nat list \<Rightarrow> bytes list \<Rightarrow> bool" where
  "tap_lists F s ai ins ao outs \<longleftrightarrow> list_rep (inList s) ai \<and> list_rep (outList s) ao \<and>
     list_cap (inList s) = 42 \<and> list_cap (outList s) = 42 \<and> length ai \<le> 42 \<and> length ao \<le> 42 \<and>
     list_all2 (packet_holds (cells (packets s))) ai ins \<and> list_all2 (packet_holds (cells (packets s))) ao outs \<and>
     cheap_ok (packets s) \<and> distinct (ai @ ao) \<and> F \<inter> set (ai @ ao) = {} \<and>
     {a. cells (packets s) a \<noteq> None} = set (ai @ ao) \<union> F"

definition tap_rep :: "nat set \<Rightarrow> tap_state \<Rightarrow> bytes list \<Rightarrow> bytes list \<Rightarrow> bool" where
  "tap_rep F s ins outs \<longleftrightarrow> (\<exists>ai ao. tap_lists F s ai ins ao outs)"

lemma tap_listsD:
  assumes "tap_lists F s ai ins ao outs"
  shows "list_rep (inList s) ai" "list_rep (outList s) ao" "list_cap (inList s) = 42" "list_cap (outList s) = 42"
    "length ai \<le> 42" "length ao \<le> 42"
    "list_all2 (packet_holds (cells (packets s))) ai ins" "list_all2 (packet_holds (cells (packets s))) ao outs"
    "cheap_ok (packets s)" "distinct (ai @ ao)" "F \<inter> set (ai @ ao) = {}" "{a. cells (packets s) a \<noteq> None} = set (ai @ ao) \<union> F"
  using assms by (simp_all add: tap_lists_def)

lemma holds_cong:
  "(\<And>a. a \<in> set as \<Longrightarrow> h' a = h a) \<Longrightarrow> list_all2 (packet_holds h') as bss = list_all2 (packet_holds h) as bss"
  by (rule list.rel_cong) (auto simp: packet_holds_def)

lemma tap_rep_frame:
  "tap_rep F (s\<lparr>lwip := m\<rparr>) = tap_rep F s" "tap_rep F (s\<lparr>wire := w\<rparr>) = tap_rep F s"
  "tap_rep F (s\<lparr>out_signals := n\<rparr>) = tap_rep F s"
  by (auto simp: tap_rep_def tap_lists_def fun_eq_iff)

lemma output_copy_chain:
  "chain (pb m) p xs \<Longrightarrow> data_ok m xs \<Longrightarrow> i + lens (pb m) xs \<le> length dst \<Longrightarrow>
   output_copy p i dst m = Some (overwrite i (content m xs) dst)"
proof (induction xs arbitrary: p i dst)
  case Nil
  then show ?case by (subst output_copy.simps) simp
next
  case (Cons x xs)
  obtain b where b: "p = Some x" "pb m x = Some b" "chain (pb m) (pb_next b) xs" using Cons.prems(1) by auto
  have d: "in_buf m (payload b) (unat (pb_len b))" "data_ok m xs" using Cons.prems(2) b(2) by auto
  have l: "length (pay m x) = unat (pb_len b)" using length_pay [OF b(2) d(1)] .
  have "rd m (payload b) (unat (pb_len b)) = Some (pay m x)"
    using rd_pay [OF b(2) d(1), of 0 "unat (pb_len b)"] l by (cases "payload b") (auto simp: shift_def)
  moreover have "put_bytes dst i (pay m x) = Some (overwrite i (pay m x) dst)"
    using Cons.prems(3) b(2) l by (simp add: put_bytes_def)
  ultimately have "output_copy p i dst m = output_copy (pb_next b) (i + unat (pb_len b)) (overwrite i (pay m x) dst) m"
    using b by (subst output_copy.simps) simp
  also have "\<dots> = Some (overwrite (i + unat (pb_len b)) (content m xs) (overwrite i (pay m x) dst))"
    using Cons.prems(3) b l by (intro Cons.IH d(2)) auto
  finally show ?case using overwrite_append [of i "pay m x" "content m xs" dst] Cons.prems(3) b(2) l length_content [OF d(2)] by simp
qed


lemma tap_rep_new:
  assumes "list_rep (inList s) ai" "list_rep (outList s) ao" "list_cap (inList s) = 42" "list_cap (outList s) = 42"
    "length ai \<le> 42" "length ao \<le> 42"
    "list_all2 (packet_holds (cells h)) ai ins" "list_all2 (packet_holds (cells h)) ao outs"
    "cheap_ok h" "distinct (ai @ ao)" "F \<inter> set (ai @ ao) = {}" "{a. cells h a \<noteq> None} = set (ai @ ao) \<union> F"
    "packets s = h"
  shows "tap_rep F s ins outs"
  using assms unfolding tap_rep_def tap_lists_def by blast

lemma new_packet_free:
  assumes "cheap_ok h" "{a. cells h a \<noteq> None} = A"
  shows "brk h \<notin> A" "cheap_ok \<lparr>cells = (cells h)(brk h \<mapsto> v), brk = Suc (brk h)\<rparr>"
    "cheap_ok \<lparr>cells = (cells h)(brk h := None), brk = Suc (brk h)\<rparr>" "(cells h)(brk h := None) = cells h"
  using assms by (auto simp: cheap_ok_def fun_upd_idem)

lemma packet_add:
  assumes "list_all2 (packet_holds h) as bss" "a \<notin> set as"
  shows "list_all2 (packet_holds (h(a := v))) as bss"
proof -
  have "list_all2 (packet_holds (h(a := v))) as bss = list_all2 (packet_holds h) as bss"
    by (rule holds_cong) (use assms(2) in auto)
  then show ?thesis using assms(1) by simp
qed

lemma output_fits:
  assumes r: "tap_rep F s ins outs" and c: "chain (pb (lwip s)) (Some x) xs" "tots (pb (lwip s)) xs" "data_ok (lwip s) xs"
    and l: "lens (pb (lwip s)) xs \<le> MAX_PACKET_LENGTH" "length mem = MAX_PACKET_LENGTH"
  shows "\<exists>s'. low_level_output True mem True (Some x) s = Some (if length outs < 42 then ERR_OK else ERR_MEM, s') \<and>
    tap_rep F s' ins (if length outs < 42 then outs @ [content (lwip s) xs] else outs) \<and> wire s' = wire s \<and> lwip s' = lwip s"
proof -
  obtain ai ao where "tap_lists F s ai ins ao outs" using r unfolding tap_rep_def by blast
  note t = tap_listsD [OF this]
  define a where "a = brk (packets s)"
  note new = new_packet_free [OF t(9,12), folded a_def]
  obtain ys b where b: "xs = x # ys" "pb (lwip s) x = Some b" using c(1) chain_Some by fastforce
  have tot: "unat (tot_len b) = lens (pb (lwip s)) xs" using c(2) b by simp
  define k where "k = \<lparr>pk_data = overwrite 0 (content (lwip s) xs) mem, pk_dataLength = unat (tot_len b)\<rparr>"
  have lc: "length (content (lwip s) xs) = lens (pb (lwip s)) xs" using length_content [OF c(3)] .
  have kh: "packet_holds ((cells (packets s))(a \<mapsto> k)) a (content (lwip s) xs)"
    using l lc tot by (simp add: packet_holds_def k_def overwrite_def)
  have oc: "output_copy (Some x) 0 mem (lwip s) = Some (overwrite 0 (content (lwip s) xs) mem)"
    using output_copy_chain [OF c(1,3), of 0 mem] l by simp
  obtain ol where ol: "list_push True a (outList s) = Some (length ao < 42, ol)"
    "list_rep ol (if length ao < 42 then ao @ [a] else ao)" "list_cap ol = 42"
    using list_push_rep [OF t(2), of a] t(4) by auto
  have lo: "length ao = length outs" using t(8) by (rule list_all2_lengthD)
  define h1 where "h1 = \<lparr>cells = (cells (packets s))(a \<mapsto> k), brk = Suc a\<rparr>"
  define h2 where "h2 = \<lparr>cells = (cells (packets s))(a := None), brk = Suc a\<rparr>"
  have run: "low_level_output True mem True (Some x) s =
      (if length outs < 42 then Some (ERR_OK, s\<lparr>packets := h1, outList := ol, out_signals := out_signals s + 1\<rparr>)
       else Some (ERR_MEM, s\<lparr>packets := h2, outList := ol\<rparr>))"
    using oc ol(1) b l(1) tot lo
    by (simp add: low_level_output_def c_malloc_def c_store_def c_free_def deref_def h1_def h2_def k_def Let_def flip: a_def)
  show ?thesis
  proof (cases "length outs < 42")
    case True
    have "tap_rep F (s\<lparr>packets := h1, outList := ol, out_signals := out_signals s + 1\<rparr>) ins (outs @ [content (lwip s) xs])"
      using t ol lo True new packet_add [OF t(7), of a "Some k"] packet_add [OF t(8), of a "Some k"] kh
      by (intro tap_rep_new [where ai = ai and ao = "ao @ [a]" and h = h1]) (auto simp: h1_def list_all2_appendI)
    then show ?thesis using run True by simp
  next
    case False
    have "tap_rep F (s\<lparr>packets := h2, outList := ol\<rparr>) ins outs"
      using t ol lo False new(3,4) by (intro tap_rep_new [where ai = ai and ao = ao and h = h2]) (auto simp: h2_def)
    then show ?thesis using run False by simp
  qed
qed

text \<open>A packet that is too long is refused after the object was obtained: the object is lost.\<close>

lemma output_too_long:
  assumes r: "tap_rep F s ins outs" and c: "chain (pb (lwip s)) (Some x) xs" "tots (pb (lwip s)) xs"
    and l: "MAX_PACKET_LENGTH < lens (pb (lwip s)) xs"
  shows "\<exists>s' a. low_level_output True mem ok (Some x) s = Some (ERR_MEM, s') \<and> a \<notin> F \<and> tap_rep (insert a F) s' ins outs \<and>
    wire s' = wire s \<and> lwip s' = lwip s"
proof -
  obtain ai ao where "tap_lists F s ai ins ao outs" using r unfolding tap_rep_def by blast
  note t = tap_listsD [OF this]
  define a where "a = brk (packets s)"
  define k where "k = \<lparr>pk_data = mem, pk_dataLength = 0\<rparr>"
  define h1 where "h1 = \<lparr>cells = (cells (packets s))(a \<mapsto> k), brk = Suc a\<rparr>"
  note new = new_packet_free [OF t(9,12), folded a_def]
  obtain ys b where b: "xs = x # ys" "pb (lwip s) x = Some b" using c(1) chain_Some by fastforce
  then have "low_level_output True mem ok (Some x) s = Some (ERR_MEM, s\<lparr>packets := h1\<rparr>)"
    using c(2) l by (simp add: low_level_output_def c_malloc_def deref_def h1_def k_def Let_def flip: a_def)
  moreover have "tap_rep (insert a F) (s\<lparr>packets := h1\<rparr>) ins outs"
    using t new packet_add [OF t(7), of a "Some k"] packet_add [OF t(8), of a "Some k"]
    by (intro tap_rep_new [where ai = ai and ao = ao and h = h1]) (auto simp: h1_def)
  ultimately show ?thesis using new(1) by (intro exI [of _ "s\<lparr>packets := h1\<rparr>"] exI [of _ a]) auto
qed


lemma try_send_rep:
  assumes r: "tap_rep F s ins outs"
  shows "\<exists>s'. try_send_packet s = Some (outs \<noteq> [], s') \<and> tap_rep F s' ins (tl outs) \<and>
    wire s' = wire s @ take 1 outs \<and> lwip s' = lwip s"
proof -
  obtain ai ao where "tap_lists F s ai ins ao outs" using r unfolding tap_rep_def by blast
  note t = tap_listsD [OF this]
  obtain ol where ol: "list_pop (outList s) = Some (if ao = [] then None else Some (hd ao), ol)" "list_rep ol (tl ao)" "list_cap ol = 42"
    using list_pop_rep [OF t(2)] t(4) by auto
  show ?thesis
  proof (cases ao)
    case Nil
    then have "outs = []" using t(8) by simp
    moreover have "tap_rep F (s\<lparr>outList := ol\<rparr>) ins []"
      using t ol Nil by (intro tap_rep_new [where ai = ai and ao = "[]" and h = "packets s"]) auto
    ultimately show ?thesis using ol(1) Nil by (simp add: try_send_packet_def)
  next
    case (Cons a at)
    then obtain bs ot where o: "outs = bs # ot" "packet_holds (cells (packets s)) a bs" "list_all2 (packet_holds (cells (packets s))) at ot"
      using t(8) by (auto simp: list_all2_Cons1)
    then obtain k where k: "cells (packets s) a = Some k" "take (pk_dataLength k) (pk_data k) = bs"
      by (auto simp: packet_holds_def split: option.splits)
    define h where "h = (packets s)\<lparr>cells := (cells (packets s))(a := None)\<rparr>"
    define s' where "s' = s\<lparr>outList := ol, wire := wire s @ [bs], packets := h\<rparr>"
    have "try_send_packet s = Some (True, s')"
      using ol(1) Cons k by (simp add: try_send_packet_def c_free_def s'_def h_def)
    moreover have na: "a \<notin> set ai" "a \<notin> set at" "a \<notin> F" using t(10,11) Cons by auto
    have "cheap_ok h" unfolding h_def using t(9) k(1) by (intro cheap_ok_upd) auto
    then have "tap_rep F s' ins ot"
      using t ol Cons na packet_add [OF t(7) na(1), of None] packet_add [OF o(3) na(2), of None]
      by (intro tap_rep_new [where ai = ai and ao = at and h = h]) (auto simp: s'_def h_def)
    ultimately show ?thesis using o(1) by (auto simp: s'_def)
  qed
qed

lemma out_drain_rep:
  "tap_rep F s ins outs \<Longrightarrow> \<exists>s'. tapif_out_drain s = Some s' \<and> tap_rep F s' ins [] \<and> wire s' = wire s @ outs \<and> lwip s' = lwip s"
proof (induction outs arbitrary: s)
  case Nil
  then show ?case using try_send_rep [OF Nil] by (subst tapif_out_drain.simps) auto
next
  case (Cons bs outs)
  obtain s1 where s1: "try_send_packet s = Some (True, s1)" "tap_rep F s1 ins outs" "wire s1 = wire s @ [bs]" "lwip s1 = lwip s"
    using try_send_rep [OF Cons.prems] by auto
  show ?case using Cons.IH [OF s1(2)] s1 by (subst tapif_out_drain.simps) auto
qed

lemma tapif_input_rep:
  assumes r: "tap_rep F s ins outs" and l: "length bs \<le> MAX_PACKET_LENGTH" "length mem = MAX_PACKET_LENGTH"
  shows "\<exists>s'. tapif_input True mem True (Some bs) s = Some s' \<and>
    tap_rep F s' (if length ins < 42 then ins @ [bs] else ins) outs \<and> wire s' = wire s \<and> lwip s' = lwip s"
proof -
  obtain ai ao where "tap_lists F s ai ins ao outs" using r unfolding tap_rep_def by blast
  note t = tap_listsD [OF this]
  define a where "a = brk (packets s)"
  note new = new_packet_free [OF t(9,12), folded a_def]
  define k where "k = \<lparr>pk_data = overwrite 0 bs mem, pk_dataLength = length bs\<rparr>"
  have kh: "packet_holds ((cells (packets s))(a \<mapsto> k)) a bs" using l by (simp add: packet_holds_def k_def overwrite_def)
  obtain il where il: "list_push True a (inList s) = Some (length ai < 42, il)"
    "list_rep il (if length ai < 42 then ai @ [a] else ai)" "list_cap il = 42"
    using list_push_rep [OF t(1), of a] t(3) by auto
  have li: "length ai = length ins" using t(7) by (rule list_all2_lengthD)
  define h1 where "h1 = \<lparr>cells = (cells (packets s))(a \<mapsto> k), brk = Suc a\<rparr>"
  define h2 where "h2 = \<lparr>cells = (cells (packets s))(a := None), brk = Suc a\<rparr>"
  have run: "tapif_input True mem True (Some bs) s =
      Some (if length ins < 42 then s\<lparr>packets := h1, inList := il\<rparr> else s\<lparr>packets := h2, inList := il\<rparr>)"
    using il(1) l li by (simp add: tapif_input_def low_level_input_def put_bytes_def c_malloc_def c_free_def h1_def h2_def k_def Let_def flip: a_def)
  show ?thesis
  proof (cases "length ins < 42")
    case True
    have "tap_rep F (s\<lparr>packets := h1, inList := il\<rparr>) (ins @ [bs]) outs"
      using t il li True new packet_add [OF t(7), of a "Some k"] packet_add [OF t(8), of a "Some k"] kh
      by (intro tap_rep_new [where ai = "ai @ [a]" and ao = ao and h = h1]) (auto simp: h1_def list_all2_appendI)
    then show ?thesis using run True by simp
  next
    case False
    have "tap_rep F (s\<lparr>packets := h2, inList := il\<rparr>) ins outs"
      using t il li False new(3,4) by (intro tap_rep_new [where ai = ai and ao = ao and h = h2]) (auto simp: h2_def)
    then show ?thesis using run False by simp
  qed
qed

lemma rx_prepare_rep:
  assumes r: "tap_rep F s (bs # ins) outs" and inv: "pm_inv L (lwip s)"
  shows "(\<exists>m. pbuf_alloc PBUF_RAW (of_nat (length bs)) PBUF_RAM (lwip s) = Some (None, m)) \<and> rx_prepare s = None \<or>
    (\<exists>a x s' L'. rx_prepare s = Some (Some (a, Some x), s') \<and> tap_rep F s' ins outs \<and> content (lwip s') [x] = bs \<and>
       own_packet (lwip s') (Some x) [x] \<and> pm_inv L' (lwip s') \<and> cells (packets s') a = None \<and> wire s' = wire s)"
proof -
  obtain ai ao where "tap_lists F s ai (bs # ins) ao outs" using r unfolding tap_rep_def by blast
  note t = tap_listsD [OF this]
  obtain a at where a: "ai = a # at" "packet_holds (cells (packets s)) a bs" "list_all2 (packet_holds (cells (packets s))) at ins"
    using t(7) by (auto simp: list_all2_Cons2)
  then obtain k where k: "cells (packets s) a = Some k" "length (pk_data k) = 1518" "pk_dataLength k = length bs"
    "length bs \<le> 1518" "take (length bs) (pk_data k) = bs"
    by (auto simp: packet_holds_def split: option.splits)
  obtain il where il: "list_pop (inList s) = Some (Some a, il)" "list_rep il at" "list_cap il = 42"
    using list_pop_rep [OF t(1)] t(3) a(1) by auto
  obtain p m1 where m1: "pbuf_alloc PBUF_RAW (of_nat (length bs)) PBUF_RAM (lwip s) = Some (p, m1)"
    "case p of None \<Rightarrow> True | Some x \<Rightarrow> \<exists>xs L'. new_packet (lwip s) m1 x xs (unat (of_nat (length bs) :: u16)) \<and> pm_inv L' m1"
    using pbuf_alloc_ram [OF inv, of PBUF_RAW "of_nat (length bs)"] by (fastforce split: option.splits)
  show ?thesis
  proof (cases p)
    case None
    then show ?thesis using m1(1) il(1) k by (simp add: rx_prepare_def pbuf_take_def deref_def)
  next
    case (Some x)
    have u: "unat (of_nat (length bs) :: u16) = length bs" using k(4) by (simp add: unat_of_nat_small)
    obtain xs L' where n: "new_packet (lwip s) m1 x xs (length bs)" "pm_inv L' m1" using m1(2) Some u by auto
    have xs: "xs = [x]" using ram_packet_single [OF m1(1) [unfolded Some] n(1)] .
    obtain m2 where m2: "pbuf_take (Some x) (Some (pk_data k)) (of_nat (length bs)) m1 = Some (ERR_OK, m2)" "content m2 [x] = bs"
      "own_packet m2 (Some x) [x]" "pm_inv L' m2"
      using take_new [OF n(1) [unfolded xs] n(2), of "pk_data k"] k by auto
    define h where "h = (packets s)\<lparr>cells := (cells (packets s))(a := None)\<rparr>"
    define s' where "s' = s\<lparr>inList := il, packets := h, lwip := m2\<rparr>"
    have "rx_prepare s = Some (Some (a, Some x), s')"
      using il(1) k(1,3) m1(1) Some m2(1) by (simp add: rx_prepare_def c_free_def s'_def h_def)
    moreover have na: "a \<notin> set at" "a \<notin> set ao" "a \<notin> F" using t(10,11) a(1) by auto
    have "cheap_ok h" unfolding h_def using t(9) k(1) by (intro cheap_ok_upd) auto
    then have "tap_rep F s' ins outs"
      using t il a(1) na packet_add [OF t(8) na(2), of None] packet_add [OF a(3) na(1), of None]
      by (intro tap_rep_new [where ai = at and ao = ao and h = h]) (auto simp: s'_def h_def)
    moreover have "lwip s' = m2" "wire s' = wire s" "cells (packets s') a = None" by (simp_all add: s'_def h_def)
    ultimately show ?thesis using m2(2-4) by metis
  qed
qed

lemma rx_prepare_empty:
  assumes r: "tap_rep F s [] outs"
  shows "\<exists>s'. rx_prepare s = Some (None, s') \<and> tap_rep F s' [] outs \<and> lwip s' = lwip s \<and> wire s' = wire s"
proof -
  obtain ai ao where "tap_lists F s ai [] ao outs" using r unfolding tap_rep_def by blast
  note t = tap_listsD [OF this]
  have ai: "ai = []" using t(7) by simp
  obtain il where il: "list_pop (inList s) = Some (None, il)" "list_rep il []" "list_cap il = 42"
    using list_pop_rep [OF t(1)] t(3) ai by auto
  have "tap_rep F (s\<lparr>inList := il\<rparr>) [] outs"
    using t il ai by (intro tap_rep_new [where ai = "[]" and ao = ao and h = "packets s"]) auto
  then show ?thesis using il(1) by (simp add: rx_prepare_def)
qed

text \<open>An operation that returned although an object was not to be had returned what it returns with one.\<close>

lemma list_push_any: "list_push ok d l \<noteq> None \<Longrightarrow> list_push ok d l = list_push True d l"
  by (cases ok) (auto simp: list_push_def split: if_splits)

lemma output_any:
  assumes "low_level_output ok1 mem ok2 p s = Some (e, s')"
  shows "low_level_output True mem True p s = Some (e, s') \<or> e = ERR_MEM \<and> s' = s"
proof -
  obtain b where b: "deref p (lwip s) = Some b"
    using assms by (cases "deref p (lwip s)") (simp_all add: low_level_output_def Let_def split: prod.splits if_splits)
  show ?thesis
  proof (cases "unat (tot_len b) > MAX_PACKET_LENGTH")
    case True
    then show ?thesis using assms b by (cases ok1) (auto simp: low_level_output_def c_malloc_def)
  next
    case False
    then have ok1: "ok1" using assms b by (cases ok1) (auto simp: low_level_output_def c_malloc_def)
    have "list_push ok2 (brk (packets s)) (outList s) \<noteq> None"
      using assms b False ok1 by (auto simp: low_level_output_def c_malloc_def bind_Some_conv Let_def)
    then have "list_push ok2 (brk (packets s)) (outList s) = list_push True (brk (packets s)) (outList s)"
      by (rule list_push_any)
    then show ?thesis using assms ok1 b False by (simp add: low_level_output_def c_malloc_def Let_def)
  qed
qed

lemma input_any:
  assumes "tapif_input ok1 mem ok2 (Some bs) s = Some s'"
  shows "ok1 \<and> tapif_input True mem True (Some bs) s = Some s' \<or> \<not> ok1 \<and> s' = s"
proof (cases ok1)
  case True
  have "list_push ok2 (brk (packets s)) (inList s) \<noteq> None"
    using assms True by (auto simp: tapif_input_def low_level_input_def c_malloc_def bind_Some_conv)
  then show ?thesis using assms True list_push_any [of ok2 "brk (packets s)" "inList s"]
    by (auto simp: tapif_input_def low_level_input_def c_malloc_def bind_Some_conv)
next
  case False
  then show ?thesis using assms by (simp add: tapif_input_def low_level_input_def)
qed

subsection \<open>Traces\<close>

datatype tap_label = Tx bytes err_t | Written bytes | Rx bytes bool | Up bytes | Internal

text \<open>
  The steps of the interface: a call of the stack with a well-formed packet, a frame written, a
  frame read (accepted if an object was to be had and the list had room), a frame handed to the
  stack, an idle poll, and any step of the stack on its own memory.
\<close>

inductive tap_step :: "input_fn \<Rightarrow> tap_state \<Rightarrow> tap_label \<Rightarrow> tap_state \<Rightarrow> bool" for input where
  tx: "chain (pb (lwip s)) (Some x) xs \<Longrightarrow> tots (pb (lwip s)) xs \<Longrightarrow> data_ok (lwip s) xs \<Longrightarrow> length mem = MAX_PACKET_LENGTH \<Longrightarrow>
     low_level_output ok1 mem ok2 (Some x) s = Some (e, s') \<Longrightarrow> tap_step input s (Tx (content (lwip s) xs) e) s'"
| sent: "try_send_packet s = Some (True, s') \<Longrightarrow> tap_step input s (Written (last (wire s'))) s'"
| out_idle: "try_send_packet s = Some (False, s') \<Longrightarrow> tap_step input s Internal s'"
| rx: "length bs \<le> MAX_PACKET_LENGTH \<Longrightarrow> length mem = MAX_PACKET_LENGTH \<Longrightarrow> tapif_input ok1 mem ok2 (Some bs) s = Some s' \<Longrightarrow>
     tap_step input s (Rx bs (ok1 \<and> list_elems (inList s) < l_size (inList s))) s'"
| up: "rx_prepare s = Some (Some (a, Some x), s1) \<Longrightarrow> rx_finish input a (Some x) s1 = Some s' \<Longrightarrow>
     tap_step input s (Up (content (lwip s1) [x])) s'"
| in_idle: "rx_prepare s = Some (None, s') \<Longrightarrow> tap_step input s Internal s'"
| stack: "pm_inv L m \<Longrightarrow> tap_step input s Internal (s\<lparr>lwip := m\<rparr>)"

inductive tap_trace :: "input_fn \<Rightarrow> tap_state \<Rightarrow> tap_label list \<Rightarrow> tap_state \<Rightarrow> bool" for input where
  nil: "tap_trace input s [] s"
| snoc: "tap_trace input s ls s1 \<Longrightarrow> tap_step input s1 l s2 \<Longrightarrow> tap_trace input s (ls @ [l]) s2"

fun tx_accepted :: "tap_label \<Rightarrow> bytes list" where
  "tx_accepted (Tx bs e) = (if e = ERR_OK then [bs] else [])"
| "tx_accepted _ = []"

fun written :: "tap_label \<Rightarrow> bytes list" where
  "written (Written bs) = [bs]"
| "written _ = []"

fun rx_accepted :: "tap_label \<Rightarrow> bytes list" where
  "rx_accepted (Rx bs ok) = (if ok then [bs] else [])"
| "rx_accepted _ = []"

fun delivered :: "tap_label \<Rightarrow> bytes list" where
  "delivered (Up bs) = [bs]"
| "delivered _ = []"

fun oversize :: "tap_label \<Rightarrow> bool" where
  "oversize (Tx bs e) = (length bs > MAX_PACKET_LENGTH)"
| "oversize _ = False"

abbreviation collect :: "(tap_label \<Rightarrow> bytes list) \<Rightarrow> tap_label list \<Rightarrow> bytes list" where
  "collect f ls \<equiv> concat (map f ls)"

text \<open>What the interface relies on: \<^verbatim>\<open>netif->input\<close> leaves the memory of the stack well-formed.\<close>

definition input_keeps :: "input_fn \<Rightarrow> bool" where
  "input_keeps input \<longleftrightarrow> (\<forall>L p m e m'. pm_inv L m \<longrightarrow> input p m = Some (e, m') \<longrightarrow> (\<exists>L'. pm_inv L' m'))"

definition tap_sound :: "tap_label list \<Rightarrow> tap_state \<Rightarrow> bool" where
  "tap_sound ls s \<longleftrightarrow> (\<exists>F ins outs L. tap_rep F s ins outs \<and> pm_inv L (lwip s) \<and> finite F \<and>
     card F \<le> length (filter oversize ls) \<and> wire s = collect written ls \<and>
     collect tx_accepted ls = wire s @ outs \<and> collect rx_accepted ls = collect delivered ls @ ins)"

lemma tap_soundI:
  "tap_rep F s ins outs \<Longrightarrow> pm_inv L (lwip s) \<Longrightarrow> finite F \<Longrightarrow> card F \<le> length (filter oversize ls) \<Longrightarrow> wire s = collect written ls \<Longrightarrow>
   collect tx_accepted ls = wire s @ outs \<Longrightarrow> collect rx_accepted ls = collect delivered ls @ ins \<Longrightarrow> tap_sound ls s"
  unfolding tap_sound_def by blast

lemma tap_rep_elems: "tap_rep F s ins outs \<Longrightarrow> (list_elems (inList s) < l_size (inList s)) = (length ins < 42)"
  by (auto simp: tap_rep_def tap_lists_def list_rep_def list_cap_def list_elems_def dest!: list_all2_lengthD)

lemma tx_sound:
  assumes so: "tap_sound ls s" and c: "chain (pb (lwip s)) (Some x) xs" "tots (pb (lwip s)) xs" "data_ok (lwip s) xs"
    and mem: "length mem = MAX_PACKET_LENGTH" and o: "low_level_output ok1 mem ok2 (Some x) s = Some (e, s')"
  shows "tap_sound (ls @ [Tx (content (lwip s) xs) e]) s'"
proof -
  obtain F ins outs L where r: "tap_rep F s ins outs" and p: "pm_inv L (lwip s)" and f: "finite F" "card F \<le> length (filter oversize ls)"
    and w: "wire s = collect written ls" and q: "collect tx_accepted ls = wire s @ outs" "collect rx_accepted ls = collect delivered ls @ ins"
    using so unfolding tap_sound_def by blast
  have lc: "length (content (lwip s) xs) = lens (pb (lwip s)) xs" using length_content [OF c(3)] .
  consider "e = ERR_MEM" "s' = s" | "low_level_output True mem True (Some x) s = Some (e, s')" using output_any [OF o] by blast
  then show ?thesis
  proof cases
    case 1
    then show ?thesis using r p f w q by (intro tap_soundI [of F s' ins outs L]) (auto intro: le_trans)
  next
    case 2
    show ?thesis
    proof (cases "MAX_PACKET_LENGTH < lens (pb (lwip s)) xs")
      case True
      from output_too_long [OF r c(1,2) True, of mem True] 2 obtain a where
        "e = ERR_MEM" "a \<notin> F" "tap_rep (insert a F) s' ins outs" "wire s' = wire s" "lwip s' = lwip s" by auto
      then show ?thesis using p f w q True lc by (intro tap_soundI [of "insert a F" s' ins outs L]) auto
    next
      case False
      from output_fits [OF r c _ mem] 2 False have
        o: "e = (if length outs < 42 then ERR_OK else ERR_MEM)" "wire s' = wire s" "lwip s' = lwip s"
          "tap_rep F s' ins (if length outs < 42 then outs @ [content (lwip s) xs] else outs)" by auto
      then show ?thesis using p f w q False lc by (intro tap_soundI [OF o(4), of L]) auto
    qed
  qed
qed

lemma rx_sound:
  assumes so: "tap_sound ls s" and l: "length bs \<le> MAX_PACKET_LENGTH" "length mem = MAX_PACKET_LENGTH"
    and o: "tapif_input ok1 mem ok2 (Some bs) s = Some s'"
  shows "tap_sound (ls @ [Rx bs (ok1 \<and> list_elems (inList s) < l_size (inList s))]) s'"
proof -
  obtain F ins outs L where r: "tap_rep F s ins outs" and p: "pm_inv L (lwip s)" and f: "finite F" "card F \<le> length (filter oversize ls)"
    and w: "wire s = collect written ls" and q: "collect tx_accepted ls = wire s @ outs" "collect rx_accepted ls = collect delivered ls @ ins"
    using so unfolding tap_sound_def by blast
  note el = tap_rep_elems [OF r]
  consider "\<not> ok1" "s' = s" | "ok1" "tapif_input True mem True (Some bs) s = Some s'" using input_any [OF o] by blast
  then show ?thesis
  proof cases
    case 1
    then show ?thesis using r p f w q by (intro tap_soundI [of F s' ins outs L]) auto
  next
    case 2
    from tapif_input_rep [OF r l] 2(2) have o: "wire s' = wire s" "lwip s' = lwip s"
      "tap_rep F s' (if length ins < 42 then ins @ [bs] else ins) outs" by auto
    then show ?thesis using p f w q 2(1) el by (intro tap_soundI [OF o(3), of L]) auto
  qed
qed

lemma up_sound:
  assumes so: "tap_sound ls s" and inp: "input_keeps input"
    and o: "rx_prepare s = Some (Some (a, Some x), s1)" "rx_finish input a (Some x) s1 = Some s'"
  shows "tap_sound (ls @ [Up (content (lwip s1) [x])]) s'"
proof -
  obtain F ins outs L where r: "tap_rep F s ins outs" and p: "pm_inv L (lwip s)" and f: "finite F" "card F \<le> length (filter oversize ls)"
    and w: "wire s = collect written ls" and q: "collect tx_accepted ls = wire s @ outs" "collect rx_accepted ls = collect delivered ls @ ins"
    using so unfolding tap_sound_def by blast
  obtain bs it where ins: "ins = bs # it" using rx_prepare_empty [of F s outs] r o(1) by (cases ins) auto
  from rx_prepare_rep [OF r [unfolded ins] p] o(1) obtain L' where u: "tap_rep F s1 it outs" "content (lwip s1) [x] = bs"
    "pm_inv L' (lwip s1)" "cells (packets s1) a = None" "wire s1 = wire s" by auto
  obtain e m where m: "input (Some x) (lwip s1) = Some (e, m)" "s' = s1\<lparr>lwip := m\<rparr>"
    using o(2) u(4) by (auto simp: rx_finish_def bind_Some_conv c_free_def split: if_splits)
  obtain L2 where "pm_inv L2 m" using inp u(3) m(1) unfolding input_keeps_def by blast
  then show ?thesis using u f w q m(2) ins by (intro tap_soundI [of F s' it outs L2]) (auto simp: tap_rep_frame)
qed

lemma tap_step_sound:
  assumes inp: "input_keeps input" and so: "tap_sound ls s" and st: "tap_step input s l s'"
  shows "tap_sound (ls @ [l]) s'"
proof -
  obtain F ins outs L where r: "tap_rep F s ins outs" and p: "pm_inv L (lwip s)" and f: "finite F" "card F \<le> length (filter oversize ls)"
    and w: "wire s = collect written ls" and q: "collect tx_accepted ls = wire s @ outs" "collect rx_accepted ls = collect delivered ls @ ins"
    using so unfolding tap_sound_def by blast
  show ?thesis using st
  proof cases
    case tx
    then show ?thesis using tx_sound [OF so] by blast
  next
    case sent
    from try_send_rep [OF r] sent(2) have o: "outs \<noteq> []" "tap_rep F s' ins (tl outs)" "wire s' = wire s @ take 1 outs" "lwip s' = lwip s"
      by auto
    then have "take 1 outs = [hd outs]" by (cases outs) auto
    then show ?thesis using o p f w q sent(1) by (intro tap_soundI [OF o(2), of L]) auto
  next
    case out_idle
    from try_send_rep [OF r] out_idle(2) have "outs = []" "tap_rep F s' ins []" "wire s' = wire s" "lwip s' = lwip s" by auto
    then show ?thesis using p f w q out_idle(1) by (intro tap_soundI [of F s' ins outs L]) auto
  next
    case rx
    then show ?thesis using rx_sound [OF so] by blast
  next
    case up
    then show ?thesis using up_sound [OF so inp] by blast
  next
    case in_idle
    then have "ins = []" using rx_prepare_rep [of F s _ _ outs L] r p by (cases ins) fastforce+
    then show ?thesis using rx_prepare_empty [of F s outs] r in_idle p f w q by (intro tap_soundI [of F s' ins outs L]) auto
  next
    case (stack L' m)
    then show ?thesis using r f w q by (intro tap_soundI [of F s' ins outs L']) (auto simp: tap_rep_frame)
  qed
qed

lemma tap_trace_sound:
  assumes inp: "input_keeps input" and tr: "tap_trace input s ls s'" and so: "tap_sound [] s"
  shows "tap_sound ls s'"
  using tr so by (induction rule: tap_trace.induct) (auto intro: tap_step_sound [OF inp])


lemma malloc_pm_inv:
  assumes inv: "pm_inv L m" and mal: "mem_malloc n (hp m) = Some (r, h)"
  shows "\<exists>L'. pm_inv L' (m\<lparr>hp := h\<rparr>)"
proof -
  obtain S P Q where L: "L = (S, P, Q)" by (cases L)
  have "heap_blocks (hp m) S" using inv L by (simp add: pm_inv_def)
  from heap_blocks_malloc [OF this, of n] mal have
    c: "case r of None \<Rightarrow> heap_blocks h S | Some p \<Rightarrow> S p = None \<and> (\<exists>k \<ge> n. heap_blocks h (S(p \<mapsto> k)))" by auto
  obtain S' where S': "heap_blocks h S'" "S \<subseteq>\<^sub>m S'"
  proof (cases r)
    case (Some p)
    then obtain k where "S p = None" "heap_blocks h (S(p \<mapsto> k))" using c by auto
    then show ?thesis by (intro that [of "S(p \<mapsto> k)"]) (auto simp: map_le_def dom_def)
  qed (use c that in auto)
  have "held (S', P, Q) (m\<lparr>hp := h\<rparr>) x" if "pb m x = Some b" for x b
  proof -
    have "held (S, P, Q) m x" using pm_invD(2) [OF inv that] L by simp
    then show ?thesis using S'(2) by (cases x) (auto simp: map_le_def dom_def)
  qed
  then have "pm_inv (S', P, Q) (m\<lparr>hp := h\<rparr>)" using inv S'(1) L by (auto simp: pm_inv_def)
  then show ?thesis by blast
qed

definition no_packets :: "tap_state \<Rightarrow> bool" where
  "no_packets s \<longleftrightarrow> packets s = empty_heap \<and> wire s = []"

lemma tapif_init_sound:
  assumes i: "tapif_init fd io ok1 ok2 task n s = Some (ERR_OK, n', s')" and p: "pm_inv L (lwip s)" "no_packets s"
  shows "tap_sound [] s'"
proof -
  obtain a h where a: "mem_malloc SIZEOF_STRUCT_TAPIF (hp (lwip s)) = Some (a, h)"
    using i by (auto simp: tapif_init_def bind_Some_conv)
  obtain L' where L': "pm_inv L' ((lwip s)\<lparr>hp := h\<rparr>)" using malloc_pm_inv [OF p(1) a] by blast
  have ok: "ok1" "ok2" and a': "a \<noteq> None"
    using i a by (auto simp: tapif_init_def low_level_init_def list_new_def Let_def bind_Some_conv split: if_splits)
  obtain il ol :: "nat list_t" where l: "list_new True 42 = Some il" "list_rep il []" "list_cap il = 42"
    "list_new True 42 = Some ol" "list_rep ol []" "list_cap ol = 42" using list_new_rep [of 42] by auto
  have s': "lwip s' = (lwip s)\<lparr>hp := h\<rparr>" "inList s' = il" "outList s' = ol" "packets s' = empty_heap" "wire s' = []"
    using i a a' l(1,4) ok p(2) by (auto simp: tapif_init_def low_level_init_def Let_def bind_Some_conv no_packets_def)
  have "tap_rep {} s' [] []"
    using s' l by (intro tap_rep_new [where ai = "[]" and ao = "[]" and h = empty_heap]) (simp_all, simp add: empty_heap_def)
  then show ?thesis using s' L' by (intro tap_soundI [of "{}" s' "[]" "[]" L']) auto
qed


subsection \<open>Properties\<close>


definition no_list :: "nat list_t" where
  "no_list = \<lparr>l_first = None, l_last = None, l_size = 0, l_elems = 0, l_heap = empty_heap\<rparr>"

definition start_tap :: "pmem \<Rightarrow> tap_state" where
  "start_tap m = \<lparr>tap_fd = 0, inList = no_list, outList = no_list, out_signals = 0, threads = [], packets = empty_heap,
     wire = [], lwip = m\<rparr>"

definition start_netif :: netif where
  "start_netif = \<lparr>nif_name = [], nif_mtu = 0, hwaddr = [], hwaddr_len = 0, nif_flags = 0\<rparr>"

lemma start_tap_init:
  "\<exists>n s1. tapif_init 3 0 True True True start_netif (start_tap start_mem) = Some (ERR_OK, n, s1)"
proof -
  have "alloc_spec 56 [(0, 10240, False)] = (Some 8, [(0, 64, True), (64, 10176, False)])"
    by (simp add: alloc_spec_def norm_size_def align_size_def)
  then obtain h where "mem_malloc 56 fresh_heap = Some (Some 8, h)"
    using mem_malloc_rep [OF fresh_heap_rep, of 56] by auto
  then show ?thesis by (simp add: tapif_init_def low_level_init_def start_tap_def start_mem_def list_new_def Let_def)
qed


text \<open>
  C37: \<open>low_level_output\<close> on every branch. A well-formed packet, however it is split into pbufs, is
  copied within the bounds of the packet object and queued, or refused with \<open>ERR_MEM\<close> when the list
  is full. A packet longer than \<open>MAX_PACKET_LENGTH\<close> is refused with \<open>ERR_MEM\<close> too, but the packet
  object obtained for it is in no list afterwards: every such call loses one object.
\<close>

theorem low_level_output_branches:
  assumes "tap_rep F s ins outs" "chain (pb (lwip s)) (Some x) xs" "tots (pb (lwip s)) xs" "data_ok (lwip s) xs"
    and "length mem = MAX_PACKET_LENGTH"
  shows "\<exists>s'. (if MAX_PACKET_LENGTH < lens (pb (lwip s)) xs
      then low_level_output True mem True (Some x) s = Some (ERR_MEM, s') \<and> (\<exists>a. a \<notin> F \<and> tap_rep (insert a F) s' ins outs)
      else if length outs < 42
      then low_level_output True mem True (Some x) s = Some (ERR_OK, s') \<and> tap_rep F s' ins (outs @ [content (lwip s) xs])
      else low_level_output True mem True (Some x) s = Some (ERR_MEM, s') \<and> tap_rep F s' ins outs)"
proof (cases "MAX_PACKET_LENGTH < lens (pb (lwip s)) xs")
  case True
  then show ?thesis using output_too_long [OF assms(1,2,3) True, of mem True] by auto
next
  case False
  then show ?thesis using output_fits [OF assms(1-4) _ assms(5)] by auto
qed

lemma start_tap_rep: "\<exists>s. tap_rep {} s [] [] \<and> lwip s = m"
proof -
  obtain l :: "nat list_t" where l: "list_rep l []" "list_cap l = 42" using list_new_rep [of 42] by auto
  let ?s = "(start_tap m)\<lparr>inList := l, outList := l\<rparr>"
  have "tap_rep {} ?s [] []"
    using l by (intro tap_rep_new [where ai = "[]" and ao = "[]" and h = empty_heap])
      (simp_all add: start_tap_def, simp add: empty_heap_def)
  moreover have "lwip ?s = m" by (simp add: start_tap_def)
  ultimately show ?thesis by blast
qed

theorem low_level_output_branches_witness:
  "\<exists>s s'. lwip s = two_mem \<and> low_level_output True (replicate 1518 0) True (Some (Pool_elem 0)) s = Some (ERR_OK, s') \<and>
     tap_rep {} s' [] [[10, 20, 30, 20, 40]]"
proof -
  obtain s where s: "tap_rep {} s [] []" "lwip s = two_mem" using start_tap_rep by blast
  from low_level_output_branches [OF s(1), of "Pool_elem 0" two_ptrs "replicate 1518 0"] two_mem_ok s show ?thesis by auto
qed

text \<open>
  C36: one wake-up of the output thread ends, with the output list empty and every queued frame
  written, oldest first.
\<close>

theorem tapif_out_drains:
  assumes "tap_rep F s ins outs"
  shows "\<exists>s'. tapif_out_drain s = Some s' \<and> tap_rep F s' ins [] \<and> wire s' = wire s @ outs"
  using out_drain_rep [OF assms] by blast

theorem tapif_out_drains_witness:
  "\<exists>s s'. tap_rep {} s [] [[10, 20, 30, 20, 40]] \<and> tapif_out_drain s = Some s' \<and> last (wire s') = [10, 20, 30, 20, 40]"
proof -
  obtain s0 where s0: "tap_rep {} s0 [] []" "lwip s0 = two_mem" using start_tap_rep by blast
  then obtain s where s: "tap_rep {} s [] [[10, 20, 30, 20, 40]]"
    using output_fits [OF s0(1), of "Pool_elem 0" two_ptrs "replicate 1518 0"] two_mem_ok by auto
  from tapif_out_drains [OF s] show ?thesis using s by auto
qed

text \<open>
  If \<^verbatim>\<open>netif->input\<close> reports an error for a frame, the task frees the packet object a second
  time: there is no orderly continuation, whatever the frame and the error.
\<close>

lemma rx_error_double_free:
  assumes "tap_rep F s (bs # ins) outs" "pm_inv L (lwip s)" "rx_prepare s = Some (Some (a, p), s1)"
    and "input p (lwip s1) = Some (e, m)" "e \<noteq> ERR_OK"
  shows "rx_finish input a p s1 = None \<and> freertos_drain input s = None"
proof -
  have "cells (packets s1) a = None" using rx_prepare_rep [OF assms(1,2)] assms(3) by auto
  then have "rx_finish input a p s1 = None" using assms(4,5) by (simp add: rx_finish_def c_free_def)
  then show ?thesis using assms(3) by (subst freertos_drain.simps) simp
qed

end
