(* ===== verification/Ip_Convert.thy ===== *)
theory Ip_Convert
  imports Sim_Prelude
begin

text \<open>
  The conversion of addresses between the SDK and lwIP, \<^verbatim>\<open>src/nabto_lwip/nm_nabto_lwip_util.c\<close>. Both
  types are a tag and a union of 4 and 16 bytes; the union is its 16 bytes of memory. An lwIP
  address also has the zone of IPv6 addresses, which the SDK type has no room for.
\<close>

datatype np_ip_type = NABTO_IPV4 | NABTO_IPV6

record np_ip_address =
  np_type :: np_ip_type
  np_ip :: bytes

record ip_addr =
  ip_type :: u8
  u_addr :: bytes
  ip_zone :: u8

abbreviation (input) IPADDR_TYPE_V4 :: u8 where "IPADDR_TYPE_V4 \<equiv> 0"
abbreviation (input) IPADDR_TYPE_V6 :: u8 where "IPADDR_TYPE_V6 \<equiv> 6"
abbreviation (input) IPADDR_TYPE_ANY :: u8 where "IPADDR_TYPE_ANY \<equiv> 46"

definition nm_lwip_convertip_np_to_lwip :: "np_ip_address \<Rightarrow> ip_addr" where
  "nm_lwip_convertip_np_to_lwip from =
     (let to = \<lparr>ip_type = 0, u_addr = replicate 16 0, ip_zone = 0\<rparr>
      in if np_type from = NABTO_IPV4
         then to\<lparr>ip_type := IPADDR_TYPE_V4, u_addr := overwrite 0 (take 4 (np_ip from)) (u_addr to)\<rparr>
         else to\<lparr>ip_type := IPADDR_TYPE_V6, u_addr := overwrite 0 (take 16 (np_ip from)) (u_addr to)\<rparr>)"

definition nm_lwip_convertip_lwip_to_np :: "ip_addr \<Rightarrow> np_ip_address" where
  "nm_lwip_convertip_lwip_to_np from =
     (let to = \<lparr>np_type = NABTO_IPV4, np_ip = replicate 16 0\<rparr>
      in if ip_type from = IPADDR_TYPE_V4
         then to\<lparr>np_type := NABTO_IPV4, np_ip := overwrite 0 (take 4 (u_addr from)) (np_ip to)\<rparr>
         else to\<lparr>np_type := NABTO_IPV6, np_ip := overwrite 0 (take 16 (u_addr from)) (np_ip to)\<rparr>)"

text \<open>The bytes of an address that mean something.\<close>

definition np_bytes :: "np_ip_address \<Rightarrow> bytes" where
  "np_bytes a = (case np_type a of NABTO_IPV4 \<Rightarrow> take 4 (np_ip a) | NABTO_IPV6 \<Rightarrow> np_ip a)"

definition lwip_bytes :: "ip_addr \<Rightarrow> bytes" where
  "lwip_bytes a = (if ip_type a = IPADDR_TYPE_V4 then take 4 (u_addr a) else u_addr a)"

lemma np_round_trip:
  assumes "length (np_ip a) = 16"
  shows "np_type (nm_lwip_convertip_lwip_to_np (nm_lwip_convertip_np_to_lwip a)) = np_type a"
    "np_bytes (nm_lwip_convertip_lwip_to_np (nm_lwip_convertip_np_to_lwip a)) = np_bytes a"
  using assms by (cases "np_type a"; simp add: nm_lwip_convertip_np_to_lwip_def nm_lwip_convertip_lwip_to_np_def
      np_bytes_def overwrite_def Let_def)+

lemma lwip_round_trip:
  assumes "length (u_addr a) = 16" "ip_type a = IPADDR_TYPE_V4 \<or> ip_type a = IPADDR_TYPE_V6"
  shows "ip_type (nm_lwip_convertip_np_to_lwip (nm_lwip_convertip_lwip_to_np a)) = ip_type a"
    "lwip_bytes (nm_lwip_convertip_np_to_lwip (nm_lwip_convertip_lwip_to_np a)) = lwip_bytes a"
  using assms by (auto simp: nm_lwip_convertip_np_to_lwip_def nm_lwip_convertip_lwip_to_np_def
      lwip_bytes_def overwrite_def Let_def)

subsection \<open>Properties\<close>

text \<open>
  The conversions are inverse to each other on the kind and the meaningful bytes of every IPv4
  and IPv6 address, in both directions; the other bytes of the union and the zone become zero.
\<close>

lemma convertip_round_trip:
  assumes "length (np_ip a) = 16" "length (u_addr b) = 16" "ip_type b \<in> {IPADDR_TYPE_V4, IPADDR_TYPE_V6}"
  shows "let a' = nm_lwip_convertip_lwip_to_np (nm_lwip_convertip_np_to_lwip a);
             b' = nm_lwip_convertip_np_to_lwip (nm_lwip_convertip_lwip_to_np b)
         in np_type a' = np_type a \<and> np_bytes a' = np_bytes a \<and> ip_type b' = ip_type b \<and> lwip_bytes b' = lwip_bytes b \<and>
            ip_zone b' = 0 \<and> length (np_ip a') = 16 \<and> length (u_addr b') = 16"
  using np_round_trip [OF assms(1)] lwip_round_trip [OF assms(2)] assms
  by (auto simp: Let_def nm_lwip_convertip_np_to_lwip_def nm_lwip_convertip_lwip_to_np_def overwrite_def)

end
