(* ===== verification/Completion.thy ===== *)
theory Completion
  imports Sim_Prelude "HOL-Library.Multiset"
begin

text \<open>
  The contract of the asynchronous operations of the adapters in \<^verbatim>\<open>src/nabto_lwip\<close>: the SDK starts an
  operation with a completion event, and the adapter calls \<^verbatim>\<open>np_completion_event_resolve\<close> once with
  its result. The calls are a log; an event that has been accepted and not resolved is pending.
\<close>

type_synonym event = nat
type_synonym clog = "(event \<times> np_error_code) list"

text \<open>A run of an adapter with all events it was given, in order.\<close>

inductive runs :: "('s \<Rightarrow> event list \<Rightarrow> 's \<Rightarrow> bool) \<Rightarrow> 's \<Rightarrow> event list \<Rightarrow> 's \<Rightarrow> bool" for step where
  none: "runs step s [] s"
| snoc: "runs step s es s1 \<Longrightarrow> step s1 ds s2 \<Longrightarrow> runs step s (es @ ds) s2"

lemma runs_one: "step s es s' \<Longrightarrow> runs step s es s'"
  using runs.snoc [where step = step and es = "[]", OF runs.none] by simp

locale completion =
  fixes step :: "'s \<Rightarrow> event list \<Rightarrow> 's \<Rightarrow> bool"
    and pend :: "'s \<Rightarrow> event list"
    and log :: "'s \<Rightarrow> clog"
  assumes conserves: "step s es s' \<Longrightarrow> mset (map fst (log s')) + mset (pend s') = mset (map fst (log s)) + mset (pend s) + mset es"
begin

lemma run_conserves:
  "runs step s es s' \<Longrightarrow> mset (map fst (log s')) + mset (pend s') = mset (map fst (log s)) + mset (pend s) + mset es"
proof (induction rule: runs.induct)
  case (snoc s es s1 ds s2)
  then show ?case using conserves [OF snoc.hyps(2)] by simp
qed simp

text \<open>From a state with nothing pending, distinct events are resolved at most once, and every event is resolved or pending.\<close>

lemma exactly_once:
  assumes r: "runs step s es s'" and s: "log s = []" "pend s = []" and d: "distinct es"
  shows "distinct (map fst (log s') @ pend s') \<and> set (map fst (log s')) \<union> set (pend s') = set es"
proof -
  have m: "mset (map fst (log s') @ pend s') = mset es" using run_conserves [OF r] s by simp
  then have "distinct (map fst (log s') @ pend s')" using d by (metis mset_eq_imp_distinct_iff)
  moreover have "set (map fst (log s') @ pend s') = set es" using m by (metis set_mset_mset)
  ultimately show ?thesis by simp
qed

end

end
