(* ===== verification/Nabto_Udp.thy ===== *)
theory Nabto_Udp
  imports Ip_Convert Completion Pbuf_Chain
begin

text \<open>
  The UDP adapter, \<^verbatim>\<open>src/nabto_lwip/nm_nabto_lwip.c\<close> from \<^verbatim>\<open>nm_lwip_udp_callback\<close> to
  \<^verbatim>\<open>nm_lwip_get_local_port\<close>. The state is one socket object (\<open>None\<close> once it is freed) with the
  memory of lwIP and the calls of \<^verbatim>\<open>np_completion_event_resolve\<close>. What \<^verbatim>\<open>np_calloc\<close>,
  \<^verbatim>\<open>udp_new_ip_type\<close> and \<^verbatim>\<open>udp_bind\<close> return are arguments, \<^verbatim>\<open>udp_sendto\<close> is a parameter. The lock
  of the core is taken and released within each operation, so an operation is one step.
\<close>

record np_udp_socket =
  upcb :: nat
  us_packet :: "ptr option"
  us_addr :: np_ip_address
  us_port :: u16
  us_ce :: "event option"
  us_aborted :: bool

record udp_state =
  usock :: "np_udp_socket option"
  ureg :: bool
  umem :: pmem
  ulog :: clog

record np_udp_endpoint =
  ep_ip :: np_ip_address
  ep_port :: u16

definition resolve :: "event \<Rightarrow> np_error_code \<Rightarrow> udp_state \<Rightarrow> udp_state" where
  "resolve e ec s = s\<lparr>ulog := ulog s @ [(e, ec)]\<rparr>"

text \<open>
  The callback: the packet is kept if the slot is free, else freed, then a waiting receive is
  resolved. The trace message reads \<^verbatim>\<open>p->tot_len\<close> before \<^verbatim>\<open>p\<close> is tested.
\<close>

definition keep_packet :: "ptr option \<Rightarrow> ip_addr \<Rightarrow> u16 \<Rightarrow> udp_state \<Rightarrow> udp_state option" where
  "keep_packet p addr port s = do {
     k \<leftarrow> usock s;
     if p \<noteq> None \<and> us_packet k = None
     then Some (s\<lparr>usock := Some (k\<lparr>us_packet := p, us_addr := nm_lwip_convertip_lwip_to_np addr, us_port := port\<rparr>)\<rparr>)
     else do { (n, m) \<leftarrow> pbuf_free p (umem s); Some (s\<lparr>umem := m\<rparr>) } }"

definition wake_recv :: "udp_state \<Rightarrow> udp_state option" where
  "wake_recv s = do {
     k \<leftarrow> usock s;
     case us_ce k of
       None \<Rightarrow> Some s
     | Some e \<Rightarrow> Some (resolve e NABTO_EC_OK (s\<lparr>usock := Some (k\<lparr>us_ce := None\<rparr>)\<rparr>)) }"

definition nm_lwip_udp_callback :: "ptr option \<Rightarrow> ip_addr \<Rightarrow> u16 \<Rightarrow> udp_state \<Rightarrow> udp_state option" where
  "nm_lwip_udp_callback p addr port s = do {
     logged \<leftarrow> deref p (umem s);
     s1 \<leftarrow> keep_packet p addr port s;
     wake_recv s1 }"

definition nm_lwip_create_socket :: "bool \<Rightarrow> nat option \<Rightarrow> np_error_code \<times> np_udp_socket option" where
  "nm_lwip_create_socket ok pcb =
     (if \<not> ok then (NABTO_EC_OUT_OF_MEMORY, None)
      else case pcb of
        None \<Rightarrow> (NABTO_EC_OUT_OF_MEMORY, None)
      | Some u \<Rightarrow> (NABTO_EC_OK, Some \<lparr>upcb = u, us_packet = None, us_addr = \<lparr>np_type = NABTO_IPV4, np_ip = replicate 16 0\<rparr>,
          us_port = 0, us_ce = None, us_aborted = False\<rparr>))"

definition nm_lwip_abort_socket :: "udp_state \<Rightarrow> udp_state option" where
  "nm_lwip_abort_socket s = do {
     k \<leftarrow> usock s;
     Some (s\<lparr>usock := Some (k\<lparr>us_aborted := True\<rparr>)\<rparr>) }"

definition nm_lwip_destroy_socket :: "bool \<Rightarrow> udp_state \<Rightarrow> udp_state option" where
  "nm_lwip_destroy_socket null s =
     (if null then Some s
      else do {
        s1 \<leftarrow> nm_lwip_abort_socket s;
        Some (s1\<lparr>ureg := False, usock := None\<rparr>) })"

definition nm_lwip_async_bind_port :: "err_t \<Rightarrow> event \<Rightarrow> udp_state \<Rightarrow> udp_state option" where
  "nm_lwip_async_bind_port err e s = do {
     k \<leftarrow> usock s;
     Some (if us_aborted k then resolve e NABTO_EC_ABORTED s
           else if err = ERR_OK then resolve e NABTO_EC_OK (s\<lparr>ureg := True\<rparr>)
           else resolve e NABTO_EC_UNKNOWN s) }"

type_synonym sendto_fn = "ptr \<Rightarrow> ip_addr \<Rightarrow> u16 \<Rightarrow> pmem \<Rightarrow> (err_t \<times> pmem) option"

definition nm_lwip_async_sendto_ec ::
    "sendto_fn \<Rightarrow> np_udp_endpoint \<Rightarrow> bytes \<Rightarrow> u16 \<Rightarrow> udp_state \<Rightarrow> (np_error_code \<times> udp_state) option" where
  "nm_lwip_async_sendto_ec udp_sendto ep buffer buffer_size s = do {
     k \<leftarrow> usock s;
     if us_aborted k then Some (NABTO_EC_ABORTED, s)
     else do {
       (p, m1) \<leftarrow> pbuf_alloc PBUF_TRANSPORT buffer_size PBUF_RAM (umem s);
       case p of
         None \<Rightarrow> Some (NABTO_EC_OUT_OF_MEMORY, s\<lparr>umem := m1\<rparr>)
       | Some x \<Rightarrow> do {
           b \<leftarrow> pb m1 x;
           require (unat buffer_size \<le> length buffer);
           m2 \<leftarrow> wr m1 (payload b) (take (unat buffer_size) buffer);
           (lwip_err, m3) \<leftarrow> udp_sendto x (nm_lwip_convertip_np_to_lwip (ep_ip ep)) (ep_port ep) m2;
           (n, m4) \<leftarrow> pbuf_free p m3;
           Some (if lwip_err = ERR_VAL then NABTO_EC_OK
                 else if lwip_err \<noteq> ERR_OK then NABTO_EC_UNKNOWN
                 else NABTO_EC_OK, s\<lparr>umem := m4\<rparr>) } } }"

definition nm_lwip_async_sendto ::
    "sendto_fn \<Rightarrow> np_udp_endpoint \<Rightarrow> bytes \<Rightarrow> u16 \<Rightarrow> event \<Rightarrow> udp_state \<Rightarrow> udp_state option" where
  "nm_lwip_async_sendto udp_sendto ep buffer buffer_size e s = do {
     (ec, s1) \<leftarrow> nm_lwip_async_sendto_ec udp_sendto ep buffer buffer_size s;
     Some (resolve e ec s1) }"

definition nm_lwip_async_recv_wait :: "event \<Rightarrow> udp_state \<Rightarrow> udp_state option" where
  "nm_lwip_async_recv_wait e s = do {
     k \<leftarrow> usock s;
     let s1 = (if us_aborted k then resolve e NABTO_EC_ABORTED s else s);
     Some (if us_ce k = None then s1\<lparr>usock := Some (k\<lparr>us_ce := Some e\<rparr>)\<rparr>
           else resolve e NABTO_EC_UDP_SOCKET_ERROR s1) }"

text \<open>The buffer of the caller is its content; the result has the endpoint, the new content and \<^verbatim>\<open>*recv_size\<close>.\<close>

definition nm_lwip_recv_from :: "bytes \<Rightarrow> udp_state \<Rightarrow>
    (np_error_code \<times> (np_udp_endpoint \<times> bytes \<times> nat) option \<times> udp_state) option" where
  "nm_lwip_recv_from buffer s = do {
     k \<leftarrow> usock s;
     if us_aborted k then Some (NABTO_EC_EOF, None, s)
     else case us_packet k of
       None \<Rightarrow> Some (NABTO_EC_AGAIN, None, s)
     | Some x \<Rightarrow> do {
         let s1 = s\<lparr>usock := Some (k\<lparr>us_packet := None\<rparr>)\<rparr>;
         b \<leftarrow> pb (umem s) x;
         let n = (if unat (pb_len b) > length buffer then length buffer else unat (pb_len b));
         bs \<leftarrow> rd (umem s) (payload b) n;
         buf \<leftarrow> put_bytes buffer 0 bs;
         (f, m) \<leftarrow> pbuf_free (Some x) (umem s);
         Some (NABTO_EC_OK, Some (\<lparr>ep_ip = us_addr k, ep_port = us_port k\<rparr>, buf, n), s1\<lparr>umem := m\<rparr>) } }"

definition nm_lwip_get_local_port :: "(nat \<Rightarrow> u16) \<Rightarrow> udp_state \<Rightarrow> u16 option" where
  "nm_lwip_get_local_port local_port s = do { k \<leftarrow> usock s; Some (local_port (upcb k)) }"

subsection \<open>Completions\<close>

text \<open>
  The steps of a socket between its creation and its destruction, with the events they are given.
  A receive may be started on a socket that is not aborted.
\<close>

inductive udp_step :: "sendto_fn \<Rightarrow> udp_state \<Rightarrow> event list \<Rightarrow> udp_state \<Rightarrow> bool" for send where
  packet: "nm_lwip_udp_callback p a port s = Some s' \<Longrightarrow> udp_step send s [] s'"
| bind: "nm_lwip_async_bind_port r e s = Some s' \<Longrightarrow> udp_step send s [e] s'"
| sendto: "nm_lwip_async_sendto send ep buf n e s = Some s' \<Longrightarrow> udp_step send s [e] s'"
| wait: "usock s = Some k \<Longrightarrow> \<not> us_aborted k \<Longrightarrow> nm_lwip_async_recv_wait e s = Some s' \<Longrightarrow> udp_step send s [e] s'"
| recv: "nm_lwip_recv_from buf s = Some (ec, r, s') \<Longrightarrow> udp_step send s [] s'"
| abort: "nm_lwip_abort_socket s = Some s' \<Longrightarrow> udp_step send s [] s'"

definition udp_pend :: "udp_state \<Rightarrow> event list" where
  "udp_pend s = (case usock s of None \<Rightarrow> [] | Some k \<Rightarrow> (case us_ce k of None \<Rightarrow> [] | Some e \<Rightarrow> [e]))"

lemmas udp_defs = nm_lwip_udp_callback_def keep_packet_def wake_recv_def nm_lwip_async_bind_port_def nm_lwip_async_sendto_def nm_lwip_async_sendto_ec_def
  nm_lwip_async_recv_wait_def nm_lwip_recv_from_def nm_lwip_abort_socket_def resolve_def

lemma sendto_ec_frame: "nm_lwip_async_sendto_ec send ep buf n s = Some (ec, s') \<Longrightarrow> usock s' = usock s \<and> ulog s' = ulog s"
  by (auto simp: nm_lwip_async_sendto_ec_def bind_Some_conv split: if_splits option.splits)

lemma keep_packet_frame: "keep_packet p a port s = Some s' \<Longrightarrow> ulog s' = ulog s \<and> udp_pend s' = udp_pend s"
  by (auto simp: keep_packet_def udp_pend_def bind_Some_conv split: if_splits)

lemma wake_recv_conserves:
  assumes "wake_recv s = Some s'"
  shows "mset (map fst (ulog s')) + mset (udp_pend s') = mset (map fst (ulog s)) + mset (udp_pend s)"
proof -
  obtain k where "usock s = Some k" using assms by (auto simp: wake_recv_def bind_Some_conv)
  then show ?thesis using assms by (cases "us_ce k") (auto simp: wake_recv_def udp_pend_def resolve_def)
qed

lemma callback_conserves:
  assumes "nm_lwip_udp_callback p a port s = Some s'"
  shows "mset (map fst (ulog s')) + mset (udp_pend s') = mset (map fst (ulog s)) + mset (udp_pend s)"
proof -
  obtain s1 where "keep_packet p a port s = Some s1" "wake_recv s1 = Some s'"
    using assms by (auto simp: nm_lwip_udp_callback_def bind_Some_conv)
  then show ?thesis using keep_packet_frame wake_recv_conserves by metis
qed

lemma recv_from_frame:
  assumes "nm_lwip_recv_from buf s = Some (ec, r, s')"
  shows "ulog s' = ulog s \<and> udp_pend s' = udp_pend s"
proof -
  obtain k where k: "usock s = Some k" using assms by (auto simp: nm_lwip_recv_from_def bind_Some_conv)
  consider "us_aborted k" | "\<not> us_aborted k" "us_packet k = None" | x where "\<not> us_aborted k" "us_packet k = Some x" by fastforce
  then show ?thesis
    by cases (use assms k in \<open>auto simp: nm_lwip_recv_from_def bind_Some_conv Let_def udp_pend_def\<close>)
qed

lemma recv_wait_conserves:
  assumes "usock s = Some k" "\<not> us_aborted k" "nm_lwip_async_recv_wait e s = Some s'"
  shows "mset (map fst (ulog s')) + mset (udp_pend s') = mset (map fst (ulog s)) + mset (udp_pend s) + {#e#}"
  using assms by (cases "us_ce k") (auto simp: nm_lwip_async_recv_wait_def udp_pend_def resolve_def)

lemma udp_step_conserves:
  assumes "udp_step send s es s'"
  shows "mset (map fst (ulog s')) + mset (udp_pend s') = mset (map fst (ulog s)) + mset (udp_pend s) + mset es"
  using assms
proof cases
  case packet
  then show ?thesis using callback_conserves by simp
next
  case bind
  then show ?thesis by (auto simp: nm_lwip_async_bind_port_def resolve_def udp_pend_def bind_Some_conv)
next
  case sendto
  then show ?thesis using sendto_ec_frame by (fastforce simp: nm_lwip_async_sendto_def resolve_def udp_pend_def bind_Some_conv)
next
  case wait
  then show ?thesis using recv_wait_conserves by simp
next
  case recv
  then show ?thesis using recv_from_frame by simp
next
  case abort
  then show ?thesis by (auto simp: nm_lwip_abort_socket_def udp_pend_def bind_Some_conv)
qed

interpretation udp: completion "udp_step send" udp_pend ulog
  by unfold_locales (rule udp_step_conserves)

subsection \<open>Data\<close>

lemma free_own:
  assumes "pm_inv L m" "chain (pb m) (Some x) xs" "refs_pos (pb m) xs"
  shows "\<exists>n m' L'. pbuf_free (Some x) m = Some (n, m') \<and> pm_inv L' m'"
  using pbuf_free_chain [OF assms] by blast

lemma alloc_fill:
  assumes inv: "pm_inv L m" and l: "unat n = length bs"
  shows "(\<exists>m1. pbuf_alloc l n PBUF_RAM m = Some (None, m1) \<and> pm_inv L m1 \<and> pb m1 = pb m) \<or>
    (\<exists>x m1 b m2 L'. pbuf_alloc l n PBUF_RAM m = Some (Some x, m1) \<and> pb m1 x = Some b \<and> wr m1 (payload b) bs = Some m2 \<and>
       own_packet m2 (Some x) [x] \<and> sendable m2 x \<and> content m2 [x] = bs \<and> pm_inv L' m2)"
proof -
  obtain p m1 where m1: "pbuf_alloc l n PBUF_RAM m = Some (p, m1)"
    "case p of None \<Rightarrow> pm_inv L m1 \<and> pb m1 = pb m | Some x \<Rightarrow> \<exists>xs L'. new_packet m m1 x xs (unat n) \<and> pm_inv L' m1"
    using pbuf_alloc_ram [OF inv, of l n] by (fastforce split: option.splits)
  show ?thesis
  proof (cases p)
    case None
    then show ?thesis using m1 by auto
  next
    case (Some x)
    then obtain xs L' where n: "new_packet m m1 x xs (unat n)" "pm_inv L' m1" using m1(2) by auto
    have xs: "xs = [x]" using ram_packet_single [OF m1(1) [unfolded Some] n(1)] .
    have own: "own_packet m1 (Some x) [x]" using new_packet_own [OF n(1)] xs by simp
    then obtain b where b: "pb m1 x = Some b" "in_buf m1 (payload b) (unat (pb_len b))" "buf_at m1 x = [Own x]"
      by (auto simp: own_packet_def)
    have len: "unat (pb_len b) = length bs" using n(1) xs b(1) l by (simp add: new_packet_def len_at_def)
    have "shift (payload b) 0 = payload b" by simp
    then obtain m2 where m2: "wr m1 (payload b) bs = Some m2" "writes {Own x} m1 m2" "pay m2 x = overwrite 0 bs (pay m1 x)"
      using wr_pay [OF b(1,2), of 0 bs] len b(3) by auto
    have "content m2 [x] = bs" using m2(3) length_pay [OF b(1,2)] len by (simp add: overwrite_all)
    moreover have "own_packet m2 (Some x) [x]" using own writes_sel(1) [OF m2(2)] writes_data_ok [OF m2(2), of "[x]"]
      by (simp add: own_packet_def buf_at_def)
    moreover have "pm_inv L' m2" using writes_pm_inv [OF m2(2)] n(2) by simp
    ultimately show ?thesis using m1(1) Some b(1) m2(1) new_sendable [OF n(1) [unfolded xs] m2(2)] by blast
  qed
qed

text \<open>
  What the adapter relies on: \<^verbatim>\<open>udp_sendto\<close> returns, leaves the memory well-formed and leaves the
  caller its reference on the packet.
\<close>

definition sendto_ok :: "sendto_fn \<Rightarrow> bool" where
  "sendto_ok send \<longleftrightarrow> (\<forall>x ip port m L. pm_inv L m \<longrightarrow> own_packet m (Some x) [x] \<longrightarrow> sendable m x \<longrightarrow>
     (\<exists>e m' L'. send x ip port m = Some (e, m') \<and> pm_inv L' m' \<and> chain (pb m') (Some x) [x] \<and> refs_pos (pb m') [x]))"

fun send_code :: "err_t \<Rightarrow> np_error_code" where
  "send_code ERR_OK = NABTO_EC_OK"
| "send_code ERR_VAL = NABTO_EC_OK"
| "send_code _ = NABTO_EC_UNKNOWN"

lemma send_code_eq: "send_code e = (if e = ERR_VAL then NABTO_EC_OK else if e \<noteq> ERR_OK then NABTO_EC_UNKNOWN else NABTO_EC_OK)"
  by (cases e) simp_all

lemma async_sendto_run:
  assumes "pm_inv L (umem s)" "usock s = Some k" "\<not> us_aborted k" "unat n \<le> length buffer" "sendto_ok send"
  shows "\<exists>s'. nm_lwip_async_sendto send ep buffer n e s = Some s' \<and> usock s' = usock s \<and>
    (ulog s' = ulog s @ [(e, NABTO_EC_OUT_OF_MEMORY)] \<and> pm_inv L (umem s') \<and> pb (umem s') = pb (umem s) \<or>
     (\<exists>x m2 r m3 f L1 L'. own_packet m2 (Some x) [x] \<and> sendable m2 x \<and> pm_inv L1 m2 \<and> content m2 [x] = take (unat n) buffer \<and>
        send x (nm_lwip_convertip_np_to_lwip (ep_ip ep)) (ep_port ep) m2 = Some (r, m3) \<and>
        pbuf_free (Some x) m3 = Some (f, umem s') \<and> pm_inv L' (umem s') \<and> ulog s' = ulog s @ [(e, send_code r)]))"
proof -
  let ?bs = "take (unat n) buffer"
  have "unat n = length ?bs" using assms(4) by simp
  from alloc_fill [OF assms(1) this, of PBUF_TRANSPORT] show ?thesis
  proof (elim disjE exE conjE)
    fix m1 assume "pbuf_alloc PBUF_TRANSPORT n PBUF_RAM (umem s) = Some (None, m1)" "pm_inv L m1" "pb m1 = pb (umem s)"
    then show ?thesis using assms(2,3)
      by (simp add: nm_lwip_async_sendto_def nm_lwip_async_sendto_ec_def resolve_def)
  next
    fix x m1 b m2 L'
    assume a: "pbuf_alloc PBUF_TRANSPORT n PBUF_RAM (umem s) = Some (Some x, m1)" "pb m1 x = Some b" "wr m1 (payload b) ?bs = Some m2"
      and o: "own_packet m2 (Some x) [x]" "content m2 [x] = ?bs" and v: "sendable m2 x" and p: "pm_inv L' m2"
    obtain r m3 L3 where r: "send x (nm_lwip_convertip_np_to_lwip (ep_ip ep)) (ep_port ep) m2 = Some (r, m3)" "pm_inv L3 m3"
      "chain (pb m3) (Some x) [x]" "refs_pos (pb m3) [x]" using assms(5) p o(1) v unfolding sendto_ok_def by blast
    obtain f m4 L4 where f: "pbuf_free (Some x) m3 = Some (f, m4)" "pm_inv L4 m4" using free_own [OF r(2-4)] by blast
    define s' where "s' = resolve e (send_code r) (s\<lparr>umem := m4\<rparr>)"
    have "nm_lwip_async_sendto send ep buffer n e s = Some s'" unfolding s'_def
      using assms(2,3,4) a r(1) f(1) unfolding nm_lwip_async_sendto_def nm_lwip_async_sendto_ec_def send_code_eq by simp
    moreover have "usock s' = usock s" "umem s' = m4" "ulog s' = ulog s @ [(e, send_code r)]" by (simp_all add: s'_def resolve_def)
    ultimately show ?thesis using o v p r(1) f by blast
  qed
qed

subsection \<open>Properties\<close>

text \<open>
  C21: every UDP operation completes exactly once. In any run of a new socket (packets arriving,
  binds, sends, receives that are started before an abort, reads, aborts) with distinct events, no
  event is resolved twice, none that was not given is resolved, and an event that is not resolved is
  the one receive that is waiting.
\<close>

theorem udp_completes_once:
  assumes "runs (udp_step send) s es s'" "ulog s = []" "udp_pend s = []" "distinct es"
  shows "distinct (map fst (ulog s') @ udp_pend s') \<and> set (map fst (ulog s')) \<union> set (udp_pend s') = set es \<and>
    length (udp_pend s') \<le> 1"
  using udp.exactly_once [OF assms] by (auto simp: udp_pend_def split: option.splits)

definition new_udp :: "pmem \<Rightarrow> udp_state" where
  "new_udp m = \<lparr>usock = snd (nm_lwip_create_socket True (Some 1)), ureg = False, umem = m, ulog = []\<rparr>"

theorem udp_completes_once_witness:
  "\<exists>s'. runs (udp_step (\<lambda>x ip port m. None)) (new_udp start_mem) [7, 8, 9] s' \<and>
     ulog s' = [(7, NABTO_EC_OK), (9, NABTO_EC_UDP_SOCKET_ERROR)] \<and> udp_pend s' = [8] \<and>
     set (map fst (ulog s')) \<union> set (udp_pend s') = {7, 8, 9}"
proof -
  let ?st = "udp_step (\<lambda>x ip port m. None)"
  let ?s0 = "new_udp start_mem"
  obtain s1 where s1: "nm_lwip_async_bind_port ERR_OK 7 ?s0 = Some s1" "ulog s1 = [(7, NABTO_EC_OK)]" "usock s1 = usock ?s0"
    by (auto simp: udp_defs new_udp_def nm_lwip_create_socket_def)
  obtain k2 s2 where s2: "nm_lwip_async_recv_wait 8 s1 = Some s2" "ulog s2 = ulog s1" "usock s2 = Some k2" "us_ce k2 = Some 8" "\<not> us_aborted k2"
    using s1(3) by (auto simp: udp_defs new_udp_def nm_lwip_create_socket_def Let_def)
  obtain s3 where s3: "nm_lwip_async_recv_wait 9 s2 = Some s3" "ulog s3 = ulog s2 @ [(9, NABTO_EC_UDP_SOCKET_ERROR)]" "usock s3 = Some k2"
    using s2 by (auto simp: udp_defs Let_def)
  have k1: "\<exists>k. usock s1 = Some k \<and> \<not> us_aborted k" using s1(3) by (simp add: new_udp_def nm_lwip_create_socket_def)
  have "runs ?st ?s0 [7] s1" by (rule runs_one) (rule udp_step.bind [OF s1(1)])
  then have "runs ?st ?s0 ([7] @ [8]) s2" by (rule runs.snoc) (use k1 udp_step.wait [OF _ _ s2(1)] in blast)
  then have "runs ?st ?s0 (([7] @ [8]) @ [9]) s3" by (rule runs.snoc) (rule udp_step.wait [OF s2(3,5) s3(1)])
  then have r: "runs ?st ?s0 [7, 8, 9] s3" by simp
  from udp_completes_once [OF r] have "set (map fst (ulog s3)) \<union> set (udp_pend s3) = {7, 8, 9}"
    by (simp add: new_udp_def udp_pend_def nm_lwip_create_socket_def)
  moreover have "udp_pend s3 = [8]" using s3(3) s2(4) by (simp add: udp_pend_def)
  ultimately show ?thesis using r s1(2) s2(2) s3(2) by auto
qed



text \<open>
  \<open>nm_lwip_async_sendto\<close> on a live socket hands \<^verbatim>\<open>udp_sendto\<close> one pbuf with exactly the bytes of
  the caller and the converted address, gives the pbuf back, and resolves the event once with the
  code of the result (\<^verbatim>\<open>ERR_VAL\<close> counts as success). Without memory for the pbuf it resolves the event
  with \<open>NABTO_EC_OUT_OF_MEMORY\<close> and no pbuf is left behind.
\<close>

lemma udp_sendto_correct:
  assumes "pm_inv L (umem s)" "usock s = Some k" "\<not> us_aborted k" "unat n \<le> length buffer" "sendto_ok send"
  shows "\<exists>s'. nm_lwip_async_sendto send ep buffer n e s = Some s' \<and> usock s' = usock s \<and>
    (ulog s' = ulog s @ [(e, NABTO_EC_OUT_OF_MEMORY)] \<and> pm_inv L (umem s') \<and> pb (umem s') = pb (umem s) \<or>
     (\<exists>x m2 r m3 f L'. own_packet m2 (Some x) [x] \<and> content m2 [x] = take (unat n) buffer \<and>
        send x (nm_lwip_convertip_np_to_lwip (ep_ip ep)) (ep_port ep) m2 = Some (r, m3) \<and>
        pbuf_free (Some x) m3 = Some (f, umem s') \<and> pm_inv L' (umem s') \<and> ulog s' = ulog s @ [(e, send_code r)]))"
  using async_sendto_run [OF assms, of ep e] by blast

text \<open>
  A receive started on an aborted socket is resolved twice: with \<open>NABTO_EC_ABORTED\<close> at once, and
  with \<open>NABTO_EC_OK\<close> when the next packet arrives, because it is also kept as the waiting receive.
\<close>

lemma udp_aborted_wait_resolved_twice:
  assumes "usock s = Some k" "us_aborted k" "us_ce k = None" "us_packet k = None" "deref (Some x) (umem s) = Some b"
  shows "\<exists>s1 s2. nm_lwip_async_recv_wait e s = Some s1 \<and> nm_lwip_udp_callback (Some x) a port s1 = Some s2 \<and>
    ulog s2 = ulog s @ [(e, NABTO_EC_ABORTED), (e, NABTO_EC_OK)]"
  using assms by (simp add: udp_defs Let_def)

end
