(* ===== verification/Nabto_Tcp.thy ===== *)
theory Nabto_Tcp
  imports Nabto_Udp
begin

text \<open>
  The TCP adapter, \<^verbatim>\<open>src/nabto_lwip/nm_nabto_lwip_tcp.c\<close>. The state is one socket object (\<open>None\<close> once
  it is freed), whether its protocol control block is still allocated, the memory of lwIP, the calls
  of \<^verbatim>\<open>np_completion_event_resolve\<close> with the kind of the operation, and the bytes each read stored.
  Of \<^verbatim>\<open>lwip/src/core/tcp.c\<close>, which is not modelled, the adapter relies on: the results of
  \<^verbatim>\<open>tcp_connect\<close>, \<^verbatim>\<open>tcp_write\<close>, \<^verbatim>\<open>tcp_output\<close>, \<^verbatim>\<open>tcp_close\<close>, \<^verbatim>\<open>tcp_shutdown\<close> (arguments), and that
  \<^verbatim>\<open>tcp_abort\<close> frees the control block and then calls the error callback with \<^verbatim>\<open>ERR_ABRT\<close>, unless the
  connection is in \<^verbatim>\<open>TIME_WAIT\<close>. Any call with a freed control block is \<open>None\<close>.
\<close>

datatype tcp_op = Connect | Read | Write

record np_tcp_socket =
  connectCompletionEvent :: "event option"
  readCompletionEvent :: "event option"
  readBuffer :: bytes
  readBufferLength :: nat
  inBuffer :: "ptr option"
  inBufferOffset :: u16
  remoteClosed :: bool
  t_aborted :: bool

record tcp_state =
  tsock :: "np_tcp_socket option"
  pcb_live :: bool
  tmem :: pmem
  tlog :: "(tcp_op \<times> event \<times> np_error_code) list"
  treads :: "bytes list"
  recved :: "nat list"

definition resolve_op :: "tcp_op \<Rightarrow> event \<Rightarrow> np_error_code \<Rightarrow> tcp_state \<Rightarrow> tcp_state" where
  "resolve_op ope e ec s = s\<lparr>tlog := tlog s @ [(ope, e, ec)]\<rparr>"

definition put_sock :: "np_tcp_socket \<Rightarrow> tcp_state \<Rightarrow> tcp_state" where
  "put_sock k s = s\<lparr>tsock := Some k\<rparr>"

subsection \<open>Completion of reads and connects\<close>

definition try_connect :: "tcp_state \<Rightarrow> tcp_state option" where
  "try_connect s = do {
     k \<leftarrow> tsock s;
     case connectCompletionEvent k of
       None \<Rightarrow> Some s
     | Some e \<Rightarrow> Some (resolve_op Connect e (if remoteClosed k \<or> t_aborted k then NABTO_EC_ABORTED else NABTO_EC_OK) s) }"

text \<open>\<open>read_data\<close>: the branch of \<open>try_read\<close> with data. It stores a prefix of what is left of the head pbuf.\<close>

definition read_data :: "np_tcp_socket \<Rightarrow> ptr \<Rightarrow> tcp_state \<Rightarrow> tcp_state option" where
  "read_data k x s = do {
     b \<leftarrow> pb (tmem s) x;
     let missing = pb_len b - inBufferOffset k;
     let from = shift (payload b) (int (unat (inBufferOffset k)));
     (n, k1, m1) \<leftarrow>
       (if readBufferLength k < unat missing
        then do {
          bs \<leftarrow> rd (tmem s) from (readBufferLength k);
          buf \<leftarrow> put_bytes (readBuffer k) 0 bs;
          Some (readBufferLength k,
            k\<lparr>readBuffer := buf, inBufferOffset := inBufferOffset k + of_nat (readBufferLength k)\<rparr>, tmem s) }
        else do {
          bs \<leftarrow> rd (tmem s) from (unat missing);
          buf \<leftarrow> put_bytes (readBuffer k) 0 bs;
          (f, m) \<leftarrow> pbuf_free (Some x) (tmem s);
          Some (unat missing, k\<lparr>readBuffer := buf, inBuffer := pb_next b, inBufferOffset := 0\<rparr>, m) });
     require (pcb_live s);
     Some (s\<lparr>tsock := Some k1, tmem := m1, treads := treads s @ [take n (readBuffer k1)], recved := recved s @ [n]\<rparr>) }"

definition try_read :: "tcp_state \<Rightarrow> tcp_state option" where
  "try_read s = do {
     k \<leftarrow> tsock s;
     case readCompletionEvent k of
       None \<Rightarrow> Some s
     | Some e \<Rightarrow>
         if inBuffer k = None \<and> \<not> remoteClosed k \<and> \<not> t_aborted k then Some s
         else do {
           (ec, s1) \<leftarrow> (case inBuffer k of
              Some x \<Rightarrow> do { s1 \<leftarrow> read_data k x s; Some (NABTO_EC_OK, s1) }
            | None \<Rightarrow> Some (if t_aborted k then NABTO_EC_ABORTED else NABTO_EC_EOF, s));
           k1 \<leftarrow> tsock s1;
           Some (put_sock (k1\<lparr>readCompletionEvent := None\<rparr>) (resolve_op Read e ec s1)) } }"

subsection \<open>Callbacks of the stack\<close>

definition nm_lwip_tcp_connected_callback :: "tcp_state \<Rightarrow> (err_t \<times> tcp_state) option" where
  "nm_lwip_tcp_connected_callback s = do {
     s1 \<leftarrow> try_connect s;
     k \<leftarrow> tsock s1;
     e \<leftarrow> connectCompletionEvent k;
     Some (ERR_OK, resolve_op Connect e NABTO_EC_OK s1) }"

definition nm_lwip_tcp_err_callback :: "err_t \<Rightarrow> tcp_state \<Rightarrow> tcp_state option" where
  "nm_lwip_tcp_err_callback err s = do {
     k \<leftarrow> tsock s;
     let s1 = (if err = ERR_RST \<or> err = ERR_ABRT then put_sock (k\<lparr>t_aborted := True\<rparr>) s else s);
     s2 \<leftarrow> try_read s1;
     try_connect s2 }"

definition tcp_abort :: "bool \<Rightarrow> tcp_state \<Rightarrow> tcp_state option" where
  "tcp_abort time_wait s = do {
     require (pcb_live s);
     let s1 = s\<lparr>pcb_live := False\<rparr>;
     if time_wait then Some s1 else nm_lwip_tcp_err_callback ERR_ABRT s1 }"

definition nm_lwip_tcp_recv_callback :: "bool \<Rightarrow> ptr option \<Rightarrow> err_t \<Rightarrow> tcp_state \<Rightarrow> (err_t \<times> tcp_state) option" where
  "nm_lwip_tcp_recv_callback time_wait p err s = do {
     k \<leftarrow> tsock s;
     case p of
       None \<Rightarrow> Some (ERR_OK, put_sock (k\<lparr>remoteClosed := True\<rparr>) s)
     | Some x \<Rightarrow>
         if err \<noteq> ERR_OK
         then do {
           s1 \<leftarrow> tcp_abort time_wait s;
           k1 \<leftarrow> tsock s1;
           Some (ERR_ABRT, put_sock (k1\<lparr>t_aborted := True\<rparr>) s1) }
         else do {
           s1 \<leftarrow> (case inBuffer k of
              None \<Rightarrow> Some (put_sock (k\<lparr>inBuffer := p\<rparr>) s)
            | Some h \<Rightarrow> do { m \<leftarrow> pbuf_cat (Some h) p (tmem s); Some (s\<lparr>tmem := m\<rparr>) });
           s2 \<leftarrow> try_read s1;
           Some (ERR_OK, s2) } }"

subsection \<open>Operations of the SDK\<close>

definition nm_lwip_tcp_create :: "bool \<Rightarrow> bool \<Rightarrow> np_error_code \<times> np_tcp_socket option" where
  "nm_lwip_tcp_create ok pcb =
     (if \<not> ok then (NABTO_EC_OUT_OF_MEMORY, None)
      else if \<not> pcb then (NABTO_EC_OUT_OF_MEMORY, None)
      else (NABTO_EC_OK, Some \<lparr>connectCompletionEvent = None, readCompletionEvent = None, readBuffer = [], readBufferLength = 0,
        inBuffer = None, inBufferOffset = 0, remoteClosed = False, t_aborted = False\<rparr>))"

definition nm_lwip_tcp_abort :: "bool \<Rightarrow> tcp_state \<Rightarrow> tcp_state option" where
  "nm_lwip_tcp_abort time_wait s = do { k \<leftarrow> tsock s; tcp_abort time_wait s }"

text \<open>
  The result of \<^verbatim>\<open>tcp_close\<close>, \<open>err\<close>, is only logged (the block stays allocated for \<^verbatim>\<open>ERR_MEM\<close>); the
  callbacks are unregistered, so the socket is not called again.
\<close>

definition nm_lwip_tcp_destroy :: "bool \<Rightarrow> err_t \<Rightarrow> tcp_state \<Rightarrow> tcp_state option" where
  "nm_lwip_tcp_destroy null err s =
     (if null then Some s
      else do {
        k \<leftarrow> tsock s;
        require (pcb_live s);
        Some (s\<lparr>tsock := None, pcb_live := (err = ERR_MEM)\<rparr>) })"

definition nm_lwip_tcp_async_connect :: "err_t \<Rightarrow> event \<Rightarrow> tcp_state \<Rightarrow> tcp_state option" where
  "nm_lwip_tcp_async_connect err e s = do {
     k \<leftarrow> tsock s;
     require (pcb_live s);
     let s1 = put_sock (k\<lparr>connectCompletionEvent := Some e\<rparr>) s;
     Some (if err \<noteq> ERR_OK
           then resolve_op Connect e (if err = ERR_MEM then NABTO_EC_OUT_OF_MEMORY else NABTO_EC_UNKNOWN) s1
           else s1) }"

definition nm_lwip_tcp_async_write :: "err_t \<Rightarrow> err_t \<Rightarrow> event \<Rightarrow> tcp_state \<Rightarrow> tcp_state option" where
  "nm_lwip_tcp_async_write werr oerr e s = do {
     k \<leftarrow> tsock s;
     require (pcb_live s);
     Some (if werr \<noteq> ERR_OK then resolve_op Write e NABTO_EC_UNKNOWN s
           else if oerr \<noteq> ERR_OK then resolve_op Write e NABTO_EC_UNKNOWN s
           else resolve_op Write e NABTO_EC_OK s) }"

definition nm_lwip_tcp_async_read :: "bytes \<Rightarrow> nat \<Rightarrow> event \<Rightarrow> tcp_state \<Rightarrow> tcp_state option" where
  "nm_lwip_tcp_async_read buffer buffer_len e s = do {
     k \<leftarrow> tsock s;
     if readCompletionEvent k \<noteq> None then Some (resolve_op Read e NABTO_EC_OPERATION_IN_PROGRESS s)
     else try_read (put_sock (k\<lparr>readBuffer := buffer, readBufferLength := buffer_len, readCompletionEvent := Some e\<rparr>) s) }"

definition nm_lwip_tcp_shutdown :: "tcp_state \<Rightarrow> tcp_state option" where
  "nm_lwip_tcp_shutdown s = do { k \<leftarrow> tsock s; require (pcb_live s); Some s }"

subsection \<open>Completions\<close>

text \<open>
  The steps of a socket between its creation and its destruction, with the events of the reads and
  writes they start. An error is reported by the stack after it has freed the control block.
\<close>

inductive tcp_step :: "tcp_state \<Rightarrow> event list \<Rightarrow> tcp_state \<Rightarrow> bool" where
  recv: "nm_lwip_tcp_recv_callback tw p err s = Some (r, s') \<Longrightarrow> tcp_step s [] s'"
| error: "nm_lwip_tcp_err_callback err (s\<lparr>pcb_live := False\<rparr>) = Some s' \<Longrightarrow> tcp_step s [] s'"
| connected: "nm_lwip_tcp_connected_callback s = Some (r, s') \<Longrightarrow> tcp_step s [] s'"
| connect: "nm_lwip_tcp_async_connect err e s = Some s' \<Longrightarrow> tcp_step s [] s'"
| send: "nm_lwip_tcp_async_write werr oerr e s = Some s' \<Longrightarrow> tcp_step s [e] s'"
| read: "nm_lwip_tcp_async_read buf n e s = Some s' \<Longrightarrow> tcp_step s [e] s'"
| abort: "nm_lwip_tcp_abort tw s = Some s' \<Longrightarrow> tcp_step s [] s'"
| shutdown: "nm_lwip_tcp_shutdown s = Some s' \<Longrightarrow> tcp_step s [] s'"

definition rw_log :: "tcp_state \<Rightarrow> clog" where
  "rw_log s = map snd (filter (\<lambda>(ope, _). ope \<noteq> Connect) (tlog s))"

definition tcp_pend :: "tcp_state \<Rightarrow> event list" where
  "tcp_pend s = (case tsock s of None \<Rightarrow> [] | Some k \<Rightarrow> (case readCompletionEvent k of None \<Rightarrow> [] | Some e \<Rightarrow> [e]))"

definition rw_sum :: "tcp_state \<Rightarrow> event multiset" where
  "rw_sum s = mset (map fst (rw_log s)) + mset (tcp_pend s)"

lemma rw_sum_simps [simp]:
  "rw_sum (s\<lparr>pcb_live := l\<rparr>) = rw_sum s" "rw_sum (s\<lparr>tmem := m\<rparr>) = rw_sum s"
  "rw_sum (resolve_op Connect e ec s) = rw_sum s"
  "ope \<noteq> Connect \<Longrightarrow> rw_sum (resolve_op ope e ec s) = rw_sum s + {#e#}"
  by (simp_all add: rw_sum_def rw_log_def tcp_pend_def resolve_op_def)

lemma tsock_simps [simp]: "tsock (resolve_op ope e ec s) = tsock s" "tsock (put_sock k s) = Some k" "tmem (put_sock k s) = tmem s"
  "tmem (resolve_op ope e ec s) = tmem s" "treads (put_sock k s) = treads s" "treads (resolve_op ope e ec s) = treads s"
  "pcb_live (put_sock k s) = pcb_live s" "pcb_live (resolve_op ope e ec s) = pcb_live s"
  "tlog (put_sock k s) = tlog s"
  by (simp_all add: resolve_op_def put_sock_def)

lemma rw_sum_put:
  "tsock s = Some k \<Longrightarrow> readCompletionEvent k' = readCompletionEvent k \<Longrightarrow> rw_sum (put_sock k' s) = rw_sum s"
  "tsock s = Some k \<Longrightarrow> readCompletionEvent k = Some e \<Longrightarrow> readCompletionEvent k' = None \<Longrightarrow> rw_sum (put_sock k' s) + {#e#} = rw_sum s"
  "tsock s = Some k \<Longrightarrow> readCompletionEvent k = None \<Longrightarrow> readCompletionEvent k' = Some e \<Longrightarrow> rw_sum (put_sock k' s) = rw_sum s + {#e#}"
  by (simp_all add: rw_sum_def rw_log_def tcp_pend_def put_sock_def)

lemma try_connect_sum: "try_connect s = Some s' \<Longrightarrow> rw_sum s' = rw_sum s \<and> tsock s' = tsock s"
  by (auto simp: try_connect_def bind_Some_conv split: option.splits)

lemma read_data_frame:
  assumes "read_data k x s = Some s'"
  shows "tlog s' = tlog s \<and> (\<exists>k1. tsock s' = Some k1 \<and> readCompletionEvent k1 = readCompletionEvent k)"
  using assms by (auto simp: read_data_def bind_Some_conv Let_def split: if_splits)

lemma try_read_sum:
  assumes "try_read s = Some s'"
  shows "rw_sum s' = rw_sum s"
proof -
  obtain k where k: "tsock s = Some k" using assms by (auto simp: try_read_def bind_Some_conv)
  consider "s' = s" | e ec s1 k1 where "readCompletionEvent k = Some e" "tlog s1 = tlog s" "tsock s1 = Some k1"
      "readCompletionEvent k1 = Some e" "s' = put_sock (k1\<lparr>readCompletionEvent := None\<rparr>) (resolve_op Read e ec s1)"
  proof (cases "readCompletionEvent k")
    case None
    then show ?thesis using assms k that(1) by (simp add: try_read_def)
  next
    case (Some e)
    show ?thesis
    proof (cases "inBuffer k")
      case None
      then show ?thesis using assms k Some that by (auto simp: try_read_def split: if_splits)
    next
      case b: (Some x)
      then obtain s1 k1 where "read_data k x s = Some s1" "tsock s1 = Some k1"
        "s' = put_sock (k1\<lparr>readCompletionEvent := None\<rparr>) (resolve_op Read e NABTO_EC_OK s1)"
        using assms k Some by (auto simp: try_read_def bind_Some_conv)
      then show ?thesis using read_data_frame [of k x s s1] Some that(2) by auto
    qed
  qed
  then show ?thesis
  proof cases
    case (2 e ec s1 k1)
    have "rw_sum s' + {#e#} = rw_sum s1 + {#e#}"
      using rw_sum_put(2) [of "resolve_op Read e ec s1" k1 e "k1\<lparr>readCompletionEvent := None\<rparr>"] 2 by simp
    moreover have "rw_sum s1 = rw_sum s" using 2 k by (simp add: rw_sum_def rw_log_def tcp_pend_def)
    ultimately show ?thesis by simp
  qed simp
qed

lemma err_callback_sum:
  assumes "nm_lwip_tcp_err_callback err s = Some s'"
  shows "rw_sum s' = rw_sum s"
proof -
  obtain k s2 where k: "tsock s = Some k"
    "try_read (if err = ERR_RST \<or> err = ERR_ABRT then put_sock (k\<lparr>t_aborted := True\<rparr>) s else s) = Some s2" "try_connect s2 = Some s'"
    using assms by (auto simp: nm_lwip_tcp_err_callback_def bind_Some_conv)
  then show ?thesis using try_read_sum [OF k(2)] try_connect_sum [OF k(3)] rw_sum_put(1) [OF k(1), of "k\<lparr>t_aborted := True\<rparr>"]
    by (simp split: if_splits)
qed

lemma tcp_abort_sum: "tcp_abort tw s = Some s' \<Longrightarrow> rw_sum s' = rw_sum s"
  using err_callback_sum [of ERR_ABRT "s\<lparr>pcb_live := False\<rparr>" s'] by (auto simp: tcp_abort_def bind_Some_conv Let_def split: if_splits)

lemma recv_callback_sum:
  assumes "nm_lwip_tcp_recv_callback tw p err s = Some (r, s')"
  shows "rw_sum s' = rw_sum s"
proof -
  obtain k where k: "tsock s = Some k" using assms by (auto simp: nm_lwip_tcp_recv_callback_def bind_Some_conv)
  consider "p = None" | x where "p = Some x" "err \<noteq> ERR_OK" | x where "p = Some x" "err = ERR_OK" by fastforce
  then show ?thesis
  proof cases
    case 1
    then show ?thesis using assms k rw_sum_put(1) [OF k] by (auto simp: nm_lwip_tcp_recv_callback_def)
  next
    case 2
    then obtain s1 k1 where "tcp_abort tw s = Some s1" "tsock s1 = Some k1" "s' = put_sock (k1\<lparr>t_aborted := True\<rparr>) s1"
      using assms k by (auto simp: nm_lwip_tcp_recv_callback_def bind_Some_conv)
    then show ?thesis using tcp_abort_sum rw_sum_put(1) [of s1 k1] by auto
  next
    case 3
    then show ?thesis using assms k try_read_sum rw_sum_put(1) [OF k]
      by (fastforce simp: nm_lwip_tcp_recv_callback_def bind_Some_conv split: option.splits)
  qed
qed

lemma tcp_step_sum:
  assumes "tcp_step s es s'"
  shows "rw_sum s' = rw_sum s + mset es"
  using assms
proof cases
  case recv
  then show ?thesis using recv_callback_sum by simp
next
  case error
  then show ?thesis using err_callback_sum by fastforce
next
  case connected
  then show ?thesis using try_connect_sum by (fastforce simp: nm_lwip_tcp_connected_callback_def bind_Some_conv)
next
  case connect
  then show ?thesis using rw_sum_put(1) [of s] by (auto simp: nm_lwip_tcp_async_connect_def bind_Some_conv Let_def)
next
  case send
  then show ?thesis by (auto simp: nm_lwip_tcp_async_write_def bind_Some_conv)
next
  case (read buf n e)
  then obtain k where k: "tsock s = Some k" by (auto simp: nm_lwip_tcp_async_read_def bind_Some_conv)
  show ?thesis
  proof (cases "readCompletionEvent k")
    case None
    then show ?thesis using read k try_read_sum rw_sum_put(3) [OF k] by (fastforce simp: nm_lwip_tcp_async_read_def)
  next
    case Some
    then show ?thesis using read k by (auto simp: nm_lwip_tcp_async_read_def)
  qed
next
  case abort
  then show ?thesis using tcp_abort_sum by (auto simp: nm_lwip_tcp_abort_def bind_Some_conv)
next
  case shutdown
  then show ?thesis by (auto simp: nm_lwip_tcp_shutdown_def bind_Some_conv)
qed

interpretation tcp: completion tcp_step tcp_pend rw_log
  by unfold_locales (use tcp_step_sum in \<open>simp add: rw_sum_def\<close>)

subsection \<open>The byte stream\<close>

text \<open>
  The socket as a byte stream: \<open>buffered m k rest\<close> says that the socket holds the bytes \<open>rest\<close> in one
  pbuf, and \<open>tcp_ok s rest\<close> that a read waits only when there are none.
\<close>

definition buffered :: "pmem \<Rightarrow> np_tcp_socket \<Rightarrow> bytes \<Rightarrow> bool" where
  "buffered m k rest = (case inBuffer k of
     None \<Rightarrow> rest = [] \<and> inBufferOffset k = 0
   | Some x \<Rightarrow> own_packet m (Some x) [x] \<and> unat (inBufferOffset k) < len_at (pb m) x \<and>
       rest = drop (unat (inBufferOffset k)) (content m [x]))"

lemma buffered_cong: "inBuffer k' = inBuffer k \<Longrightarrow> inBufferOffset k' = inBufferOffset k \<Longrightarrow> buffered m k' = buffered m k"
  by (auto simp: buffered_def fun_eq_iff split: option.splits)

definition tcp_ok :: "tcp_state \<Rightarrow> bytes \<Rightarrow> bool" where
  "tcp_ok s rest \<longleftrightarrow> (\<exists>k L. tsock s = Some k \<and> pm_inv L (tmem s) \<and> pcb_live s \<and> \<not> remoteClosed k \<and> \<not> t_aborted k \<and>
     buffered (tmem s) k rest \<and>
     (readCompletionEvent k \<noteq> None \<longrightarrow> rest = [] \<and> 0 < readBufferLength k \<and> readBufferLength k \<le> length (readBuffer k)))"

lemma tcp_okI:
  "tsock s = Some k \<Longrightarrow> pm_inv L (tmem s) \<Longrightarrow> pcb_live s \<Longrightarrow> \<not> remoteClosed k \<Longrightarrow> \<not> t_aborted k \<Longrightarrow>
   buffered (tmem s) k rest \<Longrightarrow>
   (readCompletionEvent k \<noteq> None \<Longrightarrow> rest = [] \<and> 0 < readBufferLength k \<and> readBufferLength k \<le> length (readBuffer k)) \<Longrightarrow>
   tcp_ok s rest"
  unfolding tcp_ok_def by blast

lemma read_data_stream:
  assumes inv: "pm_inv L (tmem s)" and buf: "buffered (tmem s) k rest" "inBuffer k = Some x" and live: "pcb_live s"
    and rb: "0 < readBufferLength k" "readBufferLength k \<le> length (readBuffer k)"
  shows "\<exists>s' k' bs L'. read_data k x s = Some s' \<and> tsock s' = Some k' \<and> pm_inv L' (tmem s') \<and> pcb_live s' \<and>
    treads s' = treads s @ [bs] \<and> bs \<noteq> [] \<and> (\<exists>rest'. rest = bs @ rest' \<and> buffered (tmem s') k' rest') \<and>
    remoteClosed k' = remoteClosed k \<and> t_aborted k' = t_aborted k"
proof -
  define off where "off = inBufferOffset k"
  have own: "own_packet (tmem s) (Some x) [x]" and o: "unat off < len_at (pb (tmem s)) x" "rest = drop (unat off) (content (tmem s) [x])"
    using buf by (simp_all add: buffered_def off_def)
  obtain b where b: "pb (tmem s) x = Some b" "in_buf (tmem s) (payload b) (unat (pb_len b))" "pb_next b = None"
    using own by (auto simp: own_packet_def)
  have lp: "length (pay (tmem s) x) = unat (pb_len b)" using length_pay [OF b(1,2)] .
  have ub: "unat off < unat (pb_len b)" using o(1) b(1) by (simp add: len_at_def)
  have mis: "unat (pb_len b - off) = unat (pb_len b) - unat off" using ub by (intro unat_sub) (simp add: word_le_nat_alt)
  have rest: "rest = drop (unat off) (pay (tmem s) x)" using o(2) by simp
  have put: "put_bytes (readBuffer k) 0 (take n rest) = Some (overwrite 0 (take n rest) (readBuffer k))"
      "take n (overwrite 0 (take n rest) (readBuffer k)) = take n rest" if "n \<le> length (readBuffer k)" "n \<le> length rest" for n
    using that by (auto simp: put_bytes_def overwrite_def)
  show ?thesis
  proof (cases "readBufferLength k < unat (pb_len b - off)")
    case True
    define n where "n = readBufferLength k"
    have n: "unat off + n < unat (pb_len b)" using True mis by (simp add: n_def)
    then have r: "rd (tmem s) (shift (payload b) (int (unat off))) n = Some (take n rest)" using rd_pay [OF b(1,2), of "unat off" n] rest by simp
    have nr: "n < length rest" using n rest lp by simp
    have add: "unat (off + of_nat n) = unat off + n"
      using n unat_of_nat_small [where 'a = 16, of n] unat16_less [of "pb_len b"] by (subst unat_add_no_overflow) auto
    define k' where "k' = k\<lparr>readBuffer := overwrite 0 (take n rest) (readBuffer k), inBufferOffset := off + of_nat n\<rparr>"
    define s' where "s' = s\<lparr>tsock := Some k', treads := treads s @ [take n rest], recved := recved s @ [n]\<rparr>"
    have "read_data k x s = Some s'"
      using b(1) True r put [of n] rb(2) nr live unfolding read_data_def s'_def k'_def by (simp add: Let_def n_def off_def)
    moreover have "buffered (tmem s') k' (drop n rest)"
      using own buf(2) n b(1) add rest by (simp add: buffered_def k'_def s'_def len_at_def drop_drop add.commute)
    ultimately show ?thesis using inv live rb(1) nr by (intro exI [of _ s'] exI [of _ k'] exI [of _ "take n rest"] exI [of _ L])
        (auto simp: s'_def k'_def n_def intro!: exI [of _ "drop (readBufferLength k) rest"])
  next
    case False
    define n where "n = unat (pb_len b - off)"
    have nr: "n = length rest" "0 < n" using mis rest lp ub by (auto simp: n_def)
    have r: "rd (tmem s) (shift (payload b) (int (unat off))) n = Some rest"
      using rd_pay [OF b(1,2), of "unat off" n] rest nr(1) mis ub by (simp add: n_def)
    have "chain (pb (tmem s)) (Some x) [x]" "refs_pos (pb (tmem s)) [x]" using own unfolding own_packet_def by blast+
    then obtain f m L' where f: "pbuf_free (Some x) (tmem s) = Some (f, m)" "pm_inv L' m" using free_own [OF inv] by blast
    define k' where "k' = k\<lparr>readBuffer := overwrite 0 rest (readBuffer k), inBuffer := None, inBufferOffset := 0\<rparr>"
    define s' where "s' = s\<lparr>tsock := Some k', tmem := m, treads := treads s @ [rest], recved := recved s @ [n]\<rparr>"
    have "read_data k x s = Some s'"
      using b(1,3) False r put [of n] rb(2) nr f(1) live unfolding read_data_def s'_def k'_def by (simp add: Let_def n_def off_def)
    moreover have "buffered (tmem s') k' []" by (simp add: buffered_def k'_def)
    ultimately show ?thesis using f(2) live nr by (intro exI [of _ s'] exI [of _ k'] exI [of _ rest] exI [of _ L']) (auto simp: s'_def k'_def)
  qed
qed

text \<open>With a read waiting and data at hand, \<open>try_read\<close> completes the read.\<close>

lemma try_read_stream:
  assumes k: "tsock s = Some k" "readCompletionEvent k = Some e" and inv: "pm_inv L (tmem s)" "pcb_live s"
    and fl: "\<not> remoteClosed k" "\<not> t_aborted k" and buf: "buffered (tmem s) k rest"
    and rb: "0 < readBufferLength k" "readBufferLength k \<le> length (readBuffer k)"
  shows "\<exists>s' bs rest'. try_read s = Some s' \<and> tcp_ok s' rest' \<and> concat (treads s') = concat (treads s) @ bs \<and> rest = bs @ rest'"
proof (cases "inBuffer k")
  case None
  then have "try_read s = Some s" "rest = []" using k fl buf by (simp_all add: try_read_def buffered_def)
  moreover have "tcp_ok s []" using calculation(2) k inv fl buf rb by (intro tcp_okI [of s k L]) auto
  ultimately show ?thesis by auto
next
  case (Some x)
  obtain s1 k1 bs L' rest' where r: "read_data k x s = Some s1" "tsock s1 = Some k1" "pm_inv L' (tmem s1)" "pcb_live s1"
    "treads s1 = treads s @ [bs]" "rest = bs @ rest'" "buffered (tmem s1) k1 rest'" "remoteClosed k1 = remoteClosed k" "t_aborted k1 = t_aborted k"
    using read_data_stream [OF inv(1) buf Some inv(2) rb] by blast
  define s' where "s' = put_sock (k1\<lparr>readCompletionEvent := None\<rparr>) (resolve_op Read e NABTO_EC_OK s1)"
  have "try_read s = Some s'" using k Some r(1,2) by (simp add: try_read_def s'_def)
  moreover have "buffered (tmem s1) (k1\<lparr>readCompletionEvent := None\<rparr>) rest'"
    using r(7) buffered_cong [of "k1\<lparr>readCompletionEvent := None\<rparr>" k1] by simp
  then have "tcp_ok s' rest'" using r fl by (intro tcp_okI [of s' "k1\<lparr>readCompletionEvent := None\<rparr>" L']) (auto simp: s'_def)
  moreover have "treads s' = treads s @ [bs]" using r(5) by (simp add: s'_def)
  ultimately show ?thesis using r(6) by auto
qed

text \<open>
  The traffic of an open connection, with the bytes that arrive: a packet of one pbuf while the
  socket holds no data, a read, and any step of the stack that leaves the packet of the socket alone.
\<close>

inductive tcp_data :: "tcp_state \<Rightarrow> bytes \<Rightarrow> tcp_state \<Rightarrow> bool" where
  arrive: "tsock s = Some k \<Longrightarrow> inBuffer k = None \<Longrightarrow> own_packet (tmem s) (Some x) [x] \<Longrightarrow> 0 < len_at (pb (tmem s)) x \<Longrightarrow>
     nm_lwip_tcp_recv_callback tw (Some x) ERR_OK s = Some (r, s') \<Longrightarrow> tcp_data s (content (tmem s) [x]) s'"
| read: "0 < n \<Longrightarrow> n \<le> length buf \<Longrightarrow> nm_lwip_tcp_async_read buf n e s = Some s' \<Longrightarrow> tcp_data s [] s'"
| stack: "tsock s = Some k \<Longrightarrow> pm_inv L m \<Longrightarrow> (\<And>rest. buffered (tmem s) k rest \<Longrightarrow> buffered m k rest) \<Longrightarrow> tcp_data s [] (s\<lparr>tmem := m\<rparr>)"

inductive tcp_stream :: "tcp_state \<Rightarrow> bytes \<Rightarrow> tcp_state \<Rightarrow> bool" where
  refl: "tcp_stream s [] s"
| snoc: "tcp_stream s bs s1 \<Longrightarrow> tcp_data s1 cs s2 \<Longrightarrow> tcp_stream s (bs @ cs) s2"

lemma tcp_data_ok:
  assumes ok: "tcp_ok s rest" and st: "tcp_data s cs s'"
  shows "\<exists>bs rest'. tcp_ok s' rest' \<and> concat (treads s') = concat (treads s) @ bs \<and> rest @ cs = bs @ rest'"
proof -
  obtain k L where k: "tsock s = Some k" "pm_inv L (tmem s)" "pcb_live s" "\<not> remoteClosed k" "\<not> t_aborted k" "buffered (tmem s) k rest"
    "readCompletionEvent k \<noteq> None \<longrightarrow> rest = [] \<and> 0 < readBufferLength k \<and> readBufferLength k \<le> length (readBuffer k)"
    using ok unfolding tcp_ok_def by blast
  show ?thesis using st
  proof cases
    case (arrive k' x tw r)
    define k1 where "k1 = k\<lparr>inBuffer := Some x\<rparr>"
    have kk: "inBuffer k = None" using arrive(2,3) k(1) by simp
    then have rest: "rest = []" "inBufferOffset k = 0" using k(6) by (simp_all add: buffered_def)
    have tr: "try_read (put_sock k1 s) = Some s'" using arrive(6) k(1) kk by (auto simp: nm_lwip_tcp_recv_callback_def bind_Some_conv k1_def)
    have b1: "buffered (tmem s) k1 cs" using arrive(1,4,5) rest(2) by (simp add: buffered_def k1_def)
    show ?thesis
    proof (cases "readCompletionEvent k")
      case None
      then have "s' = put_sock k1 s" using tr by (simp add: try_read_def k1_def)
      then show ?thesis using k b1 None rest(1) by (intro exI [of _ "[]"] exI [of _ cs]) (auto simp: k1_def intro!: tcp_okI [of _ k1 L])
    next
      case (Some e)
      then show ?thesis using try_read_stream [of "put_sock k1 s" k1 e L cs] tr k b1 rest(1) by (auto simp: k1_def)
    qed
  next
    case (read n buf e)
    show ?thesis
    proof (cases "readCompletionEvent k")
      case None
      define k1 where "k1 = k\<lparr>readBuffer := buf, readBufferLength := n, readCompletionEvent := Some e\<rparr>"
      have "try_read (put_sock k1 s) = Some s'" using read(4) k(1) None by (simp add: nm_lwip_tcp_async_read_def k1_def)
      moreover have "buffered (tmem s) k1 rest" using k(6) buffered_cong [of k1 k] by (simp add: k1_def)
      ultimately show ?thesis using try_read_stream [of "put_sock k1 s" k1 e L rest] k read by (auto simp: k1_def)
    next
      case (Some e')
      then have "s' = resolve_op Read e NABTO_EC_OPERATION_IN_PROGRESS s" using read(4) k(1) by (simp add: nm_lwip_tcp_async_read_def)
      then show ?thesis using k read(1) by (intro exI [of _ "[]"] exI [of _ rest]) (auto intro!: tcp_okI [of _ k L])
    qed
  next
    case (stack k' L' m)
    then show ?thesis using k by (intro exI [of _ "[]"] exI [of _ rest]) (auto intro!: tcp_okI [of _ k L'])
  qed
qed

lemma tcp_stream_ok:
  "tcp_stream s bs s' \<Longrightarrow> tcp_ok s rest \<Longrightarrow> \<exists>rest'. tcp_ok s' rest' \<and> concat (treads s) @ rest @ bs = concat (treads s') @ rest'"
proof (induction rule: tcp_stream.induct)
  case (snoc s bs s1 cs s2)
  then obtain r1 where r1: "tcp_ok s1 r1" "concat (treads s) @ rest @ bs = concat (treads s1) @ r1" by blast
  from tcp_data_ok [OF r1(1) snoc.hyps(2)] obtain ds r2 where
    r2: "tcp_ok s2 r2" "concat (treads s2) = concat (treads s1) @ ds" "r1 @ cs = ds @ r2" by blast
  have "concat (treads s) @ rest @ bs @ cs = concat (treads s1) @ r1 @ cs" using arg_cong [OF r1(2), of "\<lambda>z. z @ cs"] by simp
  then show ?case using r2 by auto
qed auto


subsection \<open>Properties\<close>


definition new_tcp :: "pmem \<Rightarrow> tcp_state" where
  "new_tcp m = \<lparr>tsock = snd (nm_lwip_tcp_create True True), pcb_live = True, tmem = m, tlog = [], treads = [], recved = []\<rparr>"




text \<open>
  C38: a read that consumes the head of a chain of pbufs frees the whole chain and keeps a pointer
  into it. The read itself completes with the bytes of the head, but the bytes of the other pbufs
  are gone: the next read touches freed memory.
\<close>

theorem tcp_read_chain_dangling:
  assumes "pm_inv L (tmem s)" "own_packet (tmem s) (Some x) (x # y # ys)"
    and "list_all (\<lambda>z. \<exists>b. pb (tmem s) z = Some b \<and> pb_ref b = 1) (x # y # ys)"
    and "tsock s = Some k" "inBuffer k = Some x" "inBufferOffset k = 0" "readCompletionEvent k = None" "pcb_live s"
    and "len_at (pb (tmem s)) x \<le> n" "n \<le> length buf"
  shows "\<exists>s1. nm_lwip_tcp_async_read buf n e s = Some s1 \<and> treads s1 = treads s @ [take (len_at (pb (tmem s)) x) (content (tmem s) (x # y # ys))] \<and>
    nm_lwip_tcp_async_read buf' n' e' s1 = None"
proof -
  obtain b where b: "pb (tmem s) x = Some b" "in_buf (tmem s) (payload b) (unat (pb_len b))" "pb_next b = Some y"
    using assms(2) own_packet_tl [OF assms(2)] by (auto simp: own_packet_def)
  have lp: "length (pay (tmem s) x) = unat (pb_len b)" using length_pay [OF b(1,2)] .
  have "chain (pb (tmem s)) (Some x) (x # y # ys)" "refs_pos (pb (tmem s)) (x # y # ys)" using assms(2) unfolding own_packet_def by blast+
  from pbuf_free_chain [OF assms(1) this] obtain f m where f: "pbuf_free (Some x) (tmem s) = Some (f, m)" "pb m = unref (pb (tmem s)) (x # y # ys)"
    by blast
  have "distinct (x # y # ys)" using chain_distinct assms(2) unfolding own_packet_def by blast
  from unref_all [OF this assms(3)] have dead: "pb m y = None" unfolding f(2) by simp
  define k1 where "k1 = k\<lparr>readBuffer := overwrite 0 (pay (tmem s) x) buf, readBufferLength := n, inBuffer := Some y, inBufferOffset := 0,
    readCompletionEvent := None\<rparr>"
  define n1 where "n1 = unat (pb_len b)"
  define s1 where "s1 = s\<lparr>tsock := Some k1, tmem := m, treads := treads s @ [pay (tmem s) x], recved := recved s @ [n1],
    tlog := tlog s @ [(Read, e, NABTO_EC_OK)]\<rparr>"
  have n: "\<not> n < n1" "n1 \<le> length buf" using assms(9,10) b(1) by (simp_all add: len_at_def n1_def)
  have sh: "shift (payload b) 0 = payload b" by simp
  have rd: "rd (tmem s) (payload b) n1 = Some (pay (tmem s) x)" using rd_pay [OF b(1,2), of 0 n1] lp sh by (simp add: n1_def)
  have put: "put_bytes buf 0 (pay (tmem s) x) = Some (overwrite 0 (pay (tmem s) x) buf)" "take n1 (overwrite 0 (pay (tmem s) x) buf) = pay (tmem s) x"
    using n(2) lp by (simp_all add: put_bytes_def n1_def overwrite_def)
  have "nm_lwip_tcp_async_read buf n e s = Some s1"
    using assms(4-8) b(1,3) n(1) rd put f(1) sh
    by (simp add: nm_lwip_tcp_async_read_def try_read_def read_data_def put_sock_def resolve_op_def Let_def s1_def k1_def flip: n1_def)
  moreover have "nm_lwip_tcp_async_read buf' n' e' s1 = None"
    using dead by (simp add: nm_lwip_tcp_async_read_def try_read_def read_data_def put_sock_def s1_def k1_def)
  moreover have "treads s1 = treads s @ [take (len_at (pb (tmem s)) x) (content (tmem s) (x # y # ys))]"
    using lp b(1) by (simp add: s1_def len_at_def)
  ultimately show ?thesis by blast
qed

definition link :: "ptr option \<Rightarrow> nat \<Rightarrow> u16 \<Rightarrow> u16 \<Rightarrow> pbuf" where
  "link nxt i tot n = \<lparr>pb_next = nxt, payload = Some (Own (Custom i), 0), tot_len = tot, pb_len = n, type_internal = 0x41,
     pb_flags = PBUF_FLAG_IS_CUSTOM, pb_ref = 1, if_idx = 0\<rparr>"

definition link_mem :: pmem where
  "link_mem = start_mem\<lparr>pb := [Custom 0 \<mapsto> link (Some (Custom 1)) 0 3 2, Custom 1 \<mapsto> link None 1 1 1],
     dat := (dat start_mem)(Own (Custom 0) := [10, 20], Own (Custom 1) := [30]), custom_fn := (\<lambda>_. Some 0)\<rparr>"

lemma link_mem_ok:
  "pm_inv (Map.empty, {}, {}) link_mem" "own_packet link_mem (Some (Custom 0)) [Custom 0, Custom 1]"
  "list_all (\<lambda>z. \<exists>b. pb link_mem z = Some b \<and> pb_ref b = 1) [Custom 0, Custom 1]"
  "content link_mem [Custom 0, Custom 1] = [10, 20, 30]" "len_at (pb link_mem) (Custom 0) = 2"
proof -
  have "alloc_inv (Map.empty, {}, {}) link_mem" using start_inv by (simp add: pm_inv_def link_mem_def)
  then show "pm_inv (Map.empty, {}, {}) link_mem" by (auto simp: pm_inv_def link_mem_def link_def label_ok_def)
  show "own_packet link_mem (Some (Custom 0)) [Custom 0, Custom 1]"
    by (simp add: own_packet_def link_mem_def link_def len_at_def in_buf_def buf_at_def refs_pos_def)
qed (simp_all add: link_mem_def link_def pay_def bytes_at_def len_at_def)

theorem tcp_read_chain_dangling_witness:
  "\<exists>s s1 s2. nm_lwip_tcp_recv_callback False (Some (Custom 0)) ERR_OK (new_tcp link_mem) = Some (ERR_OK, s) \<and>
     nm_lwip_tcp_async_read [0, 0, 0] 3 7 s = Some s1 \<and> treads s1 = [[10, 20]] \<and> nm_lwip_tcp_async_read [0, 0, 0] 3 8 s1 = None"
proof -
  obtain s k where s: "nm_lwip_tcp_recv_callback False (Some (Custom 0)) ERR_OK (new_tcp link_mem) = Some (ERR_OK, s)"
    "tmem s = link_mem" "treads s = []" "tsock s = Some k" "inBuffer k = Some (Custom 0)" "inBufferOffset k = 0"
    "readCompletionEvent k = None" "pcb_live s"
    by (simp add: new_tcp_def nm_lwip_tcp_create_def nm_lwip_tcp_recv_callback_def try_read_def put_sock_def)
  from tcp_read_chain_dangling [of "(Map.empty, {}, {})" s "Custom 0" "Custom 1" "[]" k 3 "[0, 0, 0]" 7 "[0, 0, 0]" 3 8]
  show ?thesis using s link_mem_ok by (auto simp del: content_simps)
qed

text \<open>
  A successful connect is resolved twice: the callback of the stack resolves the event in
  \<open>try_connect\<close> and again itself.
\<close>

lemma tcp_connect_resolved_twice:
  assumes "tsock s = Some k" "pcb_live s" "\<not> remoteClosed k" "\<not> t_aborted k"
  shows "\<exists>s1 s2. nm_lwip_tcp_async_connect ERR_OK e s = Some s1 \<and> nm_lwip_tcp_connected_callback s1 = Some (ERR_OK, s2) \<and>
    tlog s2 = tlog s @ [(Connect, e, NABTO_EC_OK), (Connect, e, NABTO_EC_OK)]"
  using assms by (simp add: nm_lwip_tcp_async_connect_def nm_lwip_tcp_connected_callback_def try_connect_def put_sock_def resolve_op_def Let_def)

end
