(* ===== verification/Nabto_Dns.thy ===== *)
theory Nabto_Dns
  imports Nabto_Udp Pkt_List
begin

text \<open>
  The DNS and local address adapters, \<^verbatim>\<open>src/nabto_lwip/nm_nabto_lwip.c\<close> from \<^verbatim>\<open>dns_resolve_event\<close> to
  \<^verbatim>\<open>nm_lwip_async_resolve_ipv6\<close>, and \<^verbatim>\<open>nm_lwip_get_local_ips\<close>. The result of
  \<^verbatim>\<open>dns_gethostbyname_addrtype\<close> (with the address it stores) is an argument; a request it answers with
  \<^verbatim>\<open>ERR_INPROGRESS\<close> is in its table until it calls the callback with the event object. The output
  variables of a request, \<^verbatim>\<open>ips\<close> and \<^verbatim>\<open>*ips_resolved\<close>, are found by its completion event.
\<close>

record dns_resolve_event =
  ev_ips_size :: nat
  ev_completion_event :: event
  ev_addr_type :: u8

record dns_state =
  dns_events :: "dns_resolve_event cheap"
  dns_table :: "nat list"
  dns_ips :: "event \<Rightarrow> np_ip_address list"
  dns_resolved :: "event \<Rightarrow> nat option"
  dlog :: clog

definition answer :: "event \<Rightarrow> ip_addr \<Rightarrow> dns_state \<Rightarrow> dns_state option" where
  "answer e addr s = do {
     require (0 < length (dns_ips s e));
     Some (s\<lparr>dns_resolved := (dns_resolved s)(e \<mapsto> 1),
       dns_ips := (dns_ips s)(e := (dns_ips s e)[0 := nm_lwip_convertip_lwip_to_np addr]), dlog := dlog s @ [(e, NABTO_EC_OK)]\<rparr>) }"

text \<open>The callback; \<open>addr = None\<close> is a request that failed. The event object is not freed.\<close>

definition nm_lwip_dns_resolve_callback :: "ip_addr option \<Rightarrow> nat \<Rightarrow> dns_state \<Rightarrow> dns_state option" where
  "nm_lwip_dns_resolve_callback addr a s = do {
     ev \<leftarrow> cells (dns_events s) a;
     case addr of
       Some ip \<Rightarrow>
         if ip_type ip = ev_addr_type ev \<and> ev_ips_size ev \<ge> 1 then answer (ev_completion_event ev) ip s
         else Some (s\<lparr>dlog := dlog s @ [(ev_completion_event ev, NABTO_EC_UNKNOWN)]\<rparr>)
     | None \<Rightarrow> Some (s\<lparr>dlog := dlog s @ [(ev_completion_event ev, NABTO_EC_UNKNOWN)]\<rparr>) }"

definition nm_lwip_async_resolve ::
    "bool \<Rightarrow> (u8 \<Rightarrow> err_t \<times> ip_addr) \<Rightarrow> nat \<Rightarrow> event \<Rightarrow> u8 \<Rightarrow> dns_state \<Rightarrow> dns_state option" where
  "nm_lwip_async_resolve ok dns_gethostbyname ips_size e addr_type s = do {
     require ok;
     let (a, h) = c_malloc \<lparr>ev_ips_size = ips_size, ev_completion_event = e, ev_addr_type = addr_type\<rparr> (dns_events s);
     let s1 = s\<lparr>dns_events := h\<rparr>;
     let dns_addrtype = (if addr_type = IPADDR_TYPE_V4 then 0 else 1);
     let (err, resolved) = dns_gethostbyname dns_addrtype;
     if err = ERR_OK then do {
       h1 \<leftarrow> c_free a h;
       answer e resolved (s1\<lparr>dns_events := h1\<rparr>) }
     else if err = ERR_INPROGRESS then Some (s1\<lparr>dns_table := dns_table s1 @ [a]\<rparr>)
     else Some (s1\<lparr>dlog := dlog s1 @ [(e, NABTO_EC_UNKNOWN)]\<rparr>) }"

definition nm_lwip_async_resolve_ipv4 :: "bool \<Rightarrow> (u8 \<Rightarrow> err_t \<times> ip_addr) \<Rightarrow> nat \<Rightarrow> event \<Rightarrow> dns_state \<Rightarrow> dns_state option" where
  "nm_lwip_async_resolve_ipv4 ok dns_gethostbyname ips_size e s =
     nm_lwip_async_resolve ok dns_gethostbyname ips_size e IPADDR_TYPE_V4 s"

definition nm_lwip_async_resolve_ipv6 :: "bool \<Rightarrow> (u8 \<Rightarrow> err_t \<times> ip_addr) \<Rightarrow> nat \<Rightarrow> event \<Rightarrow> dns_state \<Rightarrow> dns_state option" where
  "nm_lwip_async_resolve_ipv6 ok dns_gethostbyname ips_size e s =
     nm_lwip_async_resolve ok dns_gethostbyname ips_size e IPADDR_TYPE_V6 s"

text \<open>The address of the interface is an argument; the result has the number of addresses stored.\<close>

definition nm_lwip_get_local_ips :: "ip_addr \<Rightarrow> np_ip_address list \<Rightarrow> nat \<times> np_ip_address list" where
  "nm_lwip_get_local_ips netif_ip4 addrs =
     (if length addrs > 1 then (1, addrs[0 := nm_lwip_convertip_lwip_to_np netif_ip4]) else (0, addrs))"

subsection \<open>Completions\<close>

text \<open>
  The steps: a request (with its event), and a callback for a request in the table, which leaves it.
\<close>

inductive dns_step :: "dns_state \<Rightarrow> event list \<Rightarrow> dns_state \<Rightarrow> bool" where
  resolve4: "nm_lwip_async_resolve_ipv4 ok q n e s = Some s' \<Longrightarrow> dns_step s [e] s'"
| resolve6: "nm_lwip_async_resolve_ipv6 ok q n e s = Some s' \<Longrightarrow> dns_step s [e] s'"
| callback: "a \<in> set (dns_table s) \<Longrightarrow> nm_lwip_dns_resolve_callback addr a s = Some s' \<Longrightarrow>
     dns_step s [] (s'\<lparr>dns_table := remove1 a (dns_table s)\<rparr>)"

definition event_of :: "dns_resolve_event cheap \<Rightarrow> nat \<Rightarrow> event" where
  "event_of h a = (case cells h a of None \<Rightarrow> 0 | Some ev \<Rightarrow> ev_completion_event ev)"

definition dns_pend :: "dns_state \<Rightarrow> event list" where
  "dns_pend s = map (event_of (dns_events s)) (dns_table s)"

definition dns_ok :: "dns_state \<Rightarrow> bool" where
  "dns_ok s \<longleftrightarrow> cheap_ok (dns_events s) \<and> distinct (dns_table s) \<and> (\<forall>a \<in> set (dns_table s). cells (dns_events s) a \<noteq> None)"

definition dns_inv_step :: "dns_state \<Rightarrow> event list \<Rightarrow> dns_state \<Rightarrow> bool" where
  "dns_inv_step s es s' \<longleftrightarrow> dns_ok s \<and> dns_step s es s'"

lemma answer_frame: "answer e ip s = Some s' \<Longrightarrow> dns_events s' = dns_events s \<and> dns_table s' = dns_table s \<and> dlog s' = dlog s @ [(e, NABTO_EC_OK)]"
  by (auto simp: answer_def bind_Some_conv)

lemma callback_frame:
  assumes "nm_lwip_dns_resolve_callback addr a s = Some s'"
  shows "dns_events s' = dns_events s \<and> dns_table s' = dns_table s \<and> (\<exists>ec. dlog s' = dlog s @ [(event_of (dns_events s) a, ec)])"
  using assms answer_frame by (auto simp: nm_lwip_dns_resolve_callback_def bind_Some_conv event_of_def split: option.splits if_splits)

lemma callback_sum:
  assumes a: "a \<in> set (dns_table s)" and c: "nm_lwip_dns_resolve_callback addr a s = Some s'" and t: "s'' = s'\<lparr>dns_table := remove1 a (dns_table s)\<rparr>"
  shows "mset (map fst (dlog s'')) + mset (dns_pend s'') = mset (map fst (dlog s)) + mset (dns_pend s)"
proof -
  obtain ec where f: "dns_events s' = dns_events s" "dlog s' = dlog s @ [(event_of (dns_events s) a, ec)]" using callback_frame [OF c] by blast
  have "mset (map (event_of (dns_events s)) (dns_table s)) = add_mset (event_of (dns_events s) a) (mset (map (event_of (dns_events s)) (remove1 a (dns_table s))))"
    using a by (simp add: mset_remove1 image_mset_Diff insert_DiffM)
  moreover have "event_of (dns_events s'') = event_of (dns_events s)" using f(1) t by (simp add: event_of_def fun_eq_iff)
  ultimately show ?thesis using f(2) t by (simp add: dns_pend_def)
qed

lemma new_event_pend:
  assumes "dns_ok s" "c_malloc ev (dns_events s) = (a, h)"
  shows "a \<notin> set (dns_table s)" "map (event_of h) (dns_table s) = dns_pend s"
    "cells h a = Some ev" "cheap_ok h" "\<And>b. b \<noteq> a \<Longrightarrow> cells h b = cells (dns_events s) b" "cells (dns_events s) a = None"
proof -
  show na: "a \<notin> set (dns_table s)" using assms by (force simp: dns_ok_def c_malloc_def cheap_ok_def)
  have h: "h = \<lparr>cells = (cells (dns_events s))(a \<mapsto> ev), brk = Suc a\<rparr>" "a = brk (dns_events s)" using assms(2) by (auto simp: c_malloc_def)
  then show "map (event_of h) (dns_table s) = dns_pend s"
    using na by (auto simp: dns_pend_def event_of_def)
qed (use assms in \<open>auto simp: dns_ok_def c_malloc_def cheap_ok_def\<close>)


lemma resolve_step:
  assumes ok: "dns_ok s" and r: "nm_lwip_async_resolve okm q n e t s = Some s'"
  shows "dns_ok s' \<and> mset (map fst (dlog s')) + mset (dns_pend s') = mset (map fst (dlog s)) + mset (dns_pend s) + {#e#}"
proof -
  define ev where "ev = \<lparr>ev_ips_size = n, ev_completion_event = e, ev_addr_type = t\<rparr>"
  obtain a h where h: "c_malloc ev (dns_events s) = (a, h)" by (cases "c_malloc ev (dns_events s)")
  note new = new_event_pend [OF ok h]
  obtain err ip where q: "q (if t = IPADDR_TYPE_V4 then 0 else 1) = (err, ip)" by (cases "q (if t = IPADDR_TYPE_V4 then 0 else 1)")
  define s1 where "s1 = s\<lparr>dns_events := h\<rparr>"
  have okm: okm using r by (auto simp: nm_lwip_async_resolve_def bind_Some_conv)
  have res: "(if err = ERR_OK then do { h1 \<leftarrow> c_free a h; answer e ip (s1\<lparr>dns_events := h1\<rparr>) }
      else if err = ERR_INPROGRESS then Some (s1\<lparr>dns_table := dns_table s1 @ [a]\<rparr>)
      else Some (s1\<lparr>dlog := dlog s1 @ [(e, NABTO_EC_UNKNOWN)]\<rparr>)) = Some s'"
    using r h q okm by (cases "err = ERR_OK"; cases "err = ERR_INPROGRESS") (simp_all add: nm_lwip_async_resolve_def Let_def s1_def ev_def)
  have same: "cells h b = cells (dns_events s) b" if "b \<in> set (dns_table s)" for b by (rule new(5)) (use that new(1) in auto)
  have ok1: "cheap_ok h" "distinct (dns_table s)" "\<forall>b \<in> set (dns_table s). cells h b \<noteq> None"
    using same new(4) ok by (auto simp: dns_ok_def)
  consider "err = ERR_OK" | "err = ERR_INPROGRESS" | "err \<noteq> ERR_OK" "err \<noteq> ERR_INPROGRESS" by blast
  then show ?thesis
  proof cases
    case 1
    define h1 where "h1 = h\<lparr>cells := (cells h)(a := None)\<rparr>"
    have "answer e ip (s1\<lparr>dns_events := h1\<rparr>) = Some s'" using res 1 new(3) by (simp add: c_free_def h1_def)
    then have f: "dns_events s' = h1" "dns_table s' = dns_table s" "dlog s' = dlog s @ [(e, NABTO_EC_OK)]" using answer_frame by (auto simp: s1_def)
    have "cells h1 = cells (dns_events s)" using new(5,6) by (auto simp: h1_def fun_eq_iff)
    then have "dns_pend s' = dns_pend s" using f by (simp add: dns_pend_def event_of_def)
    moreover have "cheap_ok h1" unfolding h1_def using new(3,4) by (intro cheap_ok_upd) auto
    ultimately show ?thesis using f ok \<open>cells h1 = cells (dns_events s)\<close> by (simp add: dns_ok_def)
  next
    case 2
    then have s': "s' = s1\<lparr>dns_table := dns_table s @ [a]\<rparr>" using res by (simp add: s1_def)
    have "event_of (dns_events s') a = e" using new(3) by (simp add: s' s1_def event_of_def ev_def)
    moreover have "map (event_of (dns_events s')) (dns_table s) = dns_pend s" using new(2) by (simp add: s' s1_def event_of_def)
    ultimately have "dns_pend s' = dns_pend s @ [e]" unfolding dns_pend_def [of s'] by (simp add: s' s1_def)
    moreover have "dns_ok s'" using ok1 new(1,3) by (simp add: s' s1_def dns_ok_def)
    ultimately show ?thesis by (simp add: s' s1_def)
  next
    case 3
    then have s': "s' = s1\<lparr>dlog := dlog s @ [(e, NABTO_EC_UNKNOWN)]\<rparr>" using res by (simp add: s1_def)
    have "dns_pend s' = dns_pend s" using new(2) by (simp add: s' s1_def dns_pend_def event_of_def)
    then show ?thesis using ok1 by (simp add: s' s1_def dns_ok_def)
  qed
qed

lemma callback_ok:
  assumes "dns_ok s" "nm_lwip_dns_resolve_callback addr a s = Some s'"
  shows "dns_ok (s'\<lparr>dns_table := remove1 a (dns_table s)\<rparr>)"
  using assms callback_frame [OF assms(2)] by (auto simp: dns_ok_def dest: notin_set_remove1 set_remove1_subset [THEN subsetD])

lemma dns_step_sum:
  assumes "dns_inv_step s es s'"
  shows "mset (map fst (dlog s')) + mset (dns_pend s') = mset (map fst (dlog s)) + mset (dns_pend s) + mset es"
proof -
  have ok: "dns_ok s" and "dns_step s es s'" using assms by (simp_all add: dns_inv_step_def)
  from this(2) show ?thesis
  proof cases
    case resolve4
    then show ?thesis using resolve_step [OF ok] by (fastforce simp: nm_lwip_async_resolve_ipv4_def)
  next
    case resolve6
    then show ?thesis using resolve_step [OF ok] by (fastforce simp: nm_lwip_async_resolve_ipv6_def)
  next
    case (callback a addr s1)
    then show ?thesis using callback_sum [OF callback(3,4) callback(2)] by simp
  qed
qed

interpretation dns: completion dns_inv_step dns_pend dlog
  by unfold_locales (rule dns_step_sum)

lemma dns_runs:
  assumes "runs dns_step s es s'" "dns_ok s"
  shows "runs dns_inv_step s es s' \<and> dns_ok s'"
  using assms
proof (induction rule: runs.induct)
  case (snoc s es s1 ds s2)
  then have ok: "dns_ok s1" and r: "runs dns_inv_step s es s1" by simp_all
  have "dns_ok s2" using snoc.hyps(2)
  proof cases
    case resolve4
    then show ?thesis using resolve_step [OF ok] by (fastforce simp: nm_lwip_async_resolve_ipv4_def)
  next
    case resolve6
    then show ?thesis using resolve_step [OF ok] by (fastforce simp: nm_lwip_async_resolve_ipv6_def)
  next
    case (callback a addr s3)
    then show ?thesis using callback_ok [OF ok] by blast
  qed
  moreover have "runs dns_inv_step s (es @ ds) s2" by (rule runs.snoc [OF r]) (use ok snoc.hyps(2) in \<open>simp add: dns_inv_step_def\<close>)
  ultimately show ?case by simp
qed (simp add: runs.none)

subsection \<open>Properties\<close>

text \<open>
  C23: every DNS request completes exactly once: in any run of requests and callbacks with distinct
  events, an event is resolved at most once, and the events not resolved are those of the requests
  that wait in the table of the resolver, whose event objects are live.
\<close>

theorem dns_completes_once:
  assumes "runs dns_step s es s'" "dns_ok s" "dlog s = []" "dns_table s = []" "distinct es"
  shows "distinct (map fst (dlog s') @ dns_pend s') \<and> set (map fst (dlog s')) \<union> set (dns_pend s') = set es \<and> dns_ok s'"
proof -
  have "dns_pend s = []" using assms(4) by (simp add: dns_pend_def)
  with dns_runs [OF assms(1,2)] dns.exactly_once [OF _ assms(3) _ assms(5)] show ?thesis by blast
qed

definition new_dns :: dns_state where
  "new_dns = \<lparr>dns_events = empty_heap, dns_table = [], dns_ips = (\<lambda>_. [\<lparr>np_type = NABTO_IPV4, np_ip = []\<rparr>]), dns_resolved = (\<lambda>_. None), dlog = []\<rparr>"

theorem dns_completes_once_witness:
  "\<exists>s'. runs dns_step new_dns [7, 9] s' \<and> map fst (dlog s') = [9] \<and> dns_pend s' = [7]"
proof -
  let ?ip = "\<lparr>ip_type = 0, u_addr = replicate 16 1, ip_zone = 0\<rparr>"
  obtain s1 where s1: "nm_lwip_async_resolve_ipv4 True (\<lambda>_. (ERR_INPROGRESS, ?ip)) 1 7 new_dns = Some s1"
    by (simp add: nm_lwip_async_resolve_ipv4_def nm_lwip_async_resolve_def c_malloc_def new_dns_def)
  then have d1: "dns_ips s1 = dns_ips new_dns" "dns_events s1 = snd (c_malloc \<lparr>ev_ips_size = 1, ev_completion_event = 7, ev_addr_type = 0\<rparr> empty_heap)"
    "dlog s1 = []"
    by (auto simp: nm_lwip_async_resolve_ipv4_def nm_lwip_async_resolve_def c_malloc_def new_dns_def)
  obtain s2 where s2: "nm_lwip_async_resolve_ipv6 True (\<lambda>_. (ERR_OK, ?ip)) 1 9 s1 = Some s2" "dlog s2 = [(9, NABTO_EC_OK)]"
    using d1 by (simp add: nm_lwip_async_resolve_ipv6_def nm_lwip_async_resolve_def c_malloc_def c_free_def answer_def new_dns_def empty_heap_def)
  have "runs dns_step new_dns [7] s1" by (rule runs_one) (rule dns_step.resolve4 [OF s1])
  then have "runs dns_step new_dns ([7] @ [9]) s2" by (rule runs.snoc) (rule dns_step.resolve6 [OF s2(1)])
  then have r: "runs dns_step new_dns [7, 9] s2" by simp
  have "dns_ok new_dns" by (simp add: dns_ok_def new_dns_def)
  from dns_completes_once [OF r this] have u: "distinct (9 # dns_pend s2)" "{9} \<union> set (dns_pend s2) = {7, 9}"
    using s2(2) by (auto simp: new_dns_def)
  have "set (dns_pend s2) = ({9} \<union> set (dns_pend s2)) - {9}" using u(1) by auto
  also have "\<dots> = {7}" unfolding u(2) by auto
  finally have "distinct (dns_pend s2)" "set (dns_pend s2) = {7}" using u(1) by auto
  then have "length (dns_pend s2) = 1" "7 \<in> set (dns_pend s2)" using distinct_card [of "dns_pend s2"] by auto
  then have "dns_pend s2 = [7]" by (auto simp: length_Suc_conv)
  then show ?thesis using r s2(2) by auto
qed

end
