(* ===== verification/Nabto_Mdns.thy ===== *)
theory Nabto_Mdns
  imports Nabto_Dns
begin

text \<open>
  The mDNS adapter, \<^verbatim>\<open>src/nabto_mdns_lwip/nm_mdns_lwip.c\<close>. The mDNS server of the SDK is a parameter
  (its functions, on a type \<open>'v\<close> of its state), as are \<^verbatim>\<open>udp_sendto_if\<close> and the function for the
  local addresses; the results of the group functions of lwIP are arguments, and the state counts
  for each interface how often the two multicast groups have been joined on it.
\<close>

abbreviation NM_MDNS_LWIP_MAX_LOCAL_IPS :: nat where "NM_MDNS_LWIP_MAX_LOCAL_IPS \<equiv> 2"

record 'v mdns_server =
  srv_init :: 'v
  srv_handle_packet :: "'v \<Rightarrow> bytes \<Rightarrow> u16 option \<times> 'v"
  srv_build_packet :: "'v \<Rightarrow> u16 \<Rightarrow> bool \<Rightarrow> bool \<Rightarrow> np_ip_address list \<Rightarrow> u16 \<Rightarrow> nat \<Rightarrow> bytes option \<times> 'v"

record 'v nm_mdns_lwip =
  md_socket :: bool
  md_receiving :: bool
  md_netifList :: "nat list"
  md_server :: 'v
  md_localIps :: "np_ip_address list"
  md_localIpsSize :: nat
  md_port :: u16
  md_joined4 :: "nat \<Rightarrow> nat"
  md_joined6 :: "nat \<Rightarrow> nat"
  md_mem :: pmem

definition v4group :: ip_addr where
  "v4group = \<lparr>ip_type = IPADDR_TYPE_V4, u_addr = [224, 0, 0, 251] @ replicate 12 0, ip_zone = 0\<rparr>"

definition v6group :: ip_addr where
  "v6group = \<lparr>ip_type = IPADDR_TYPE_V6, u_addr = [0xff, 0x02] @ replicate 13 0 @ [0xfb], ip_zone = 0\<rparr>"

subsection \<open>Interfaces and groups\<close>

definition join_groups :: "err_t \<Rightarrow> err_t \<Rightarrow> nat \<Rightarrow> 'v nm_mdns_lwip \<Rightarrow> np_error_code \<times> 'v nm_mdns_lwip" where
  "join_groups igmp mld n s =
     (if igmp \<noteq> ERR_OK then (NABTO_EC_UNKNOWN, s)
      else (let s1 = s\<lparr>md_joined4 := (md_joined4 s)(n := md_joined4 s n + 1)\<rparr>
            in if mld \<noteq> ERR_OK then (NABTO_EC_UNKNOWN, s1)
               else (NABTO_EC_OK, s1\<lparr>md_joined6 := (md_joined6 s)(n := md_joined6 s n + 1)\<rparr>)))"

definition leave_groups :: "nat \<Rightarrow> 'v nm_mdns_lwip \<Rightarrow> 'v nm_mdns_lwip" where
  "leave_groups n s = s\<lparr>md_joined4 := (md_joined4 s)(n := md_joined4 s n - 1), md_joined6 := (md_joined6 s)(n := md_joined6 s n - 1)\<rparr>"

text \<open>\<open>ok\<close>: whether \<^verbatim>\<open>np_calloc\<close> returned a list node; it is not tested before the node is used.\<close>

definition nm_mdns_lwip_add_netif :: "bool \<Rightarrow> err_t \<Rightarrow> err_t \<Rightarrow> nat \<Rightarrow> 'v nm_mdns_lwip \<Rightarrow> 'v nm_mdns_lwip option" where
  "nm_mdns_lwip_add_netif ok igmp mld n s =
     (let (ec, s1) = join_groups igmp mld n s
      in if ec = NABTO_EC_OK then do { require ok; Some (s1\<lparr>md_netifList := md_netifList s1 @ [n]\<rparr>) }
         else Some s1)"

definition nm_mdns_lwip_remove_netif :: "nat \<Rightarrow> 'v nm_mdns_lwip \<Rightarrow> 'v nm_mdns_lwip" where
  "nm_mdns_lwip_remove_netif n s =
     (if n \<in> set (md_netifList s) then leave_groups n (s\<lparr>md_netifList := remove1 n (md_netifList s)\<rparr>) else s)"

definition start_recv :: "'v nm_mdns_lwip \<Rightarrow> 'v nm_mdns_lwip option" where
  "start_recv s = do { require (md_socket s); Some (s\<lparr>md_receiving := True\<rparr>) }"

definition nm_mdns_lwip_init :: "'v mdns_server \<Rightarrow> bool \<Rightarrow> err_t \<Rightarrow> 'v nm_mdns_lwip \<Rightarrow> (np_error_code \<times> 'v nm_mdns_lwip) option" where
  "nm_mdns_lwip_init V pcb err s =
     (let s1 = s\<lparr>md_netifList := [], md_port := 0, md_localIpsSize := 0, md_server := srv_init V, md_socket := pcb\<rparr>
      in if \<not> pcb then Some (NABTO_EC_OUT_OF_MEMORY, s1)
         else if err \<noteq> ERR_OK then Some (NABTO_EC_UDP_SOCKET_CREATION_ERROR, s1)
         else do { s2 \<leftarrow> start_recv s1; Some (NABTO_EC_OK, s2) })"

partial_function (option) deinit_loop :: "'v nm_mdns_lwip \<Rightarrow> 'v nm_mdns_lwip option" where
  "deinit_loop s = (case md_netifList s of
     [] \<Rightarrow> Some s
   | n # ns \<Rightarrow> deinit_loop (nm_mdns_lwip_remove_netif n s))"

definition nm_mdns_lwip_deinit :: "'v nm_mdns_lwip \<Rightarrow> 'v nm_mdns_lwip option" where
  "nm_mdns_lwip_deinit s = do {
     require (md_socket s);
     deinit_loop (s\<lparr>md_socket := False, md_receiving := False\<rparr>) }"

subsection \<open>Packets\<close>

text \<open>The addresses found are copied into the context; bytes beyond an IPv4 address stay as they are.\<close>

definition to_mdns_ip :: "np_ip_address \<Rightarrow> np_ip_address \<Rightarrow> np_ip_address" where
  "to_mdns_ip ip old = \<lparr>np_type = np_type ip,
     np_ip = overwrite 0 (take (if np_type ip = NABTO_IPV4 then 4 else 16) (np_ip ip)) (np_ip old)\<rparr>"

definition update_local_ips ::
    "(np_ip_address list \<Rightarrow> nat \<times> np_ip_address list) \<Rightarrow> np_ip_address list \<Rightarrow> 'v nm_mdns_lwip \<Rightarrow> 'v nm_mdns_lwip" where
  "update_local_ips get_local_ips ips s =
     (let (n, found) = get_local_ips ips
      in s\<lparr>md_localIpsSize := n, md_localIps := map2 to_mdns_ip (take n found) (md_localIps s) @ drop n (md_localIps s)\<rparr>)"

type_synonym sendto_if_fn = "ptr \<Rightarrow> ip_addr \<Rightarrow> u16 \<Rightarrow> nat \<Rightarrow> pmem \<Rightarrow> (err_t \<times> pmem) option"

record 'v mdns_env =
  env_server :: "'v mdns_server"
  env_sendto_if :: sendto_if_fn
  env_local_ips :: "np_ip_address list \<Rightarrow> nat \<times> np_ip_address list"
  env_ips :: "np_ip_address list"
  env_buffer :: bytes

text \<open>\<open>env_ips\<close> and \<open>env_buffer\<close>: what the automatic arrays \<^verbatim>\<open>ips\<close> and \<^verbatim>\<open>buffer\<close> contain. The argument \<open>goodbye\<close> is not used.\<close>

definition send_packet ::
    "'v mdns_env \<Rightarrow> u16 \<Rightarrow> bool \<Rightarrow> bool \<Rightarrow> ip_addr \<Rightarrow> u16 \<Rightarrow> nat \<Rightarrow> 'v nm_mdns_lwip \<Rightarrow> 'v nm_mdns_lwip option" where
  "send_packet E ident unicastResponse goodbye dstIp dstPort n s = do {
     let port = md_port s;
     let s0 = update_local_ips (env_local_ips E) (env_ips E) s;
     if port > 0
     then (let (r, v) = srv_build_packet (env_server E) (md_server s0) ident unicastResponse False
              (take (md_localIpsSize s0) (md_localIps s0)) port 1500;
              s1 = s0\<lparr>md_server := v\<rparr>
       in case r of
         None \<Rightarrow> Some s1
       | Some bs \<Rightarrow> do {
           (buf, m1) \<leftarrow> pbuf_alloc PBUF_TRANSPORT (of_nat (length bs)) PBUF_RAM (md_mem s1);
           case buf of
             None \<Rightarrow> Some (s1\<lparr>md_mem := m1\<rparr>)
           | Some x \<Rightarrow> do {
               (err, m2) \<leftarrow> pbuf_take buf (Some bs) (of_nat (length bs)) m1;
               m3 \<leftarrow> (if err = ERR_OK then do { (r, m3) \<leftarrow> env_sendto_if E x dstIp dstPort n m2; Some m3 } else Some m2);
               (f, m4) \<leftarrow> pbuf_free buf m3;
               Some (s1\<lparr>md_mem := m4\<rparr>) } })
     else Some s0 }"

definition packet_received :: "'v mdns_env \<Rightarrow> ptr option \<Rightarrow> ip_addr \<Rightarrow> u16 \<Rightarrow> nat \<Rightarrow> 'v nm_mdns_lwip \<Rightarrow> 'v nm_mdns_lwip option" where
  "packet_received E p addr port recv_netif s = do {
     (copied, buffer) \<leftarrow> pbuf_copy_partial p (Some (env_buffer E)) 1500 0 (md_mem s);
     s1 \<leftarrow> (if copied > 0
            then (let (r, v) = srv_handle_packet (env_server E) (md_server s) (take (unat copied) buffer);
                      s0 = s\<lparr>md_server := v\<rparr>
                  in case r of
                       None \<Rightarrow> Some s0
                     | Some ident \<Rightarrow> send_packet E ident (port \<noteq> 5353) False addr port recv_netif s0)
            else Some s);
     start_recv s1 }"

fun announce_loop :: "'v mdns_env \<Rightarrow> bool \<Rightarrow> nat list \<Rightarrow> 'v nm_mdns_lwip \<Rightarrow> 'v nm_mdns_lwip option" where
  "announce_loop E goodbye [] s = Some s"
| "announce_loop E goodbye (n # ns) s = do {
     s1 \<leftarrow> send_packet E 0 False goodbye v4group 5353 n s;
     s2 \<leftarrow> send_packet E 0 False goodbye v6group 5353 n s1;
     announce_loop E goodbye ns s2 }"

definition announce :: "'v mdns_env \<Rightarrow> bool \<Rightarrow> 'v nm_mdns_lwip \<Rightarrow> 'v nm_mdns_lwip option" where
  "announce E goodbye s = announce_loop E goodbye (md_netifList s) s"

text \<open>\<open>update_info\<close>: what \<^verbatim>\<open>nabto_mdns_server_update_info\<close> makes of the state of the server.\<close>

definition publish_service :: "'v mdns_env \<Rightarrow> ('v \<Rightarrow> 'v) \<Rightarrow> u16 \<Rightarrow> 'v nm_mdns_lwip \<Rightarrow> 'v nm_mdns_lwip option" where
  "publish_service E update_info port s = announce E False (s\<lparr>md_port := port, md_server := update_info (md_server s)\<rparr>)"

definition unpublish_service :: "'v nm_mdns_lwip \<Rightarrow> 'v nm_mdns_lwip" where
  "unpublish_service s = s"

subsection \<open>Groups\<close>

text \<open>
  The steps of the adapter; the list of a step has the interface on which the IPv4 group was joined
  and the IPv6 group was not.
\<close>

inductive mdns_step :: "'v nm_mdns_lwip \<Rightarrow> nat list \<Rightarrow> 'v nm_mdns_lwip \<Rightarrow> bool" where
  add: "nm_mdns_lwip_add_netif ok igmp mld n s = Some s' \<Longrightarrow>
     mdns_step s (if igmp = ERR_OK \<and> mld \<noteq> ERR_OK then [n] else []) s'"
| remove: "mdns_step s [] (nm_mdns_lwip_remove_netif n s)"
| packet: "packet_received E p addr port n s = Some s' \<Longrightarrow> mdns_step s [] s'"
| publish: "publish_service E f port s = Some s' \<Longrightarrow> mdns_step s [] s'"
| unpublish: "mdns_step s [] (unpublish_service s)"

definition groups_of :: "'v nm_mdns_lwip \<Rightarrow> bool \<times> nat list \<times> (nat \<Rightarrow> nat) \<times> (nat \<Rightarrow> nat)" where
  "groups_of s = (md_socket s, md_netifList s, md_joined4 s, md_joined6 s)"

definition group_counts :: "nat list \<Rightarrow> 'v nm_mdns_lwip \<Rightarrow> bool" where
  "group_counts ls s \<longleftrightarrow> (\<forall>n. md_joined6 s n = count_list (md_netifList s) n \<and>
     md_joined4 s n = count_list (md_netifList s) n + count_list ls n)"

definition mdns_ok :: "nat list \<Rightarrow> 'v nm_mdns_lwip \<Rightarrow> bool" where
  "mdns_ok ls s \<longleftrightarrow> md_socket s \<and> group_counts ls s"

lemma mdns_ok_groups: "groups_of s' = groups_of s \<Longrightarrow> mdns_ok ls s \<Longrightarrow> mdns_ok ls s'"
  by (simp add: groups_of_def mdns_ok_def group_counts_def)

lemma count_list_remove1: "count_list (remove1 x xs) y = count_list xs y - (if x = y then 1 else 0)"
  by (induction xs) (auto simp: count_list_0_iff)

lemma count_list_pos: "x \<in> set xs \<Longrightarrow> 0 < count_list xs x"
  by (metis count_list_0_iff neq0_conv)

lemma add_ok:
  assumes "nm_mdns_lwip_add_netif ok igmp mld n s = Some s'" "mdns_ok ls s"
  shows "mdns_ok (ls @ (if igmp = ERR_OK \<and> mld \<noteq> ERR_OK then [n] else [])) s'"
  using assms by (auto simp: nm_mdns_lwip_add_netif_def join_groups_def mdns_ok_def group_counts_def bind_Some_conv split: if_splits)

lemma remove_counts: "group_counts ls s \<Longrightarrow> group_counts ls (nm_mdns_lwip_remove_netif n s)"
  using count_list_pos [of n "md_netifList s"]
  by (auto simp: nm_mdns_lwip_remove_netif_def leave_groups_def group_counts_def count_list_remove1)

lemma remove_ok: "mdns_ok ls s \<Longrightarrow> mdns_ok ls (nm_mdns_lwip_remove_netif n s)"
  using remove_counts [of ls s n] by (simp add: mdns_ok_def) (simp add: nm_mdns_lwip_remove_netif_def leave_groups_def)

lemma update_ips_groups: "groups_of (update_local_ips g ips s) = groups_of s"
  by (simp add: update_local_ips_def groups_of_def split: prod.splits)

lemma groups_of_upd [simp]:
  "groups_of (s\<lparr>md_mem := m\<rparr>) = groups_of s" "groups_of (s\<lparr>md_server := v\<rparr>) = groups_of s" "groups_of (s\<lparr>md_port := q\<rparr>) = groups_of s"
  "groups_of (s\<lparr>md_receiving := b\<rparr>) = groups_of s"
  by (simp_all add: groups_of_def)

lemma send_packet_groups:
  "send_packet E ident u g ip port n s = Some s' \<Longrightarrow> groups_of s' = groups_of s"
  by (auto simp: send_packet_def bind_Some_conv Let_def update_ips_groups split: prod.splits option.splits if_splits)

lemma packet_received_groups: "packet_received E p addr port n s = Some s' \<Longrightarrow> groups_of s' = groups_of s"
  by (auto simp: packet_received_def start_recv_def bind_Some_conv Let_def dest: send_packet_groups split: prod.splits option.splits if_splits)

lemma announce_groups: "announce_loop E g ns s = Some s' \<Longrightarrow> groups_of s' = groups_of s"
  by (induction ns arbitrary: s) (auto simp: bind_Some_conv dest!: send_packet_groups)

lemma step_ok: "mdns_step s ds s' \<Longrightarrow> mdns_ok ls s \<Longrightarrow> mdns_ok (ls @ ds) s'"
proof (induction rule: mdns_step.induct)
  case (add ok igmp mld n s s')
  then show ?case using add_ok by blast
next
  case (packet E p addr port n s s')
  then show ?case using packet_received_groups mdns_ok_groups by fastforce
next
  case (publish E f port s s')
  then have "groups_of s' = groups_of s" using announce_groups by (fastforce simp: publish_service_def announce_def)
  then show ?case using publish mdns_ok_groups by fastforce
qed (auto simp: remove_ok unpublish_service_def)

lemma deinit_loop_ok: "group_counts ls s \<Longrightarrow> \<exists>s'. deinit_loop s = Some s' \<and> md_netifList s' = [] \<and> group_counts ls s' \<and> md_socket s' = md_socket s"
proof (induction "length (md_netifList s)" arbitrary: s rule: less_induct)
  case less
  show ?case
  proof (cases "md_netifList s")
    case Nil
    then show ?thesis using less(2) by (simp add: deinit_loop.simps)
  next
    case (Cons n ns)
    then have "length (md_netifList (nm_mdns_lwip_remove_netif n s)) < length (md_netifList s)"
      by (simp add: nm_mdns_lwip_remove_netif_def leave_groups_def)
    moreover have "md_socket (nm_mdns_lwip_remove_netif n s) = md_socket s"
      by (simp add: nm_mdns_lwip_remove_netif_def leave_groups_def)
    ultimately show ?thesis using less(1) [OF _ remove_counts [OF less(2)], of n] Cons by (simp add: deinit_loop.simps [of s])
  qed
qed

lemma runs_ok: "runs mdns_step s ls s' \<Longrightarrow> mdns_ok [] s \<Longrightarrow> mdns_ok ls s'"
proof (induction rule: runs.induct)
  case (snoc s es s1 ds s2)
  then show ?case using step_ok by blast
qed simp

lemma init_ok:
  assumes "nm_mdns_lwip_init V pcb err s = Some (NABTO_EC_OK, s1)" "md_joined4 s = (\<lambda>_. 0)" "md_joined6 s = (\<lambda>_. 0)"
  shows "mdns_ok [] s1"
  using assms by (auto simp: nm_mdns_lwip_init_def Let_def start_recv_def bind_Some_conv mdns_ok_def group_counts_def split: if_splits)

subsection \<open>Answers\<close>

text \<open>
  What is relied on of \<^verbatim>\<open>udp_sendto_if\<close>, as of \<^verbatim>\<open>udp_sendto\<close>: it returns, it keeps the memory consistent,
  and the caller still holds the pbuf.
\<close>

lemma send_packet_alloc:
  assumes inv: "pm_inv L (md_mem s)" and ok: "sendto_ok (\<lambda>x ip port m. env_sendto_if E x ip port n m)"
    and u: "u = update_local_ips (env_local_ips E) (env_ips E) s" and p: "md_port s > 0"
    and b: "srv_build_packet (env_server E) (md_server u) ident uni False (take (md_localIpsSize u) (md_localIps u)) (md_port s) 1500 = (Some bs, v)"
    and l: "length bs \<le> 1500"
  shows "\<exists>s'. send_packet E ident uni g ip port n s = Some s' \<and> md_server s' = v \<and>
    (pb (md_mem s') = pb (md_mem s) \<or>
     (\<exists>x m2 r m3 f L'. own_packet m2 (Some x) [x] \<and> content m2 [x] = bs \<and> env_sendto_if E x ip port n m2 = Some (r, m3) \<and>
        pbuf_free (Some x) m3 = Some (f, md_mem s') \<and> pm_inv L' (md_mem s')))"
proof -
  define s1 where "s1 = u\<lparr>md_server := v\<rparr>"
  have mu: "md_mem s1 = md_mem s" unfolding s1_def u by (simp add: update_local_ips_def split: prod.splits)
  have len: "length bs < 65536" using l by simp
  then have un: "unat (of_nat (length bs) :: u16) = length bs" by (simp add: unat_of_nat_small)
  obtain q m1 where m1: "pbuf_alloc PBUF_TRANSPORT (of_nat (length bs)) PBUF_RAM (md_mem s) = Some (q, m1)"
    "case q of None \<Rightarrow> pm_inv L m1 \<and> pb m1 = pb (md_mem s) | Some x \<Rightarrow> \<exists>xs L'. new_packet (md_mem s) m1 x xs (length bs) \<and> pm_inv L' m1"
    using pbuf_alloc_ram [OF inv, of PBUF_TRANSPORT "of_nat (length bs)"] un by (fastforce split: option.splits)
  show ?thesis
  proof (cases q)
    case None
    then show ?thesis using m1 b p mu unfolding send_packet_def u [symmetric] by (simp add: s1_def)
  next
    case (Some x)
    then obtain xs L' where n: "new_packet (md_mem s) m1 x xs (length bs)" "pm_inv L' m1" using m1(2) by auto
    have xs: "xs = [x]" using ram_packet_single [OF m1(1) [unfolded Some] n(1)] .
    obtain m2 where m2: "pbuf_take (Some x) (Some bs) (of_nat (length bs)) m1 = Some (ERR_OK, m2)" "content m2 [x] = bs"
      "own_packet m2 (Some x) [x]" "sendable m2 x" "pm_inv L' m2" using take_new [OF n(1) [unfolded xs] n(2) len, of bs] by auto
    obtain r m3 L3 where r: "env_sendto_if E x ip port n m2 = Some (r, m3)" "pm_inv L3 m3" "chain (pb m3) (Some x) [x]" "refs_pos (pb m3) [x]"
      using ok m2(3-5) unfolding sendto_ok_def by blast
    obtain f m4 L4 where f: "pbuf_free (Some x) m3 = Some (f, m4)" "pm_inv L4 m4" using free_own [OF r(2-4)] by blast
    have "send_packet E ident uni g ip port n s = Some (s1\<lparr>md_mem := m4\<rparr>)"
      using b p mu m1(1) Some m2(1) r(1) f(1) unfolding send_packet_def u [symmetric] by (simp add: s1_def)
    moreover have "md_server (s1\<lparr>md_mem := m4\<rparr>) = v" "md_mem (s1\<lparr>md_mem := m4\<rparr>) = m4" by (simp_all add: s1_def)
    ultimately show ?thesis using m2(2,3) r(1) f by metis
  qed
qed

lemma packet_copied:
  assumes "own_packet m (Some x) xs" "bs = take 1500 (content m xs)" "length buffer = 1500"
  shows "pbuf_copy_partial (Some x) (Some buffer) 1500 0 m = Some (of_nat (length bs), overwrite 0 bs buffer)"
    "unat (of_nat (length bs) :: u16) = length bs" "take (length bs) (overwrite 0 bs buffer) = bs"
proof -
  show "pbuf_copy_partial (Some x) (Some buffer) 1500 0 m = Some (of_nat (length bs), overwrite 0 bs buffer)"
    using assms by (intro copy_partial_chain) (auto simp: own_packet_def)
  have "length bs \<le> 1500" using assms(2) by simp
  then show "unat (of_nat (length bs) :: u16) = length bs" by (simp add: unat_of_nat_small)
qed (simp add: overwrite_def)

text \<open>A server that answers every packet with a single byte and counts the packets, and an adapter on it.\<close>

definition ex_server :: "nat mdns_server" where
  "ex_server = \<lparr>srv_init = 0, srv_handle_packet = (\<lambda>v bs. (Some 7, v + 1)), srv_build_packet = (\<lambda>v i u g ips p n. (Some [9], v))\<rparr>"

definition ex_env :: "nat mdns_env" where
  "ex_env = \<lparr>env_server = ex_server, env_sendto_if = (\<lambda>x ip port n m. Some (ERR_OK, m)),
     env_local_ips = nm_lwip_get_local_ips v4group, env_ips = replicate 2 \<lparr>np_type = NABTO_IPV4, np_ip = replicate 16 0\<rparr>, env_buffer = replicate 1500 0\<rparr>"

definition ex_mdns :: "pmem \<Rightarrow> nat nm_mdns_lwip" where
  "ex_mdns m = \<lparr>md_socket = True, md_receiving = True, md_netifList = [], md_server = 0, md_localIps = replicate 2 \<lparr>np_type = NABTO_IPV4, np_ip = replicate 16 0\<rparr>, md_localIpsSize = 0,
     md_port = 80, md_joined4 = (\<lambda>_. 0), md_joined6 = (\<lambda>_. 0), md_mem = m\<rparr>"

subsection \<open>Properties\<close>

text \<open>
  C31: however interfaces are added and removed and packets and announcements are handled, the adapter
  has the IPv6 group joined once for each interface in its list, and shutting it down ends, empties
  the list and leaves all of these groups. Only the IPv4 group of an interface whose IPv6 group
  could not be joined stays joined, once for each such attempt.
\<close>

theorem mdns_groups_left:
  assumes "nm_mdns_lwip_init V pcb err s0 = Some (NABTO_EC_OK, s1)" "md_joined4 s0 = (\<lambda>_. 0)" "md_joined6 s0 = (\<lambda>_. 0)"
    and "runs mdns_step s1 ls s"
  shows "(\<forall>n. md_joined6 s n = count_list (md_netifList s) n) \<and>
    (\<exists>s'. nm_mdns_lwip_deinit s = Some s' \<and> md_netifList s' = [] \<and> \<not> md_socket s' \<and> md_joined6 s' = (\<lambda>_. 0) \<and> md_joined4 s' = count_list ls)"
proof -
  have ok: "mdns_ok ls s" using runs_ok [OF assms(4)] init_ok [OF assms(1-3)] by blast
  then have "group_counts ls (s\<lparr>md_socket := False, md_receiving := False\<rparr>)" by (simp add: mdns_ok_def group_counts_def)
  from deinit_loop_ok [OF this] ok show ?thesis
    by (auto simp: nm_mdns_lwip_deinit_def mdns_ok_def group_counts_def fun_eq_iff)
qed

theorem mdns_groups_left_witness:
  "\<exists>s0 s1 s s'. nm_mdns_lwip_init ex_server True ERR_OK s0 = Some (NABTO_EC_OK, s1) \<and>
     runs mdns_step s1 [3] s \<and> nm_mdns_lwip_deinit s = Some s' \<and> md_netifList s = [2] \<and> md_joined6 s 2 = 1 \<and> md_joined4 s' 2 = 0 \<and> md_joined4 s' 3 = 1"
proof -
  define s1 where "s1 = ex_mdns start_mem\<lparr>md_netifList := [], md_port := 0, md_localIpsSize := 0, md_server := srv_init ex_server\<rparr>"
  have i: "nm_mdns_lwip_init ex_server True ERR_OK (ex_mdns start_mem) = Some (NABTO_EC_OK, s1)"
    by (simp add: nm_mdns_lwip_init_def start_recv_def s1_def ex_mdns_def)
  define s2 where "s2 = s1\<lparr>md_joined4 := (md_joined4 s1)(2 := 1), md_joined6 := (md_joined6 s1)(2 := 1), md_netifList := [2]\<rparr>"
  define s3 where "s3 = s2\<lparr>md_joined4 := (md_joined4 s2)(3 := 1)\<rparr>"
  have a: "nm_mdns_lwip_add_netif True ERR_OK ERR_OK 2 s1 = Some s2" "nm_mdns_lwip_add_netif True ERR_OK ERR_MEM 3 s2 = Some s3"
    by (simp_all add: nm_mdns_lwip_add_netif_def join_groups_def s1_def s2_def s3_def ex_mdns_def)
  have "runs mdns_step s1 [] s2" using runs_one [of mdns_step, OF mdns_step.add [OF a(1)]] by simp
  from runs.snoc [OF this mdns_step.add [OF a(2)]] have r: "runs mdns_step s1 [3] s3" by simp
  have j: "md_joined4 (ex_mdns start_mem) = (\<lambda>_. 0)" "md_joined6 (ex_mdns start_mem) = (\<lambda>_. 0)" by (simp_all add: ex_mdns_def)
  have n: "md_netifList s3 = [2]" by (simp add: s3_def s2_def)
  from mdns_groups_left [OF i j r] n obtain s' where "nm_mdns_lwip_deinit s3 = Some s'" "md_joined4 s' = count_list [3]" "md_joined6 s3 2 = 1"
    by auto
  then show ?thesis using i r n by (intro exI [of _ "ex_mdns start_mem"] exI [of _ s1] exI [of _ s3] exI [of _ s']) simp
qed



end
