(* ===== verification/Sys_Arch.thy ===== *)
theory Sys_Arch
  imports Pkt_List
begin

text \<open>
  The port of lwIP to FreeRTOS, \<^verbatim>\<open>lwip-port/sys_arch.c\<close>: semaphores, mutexes, mailboxes, time, threads
  and the core lock with its check. FreeRTOS is a parameter: an object of the kernel is a value of a
  type variable, and a call is a function on it, for a wait with the number of ticks (\<open>None\<close> for
  \<^verbatim>\<open>portMAX_DELAY\<close>) and with \<open>True\<close> for \<^verbatim>\<open>pdTRUE\<close>. A handle that is \<^verbatim>\<open>NULL\<close> is \<open>None\<close>. In this
  configuration a tick is one millisecond and \<^verbatim>\<open>SYS_ARCH_PROTECT\<close> is a critical section.
\<close>

record sys_stat =
  s_used :: u16
  s_max :: u16
  s_err :: u16

record sys_stats =
  st_mutex :: sys_stat
  st_sem :: sys_stat
  st_mbox :: sys_stat

definition SYS_STATS_INC_USED :: "sys_stat \<Rightarrow> sys_stat" where
  "SYS_STATS_INC_USED x = (let u = s_used x + 1 in x\<lparr>s_used := u, s_max := (if s_max x < u then u else s_max x)\<rparr>)"

definition SYS_STATS_INC_err :: "sys_stat \<Rightarrow> sys_stat" where
  "SYS_STATS_INC_err x = x\<lparr>s_err := s_err x + 1\<rparr>"

definition SYS_STATS_DEC_used :: "sys_stat \<Rightarrow> sys_stat" where
  "SYS_STATS_DEC_used x = x\<lparr>s_used := s_used x - 1\<rparr>"

abbreviation SYS_ARCH_TIMEOUT :: u32 where "SYS_ARCH_TIMEOUT \<equiv> 0xffffffff"

abbreviation portTICK_PERIOD_MS :: u32 where "portTICK_PERIOD_MS \<equiv> 1"

subsection \<open>Time, protection and threads\<close>

definition sys_now :: "u32 \<Rightarrow> u32" where
  "sys_now tick_count = tick_count * portTICK_PERIOD_MS"

definition sys_jiffies :: "u32 \<Rightarrow> u32" where
  "sys_jiffies tick_count = tick_count"

definition sys_arch_protect :: "('c \<Rightarrow> 'c) \<Rightarrow> 'c \<Rightarrow> u32 \<times> 'c" where
  "sys_arch_protect taskENTER_CRITICAL c = (1, taskENTER_CRITICAL c)"

definition sys_arch_unprotect :: "('c \<Rightarrow> 'c) \<Rightarrow> u32 \<Rightarrow> 'c \<Rightarrow> 'c" where
  "sys_arch_unprotect taskEXIT_CRITICAL pval c = taskEXIT_CRITICAL c"

definition sys_arch_msleep :: "(u32 \<Rightarrow> 'k \<Rightarrow> 'k) \<Rightarrow> u32 \<Rightarrow> 'k \<Rightarrow> 'k" where
  "sys_arch_msleep vTaskDelay delay_ms k = vTaskDelay (delay_ms div portTICK_PERIOD_MS) k"

text \<open>\<open>created\<close> is the handle \<^verbatim>\<open>xTaskCreate\<close> returned; the requested depth is in words of \<^verbatim>\<open>StackType_t\<close>.\<close>

definition sys_thread_new :: "nat \<Rightarrow> (nat \<Rightarrow> int \<Rightarrow> 'h option) \<Rightarrow> int \<Rightarrow> int \<Rightarrow> 'h option" where
  "sys_thread_new sizeof_StackType xTaskCreate stacksize prio = do {
     require (stacksize > 0);
     xTaskCreate (nat stacksize div sizeof_StackType) prio }"

subsection \<open>Mutexes\<close>

definition sys_mutex_new :: "'m option \<Rightarrow> sys_stats \<Rightarrow> err_t \<times> 'm option \<times> sys_stats" where
  "sys_mutex_new created st = (case created of
     None \<Rightarrow> (ERR_MEM, None, st\<lparr>st_mutex := SYS_STATS_INC_err (st_mutex st)\<rparr>)
   | Some m \<Rightarrow> (ERR_OK, Some m, st\<lparr>st_mutex := SYS_STATS_INC_USED (st_mutex st)\<rparr>))"

text \<open>\<open>xSemaphoreTakeRecursive t m = None\<close>: the task \<open>t\<close> waits, the call has not returned.\<close>

definition sys_mutex_lock :: "(nat \<Rightarrow> 'm \<Rightarrow> 'm option) \<Rightarrow> nat \<Rightarrow> 'm option \<Rightarrow> 'm option option" where
  "sys_mutex_lock xSemaphoreTakeRecursive t mut = do {
     m \<leftarrow> mut;
     m1 \<leftarrow> xSemaphoreTakeRecursive t m;
     Some (Some m1) }"

definition sys_mutex_unlock :: "(nat \<Rightarrow> 'm \<Rightarrow> bool \<times> 'm) \<Rightarrow> nat \<Rightarrow> 'm option \<Rightarrow> 'm option option" where
  "sys_mutex_unlock xSemaphoreGiveRecursive t mut = do {
     m \<leftarrow> mut;
     let (ret, m1) = xSemaphoreGiveRecursive t m;
     require ret;
     Some (Some m1) }"

definition sys_mutex_free :: "'m option \<Rightarrow> sys_stats \<Rightarrow> ('m option \<times> sys_stats) option" where
  "sys_mutex_free mut st = do {
     m \<leftarrow> mut;
     Some (None, st\<lparr>st_mutex := SYS_STATS_DEC_used (st_mutex st)\<rparr>) }"

subsection \<open>Semaphores\<close>

definition sys_sem_new :: "('s \<Rightarrow> bool \<times> 's) \<Rightarrow> 's option \<Rightarrow> u8 \<Rightarrow> sys_stats \<Rightarrow> (err_t \<times> 's option \<times> sys_stats) option" where
  "sys_sem_new xSemaphoreGive created initial_count st = do {
     require (initial_count = 0 \<or> initial_count = 1);
     case created of
       None \<Rightarrow> Some (ERR_MEM, None, st\<lparr>st_sem := SYS_STATS_INC_err (st_sem st)\<rparr>)
     | Some q \<Rightarrow> do {
         let st1 = st\<lparr>st_sem := SYS_STATS_INC_USED (st_sem st)\<rparr>;
         if initial_count = 1
         then do { let (ret, q1) = xSemaphoreGive q; require ret; Some (ERR_OK, Some q1, st1) }
         else Some (ERR_OK, Some q, st1) } }"

definition sys_sem_signal :: "('s \<Rightarrow> bool \<times> 's) \<Rightarrow> 's option \<Rightarrow> 's option option" where
  "sys_sem_signal xSemaphoreGive sem = do {
     q \<leftarrow> sem;
     let (ret, q1) = xSemaphoreGive q;
     Some (Some q1) }"

definition sys_arch_sem_wait :: "(u32 option \<Rightarrow> 's \<Rightarrow> bool \<times> 's) \<Rightarrow> 's option \<Rightarrow> u32 \<Rightarrow> (u32 \<times> 's option) option" where
  "sys_arch_sem_wait xSemaphoreTake sem timeout_ms = do {
     q \<leftarrow> sem;
     if timeout_ms = 0
     then do {
       let (ret, q1) = xSemaphoreTake None q;
       require ret;
       Some (1, Some q1) }
     else do {
       let (ret, q1) = xSemaphoreTake (Some (timeout_ms div portTICK_PERIOD_MS)) q;
       Some (if \<not> ret then SYS_ARCH_TIMEOUT else 1, Some q1) } }"

definition sys_sem_free :: "'s option \<Rightarrow> sys_stats \<Rightarrow> ('s option \<times> sys_stats) option" where
  "sys_sem_free sem st = do {
     q \<leftarrow> sem;
     Some (None, st\<lparr>st_sem := SYS_STATS_DEC_used (st_sem st)\<rparr>) }"

subsection \<open>Mailboxes\<close>

definition sys_mbox_new :: "(int \<Rightarrow> 'q option) \<Rightarrow> int \<Rightarrow> sys_stats \<Rightarrow> (err_t \<times> 'q option \<times> sys_stats) option" where
  "sys_mbox_new xQueueCreate sz st = do {
     require (sz > 0);
     Some (case xQueueCreate sz of
         None \<Rightarrow> (ERR_MEM, None, st\<lparr>st_mbox := SYS_STATS_INC_err (st_mbox st)\<rparr>)
       | Some q \<Rightarrow> (ERR_OK, Some q, st\<lparr>st_mbox := SYS_STATS_INC_USED (st_mbox st)\<rparr>)) }"

type_synonym ('d, 'q) send_fn = "u32 option \<Rightarrow> 'd \<Rightarrow> 'q \<Rightarrow> bool \<times> 'q"
type_synonym ('d, 'q) receive_fn = "u32 option \<Rightarrow> 'q \<Rightarrow> 'd option \<times> 'q"

definition sys_mbox_post :: "('d, 'q) send_fn \<Rightarrow> 'q option \<Rightarrow> 'd \<Rightarrow> 'q option option" where
  "sys_mbox_post xQueueSendToBack mbx msg = do {
     q \<leftarrow> mbx;
     let (ret, q1) = xQueueSendToBack None msg q;
     require ret;
     Some (Some q1) }"

definition sys_mbox_trypost :: "('d, 'q) send_fn \<Rightarrow> 'q option \<Rightarrow> 'd \<Rightarrow> sys_stats \<Rightarrow> (err_t \<times> 'q option \<times> sys_stats) option" where
  "sys_mbox_trypost xQueueSendToBack mbx msg st = do {
     q \<leftarrow> mbx;
     let (ret, q1) = xQueueSendToBack (Some 0) msg q;
     Some (if ret then (ERR_OK, Some q1, st)
           else (ERR_MEM, Some q1, st\<lparr>st_mbox := SYS_STATS_INC_err (st_mbox st)\<rparr>)) }"

text \<open>From an interrupt; \<open>Inr ()\<close> is \<^verbatim>\<open>ERR_NEED_SCHED\<close>.\<close>

definition sys_mbox_trypost_fromisr ::
    "('d \<Rightarrow> 'q \<Rightarrow> bool \<times> bool \<times> 'q) \<Rightarrow> 'q option \<Rightarrow> 'd \<Rightarrow> sys_stats \<Rightarrow> ((err_t + unit) \<times> 'q option \<times> sys_stats) option" where
  "sys_mbox_trypost_fromisr xQueueSendToBackFromISR mbx msg st = do {
     q \<leftarrow> mbx;
     let (ret, woken, q1) = xQueueSendToBackFromISR msg q;
     Some (if ret then (if woken then Inr () else Inl ERR_OK, Some q1, st)
           else (Inl ERR_MEM, Some q1, st\<lparr>st_mbox := SYS_STATS_INC_err (st_mbox st)\<rparr>)) }"

text \<open>The second component of the results is \<^verbatim>\<open>*msg\<close>, \<open>None\<close> for \<^verbatim>\<open>NULL\<close>.\<close>

definition sys_arch_mbox_fetch :: "('d, 'q) receive_fn \<Rightarrow> 'q option \<Rightarrow> u32 \<Rightarrow> (u32 \<times> 'd option \<times> 'q option) option" where
  "sys_arch_mbox_fetch xQueueReceive mbx timeout_ms = do {
     q \<leftarrow> mbx;
     if timeout_ms = 0
     then do {
       let (msg, q1) = xQueueReceive None q;
       require (msg \<noteq> None);
       Some (1, msg, Some q1) }
     else do {
       let (msg, q1) = xQueueReceive (Some (timeout_ms div portTICK_PERIOD_MS)) q;
       Some (if msg = None then SYS_ARCH_TIMEOUT else 1, msg, Some q1) } }"

definition sys_arch_mbox_tryfetch :: "('d, 'q) receive_fn \<Rightarrow> 'q option \<Rightarrow> (u32 \<times> 'd option \<times> 'q option) option" where
  "sys_arch_mbox_tryfetch xQueueReceive mbx = do {
     q \<leftarrow> mbx;
     let (msg, q1) = xQueueReceive (Some 0) q;
     Some (if msg = None then SYS_ARCH_TIMEOUT else 0, msg, Some q1) }"

definition sys_mbox_free :: "'q option \<Rightarrow> sys_stats \<Rightarrow> sys_stats option" where
  "sys_mbox_free mbx st = do {
     q \<leftarrow> mbx;
     Some (st\<lparr>st_mbox := SYS_STATS_DEC_used (st_mbox st)\<rparr>) }"

text \<open>A mailbox as a queue: the handle with the statistics.\<close>

definition mbox_push :: "('d, 'q) send_fn \<Rightarrow> 'd \<Rightarrow> 'q option \<times> sys_stats \<Rightarrow> (bool \<times> ('q option \<times> sys_stats)) option" where
  "mbox_push send d m = do {
     (err, m1) \<leftarrow> sys_mbox_trypost send (fst m) d (snd m);
     Some (err = ERR_OK, m1) }"

definition mbox_pop :: "('d, 'q) receive_fn \<Rightarrow> 'q option \<times> sys_stats \<Rightarrow> ('d option \<times> ('q option \<times> sys_stats)) option" where
  "mbox_pop receive m = do {
     (r, msg, mbx) \<leftarrow> sys_arch_mbox_tryfetch receive (fst m);
     Some (msg, (mbx, snd m)) }"

definition mbox_rep :: "('q \<Rightarrow> 'd list \<Rightarrow> bool) \<Rightarrow> 'q option \<times> sys_stats \<Rightarrow> 'd list \<Rightarrow> bool" where
  "mbox_rep qrep m ds = (case fst m of None \<Rightarrow> False | Some q \<Rightarrow> qrep q ds)"

definition mbox_cap :: "('q \<Rightarrow> nat) \<Rightarrow> 'q option \<times> sys_stats \<Rightarrow> nat" where
  "mbox_cap qcap m = (case fst m of None \<Rightarrow> 0 | Some q \<Rightarrow> qcap q)"

lemma mbox_fifo:
  assumes "fifo qrep qcap (\<lambda>d q. Some (send (Some 0) d q)) (\<lambda>q. Some (receive (Some 0) q))"
  shows "fifo (mbox_rep qrep) (mbox_cap qcap) (mbox_push send) (mbox_pop receive)"
proof
  fix m ds d
  assume "mbox_rep qrep m ds"
  then obtain q st where m: "m = (Some q, st)" "qrep q ds" by (cases m) (auto simp: mbox_rep_def split: option.splits)
  from fifo.push_rep [OF assms m(2), of d] show "\<exists>m'. mbox_push send d m = Some (length ds < mbox_cap qcap m, m') \<and>
      mbox_rep qrep m' (if length ds < mbox_cap qcap m then ds @ [d] else ds) \<and> mbox_cap qcap m' = mbox_cap qcap m"
    using m(1) by (auto simp: mbox_push_def sys_mbox_trypost_def mbox_rep_def mbox_cap_def)
next
  fix m ds
  assume "mbox_rep qrep m ds"
  then obtain q st where m: "m = (Some q, st)" "qrep q ds" by (cases m) (auto simp: mbox_rep_def split: option.splits)
  from fifo.pop_rep [OF assms m(2)] show "\<exists>m'. mbox_pop receive m = Some (if ds = [] then None else Some (hd ds), m') \<and>
      mbox_rep qrep m' (tl ds) \<and> mbox_cap qcap m' = mbox_cap qcap m"
    using m(1) by (auto simp: mbox_pop_def sys_arch_mbox_tryfetch_def mbox_rep_def mbox_cap_def)
qed

subsection \<open>The core lock\<close>

text \<open>
  \<open>sys_lock_tcpip_core\<close> and \<open>sys_unlock_tcpip_core\<close> at the granularity of their accesses to shared
  variables: the state has where each task is in them, and how often it has the lock.
\<close>

datatype core_pc = Out | Took | Holds | Released | Cleared

record 'm core_state =
  lock_tcpip_core :: "'m option"
  lwip_core_lock_count :: u8
  lwip_core_lock_holder_thread :: "nat option"
  lwip_tcpip_thread :: "nat option"
  core_pc :: "nat \<Rightarrow> core_pc"
  core_depth :: "nat \<Rightarrow> nat"

definition at_pc :: "nat \<Rightarrow> core_pc \<Rightarrow> 'm core_state \<Rightarrow> 'm core_state" where
  "at_pc t p s = s\<lparr>core_pc := (core_pc s)(t := p)\<rparr>"

definition lock_take :: "(nat \<Rightarrow> 'm \<Rightarrow> 'm option) \<Rightarrow> nat \<Rightarrow> 'm core_state \<Rightarrow> 'm core_state option" where
  "lock_take mtake t s = do {
     m \<leftarrow> sys_mutex_lock mtake t (lock_tcpip_core s);
     Some (at_pc t Took (s\<lparr>lock_tcpip_core := m\<rparr>)) }"

definition lock_mark :: "nat \<Rightarrow> 'm core_state \<Rightarrow> 'm core_state" where
  "lock_mark t s = at_pc t Holds
     (if lwip_core_lock_count s = 0 then s\<lparr>lwip_core_lock_holder_thread := Some t\<rparr> else s)"

definition lock_count :: "nat \<Rightarrow> 'm core_state \<Rightarrow> 'm core_state" where
  "lock_count t s = at_pc t Out (s\<lparr>lwip_core_lock_count := lwip_core_lock_count s + 1,
     core_depth := (core_depth s)(t := core_depth s t + 1)\<rparr>)"

definition unlock_count :: "nat \<Rightarrow> 'm core_state \<Rightarrow> 'm core_state" where
  "unlock_count t s = at_pc t Released (s\<lparr>lwip_core_lock_count := lwip_core_lock_count s - 1\<rparr>)"

definition unlock_mark :: "nat \<Rightarrow> 'm core_state \<Rightarrow> 'm core_state" where
  "unlock_mark t s = at_pc t Cleared
     (if lwip_core_lock_count s = 0 then s\<lparr>lwip_core_lock_holder_thread := None\<rparr> else s)"

definition unlock_give :: "(nat \<Rightarrow> 'm \<Rightarrow> bool \<times> 'm) \<Rightarrow> nat \<Rightarrow> 'm core_state \<Rightarrow> 'm core_state option" where
  "unlock_give mgive t s = do {
     m \<leftarrow> sys_mutex_unlock mgive t (lock_tcpip_core s);
     Some (at_pc t Out (s\<lparr>lock_tcpip_core := m, core_depth := (core_depth s)(t := core_depth s t - 1)\<rparr>)) }"

text \<open>The two functions run by one task without interference.\<close>

definition sys_lock_tcpip_core :: "(nat \<Rightarrow> 'm \<Rightarrow> 'm option) \<Rightarrow> nat \<Rightarrow> 'm core_state \<Rightarrow> 'm core_state option" where
  "sys_lock_tcpip_core mtake t s = do { s1 \<leftarrow> lock_take mtake t s; Some (lock_count t (lock_mark t s1)) }"

definition sys_unlock_tcpip_core :: "(nat \<Rightarrow> 'm \<Rightarrow> bool \<times> 'm) \<Rightarrow> nat \<Rightarrow> 'm core_state \<Rightarrow> 'm core_state option" where
  "sys_unlock_tcpip_core mgive t s = unlock_give mgive t (unlock_mark t (unlock_count t s))"

definition sys_mark_tcpip_thread :: "nat \<Rightarrow> 'm core_state \<Rightarrow> 'm core_state" where
  "sys_mark_tcpip_thread t s = s\<lparr>lwip_tcpip_thread := Some t\<rparr>"

definition sys_check_core_locking :: "nat \<Rightarrow> 'm core_state \<Rightarrow> unit option" where
  "sys_check_core_locking t s =
     (if lwip_tcpip_thread s \<noteq> None
      then require (lwip_core_lock_holder_thread s = Some t \<and> lwip_core_lock_count s > 0)
      else Some ())"

text \<open>
  The steps of the tasks, in any interleaving. A task unlocks what it has locked and nests the lock
  at most 255 times: the counter has 8 bits.
\<close>

inductive core_step :: "(nat \<Rightarrow> 'm \<Rightarrow> 'm option) \<Rightarrow> (nat \<Rightarrow> 'm \<Rightarrow> bool \<times> 'm) \<Rightarrow> 'm core_state \<Rightarrow> 'm core_state \<Rightarrow> bool"
    for mtake mgive where
  lock1: "core_pc s t = Out \<Longrightarrow> core_depth s t < 255 \<Longrightarrow> lock_take mtake t s = Some s' \<Longrightarrow> core_step mtake mgive s s'"
| lock2: "core_pc s t = Took \<Longrightarrow> core_step mtake mgive s (lock_mark t s)"
| lock3: "core_pc s t = Holds \<Longrightarrow> core_step mtake mgive s (lock_count t s)"
| unlock1: "core_pc s t = Out \<Longrightarrow> 0 < core_depth s t \<Longrightarrow> core_step mtake mgive s (unlock_count t s)"
| unlock2: "core_pc s t = Released \<Longrightarrow> core_step mtake mgive s (unlock_mark t s)"
| unlock3: "core_pc s t = Cleared \<Longrightarrow> unlock_give mgive t s = Some s' \<Longrightarrow> core_step mtake mgive s s'"
| mark: "core_step mtake mgive s (sys_mark_tcpip_thread t s)"

text \<open>
  What the port relies on: a recursive mutex of FreeRTOS has an owner and a depth; it is given to a
  task when it is free or the task has it already, and released when it was given back as often.
\<close>

definition recursive_mutex :: "('m \<Rightarrow> (nat \<times> nat) option) \<Rightarrow> (nat \<Rightarrow> 'm \<Rightarrow> 'm option) \<Rightarrow> (nat \<Rightarrow> 'm \<Rightarrow> bool \<times> 'm) \<Rightarrow> bool" where
  "recursive_mutex owner mtake mgive \<longleftrightarrow>
     (\<forall>t m m'. mtake t m = Some m' \<longrightarrow>
        owner m = None \<and> owner m' = Some (t, 1) \<or> (\<exists>n. owner m = Some (t, n) \<and> owner m' = Some (t, n + 1))) \<and>
     (\<forall>t n m. owner m = Some (t, n) \<longrightarrow>
        (\<exists>m'. mgive t m = (True, m') \<and> owner m' = (if n \<le> 1 then None else Some (t, n - 1))))"

fun holder_inv :: "core_pc \<Rightarrow> nat \<Rightarrow> nat \<Rightarrow> nat \<Rightarrow> nat option \<Rightarrow> nat \<Rightarrow> bool" where
  "holder_inv Out t n cnt h d = (cnt = n \<and> h = Some t \<and> d = n)"
| "holder_inv Took t n cnt h d = (cnt = n - 1 \<and> h = (if n = 1 then None else Some t) \<and> d = n - 1)"
| "holder_inv Holds t n cnt h d = (cnt = n - 1 \<and> h = Some t \<and> d = n - 1)"
| "holder_inv Released t n cnt h d = (cnt = n - 1 \<and> h = Some t \<and> d = n)"
| "holder_inv Cleared t n cnt h d = (cnt = n - 1 \<and> h = (if n = 1 then None else Some t) \<and> d = n)"

definition core_inv :: "('m \<Rightarrow> (nat \<times> nat) option) \<Rightarrow> 'm core_state \<Rightarrow> bool" where
  "core_inv owner s = (case lock_tcpip_core s of None \<Rightarrow> False | Some m \<Rightarrow> (case owner m of
     None \<Rightarrow> lwip_core_lock_count s = 0 \<and> lwip_core_lock_holder_thread s = None \<and> (\<forall>t. core_pc s t = Out \<and> core_depth s t = 0)
   | Some (u, n) \<Rightarrow> 0 < n \<and> n \<le> 255 \<and> (\<forall>t. t \<noteq> u \<longrightarrow> core_pc s t = Out \<and> core_depth s t = 0) \<and>
       holder_inv (core_pc s u) u n (unat (lwip_core_lock_count s)) (lwip_core_lock_holder_thread s) (core_depth s u)))"

lemma core_invI:
  "lock_tcpip_core s = Some m \<Longrightarrow> owner m = Some (u, n) \<Longrightarrow> 0 < n \<Longrightarrow> n \<le> 255 \<Longrightarrow>
   (\<And>t. t \<noteq> u \<Longrightarrow> core_pc s t = Out \<and> core_depth s t = 0) \<Longrightarrow>
   holder_inv (core_pc s u) u n (unat (lwip_core_lock_count s)) (lwip_core_lock_holder_thread s) (core_depth s u) \<Longrightarrow> core_inv owner s"
  by (simp add: core_inv_def)

lemma core_inv_mutex:
  assumes "core_inv owner s"
  obtains m where "lock_tcpip_core s = Some m"
  using assms by (auto simp: core_inv_def split: option.splits)

lemma core_inv_owner:
  assumes "core_inv owner s" "lock_tcpip_core s = Some m" "core_pc s t \<noteq> Out \<or> 0 < core_depth s t"
  obtains n where "owner m = Some (t, n)" "0 < n" "n \<le> 255" "\<And>v. v \<noteq> t \<Longrightarrow> core_pc s v = Out \<and> core_depth s v = 0"
    "holder_inv (core_pc s t) t n (unat (lwip_core_lock_count s)) (lwip_core_lock_holder_thread s) (core_depth s t)"
proof (cases "owner m")
  case None
  then show ?thesis using assms by (auto simp: core_inv_def)
next
  case (Some un)
  obtain u n where un: "un = (u, n)" by (cases un)
  have "t = u" using assms Some un by (auto simp: core_inv_def)
  then show ?thesis using assms Some un that by (auto simp: core_inv_def)
qed


lemma rm_take:
  "recursive_mutex owner mtake mgive \<Longrightarrow> mtake t m = Some m' \<Longrightarrow>
   owner m = None \<and> owner m' = Some (t, 1) \<or> (\<exists>n. owner m = Some (t, n) \<and> owner m' = Some (t, n + 1))"
  by (simp add: recursive_mutex_def)

lemma rm_give:
  "recursive_mutex owner mtake mgive \<Longrightarrow> owner m = Some (t, n) \<Longrightarrow>
   \<exists>m'. mgive t m = (True, m') \<and> owner m' = (if n \<le> 1 then None else Some (t, n - 1))"
  by (simp add: recursive_mutex_def)

lemma lock_take_inv:
  assumes r: "recursive_mutex owner mtake mgive" and i: "core_inv owner s" and pc: "core_pc s t = Out" "core_depth s t < 255"
    and st: "lock_take mtake t s = Some s'"
  shows "core_inv owner s'"
proof -
  obtain m m' where m: "lock_tcpip_core s = Some m" "mtake t m = Some m'" "s' = at_pc t Took (s\<lparr>lock_tcpip_core := Some m'\<rparr>)"
    using st by (auto simp: lock_take_def sys_mutex_lock_def bind_Some_conv)
  from rm_take [OF r m(2)] show ?thesis
  proof (elim disjE exE conjE)
    assume "owner m = None" "owner m' = Some (t, 1)"
    then show ?thesis using i m by (auto simp: core_inv_def at_pc_def)
  next
    fix n assume "owner m = Some (t, n)" "owner m' = Some (t, n + 1)"
    then show ?thesis using i m pc by (auto simp: core_inv_def at_pc_def)
  qed
qed

lemma unlock_give_inv:
  assumes r: "recursive_mutex owner mtake mgive" and i: "core_inv owner s" and pc: "core_pc s t = Cleared"
    and st: "unlock_give mgive t s = Some s'"
  shows "core_inv owner s'"
proof -
  obtain m where m: "lock_tcpip_core s = Some m" using core_inv_mutex [OF i] .
  obtain n where n: "owner m = Some (t, n)" "0 < n" "n \<le> 255" "\<And>v. v \<noteq> t \<Longrightarrow> core_pc s v = Out \<and> core_depth s v = 0"
    "holder_inv Cleared t n (unat (lwip_core_lock_count s)) (lwip_core_lock_holder_thread s) (core_depth s t)"
    using core_inv_owner [OF i m, of t] pc by (metis core_pc.distinct(7))
  obtain m' where m': "mgive t m = (True, m')" "owner m' = (if n \<le> 1 then None else Some (t, n - 1))"
    using rm_give [OF r n(1)] by blast
  have s': "s' = at_pc t Out (s\<lparr>lock_tcpip_core := Some m', core_depth := (core_depth s)(t := core_depth s t - 1)\<rparr>)"
    using st m m'(1) by (simp add: unlock_give_def sys_mutex_unlock_def)
  show ?thesis
  proof (cases "n \<le> 1")
    case True
    then have "unat (lwip_core_lock_count s) = 0" using n(5) by simp
    then have "lwip_core_lock_count s = 0" using unat_eq_0 by blast
    then show ?thesis using n m' s' True by (auto simp: core_inv_def at_pc_def)
  next
    case False
    then show ?thesis using n m' s' by (intro core_invI [of s' m' owner t "n - 1"]) (auto simp: at_pc_def)
  qed
qed

text \<open>A step of the owner that leaves the mutex alone.\<close>

lemma core_inv_local:
  assumes i: "core_inv owner s" and p: "core_pc s t \<noteq> Out \<or> 0 < core_depth s t" and l: "lock_tcpip_core s' = lock_tcpip_core s"
    and o: "\<And>v. v \<noteq> t \<Longrightarrow> core_pc s' v = core_pc s v \<and> core_depth s' v = core_depth s v"
    and h: "\<And>n. 0 < n \<Longrightarrow> n \<le> 255 \<Longrightarrow>
      holder_inv (core_pc s t) t n (unat (lwip_core_lock_count s)) (lwip_core_lock_holder_thread s) (core_depth s t) \<Longrightarrow>
      holder_inv (core_pc s' t) t n (unat (lwip_core_lock_count s')) (lwip_core_lock_holder_thread s') (core_depth s' t)"
  shows "core_inv owner s'"
proof -
  obtain m where m: "lock_tcpip_core s = Some m" using core_inv_mutex [OF i] .
  obtain n where "owner m = Some (t, n)" "0 < n" "n \<le> 255" "\<And>v. v \<noteq> t \<Longrightarrow> core_pc s v = Out \<and> core_depth s v = 0"
    "holder_inv (core_pc s t) t n (unat (lwip_core_lock_count s)) (lwip_core_lock_holder_thread s) (core_depth s t)"
    using core_inv_owner [OF i m p] by blast
  then show ?thesis using m l o h by (intro core_invI [of s' m owner t n]) auto
qed

lemma unat_incr: "unat (c :: u8) = n - 1 \<Longrightarrow> 0 < n \<Longrightarrow> n \<le> 255 \<Longrightarrow> unat (c + 1) = n"
  by (subst unat_add_no_overflow) auto

lemma unat_decr: "unat (c :: u8) = n \<Longrightarrow> 0 < n \<Longrightarrow> unat (c - 1) = n - 1"
  by (subst unat_sub) (auto simp: word_le_nat_alt)

lemma unat_last: "unat (c :: u8) = n - 1 \<Longrightarrow> 0 < n \<Longrightarrow> (c = 0) = (n = 1)"
  using unat_eq_0 [of c] by auto

lemma core_step_inv:
  assumes r: "recursive_mutex owner mtake mgive" and i: "core_inv owner s" and st: "core_step mtake mgive s s'"
  shows "core_inv owner s'"
  using st
proof cases
  case (lock1 t)
  then show ?thesis using lock_take_inv [OF r i] by blast
next
  case (lock2 t)
  then show ?thesis by (intro core_inv_local [OF i, of t]) (auto simp: lock_mark_def at_pc_def unat_last)
next
  case (lock3 t)
  then show ?thesis by (intro core_inv_local [OF i, of t]) (auto simp: lock_count_def at_pc_def unat_incr)
next
  case (unlock1 t)
  then show ?thesis by (intro core_inv_local [OF i, of t]) (auto simp: unlock_count_def at_pc_def unat_decr)
next
  case (unlock2 t)
  then show ?thesis by (intro core_inv_local [OF i, of t]) (auto simp: unlock_mark_def at_pc_def unat_last)
next
  case (unlock3 t)
  then show ?thesis using unlock_give_inv [OF r i] by blast
next
  case (mark t)
  then show ?thesis using i by (auto simp: core_inv_def sys_mark_tcpip_thread_def split: option.splits)
qed

subsection \<open>Properties\<close>

text \<open>
  C20: the core lock under every interleaving of any number of tasks. At most one task is between a
  completed lock and its unlock, and for a task that is not inside the two functions the check
  \<open>sys_check_core_locking\<close> passes exactly when the task has the lock, at any nesting depth up to 255.
\<close>

theorem core_lock_safe:
  assumes "recursive_mutex owner mtake mgive" "lock_tcpip_core s = Some m" "owner m = None"
    and "lwip_core_lock_count s = 0" "lwip_core_lock_holder_thread s = None" "\<And>t. core_pc s t = Out \<and> core_depth s t = 0"
    and "(core_step mtake mgive)\<^sup>*\<^sup>* s s'"
  shows "(0 < core_depth s' t \<longrightarrow> 0 < core_depth s' u \<longrightarrow> t = u) \<and>
    (core_pc s' t = Out \<longrightarrow> lwip_tcpip_thread s' \<noteq> None \<longrightarrow>
       (sys_check_core_locking t s' \<noteq> None \<longleftrightarrow> 0 < core_depth s' t))"
proof -
  have "core_inv owner s" using assms(2-6) by (simp add: core_inv_def)
  with assms(7) have inv: "core_inv owner s'"
    by (induction rule: rtranclp_induct) (auto intro: core_step_inv [OF assms(1)])
  obtain m' where m': "lock_tcpip_core s' = Some m'" using core_inv_mutex [OF inv] .
  show ?thesis
  proof (cases "owner m'")
    case None
    then show ?thesis using inv m' by (auto simp: core_inv_def sys_check_core_locking_def)
  next
    case (Some un)
    obtain v n where un: "un = (v, n)" by (cases un)
    have h: "0 < n" "\<And>t. t \<noteq> v \<Longrightarrow> core_pc s' t = Out \<and> core_depth s' t = 0"
      "holder_inv (core_pc s' v) v n (unat (lwip_core_lock_count s')) (lwip_core_lock_holder_thread s') (core_depth s' v)"
      using inv m' Some un by (auto simp: core_inv_def)
    have nh: "lwip_core_lock_holder_thread s' \<noteq> Some t" if "t \<noteq> v" for t
      using h(3) that by (cases "core_pc s' v") (auto split: if_splits)
    have "sys_check_core_locking v s' \<noteq> None \<and> 0 < core_depth s' v" if "core_pc s' v = Out" "lwip_tcpip_thread s' \<noteq> None"
      using h that by (auto simp: sys_check_core_locking_def word_less_nat_alt)
    then show ?thesis using h(2) nh by (cases "t = v"; cases "u = v") (auto simp: sys_check_core_locking_def)
  qed
qed

definition sample_take :: "nat \<Rightarrow> (nat \<times> nat) option \<Rightarrow> (nat \<times> nat) option option" where
  "sample_take t m = (case m of None \<Rightarrow> Some (Some (t, 1)) | Some (u, n) \<Rightarrow> if u = t then Some (Some (t, n + 1)) else None)"

definition sample_give :: "nat \<Rightarrow> (nat \<times> nat) option \<Rightarrow> bool \<times> (nat \<times> nat) option" where
  "sample_give t m = (case m of None \<Rightarrow> (False, m) | Some (u, n) \<Rightarrow>
     if u = t then (True, if n \<le> 1 then None else Some (t, n - 1)) else (False, m))"

definition idle_core :: "(nat \<times> nat) option core_state" where
  "idle_core = \<lparr>lock_tcpip_core = Some None, lwip_core_lock_count = 0, lwip_core_lock_holder_thread = None,
     lwip_tcpip_thread = Some 9, core_pc = (\<lambda>_. Out), core_depth = (\<lambda>_. 0)\<rparr>"

theorem core_lock_safe_witness:
  "\<exists>s'. (core_step sample_take sample_give)\<^sup>*\<^sup>* idle_core s' \<and> sys_check_core_locking 3 s' = Some () \<and> sys_check_core_locking 4 s' = None"
proof -
  have r: "recursive_mutex id sample_take sample_give"
    by (auto simp: recursive_mutex_def sample_take_def sample_give_def split: option.splits if_splits)
  obtain s1 where s1: "lock_take sample_take 3 idle_core = Some s1"
    by (simp add: lock_take_def sys_mutex_lock_def idle_core_def sample_take_def)
  define s3 where "s3 = lock_count 3 (lock_mark 3 s1)"
  have "core_step sample_take sample_give idle_core s1" by (rule core_step.lock1 [OF _ _ s1]) (simp_all add: idle_core_def)
  then have "(core_step sample_take sample_give)\<^sup>*\<^sup>* idle_core s1" by (rule r_into_rtranclp)
  moreover have "core_step sample_take sample_give s1 (lock_mark 3 s1)"
    by (rule core_step.lock2) (use s1 in \<open>auto simp: lock_take_def bind_Some_conv at_pc_def\<close>)
  ultimately have "(core_step sample_take sample_give)\<^sup>*\<^sup>* idle_core (lock_mark 3 s1)" by (rule rtranclp.rtrancl_into_rtrancl)
  moreover have "core_step sample_take sample_give (lock_mark 3 s1) s3"
    unfolding s3_def by (rule core_step.lock3) (simp add: lock_mark_def at_pc_def)
  ultimately have st: "(core_step sample_take sample_give)\<^sup>*\<^sup>* idle_core s3" by (rule rtranclp.rtrancl_into_rtrancl)
  have d: "core_pc s3 3 = Out" "core_pc s3 4 = Out" "core_depth s3 3 = 1" "core_depth s3 4 = 0" "lwip_tcpip_thread s3 = Some 9"
    using s1 by (auto simp: s3_def lock_count_def lock_mark_def lock_take_def bind_Some_conv at_pc_def idle_core_def)
  have "(0 < core_depth s3 t \<longrightarrow> 0 < core_depth s3 u \<longrightarrow> t = u) \<and> (core_pc s3 t = Out \<longrightarrow> lwip_tcpip_thread s3 \<noteq> None \<longrightarrow>
      (sys_check_core_locking t s3 \<noteq> None \<longleftrightarrow> 0 < core_depth s3 t))" for t u
    by (rule core_lock_safe [OF r _ _ _ _ _ st]) (simp_all add: idle_core_def)
  from this [of 3 3] this [of 4 4] show ?thesis using st d
    by (intro exI [of _ s3]) (cases "sys_check_core_locking 4 s3", auto)
qed


definition no_sys_stats :: sys_stats where
  "no_sys_stats = (let z = \<lparr>s_used = 0, s_max = 0, s_err = 0\<rparr> in \<lparr>st_mutex = z, st_sem = z, st_mbox = z\<rparr>)"


end
