(* ===== verification/Threads.thy ===== *)
theory Threads
  imports Sim_Prelude "HOL-Library.Multiset"
begin

text \<open>
  Mutexes and condition variables of the SDK on FreeRTOS, \<^verbatim>\<open>src/nabto_device_threads_freertos.c\<close>; how they and the
  threads are created, joined and freed is in \<open>Thread_Objects\<close>. FreeRTOS is a parameter:
  the record of the functions the file calls, on a type \<open>'q\<close> of semaphores. The condition variable
  is modelled at the granularity of its accesses to shared memory: the state has the counter of
  waiting threads, the semaphore, the mutex, and for each thread where it is in \<open>cond_signal\<close> or
  \<open>cond_timed_wait\<close> with the value of its local variable. The threads are a multiset, as they differ
  in nothing else. Whether \<^verbatim>\<open>pvPortMalloc\<close> and the create functions succeed are arguments.
\<close>

record 'q kernel =
  Atomic_Increment_u32 :: "u32 \<Rightarrow> u32 \<times> u32"
  Atomic_CompareAndSwap_u32 :: "u32 \<Rightarrow> u32 \<Rightarrow> u32 \<Rightarrow> bool \<times> u32"
  xSemaphoreTake :: "'q \<Rightarrow> 'q option"
  xSemaphoreTakeFromISR :: "'q \<Rightarrow> bool \<times> 'q"
  xSemaphoreGiveFromISR :: "'q \<Rightarrow> bool \<times> 'q"

text \<open>
  The atomic functions map the old content of the variable to what they return and the new content;
  \<open>xSemaphoreTake\<close> is \<open>None\<close> while the semaphore cannot be taken.
\<close>

subsection \<open>Mutexes\<close>

text \<open>\<^verbatim>\<open>xSemaphoreTakeFromISR\<close> does not wait, and its result is not looked at.\<close>

definition nabto_device_threads_mutex_lock :: "'q kernel \<Rightarrow> 'q \<Rightarrow> 'q" where
  "nabto_device_threads_mutex_lock K m = snd (xSemaphoreTakeFromISR K m)"

definition nabto_device_threads_mutex_unlock :: "'q kernel \<Rightarrow> 'q \<Rightarrow> 'q" where
  "nabto_device_threads_mutex_unlock K m = snd (xSemaphoreGiveFromISR K m)"

subsection \<open>The condition variable\<close>

datatype cond_pc =
    Idle
  | Wait_unlock u32
  | Wait_take u32
  | Wait_lock
  | Timeout_lock u32
  | Timeout_loop u32
  | Signal_loop u32
  | Signal_give

record 'q cond_state =
  waiting_threads :: u32
  cond_semaphore :: 'q
  cond_mutex :: 'q
  cond_threads :: "cond_pc multiset"

definition nabto_device_threads_create_condition :: "bool \<Rightarrow> 'q \<Rightarrow> 'q \<Rightarrow> nat \<Rightarrow> 'q cond_state option" where
  "nabto_device_threads_create_condition ok sem mut n =
     (if ok then Some \<lparr>waiting_threads = 0, cond_semaphore = sem, cond_mutex = mut, cond_threads = replicate_mset n Idle\<rparr> else None)"

text \<open>
  One access of a thread to the shared memory, with the new position of the thread: the first access
  of \<open>cond_timed_wait\<close> and of \<open>cond_signal\<close>, and the following ones. \<open>timeout\<close> says whether the time
  of a wait is over; \<open>None\<close> is a thread that has to wait.
\<close>

definition cond_timed_wait_start :: "'q kernel \<Rightarrow> 'q cond_state \<Rightarrow> 'q cond_state \<times> cond_pc" where
  "cond_timed_wait_start K c =
     (let (l, w) = Atomic_Increment_u32 K (waiting_threads c) in (c\<lparr>waiting_threads := w\<rparr>, Wait_unlock l))"

text \<open>The limit of the wait, \<open>None\<close> for \<^verbatim>\<open>portMAX_DELAY\<close>, and the first access. \<open>cond_wait\<close> has no limit: it is \<open>cond_timed_wait\<close> with 0.\<close>

definition nabto_device_threads_cond_timed_wait :: "'q kernel \<Rightarrow> (u32 \<Rightarrow> u32) \<Rightarrow> u32 \<Rightarrow> 'q cond_state \<Rightarrow> u32 option \<times> 'q cond_state \<times> cond_pc" where
  "nabto_device_threads_cond_timed_wait K pdMS_TO_TICKS ms c =
     (if ms > 0 then Some (pdMS_TO_TICKS ms) else None, cond_timed_wait_start K c)"

definition nabto_device_threads_cond_wait :: "'q kernel \<Rightarrow> (u32 \<Rightarrow> u32) \<Rightarrow> 'q cond_state \<Rightarrow> u32 option \<times> 'q cond_state \<times> cond_pc" where
  "nabto_device_threads_cond_wait K pdMS_TO_TICKS c = nabto_device_threads_cond_timed_wait K pdMS_TO_TICKS 0 c"

definition cond_signal_start :: "'q cond_state \<Rightarrow> 'q cond_state \<times> cond_pc" where
  "cond_signal_start c = (c, Signal_loop (waiting_threads c))"

definition decrement :: "'q kernel \<Rightarrow> u32 \<Rightarrow> cond_pc \<Rightarrow> (u32 \<Rightarrow> cond_pc) \<Rightarrow> 'q cond_state \<Rightarrow> 'q cond_state \<times> cond_pc" where
  "decrement K l done again c =
     (if l > 0
      then (let (ok, w) = Atomic_CompareAndSwap_u32 K (waiting_threads c) (l - 1) l
            in if ok then (c\<lparr>waiting_threads := w\<rparr>, done) else (c, again (waiting_threads c)))
      else (c, Idle))"

fun cond_access :: "'q kernel \<Rightarrow> bool \<Rightarrow> 'q cond_state \<Rightarrow> cond_pc \<Rightarrow> ('q cond_state \<times> cond_pc) option" where
  "cond_access K timeout c Idle = None"
| "cond_access K timeout c (Wait_unlock l) =
     Some (c\<lparr>cond_mutex := nabto_device_threads_mutex_unlock K (cond_mutex c)\<rparr>, Wait_take l)"
| "cond_access K timeout c (Wait_take l) =
     (case xSemaphoreTake K (cond_semaphore c) of
        Some q \<Rightarrow> Some (c\<lparr>cond_semaphore := q\<rparr>, Wait_lock)
      | None \<Rightarrow> if timeout then Some (c, Timeout_lock l) else None)"
| "cond_access K timeout c Wait_lock = Some (c\<lparr>cond_mutex := nabto_device_threads_mutex_lock K (cond_mutex c)\<rparr>, Idle)"
| "cond_access K timeout c (Timeout_lock l) =
     Some (c\<lparr>cond_mutex := nabto_device_threads_mutex_lock K (cond_mutex c)\<rparr>, Timeout_loop l)"
| "cond_access K timeout c (Timeout_loop l) = Some (decrement K l Idle Timeout_loop c)"
| "cond_access K timeout c (Signal_loop l) = Some (decrement K l Signal_give Signal_loop c)"
| "cond_access K timeout c Signal_give = Some (c\<lparr>cond_semaphore := snd (xSemaphoreGiveFromISR K (cond_semaphore c))\<rparr>, Idle)"

definition move :: "cond_pc \<Rightarrow> 'q cond_state \<times> cond_pc \<Rightarrow> 'q cond_state" where
  "move p r = (fst r)\<lparr>cond_threads := cond_threads (fst r) - {#p#} + {#snd r#}\<rparr>"

lemma cond_wait_unlimited: "fst (nabto_device_threads_cond_wait K ticks c) = None"
  by (simp add: nabto_device_threads_cond_wait_def nabto_device_threads_cond_timed_wait_def)

text \<open>The steps of the threads in any interleaving; \<open>timed\<close> says whether waits can time out, that is, whether some have a limit.\<close>

inductive cond_step :: "'q kernel \<Rightarrow> bool \<Rightarrow> 'q cond_state \<Rightarrow> 'q cond_state \<Rightarrow> bool" for K timed where
  wait: "Idle \<in># cond_threads c \<Longrightarrow> cond_step K timed c (move Idle (cond_timed_wait_start K c))"
| signal: "Idle \<in># cond_threads c \<Longrightarrow> cond_step K timed c (move Idle (cond_signal_start c))"
| act: "p \<in># cond_threads c \<Longrightarrow> cond_access K timed c p = Some r \<Longrightarrow> cond_step K timed c (move p r)"

text \<open>What the file relies on of FreeRTOS; \<open>tokens\<close> is the count of a semaphore, at most \<^verbatim>\<open>INT_MAX\<close>.\<close>

definition kernel_ok :: "'q kernel \<Rightarrow> ('q \<Rightarrow> nat) \<Rightarrow> bool" where
  "kernel_ok K tokens \<longleftrightarrow>
     (\<forall>w. Atomic_Increment_u32 K w = (w, w + 1)) \<and>
     (\<forall>d e c. Atomic_CompareAndSwap_u32 K d e c = (if d = c then (True, e) else (False, d))) \<and>
     (\<forall>q. case xSemaphoreTake K q of None \<Rightarrow> tokens q = 0 | Some q' \<Rightarrow> tokens q = tokens q' + 1) \<and>
     (\<forall>q. tokens q < 2147483647 \<longrightarrow> tokens (snd (xSemaphoreGiveFromISR K q)) = tokens q + 1)"

fun is_waiting :: "cond_pc \<Rightarrow> nat" where
  "is_waiting (Wait_unlock l) = 1"
| "is_waiting (Wait_take l) = 1"
| "is_waiting _ = 0"

fun is_giving :: "cond_pc \<Rightarrow> nat" where
  "is_giving Signal_give = 1"
| "is_giving _ = 0"

fun timing_out :: "cond_pc \<Rightarrow> bool" where
  "timing_out (Timeout_lock l) = True"
| "timing_out (Timeout_loop l) = True"
| "timing_out _ = False"

definition waiters :: "'q cond_state \<Rightarrow> nat" where
  "waiters c = sum_mset (image_mset is_waiting (cond_threads c))"

definition givers :: "'q cond_state \<Rightarrow> nat" where
  "givers c = sum_mset (image_mset is_giving (cond_threads c))"

definition cond_inv :: "('q \<Rightarrow> nat) \<Rightarrow> 'q cond_state \<Rightarrow> bool" where
  "cond_inv tokens c \<longleftrightarrow> unat (waiting_threads c) + tokens (cond_semaphore c) + givers c = waiters c \<and>
     size (cond_threads c) < 2147483648 \<and> (\<forall>p \<in># cond_threads c. \<not> timing_out p)"

lemma kernelD:
  assumes "kernel_ok K tokens"
  shows "Atomic_Increment_u32 K w = (w, w + 1)"
    "Atomic_CompareAndSwap_u32 K d e c = (if d = c then (True, e) else (False, d))"
    "xSemaphoreTake K q = None \<Longrightarrow> tokens q = 0" "xSemaphoreTake K q = Some q' \<Longrightarrow> tokens q = tokens q' + 1"
    "tokens q < 2147483647 \<Longrightarrow> tokens (snd (xSemaphoreGiveFromISR K q)) = tokens q + 1"
  using assms unfolding kernel_ok_def by (simp_all, metis (mono_tags) option.simps(4), metis (mono_tags) option.simps(5) Suc_eq_plus1)

lemma sum_move:
  assumes "p \<in># M"
  shows "sum_mset (image_mset f (M - {#p#} + {#p'#})) + f p = sum_mset (image_mset f M) + (f p' :: nat)"
proof -
  obtain N where "M = add_mset p N" using assms by (meson mset_add)
  then show ?thesis by simp
qed

lemma sum_le_size: "(\<And>p. f p \<le> 1) \<Longrightarrow> sum_mset (image_mset f M) \<le> size (M :: cond_pc multiset)"
proof (induction M)
  case (add p M)
  have "f p \<le> 1" by (rule add.prems)
  then show ?case using add.IH [OF add.prems] by simp
qed simp

lemma waiters_bound: "waiters c + givers c \<le> size (cond_threads c)"
proof -
  have "waiters c + givers c = sum_mset (image_mset (\<lambda>p. is_waiting p + is_giving p) (cond_threads c))"
    unfolding waiters_def givers_def by (induction "cond_threads c") (simp_all add: sum_mset.distrib)
  also have "\<dots> \<le> size (cond_threads c)" by (rule sum_le_size) (case_tac p; simp)
  finally show ?thesis .
qed

lemma cond_invI:
  assumes p: "p \<in># cond_threads c" and i: "cond_inv tokens c" and t: "cond_threads (fst r) = cond_threads c" "\<not> timing_out (snd r)"
    and e: "unat (waiting_threads (fst r)) + tokens (cond_semaphore (fst r)) + is_giving (snd r) + is_waiting p =
      unat (waiting_threads c) + tokens (cond_semaphore c) + is_giving p + is_waiting (snd r)"
  shows "cond_inv tokens (move p r)"
proof -
  note w = sum_move [OF p, of is_waiting "snd r"] and g = sum_move [OF p, of is_giving "snd r"]
  have "unat (waiting_threads (move p r)) + tokens (cond_semaphore (move p r)) + givers (move p r) = waiters (move p r)"
    using w g e i t(1) by (simp add: move_def waiters_def givers_def cond_inv_def)
  moreover have "size (cond_threads (move p r)) = size (cond_threads c)"
  proof -
    obtain N where "cond_threads c = add_mset p N" using p by (meson mset_add)
    then show ?thesis using t(1) by (simp add: move_def)
  qed
  moreover have "\<not> timing_out q" if "q \<in># cond_threads (move p r)" for q
    using that i t by (auto simp: move_def cond_inv_def dest: in_diffD)
  ultimately show ?thesis using i by (simp add: cond_inv_def)
qed


lemma cond_step_inv:
  assumes k: "kernel_ok K tokens" and i: "cond_inv tokens c" and st: "cond_step K False c c'"
  shows "cond_inv tokens c'"
proof -
  note kd = kernelD [OF k]
  have sz: "unat (waiting_threads c) + tokens (cond_semaphore c) + 2 * givers c \<le> size (cond_threads c)" "size (cond_threads c) < 2147483648"
    using waiters_bound [of c] i by (auto simp: cond_inv_def)
  show ?thesis using st
  proof cases
    case wait
    have "waiters c < size (cond_threads c)"
    proof -
      obtain N where "cond_threads c = add_mset Idle N" using wait(2) by (meson mset_add)
      moreover have "sum_mset (image_mset is_waiting N) \<le> size N" by (rule sum_le_size) (case_tac p; simp)
      ultimately show ?thesis by (simp add: waiters_def)
    qed
    then have "unat (waiting_threads c + 1) = unat (waiting_threads c) + 1"
      using i sz(2) by (subst unat_add_no_overflow) (auto simp: cond_inv_def)
    then show ?thesis unfolding wait(1) using kd(1) by (intro cond_invI [OF wait(2) i]) (auto simp: cond_timed_wait_start_def)
  next
    case signal
    then show ?thesis unfolding signal(1) by (intro cond_invI [OF signal(2) i]) (auto simp: cond_signal_start_def)
  next
    case (act p r)
    have nt: "\<not> timing_out p" using i act(2) by (auto simp: cond_inv_def)
    show ?thesis unfolding act(1)
    proof (cases p)
      case (Wait_take l)
      then obtain q where "xSemaphoreTake K (cond_semaphore c) = Some q" "r = (c\<lparr>cond_semaphore := q\<rparr>, Wait_lock)"
        using act(3) by (auto split: option.splits)
      then show "cond_inv tokens (move p r)" using kd(4) Wait_take by (intro cond_invI [OF act(2) i]) auto
    next
      case (Signal_loop l)
      have "unat (l - 1) + 1 = unat l" if "0 < l"
        using that by (subst unat_sub) (auto simp: word_le_nat_alt word_less_nat_alt)
      then show "cond_inv tokens (move p r)" using act(3) Signal_loop kd(2)
        by (intro cond_invI [OF act(2) i]) (auto simp: decrement_def split: if_splits)
    next
      case Signal_give
      obtain N where "cond_threads c = add_mset Signal_give N" using act(2) Signal_give by (meson mset_add)
      then have "givers c \<ge> 1" by (simp add: givers_def)
      then have "tokens (cond_semaphore c) < 2147483647" using sz by simp
      then show "cond_inv tokens (move p r)" using act(3) Signal_give kd(5) by (intro cond_invI [OF act(2) i]) auto
    next
      case (Wait_unlock l)
      then show "cond_inv tokens (move p r)" using act(3) by (intro cond_invI [OF act(2) i]) auto
    next
      case Wait_lock
      then show "cond_inv tokens (move p r)" using act(3) by (intro cond_invI [OF act(2) i]) auto
    qed (use act(3) nt in auto)
  qed
qed

subsection \<open>Properties\<close>

text \<open>
  C24: no wake-up of the condition variable is lost or invented. For any number of threads in any
  interleaving of the accesses of \<open>cond_signal\<close> and of \<open>cond_wait\<close> (waits without a time limit), the
  waiting threads are exactly those the counter counts, those for which the semaphore has a token,
  and those for which a signaller is about to give one: the count of the semaphore never exceeds the
  number of waiting threads, and with all threads outside the counter and the semaphore are zero.
\<close>

theorem cond_signals_match_waiters:
  assumes "kernel_ok K tokens" "nabto_device_threads_create_condition True sem mut n = Some c" "tokens sem = 0" "n < 2147483648"
    and "(cond_step K False)\<^sup>*\<^sup>* c c'"
  shows "unat (waiting_threads c') + tokens (cond_semaphore c') + givers c' = waiters c' \<and>
    (set_mset (cond_threads c') \<subseteq> {Idle} \<longrightarrow> waiting_threads c' = 0 \<and> tokens (cond_semaphore c') = 0)"
proof -
  have c: "c = \<lparr>waiting_threads = 0, cond_semaphore = sem, cond_mutex = mut, cond_threads = replicate_mset n Idle\<rparr>"
    using assms(2) by (simp add: nabto_device_threads_create_condition_def)
  have "cond_inv tokens c" using assms(3,4) c by (simp add: cond_inv_def waiters_def givers_def)
  with assms(5) have "cond_inv tokens c'" by (induction rule: rtranclp_induct) (auto intro: cond_step_inv [OF assms(1)])
  then have e: "unat (waiting_threads c') + tokens (cond_semaphore c') + givers c' = waiters c'" by (simp add: cond_inv_def)
  moreover have "waiters c' = 0" if "set_mset (cond_threads c') \<subseteq> {Idle}"
    using that by (auto simp: waiters_def)
  ultimately show ?thesis using unat_eq_0 by fastforce
qed

definition count_kernel :: "nat kernel" where
  "count_kernel = \<lparr>Atomic_Increment_u32 = (\<lambda>w. (w, w + 1)),
     Atomic_CompareAndSwap_u32 = (\<lambda>d e c. if d = c then (True, e) else (False, d)),
     xSemaphoreTake = (\<lambda>q. case q of 0 \<Rightarrow> None | Suc n \<Rightarrow> Some n),
     xSemaphoreTakeFromISR = (\<lambda>q. (q > 0, q - 1)),
     xSemaphoreGiveFromISR = (\<lambda>q. if q < 2147483647 then (True, q + 1) else (False, q))\<rparr>"

lemma count_kernel_ok: "kernel_ok count_kernel id"
  by (auto simp: kernel_ok_def count_kernel_def split: nat.splits)

theorem cond_signals_match_waiters_witness:
  "\<exists>c c'. nabto_device_threads_create_condition True (0 :: nat) 1 2 = Some c \<and> (cond_step count_kernel False)\<^sup>*\<^sup>* c c' \<and>
     waiters c' = 1 \<and> unat (waiting_threads c') + cond_semaphore c' + givers c' = 1"
proof -
  obtain c :: "nat cond_state" where c: "nabto_device_threads_create_condition True 0 1 2 = Some c"
    "c = \<lparr>waiting_threads = 0, cond_semaphore = 0, cond_mutex = 1, cond_threads = replicate_mset 2 Idle\<rparr>"
    by (simp add: nabto_device_threads_create_condition_def)
  define c' where "c' = move Idle (cond_timed_wait_start count_kernel c)"
  have "cond_step count_kernel False c c'" unfolding c'_def by (rule cond_step.wait) (simp add: c(2))
  then have st: "(cond_step count_kernel False)\<^sup>*\<^sup>* c c'" by (rule r_into_rtranclp)
  have "waiters c' = 1" by (simp add: c'_def c(2) move_def cond_timed_wait_start_def count_kernel_def waiters_def numeral_2_eq_2)
  with cond_signals_match_waiters [OF count_kernel_ok c(1) _ _ st] show ?thesis using c(1) st by auto
qed

text \<open>
  A wait that times out can stay counted: \<^verbatim>\<open>Atomic_Increment_u32\<close> returns the old value, so a
  thread that waits alone has zero in its local variable and does not decrement the counter. After
  such a wait and one signal no thread waits, and the semaphore has a token: the next wait returns
  at once although nothing was signalled to it.
\<close>

lemma cond_timeout_leaves_token:
  assumes "kernel_ok K tokens" "waiting_threads c = 0" "tokens (cond_semaphore c) = 0" "Idle \<in># cond_threads c"
  shows "\<exists>c'. (cond_step K True)\<^sup>*\<^sup>* c c' \<and> cond_threads c' = cond_threads c \<and> waiting_threads c' = 0 \<and> tokens (cond_semaphore c') = 1"
proof -
  note kd = kernelD [OF assms(1)]
  obtain N where N: "cond_threads c = add_mset Idle N" using assms(4) by (meson mset_add)
  let ?at = "\<lambda>c p. c\<lparr>cond_threads := add_mset p N\<rparr>"
  have tk: "xSemaphoreTake K (cond_semaphore c) = None" using assms(3) kd(4) [of "cond_semaphore c"] by (cases "xSemaphoreTake K (cond_semaphore c)") auto
  define c1 where "c1 = c\<lparr>waiting_threads := 1\<rparr>"
  define c2 where "c2 = c1\<lparr>cond_mutex := nabto_device_threads_mutex_unlock K (cond_mutex c)\<rparr>"
  define c3 where "c3 = c2\<lparr>cond_mutex := nabto_device_threads_mutex_lock K (cond_mutex c2)\<rparr>"
  define c4 where "c4 = c3\<lparr>waiting_threads := 0\<rparr>"
  define c5 where "c5 = c4\<lparr>cond_semaphore := snd (xSemaphoreGiveFromISR K (cond_semaphore c))\<rparr>"
  note ds = c1_def c2_def c3_def c4_def c5_def
  have act: "cond_step K True (?at d p) (?at d' p')" if "cond_access K True (?at d p) p = Some (?at d' p, p')" for d d' p p'
    using cond_step.act [OF _ that] by (simp add: move_def)
  have "cond_step K True c (?at c1 (Wait_unlock 0))"
    using cond_step.wait [OF assms(4), of K True] N kd(1) assms(2) by (simp add: move_def cond_timed_wait_start_def c1_def)
  moreover have "cond_step K True (?at c1 (Wait_unlock 0)) (?at c2 (Wait_take 0))" by (rule act) (simp add: ds)
  moreover have "cond_step K True (?at c2 (Wait_take 0)) (?at c2 (Timeout_lock 0))" by (rule act) (use tk in \<open>simp add: ds\<close>)
  moreover have "cond_step K True (?at c2 (Timeout_lock 0)) (?at c3 (Timeout_loop 0))" by (rule act) (simp add: ds)
  moreover have "cond_step K True (?at c3 (Timeout_loop 0)) (?at c3 Idle)" by (rule act) (simp add: decrement_def)
  moreover have "cond_step K True (?at c3 Idle) (?at c3 (Signal_loop 1))"
    using cond_step.signal [of "?at c3 Idle" K True] by (simp add: move_def cond_signal_start_def ds)
  moreover have "cond_step K True (?at c3 (Signal_loop 1)) (?at c4 Signal_give)"
    by (rule act) (use kd(2) in \<open>simp add: decrement_def ds\<close>)
  moreover have "cond_step K True (?at c4 Signal_give) (?at c5 Idle)" by (rule act) (simp add: ds)
  ultimately have "(cond_step K True)\<^sup>*\<^sup>* c (?at c5 Idle)"
    by (meson converse_rtranclp_into_rtranclp rtranclp.rtrancl_refl)
  then show ?thesis using N kd(5) [of "cond_semaphore c"] assms(3) by (intro exI [of _ "?at c5 Idle"]) (simp add: ds)
qed

end
