(* ===== verification/Thread_Objects.thy ===== *)
theory Thread_Objects
  imports Sim_Prelude
begin

text \<open>
  The life of the objects of the threads interface of the SDK on FreeRTOS, \<^verbatim>\<open>src/nabto_device_threads_freertos.c\<close>: threads, mutexes and
  condition variables are created, used and freed. The store has the live objects, the live semaphores and tasks of
  FreeRTOS by their handles, and an access to one that is not live is \<open>None\<close>. The semaphores are values of a type \<open>'q\<close>; the record
  \<open>sem_fns\<close> has what FreeRTOS does with them. The results of \<^verbatim>\<open>pvPortMalloc\<close> and of the create functions are arguments, \<open>None\<close> for \<^verbatim>\<open>NULL\<close>.
\<close>

record 'q sem_fns =
  fn_mutex :: 'q
  fn_binary :: 'q
  fn_counting :: 'q
  fn_take :: "'q \<Rightarrow> 'q option"
  fn_give :: "'q \<Rightarrow> 'q"

text \<open>Of a thread the fields that \<open>create_thread\<close> leaves alone have what was in the memory before.\<close>

record thread =
  th_task :: "nat option"
  th_function :: nat
  th_user_data :: nat
  th_join_barrier :: "nat option"
  th_join_mutex :: "nat option"

record condition =
  co_semaphore :: "nat option"
  co_waiting_threads :: u32

record 'q rtos =
  sems :: "nat \<Rightarrow> 'q option"
  tasks :: "nat \<Rightarrow> nat option"
  threads :: "nat \<Rightarrow> thread option"
  mutexes :: "nat \<Rightarrow> nat option option"
  conditions :: "nat \<Rightarrow> condition option"

definition sem_create :: "nat option \<Rightarrow> 'q \<Rightarrow> 'q rtos \<Rightarrow> nat option \<times> 'q rtos" where
  "sem_create h q s = (case h of None \<Rightarrow> (None, s) | Some x \<Rightarrow> (Some x, s\<lparr>sems := (sems s)(x \<mapsto> q)\<rparr>))"

definition vSemaphoreDelete :: "nat option \<Rightarrow> 'q rtos \<Rightarrow> 'q rtos option" where
  "vSemaphoreDelete h s = do { x \<leftarrow> h; q \<leftarrow> sems s x; Some (s\<lparr>sems := (sems s)(x := None)\<rparr>) }"

definition sem_give :: "'q sem_fns \<Rightarrow> nat option \<Rightarrow> 'q rtos \<Rightarrow> 'q rtos option" where
  "sem_give K h s = do { x \<leftarrow> h; q \<leftarrow> sems s x; Some (s\<lparr>sems := (sems s)(x \<mapsto> fn_give K q)\<rparr>) }"

text \<open>The inner \<open>None\<close>: the semaphore cannot be taken now.\<close>

definition sem_take :: "'q sem_fns \<Rightarrow> nat option \<Rightarrow> 'q rtos \<Rightarrow> 'q rtos option option" where
  "sem_take K h s = do { x \<leftarrow> h; q \<leftarrow> sems s x; Some (map_option (\<lambda>q'. s\<lparr>sems := (sems s)(x \<mapsto> q')\<rparr>) (fn_take K q)) }"

subsection \<open>Threads\<close>

definition nabto_device_threads_create_thread :: "nat option \<Rightarrow> thread \<Rightarrow> 'q rtos \<Rightarrow> nat option \<times> 'q rtos" where
  "nabto_device_threads_create_thread a mem s = (case a of
     None \<Rightarrow> (None, s)
   | Some x \<Rightarrow> (Some x, s\<lparr>threads := (threads s)(x \<mapsto> mem\<lparr>th_task := None\<rparr>)\<rparr>))"

definition nabto_device_threads_free_thread :: "nat \<Rightarrow> 'q rtos \<Rightarrow> 'q rtos option" where
  "nabto_device_threads_free_thread x s = do { th \<leftarrow> threads s x; Some (s\<lparr>threads := (threads s)(x := None)\<rparr>) }"

definition nabto_device_threads_run :: "'q sem_fns \<Rightarrow> nat option \<Rightarrow> nat option \<Rightarrow> nat option \<Rightarrow> nat \<Rightarrow> nat \<Rightarrow> nat \<Rightarrow> 'q rtos \<Rightarrow>
    (np_error_code \<times> 'q rtos) option" where
  "nabto_device_threads_run K hm hb ht x run_routine data s = do {
     th \<leftarrow> threads s x;
     let (m, s1) = sem_create hm (fn_mutex K) s;
     let (b, s2) = sem_create hb (fn_binary K) s1;
     let th1 = th\<lparr>th_function := run_routine, th_user_data := data, th_join_mutex := m, th_join_barrier := b\<rparr>;
     Some (case ht of
         None \<Rightarrow> (NABTO_EC_UNKNOWN, s2\<lparr>threads := (threads s2)(x \<mapsto> th1)\<rparr>)
       | Some t \<Rightarrow> (NABTO_EC_OK, s2\<lparr>threads := (threads s2)(x \<mapsto> th1\<lparr>th_task := Some t\<rparr>), tasks := (tasks s2)(t \<mapsto> x)\<rparr>)) }"

text \<open>The task after the function of the thread has returned; then it suspends itself.\<close>

definition NabtoThreadTask :: "'q sem_fns \<Rightarrow> nat \<Rightarrow> 'q rtos \<Rightarrow> 'q rtos option" where
  "NabtoThreadTask K x s = do { th \<leftarrow> threads s x; sem_give K (th_join_barrier th) s }"

text \<open>\<open>None\<close> also while the barrier cannot be taken: the call has not returned.\<close>

definition nabto_device_threads_join :: "'q sem_fns \<Rightarrow> nat \<Rightarrow> 'q rtos \<Rightarrow> 'q rtos option" where
  "nabto_device_threads_join K x s = do {
     th \<leftarrow> threads s x;
     r \<leftarrow> sem_take K (th_join_mutex th) s;
     case r of
       None \<Rightarrow> Some s
     | Some s1 \<Rightarrow> do {
         r2 \<leftarrow> sem_take K (th_join_barrier th) s1;
         s2 \<leftarrow> r2;
         s3 \<leftarrow> sem_give K (th_join_barrier th) s2;
         s4 \<leftarrow> vSemaphoreDelete (th_join_barrier th) s3;
         s5 \<leftarrow> sem_give K (th_join_mutex th) s4;
         s6 \<leftarrow> vSemaphoreDelete (th_join_mutex th) s5;
         t \<leftarrow> th_task th;
         Some (s6\<lparr>tasks := (tasks s6)(t := None)\<rparr>) } }"

subsection \<open>Mutexes and condition variables\<close>

definition nabto_device_threads_create_mutex :: "'q sem_fns \<Rightarrow> nat option \<Rightarrow> nat option \<Rightarrow> 'q rtos \<Rightarrow> nat option \<times> 'q rtos" where
  "nabto_device_threads_create_mutex K a h s = (case a of
     None \<Rightarrow> (None, s)
   | Some x \<Rightarrow> (let (m, s1) = sem_create h (fn_mutex K) s in (Some x, s1\<lparr>mutexes := (mutexes s1)(x \<mapsto> m)\<rparr>)))"

definition nabto_device_threads_free_mutex :: "nat \<Rightarrow> 'q rtos \<Rightarrow> 'q rtos option" where
  "nabto_device_threads_free_mutex x s = do {
     m \<leftarrow> mutexes s x;
     s1 \<leftarrow> vSemaphoreDelete m s;
     Some (s1\<lparr>mutexes := (mutexes s1)(x := None)\<rparr>) }"

text \<open>\<^verbatim>\<open>nabto_device_threads_create_condition\<close>; how waits and signals use the object is in \<open>Threads\<close>.\<close>

definition create_condition_object :: "'q sem_fns \<Rightarrow> nat option \<Rightarrow> nat option \<Rightarrow> 'q rtos \<Rightarrow> nat option \<times> 'q rtos" where
  "create_condition_object K a h s = (case a of
     None \<Rightarrow> (None, s)
   | Some x \<Rightarrow> (let (m, s1) = sem_create h (fn_counting K) s
       in (Some x, s1\<lparr>conditions := (conditions s1)(x \<mapsto> \<lparr>co_semaphore = m, co_waiting_threads = 0\<rparr>)\<rparr>)))"

definition nabto_device_threads_free_cond :: "nat \<Rightarrow> 'q rtos \<Rightarrow> 'q rtos option" where
  "nabto_device_threads_free_cond x s = do {
     c \<leftarrow> conditions s x;
     s1 \<leftarrow> vSemaphoreDelete (co_semaphore c) s;
     Some (s1\<lparr>conditions := (conditions s1)(x := None)\<rparr>) }"

subsection \<open>The life of a thread\<close>

text \<open>Of FreeRTOS: a mutex can be taken when it is new, a binary semaphore cannot, but can after a give.\<close>

definition sems_ok :: "'q sem_fns \<Rightarrow> bool" where
  "sems_ok K \<longleftrightarrow> (\<exists>q. fn_take K (fn_mutex K) = Some q) \<and> fn_take K (fn_binary K) = None \<and>
     (\<exists>q. fn_take K (fn_give K (fn_binary K)) = Some q)"

lemma sems_okD:
  assumes "sems_ok K"
  obtains q1 q2 where "fn_take K (fn_mutex K) = Some q1" "fn_take K (fn_binary K) = None" "fn_take K (fn_give K (fn_binary K)) = Some q2"
  using assms by (auto simp: sems_ok_def)

lemmas store_defs = sem_create_def vSemaphoreDelete_def sem_give_def sem_take_def

text \<open>
  The objects in use. Where each thread is in its life, and to which object each semaphore belongs.
\<close>

datatype phase = Created | Running | Done | Joined

datatype owner = Of_thread nat | Of_mutex nat | Of_cond nat

record 'q objects =
  store :: "'q rtos"
  phase :: "nat \<Rightarrow> phase option"
  owner :: "nat \<Rightarrow> owner option"

fun active :: "phase option \<Rightarrow> bool" where
  "active (Some Running) = True"
| "active (Some Done) = True"
| "active _ = False"

definition barrier :: "'q sem_fns \<Rightarrow> phase option \<Rightarrow> 'q" where
  "barrier K p = (if p = Some Done then fn_give K (fn_binary K) else fn_binary K)"

definition thread_wf :: "'q sem_fns \<Rightarrow> 'q objects \<Rightarrow> nat \<Rightarrow> bool" where
  "thread_wf K c x \<longleftrightarrow> (\<exists>th m b t. threads (store c) x = Some th \<and> th_join_mutex th = Some m \<and> th_join_barrier th = Some b \<and> th_task th = Some t \<and>
     m \<noteq> b \<and> sems (store c) m = Some (fn_mutex K) \<and>
     sems (store c) b = Some (barrier K (phase c x)) \<and>
     tasks (store c) t = Some x \<and> (\<forall>t'. tasks (store c) t' = Some x \<longrightarrow> t' = t) \<and> (\<forall>h. owner c h = Some (Of_thread x) \<longleftrightarrow> h = m \<or> h = b))"

definition objects_inv :: "'q sem_fns \<Rightarrow> 'q objects \<Rightarrow> bool" where
  "objects_inv K c \<longleftrightarrow> dom (owner c) = dom (sems (store c)) \<and> dom (phase c) = dom (threads (store c)) \<and>
     (\<forall>x. active (phase c x) \<longrightarrow> thread_wf K c x) \<and>
     (\<forall>h x. owner c h = Some (Of_thread x) \<longrightarrow> active (phase c x)) \<and>
     (\<forall>t x. tasks (store c) t = Some x \<longrightarrow> active (phase c x)) \<and>
     (\<forall>h x. owner c h = Some (Of_mutex x) \<longleftrightarrow> mutexes (store c) x = Some (Some h)) \<and>
     (\<forall>h x. owner c h = Some (Of_cond x) \<longleftrightarrow> (\<exists>co. conditions (store c) x = Some co \<and> co_semaphore co = Some h))"

text \<open>
  The calls of the interface, in any order, as its contract allows them: a thread runs once, is joined once, and is freed when
  it was joined or never ran. New handles and objects are not in use.
\<close>

inductive object_step :: "'q sem_fns \<Rightarrow> 'q objects \<Rightarrow> 'q objects \<Rightarrow> bool" for K where
  new_thread: "object_step K c (c\<lparr>store := s', phase := (phase c)(x \<mapsto> Created)\<rparr>)"
    if "threads (store c) x = None" "nabto_device_threads_create_thread (Some x) mem (store c) = (Some x, s')"
| run: "object_step K c (c\<lparr>store := s', phase := (phase c)(x \<mapsto> Running), owner := (owner c)(m \<mapsto> Of_thread x, b \<mapsto> Of_thread x)\<rparr>)"
    if "phase c x = Some Created" "sems (store c) m = None" "sems (store c) b = None" "m \<noteq> b" "tasks (store c) t = None"
      "nabto_device_threads_run K (Some m) (Some b) (Some t) x f d (store c) = Some (NABTO_EC_OK, s')"
| finish: "object_step K c (c\<lparr>store := s', phase := (phase c)(x \<mapsto> Done)\<rparr>)"
    if "phase c x = Some Running" "NabtoThreadTask K x (store c) = Some s'"
| join: "object_step K c (c\<lparr>store := s', phase := (phase c)(x \<mapsto> Joined), owner := (\<lambda>h. if owner c h = Some (Of_thread x) then None else owner c h)\<rparr>)"
    if "active (phase c x)" "nabto_device_threads_join K x (store c) = Some s'"
| free_thread: "object_step K c (c\<lparr>store := s', phase := (phase c)(x := None)\<rparr>)"
    if "phase c x = Some Created \<or> phase c x = Some Joined" "nabto_device_threads_free_thread x (store c) = Some s'"
| new_mutex: "object_step K c (c\<lparr>store := s', owner := (owner c)(h \<mapsto> Of_mutex x)\<rparr>)"
    if "mutexes (store c) x = None" "sems (store c) h = None" "nabto_device_threads_create_mutex K (Some x) (Some h) (store c) = (Some x, s')"
| free_mutex: "object_step K c (c\<lparr>store := s', owner := (\<lambda>h. if owner c h = Some (Of_mutex x) then None else owner c h)\<rparr>)"
    if "nabto_device_threads_free_mutex x (store c) = Some s'"
| new_cond: "object_step K c (c\<lparr>store := s', owner := (owner c)(h \<mapsto> Of_cond x)\<rparr>)"
    if "conditions (store c) x = None" "sems (store c) h = None" "create_condition_object K (Some x) (Some h) (store c) = (Some x, s')"
| free_cond: "object_step K c (c\<lparr>store := s', owner := (\<lambda>h. if owner c h = Some (Of_cond x) then None else owner c h)\<rparr>)"
    if "nabto_device_threads_free_cond x (store c) = Some s'"

lemma objects_invI:
  assumes "dom (owner c) = dom (sems (store c))" "dom (phase c) = dom (threads (store c))"
    and "\<And>x. active (phase c x) \<Longrightarrow> thread_wf K c x" "\<And>h x. owner c h = Some (Of_thread x) \<Longrightarrow> active (phase c x)"
    and "\<And>t x. tasks (store c) t = Some x \<Longrightarrow> active (phase c x)"
    and "\<And>h x. owner c h = Some (Of_mutex x) \<longleftrightarrow> mutexes (store c) x = Some (Some h)"
    and "\<And>h x. owner c h = Some (Of_cond x) \<longleftrightarrow> (\<exists>co. conditions (store c) x = Some co \<and> co_semaphore co = Some h)"
  shows "objects_inv K c"
  using assms by (simp add: objects_inv_def)

lemma objects_invD:
  assumes "objects_inv K c"
  shows "dom (owner c) = dom (sems (store c))" "dom (phase c) = dom (threads (store c))"
    and "\<And>x. active (phase c x) \<Longrightarrow> thread_wf K c x" "\<And>h x. owner c h = Some (Of_thread x) \<Longrightarrow> active (phase c x)"
    and "\<And>t x. tasks (store c) t = Some x \<Longrightarrow> active (phase c x)"
    and "\<And>h x. owner c h = Some (Of_mutex x) \<longleftrightarrow> mutexes (store c) x = Some (Some h)"
    and "\<And>h x. owner c h = Some (Of_cond x) \<longleftrightarrow> (\<exists>co. conditions (store c) x = Some co \<and> co_semaphore co = Some h)"
  using assms by (simp_all add: objects_inv_def)

lemma owned_sem:
  assumes "objects_inv K c" "sems (store c) h = None"
  shows "owner c h = None"
proof -
  have "h \<notin> dom (owner c)" unfolding objects_invD(1) [OF assms(1)] using assms(2) by blast
  then show ?thesis by blast
qed

text \<open>A thread that a step does not touch stays well formed.\<close>

lemma thread_wf_frame:
  assumes "thread_wf K c x" "threads (store c') x = threads (store c) x" "phase c' x = phase c x"
    and "\<And>h. owner c h = Some (Of_thread x) \<Longrightarrow> sems (store c') h = sems (store c) h"
    and "\<And>h. owner c' h = Some (Of_thread x) \<longleftrightarrow> owner c h = Some (Of_thread x)"
    and "\<And>t. tasks (store c') t = Some x \<longleftrightarrow> tasks (store c) t = Some x"
  shows "thread_wf K c' x"
proof -
  obtain th m b t where w: "threads (store c) x = Some th" "th_join_mutex th = Some m" "th_join_barrier th = Some b" "th_task th = Some t"
    "m \<noteq> b" "sems (store c) m = Some (fn_mutex K)"
    "sems (store c) b = Some (barrier K (phase c x))"
    "tasks (store c) t = Some x" "\<forall>t'. tasks (store c) t' = Some x \<longrightarrow> t' = t" "\<forall>h. owner c h = Some (Of_thread x) \<longleftrightarrow> h = m \<or> h = b"
    using assms(1) unfolding thread_wf_def by blast
  have "owner c m = Some (Of_thread x)" "owner c b = Some (Of_thread x)" using w(10) by auto
  then have "sems (store c') m = Some (fn_mutex K)"
    "sems (store c') b = Some (barrier K (phase c' x))"
    using assms(3,4) w(6,7) by auto
  moreover have "threads (store c') x = Some th" using w(1) assms(2) by simp
  moreover have "tasks (store c') t = Some x" "\<forall>t'. tasks (store c') t' = Some x \<longrightarrow> t' = t" using w(8,9) assms(6) by blast+
  moreover have "\<forall>h. owner c' h = Some (Of_thread x) \<longleftrightarrow> h = m \<or> h = b" using w(10) assms(5) by blast
  ultimately show ?thesis unfolding thread_wf_def using w(2-5) by blast
qed

lemma new_thread_inv:
  assumes I: "objects_inv K c" and x: "threads (store c) x = None"
    and e: "nabto_device_threads_create_thread (Some x) mem (store c) = (Some x, s')"
  shows "objects_inv K (c\<lparr>store := s', phase := (phase c)(x \<mapsto> Created)\<rparr>)" (is "objects_inv K ?c")
proof -
  have s': "s' = (store c)\<lparr>threads := (threads (store c))(x \<mapsto> mem\<lparr>th_task := None\<rparr>)\<rparr>"
    using e by (simp add: nabto_device_threads_create_thread_def)
  have n: "phase c x = None" using objects_invD(2) [OF I] x by blast
  show ?thesis
  proof (rule objects_invI)
    fix y assume a: "active (phase ?c y)"
    then have "y \<noteq> x" by (auto split: if_splits)
    moreover from this have w: "thread_wf K c y" using a objects_invD(3) [OF I] by simp
    ultimately show "thread_wf K ?c y" by (intro thread_wf_frame [OF w]) (simp_all add: s')
  next
    show "dom (owner ?c) = dom (sems (store ?c))" using objects_invD(1) [OF I] by (simp add: s')
    show "dom (phase ?c) = dom (threads (store ?c))" using objects_invD(2) [OF I] by (simp add: s')
  next
    fix h y
    show "active (phase ?c y)" if "owner ?c h = Some (Of_thread y)" using objects_invD(4) [OF I, of h y] that n by (cases "y = x") auto
    show "active (phase ?c y)" if "tasks (store ?c) h = Some y" using objects_invD(5) [OF I, of h y] that n by (cases "y = x") (auto simp: s')
    show "owner ?c h = Some (Of_mutex y) \<longleftrightarrow> mutexes (store ?c) y = Some (Some h)" using objects_invD(6) [OF I, of h y] by (simp add: s')
    show "owner ?c h = Some (Of_cond y) \<longleftrightarrow> (\<exists>co. conditions (store ?c) y = Some co \<and> co_semaphore co = Some h)"
      using objects_invD(7) [OF I, of h y] by (simp add: s')
  qed
qed

lemma run_inv:
  assumes I: "objects_inv K c" and p: "phase c x = Some Created"
    and h: "sems (store c) m = None" "sems (store c) b = None" "m \<noteq> b" "tasks (store c) t = None"
    and e: "nabto_device_threads_run K (Some m) (Some b) (Some t) x f d (store c) = Some (NABTO_EC_OK, s')"
  shows "objects_inv K (c\<lparr>store := s', phase := (phase c)(x \<mapsto> Running), owner := (owner c)(m \<mapsto> Of_thread x, b \<mapsto> Of_thread x)\<rparr>)"
    (is "objects_inv K ?c")
proof -
  obtain th where th: "threads (store c) x = Some th" using e by (auto simp: nabto_device_threads_run_def bind_Some_conv)
  define th1 where "th1 = th\<lparr>th_function := f, th_user_data := d, th_join_mutex := Some m, th_join_barrier := Some b, th_task := Some t\<rparr>"
  have s': "s' = (store c)\<lparr>sems := (sems (store c))(m \<mapsto> fn_mutex K, b \<mapsto> fn_binary K), threads := (threads (store c))(x \<mapsto> th1),
      tasks := (tasks (store c))(t \<mapsto> x)\<rparr>"
    using e th by (simp add: nabto_device_threads_run_def sem_create_def th1_def)
  have o: "owner c m = None" "owner c b = None" using owned_sem [OF I] h by auto
  have none: "owner c k \<noteq> Some (Of_thread x)" "tasks (store c) k \<noteq> Some x" for k
    using objects_invD(4,5) [OF I] p by fastforce+
  show ?thesis
  proof (rule objects_invI)
    fix y assume a: "active (phase ?c y)"
    show "thread_wf K ?c y"
    proof (cases "y = x")
      case True
      then show ?thesis unfolding thread_wf_def
        by (intro exI [of _ th1] exI [of _ m] exI [of _ b] exI [of _ t]) (use h(3) none in \<open>auto simp: s' th1_def barrier_def\<close>)
    next
      case False
      then have "thread_wf K c y" using a objects_invD(3) [OF I] by simp
      then show ?thesis by (rule thread_wf_frame) (use False h o in \<open>auto simp: s'\<close>)
    qed
  next
    show "dom (owner ?c) = dom (sems (store ?c))" using objects_invD(1) [OF I] by (simp add: s')
    have "x \<in> dom (threads (store c))" using th by blast
    then show "dom (phase ?c) = dom (threads (store ?c))" using objects_invD(2) [OF I] by (simp add: s')
  next
    fix h y
    show "active (phase ?c y)" if "owner ?c h = Some (Of_thread y)" using objects_invD(4) [OF I, of h y] that by (auto split: if_splits)
    show "active (phase ?c y)" if "tasks (store ?c) h = Some y" using objects_invD(5) [OF I, of h y] that by (auto simp: s' split: if_splits)
    show "owner ?c h = Some (Of_mutex y) \<longleftrightarrow> mutexes (store ?c) y = Some (Some h)" using objects_invD(6) [OF I, of h y] o by (auto simp: s')
    show "owner ?c h = Some (Of_cond y) \<longleftrightarrow> (\<exists>co. conditions (store ?c) y = Some co \<and> co_semaphore co = Some h)"
      using objects_invD(7) [OF I, of h y] o by (auto simp: s')
  qed
qed

lemma thread_wfD:
  assumes "thread_wf K c x"
  obtains th m b t where "threads (store c) x = Some th" "th_join_mutex th = Some m" "th_join_barrier th = Some b" "th_task th = Some t"
    "m \<noteq> b" "sems (store c) m = Some (fn_mutex K)" "sems (store c) b = Some (barrier K (phase c x))"
    "tasks (store c) t = Some x" "\<forall>t'. tasks (store c) t' = Some x \<longrightarrow> t' = t" "\<forall>h. owner c h = Some (Of_thread x) \<longleftrightarrow> h = m \<or> h = b"
  using assms unfolding thread_wf_def by blast

lemma finish_runs:
  assumes I: "objects_inv K c" and p: "phase c x = Some Running"
  shows "\<exists>s'. NabtoThreadTask K x (store c) = Some s' \<and> objects_inv K (c\<lparr>store := s', phase := (phase c)(x \<mapsto> Done)\<rparr>)"
proof -
  have "thread_wf K c x" using objects_invD(3) [OF I] p by simp
  then obtain th m b t where w: "threads (store c) x = Some th" "th_join_mutex th = Some m" "th_join_barrier th = Some b" "th_task th = Some t"
    "m \<noteq> b" "sems (store c) m = Some (fn_mutex K)" "sems (store c) b = Some (barrier K (phase c x))"
    "tasks (store c) t = Some x" "\<forall>t'. tasks (store c) t' = Some x \<longrightarrow> t' = t" "\<forall>h. owner c h = Some (Of_thread x) \<longleftrightarrow> h = m \<or> h = b"
    by (rule thread_wfD)
  define s' where "s' = (store c)\<lparr>sems := (sems (store c))(b \<mapsto> fn_give K (fn_binary K))\<rparr>"
  let ?c = "c\<lparr>store := s', phase := (phase c)(x \<mapsto> Done)\<rparr>"
  have "NabtoThreadTask K x (store c) = Some s'" using w(1,3,7) p by (simp add: NabtoThreadTask_def sem_give_def s'_def barrier_def)
  moreover have "objects_inv K ?c"
  proof (rule objects_invI)
    fix y assume a: "active (phase ?c y)"
    show "thread_wf K ?c y"
    proof (cases "y = x")
      case True
      have "threads (store ?c) x = Some th" "sems (store ?c) m = Some (fn_mutex K)" "sems (store ?c) b = Some (barrier K (phase ?c x))"
        "tasks (store ?c) = tasks (store c)" "owner ?c = owner c" using w(1,5,6) by (simp_all add: s'_def barrier_def)
      then show ?thesis unfolding thread_wf_def True using w(2-5,8-10) by metis
    next
      case False
      then have "thread_wf K c y" using a objects_invD(3) [OF I] by simp
      moreover have "owner c b = Some (Of_thread x)" using w(10) by simp
      ultimately show ?thesis using False by (intro thread_wf_frame [of K c y ?c]) (auto simp: s'_def)
    qed
  next
    have "b \<in> dom (sems (store c))" using w(7) by blast
    then show "dom (owner ?c) = dom (sems (store ?c))" using objects_invD(1) [OF I] by (simp add: s'_def insert_absorb)
    have "x \<in> dom (phase c)" using p by blast
    then show "dom (phase ?c) = dom (threads (store ?c))" using objects_invD(2) [OF I] by (simp add: s'_def insert_absorb)
  next
    fix h y
    show "active (phase ?c y)" if "owner ?c h = Some (Of_thread y)" using objects_invD(4) [OF I, of h y] that by (cases "y = x") auto
    show "active (phase ?c y)" if "tasks (store ?c) h = Some y" using objects_invD(5) [OF I, of h y] that by (cases "y = x") (auto simp: s'_def)
    show "owner ?c h = Some (Of_mutex y) \<longleftrightarrow> mutexes (store ?c) y = Some (Some h)" using objects_invD(6) [OF I, of h y] by (simp add: s'_def)
    show "owner ?c h = Some (Of_cond y) \<longleftrightarrow> (\<exists>co. conditions (store ?c) y = Some co \<and> co_semaphore co = Some h)"
      using objects_invD(7) [OF I, of h y] by (simp add: s'_def)
  qed
  ultimately show ?thesis by blast
qed

text \<open>A join before the thread has finished waits; after it, it takes the semaphores and the task away.\<close>

lemma join_running:
  assumes K: "sems_ok K" and I: "objects_inv K c" and p: "phase c x = Some Running"
  shows "nabto_device_threads_join K x (store c) = None"
proof -
  have "thread_wf K c x" using objects_invD(3) [OF I] p by simp
  then obtain th m b t where w: "threads (store c) x = Some th" "th_join_mutex th = Some m" "th_join_barrier th = Some b" "m \<noteq> b"
    "sems (store c) m = Some (fn_mutex K)" "sems (store c) b = Some (barrier K (phase c x))" by (rule thread_wfD)
  then show ?thesis using p K by (auto simp: nabto_device_threads_join_def sem_take_def sems_ok_def barrier_def)
qed

lemma join_store:
  assumes K: "sems_ok K" and w: "threads s x = Some th" "th_join_mutex th = Some m" "th_join_barrier th = Some b" "th_task th = Some t"
    "m \<noteq> b" "sems s m = Some (fn_mutex K)" "sems s b = Some (fn_give K (fn_binary K))"
  shows "nabto_device_threads_join K x s = Some (s\<lparr>sems := (sems s)(m := None, b := None), tasks := (tasks s)(t := None)\<rparr>)"
proof -
  obtain q1 q2 where q: "fn_take K (fn_mutex K) = Some q1" "fn_take K (fn_give K (fn_binary K)) = Some q2" using sems_okD [OF K] by blast
  have "(sems s)(m \<mapsto> q1, b := None, m := None) = (sems s)(m := None, b := None)" using w(5) by (auto simp: fun_eq_iff)
  then show ?thesis using w q by (simp add: nabto_device_threads_join_def store_defs fun_upd_twist)
qed

lemma join_done:
  assumes K: "sems_ok K" and I: "objects_inv K c" and p: "phase c x = Some Done"
  shows "\<exists>s'. nabto_device_threads_join K x (store c) = Some s' \<and> objects_inv K (c\<lparr>store := s', phase := (phase c)(x \<mapsto> Joined),
     owner := (\<lambda>h. if owner c h = Some (Of_thread x) then None else owner c h)\<rparr>)"
proof -
  have "thread_wf K c x" using objects_invD(3) [OF I] p by simp
  then obtain th m b t where w: "threads (store c) x = Some th" "th_join_mutex th = Some m" "th_join_barrier th = Some b" "th_task th = Some t"
    "m \<noteq> b" "sems (store c) m = Some (fn_mutex K)" "sems (store c) b = Some (barrier K (phase c x))"
    "tasks (store c) t = Some x" "\<forall>t'. tasks (store c) t' = Some x \<longrightarrow> t' = t" "\<forall>h. owner c h = Some (Of_thread x) \<longleftrightarrow> h = m \<or> h = b"
    by (rule thread_wfD)
  define s' where "s' = (store c)\<lparr>sems := (sems (store c))(m := None, b := None), tasks := (tasks (store c))(t := None)\<rparr>"
  let ?c = "c\<lparr>store := s', phase := (phase c)(x \<mapsto> Joined), owner := (\<lambda>h. if owner c h = Some (Of_thread x) then None else owner c h)\<rparr>"
  have "nabto_device_threads_join K x (store c) = Some s'" unfolding s'_def by (rule join_store [OF K w(1-6)]) (use w(7) p in \<open>simp add: barrier_def\<close>)
  moreover have "objects_inv K ?c"
  proof (rule objects_invI)
    fix y assume a: "active (phase ?c y)"
    then have y: "y \<noteq> x" by auto
    then have "thread_wf K c y" using a objects_invD(3) [OF I] by simp
    moreover have "owner c m = Some (Of_thread x)" "owner c b = Some (Of_thread x)" using w(10) by blast+
    ultimately show "thread_wf K ?c y" using y w(8) by (intro thread_wf_frame [of K c y ?c]) (auto simp: s'_def)
  next
    show "dom (owner ?c) = dom (sems (store ?c))" using objects_invD(1) [OF I] w(10) by (auto simp: s'_def dom_def split: if_splits)
    have "x \<in> dom (phase c)" using p by blast
    then show "dom (phase ?c) = dom (threads (store ?c))" using objects_invD(2) [OF I] by (simp add: s'_def insert_absorb)
  next
    fix h y
    show "active (phase ?c y)" if "owner ?c h = Some (Of_thread y)" using objects_invD(4) [OF I, of h y] that by (auto split: if_splits)
    show "active (phase ?c y)" if "tasks (store ?c) h = Some y" using objects_invD(5) [OF I, of h y] that w(9) by (auto simp: s'_def split: if_splits)
    show "owner ?c h = Some (Of_mutex y) \<longleftrightarrow> mutexes (store ?c) y = Some (Some h)" using objects_invD(6) [OF I, of h y] by (auto simp: s'_def)
    show "owner ?c h = Some (Of_cond y) \<longleftrightarrow> (\<exists>co. conditions (store ?c) y = Some co \<and> co_semaphore co = Some h)"
      using objects_invD(7) [OF I, of h y] by (auto simp: s'_def)
  qed
  ultimately show ?thesis by blast
qed

lemma free_thread_inv:
  assumes I: "objects_inv K c" and p: "phase c x = Some Created \<or> phase c x = Some Joined"
  shows "\<exists>s'. nabto_device_threads_free_thread x (store c) = Some s' \<and> objects_inv K (c\<lparr>store := s', phase := (phase c)(x := None)\<rparr>)"
proof -
  define s' where "s' = (store c)\<lparr>threads := (threads (store c))(x := None)\<rparr>"
  let ?c = "c\<lparr>store := s', phase := (phase c)(x := None)\<rparr>"
  have "x \<in> dom (phase c)" using p by blast
  then obtain th where "threads (store c) x = Some th" unfolding objects_invD(2) [OF I] by blast
  then have "nabto_device_threads_free_thread x (store c) = Some s'" by (simp add: nabto_device_threads_free_thread_def s'_def)
  moreover have n: "\<not> active (phase c x)" using p by auto
  have "objects_inv K ?c"
  proof (rule objects_invI)
    fix y assume a: "active (phase ?c y)"
    then have y: "y \<noteq> x" by auto
    then have "thread_wf K c y" using a objects_invD(3) [OF I] by simp
    then show "thread_wf K ?c y" using y by (intro thread_wf_frame [of K c y ?c]) (auto simp: s'_def)
  next
    show "dom (owner ?c) = dom (sems (store ?c))" using objects_invD(1) [OF I] by (simp add: s'_def)
    show "dom (phase ?c) = dom (threads (store ?c))" using objects_invD(2) [OF I] by (simp add: s'_def)
  next
    fix h y
    show "active (phase ?c y)" if "owner ?c h = Some (Of_thread y)" using objects_invD(4) [OF I, of h y] that n by (cases "y = x") auto
    show "active (phase ?c y)" if "tasks (store ?c) h = Some y" using objects_invD(5) [OF I, of h y] that n by (cases "y = x") (auto simp: s'_def)
    show "owner ?c h = Some (Of_mutex y) \<longleftrightarrow> mutexes (store ?c) y = Some (Some h)" using objects_invD(6) [OF I, of h y] by (simp add: s'_def)
    show "owner ?c h = Some (Of_cond y) \<longleftrightarrow> (\<exists>co. conditions (store ?c) y = Some co \<and> co_semaphore co = Some h)"
      using objects_invD(7) [OF I, of h y] by (simp add: s'_def)
  qed
  ultimately show ?thesis by blast
qed

text \<open>Steps on mutexes and condition variables leave the threads alone.\<close>

lemma other_inv:
  assumes I: "objects_inv K c" and f: "phase c' = phase c" "threads (store c') = threads (store c)" "tasks (store c') = tasks (store c)"
    and o: "\<And>h x. owner c' h = Some (Of_thread x) \<longleftrightarrow> owner c h = Some (Of_thread x)"
    and s: "\<And>h x. owner c h = Some (Of_thread x) \<Longrightarrow> sems (store c') h = sems (store c) h"
    and "dom (owner c') = dom (sems (store c'))" "\<And>h x. owner c' h = Some (Of_mutex x) \<longleftrightarrow> mutexes (store c') x = Some (Some h)"
    and "\<And>h x. owner c' h = Some (Of_cond x) \<longleftrightarrow> (\<exists>co. conditions (store c') x = Some co \<and> co_semaphore co = Some h)"
  shows "objects_inv K c'"
proof (rule objects_invI)
  fix x assume "active (phase c' x)"
  then have "thread_wf K c x" using objects_invD(3) [OF I] f(1) by simp
  then show "thread_wf K c' x" by (rule thread_wf_frame) (use f o s in auto)
next
  fix h x
  show "active (phase c' x)" if "owner c' h = Some (Of_thread x)" using that objects_invD(4) [OF I, of h x] o f(1) by simp
  show "active (phase c' x)" if "tasks (store c') h = Some x" using that objects_invD(5) [OF I, of h x] f by simp
qed (use assms(7-9) objects_invD(2) [OF I] f in simp_all)

lemma new_sem_none:
  assumes I: "objects_inv K c" and n: "sems (store c) h = None"
  shows "owner c h = None" "mutexes (store c) x \<noteq> Some (Some h)" "conditions (store c) x = Some co \<Longrightarrow> co_semaphore co \<noteq> Some h"
  using owned_sem [OF I n] objects_invD(6) [OF I, of h x] objects_invD(7) [OF I, of h x] by auto

lemma new_mutex_inv:
  assumes I: "objects_inv K c" and n: "mutexes (store c) x = None" "sems (store c) h = None"
    and e: "nabto_device_threads_create_mutex K (Some x) (Some h) (store c) = (Some x, s')"
  shows "objects_inv K (c\<lparr>store := s', owner := (owner c)(h \<mapsto> Of_mutex x)\<rparr>)" (is "objects_inv K ?c")
proof -
  have s': "s' = (store c)\<lparr>sems := (sems (store c))(h \<mapsto> fn_mutex K), mutexes := (mutexes (store c))(x \<mapsto> Some h)\<rparr>"
    using e by (simp add: nabto_device_threads_create_mutex_def sem_create_def)
  note o = new_sem_none [OF I n(2)]
  show ?thesis
  proof (rule other_inv [OF I])
    fix k y
    show "owner ?c k = Some (Of_thread y) \<longleftrightarrow> owner c k = Some (Of_thread y)" using o(1) by auto
    show "sems (store ?c) k = sems (store c) k" if "owner c k = Some (Of_thread y)" using that o(1) by (auto simp: s')
    show "owner ?c k = Some (Of_mutex y) \<longleftrightarrow> mutexes (store ?c) y = Some (Some k)" using objects_invD(6) [OF I, of k y] o(2) n(1) by (auto simp: s')
    show "owner ?c k = Some (Of_cond y) \<longleftrightarrow> (\<exists>co. conditions (store ?c) y = Some co \<and> co_semaphore co = Some k)"
      using objects_invD(7) [OF I, of k y] o(3) by (auto simp: s')
  qed (use objects_invD(1) [OF I] in \<open>simp_all add: s'\<close>)
qed

lemma new_cond_inv:
  assumes I: "objects_inv K c" and n: "conditions (store c) x = None" "sems (store c) h = None"
    and e: "create_condition_object K (Some x) (Some h) (store c) = (Some x, s')"
  shows "objects_inv K (c\<lparr>store := s', owner := (owner c)(h \<mapsto> Of_cond x)\<rparr>)" (is "objects_inv K ?c")
proof -
  have s': "s' = (store c)\<lparr>sems := (sems (store c))(h \<mapsto> fn_counting K),
      conditions := (conditions (store c))(x \<mapsto> \<lparr>co_semaphore = Some h, co_waiting_threads = 0\<rparr>)\<rparr>"
    using e by (simp add: create_condition_object_def sem_create_def)
  note o = new_sem_none [OF I n(2)]
  show ?thesis
  proof (rule other_inv [OF I])
    fix k y
    show "owner ?c k = Some (Of_thread y) \<longleftrightarrow> owner c k = Some (Of_thread y)" using o(1) by auto
    show "sems (store ?c) k = sems (store c) k" if "owner c k = Some (Of_thread y)" using that o(1) by (auto simp: s')
    show "owner ?c k = Some (Of_mutex y) \<longleftrightarrow> mutexes (store ?c) y = Some (Some k)" using objects_invD(6) [OF I, of k y] o(2) by (auto simp: s')
    show "owner ?c k = Some (Of_cond y) \<longleftrightarrow> (\<exists>co. conditions (store ?c) y = Some co \<and> co_semaphore co = Some k)"
      using objects_invD(7) [OF I, of k y] o(3) n(1) by (auto simp: s')
  qed (use objects_invD(1) [OF I] in \<open>simp_all add: s'\<close>)
qed

lemma owner_live:
  assumes I: "objects_inv K c" and o: "owner c h = Some w"
  shows "\<exists>q. sems (store c) h = Some q"
proof -
  have "h \<in> dom (owner c)" using o by blast
  then show ?thesis unfolding objects_invD(1) [OF I] by blast
qed

lemma free_mutex_inv:
  assumes I: "objects_inv K c" and m: "mutexes (store c) x = Some (Some h)"
  shows "\<exists>s'. nabto_device_threads_free_mutex x (store c) = Some s' \<and>
    objects_inv K (c\<lparr>store := s', owner := (\<lambda>h. if owner c h = Some (Of_mutex x) then None else owner c h)\<rparr>)"
proof -
  have u: "owner c k = Some (Of_mutex x) \<longleftrightarrow> k = h" for k using objects_invD(6) [OF I, of k x] m by auto
  then have o: "owner c h = Some (Of_mutex x)" by simp
  obtain q where q: "sems (store c) h = Some q" using owner_live [OF I o] by blast
  define s' where "s' = (store c)\<lparr>sems := (sems (store c))(h := None), mutexes := (mutexes (store c))(x := None)\<rparr>"
  let ?c = "c\<lparr>store := s', owner := (\<lambda>k. if owner c k = Some (Of_mutex x) then None else owner c k)\<rparr>"
  have "nabto_device_threads_free_mutex x (store c) = Some s'"
    using m q by (simp add: nabto_device_threads_free_mutex_def vSemaphoreDelete_def s'_def)
  moreover have "objects_inv K ?c"
  proof (rule other_inv [OF I])
    fix k y
    show "owner ?c k = Some (Of_thread y) \<longleftrightarrow> owner c k = Some (Of_thread y)" by auto
    show "sems (store ?c) k = sems (store c) k" if "owner c k = Some (Of_thread y)" using that o by (auto simp: s'_def)
    show "owner ?c k = Some (Of_mutex y) \<longleftrightarrow> mutexes (store ?c) y = Some (Some k)" using objects_invD(6) [OF I, of k y] by (auto simp: s'_def)
    show "owner ?c k = Some (Of_cond y) \<longleftrightarrow> (\<exists>co. conditions (store ?c) y = Some co \<and> co_semaphore co = Some k)"
      using objects_invD(7) [OF I, of k y] by (auto simp: s'_def)
  next
    have "dom (owner ?c) = dom (owner c) - {h}" unfolding u by (auto simp: dom_def)
    then show "dom (owner ?c) = dom (sems (store ?c))" using objects_invD(1) [OF I] by (simp add: s'_def)
  qed (simp_all add: s'_def)
  ultimately show ?thesis by blast
qed

lemma free_cond_inv:
  assumes I: "objects_inv K c" and m: "conditions (store c) x = Some co" "co_semaphore co = Some h"
  shows "\<exists>s'. nabto_device_threads_free_cond x (store c) = Some s' \<and>
    objects_inv K (c\<lparr>store := s', owner := (\<lambda>h. if owner c h = Some (Of_cond x) then None else owner c h)\<rparr>)"
proof -
  have u: "owner c k = Some (Of_cond x) \<longleftrightarrow> k = h" for k using objects_invD(7) [OF I, of k x] m by auto
  then have o: "owner c h = Some (Of_cond x)" by simp
  obtain q where q: "sems (store c) h = Some q" using owner_live [OF I o] by blast
  define s' where "s' = (store c)\<lparr>sems := (sems (store c))(h := None), conditions := (conditions (store c))(x := None)\<rparr>"
  let ?c = "c\<lparr>store := s', owner := (\<lambda>k. if owner c k = Some (Of_cond x) then None else owner c k)\<rparr>"
  have "nabto_device_threads_free_cond x (store c) = Some s'"
    using m q by (simp add: nabto_device_threads_free_cond_def vSemaphoreDelete_def s'_def)
  moreover have "objects_inv K ?c"
  proof (rule other_inv [OF I])
    fix k y
    show "owner ?c k = Some (Of_thread y) \<longleftrightarrow> owner c k = Some (Of_thread y)" by auto
    show "sems (store ?c) k = sems (store c) k" if "owner c k = Some (Of_thread y)" using that o by (auto simp: s'_def)
    show "owner ?c k = Some (Of_mutex y) \<longleftrightarrow> mutexes (store ?c) y = Some (Some k)" using objects_invD(6) [OF I, of k y] by (auto simp: s'_def)
    show "owner ?c k = Some (Of_cond y) \<longleftrightarrow> (\<exists>co. conditions (store ?c) y = Some co \<and> co_semaphore co = Some k)"
      using objects_invD(7) [OF I, of k y] by (auto simp: s'_def)
  next
    have "dom (owner ?c) = dom (owner c) - {h}" unfolding u by (auto simp: dom_def)
    then show "dom (owner ?c) = dom (sems (store ?c))" using objects_invD(1) [OF I] by (simp add: s'_def)
  qed (simp_all add: s'_def)
  ultimately show ?thesis by blast
qed

lemma object_step_inv:
  assumes K: "sems_ok K" and st: "object_step K c c'" and I: "objects_inv K c"
  shows "objects_inv K c'"
  using st
proof cases
  case (new_thread x mem s')
  then show ?thesis using new_thread_inv [OF I] by blast
next
  case (run x m b t f d s')
  then show ?thesis using run_inv [OF I] by blast
next
  case (finish x s')
  then show ?thesis using finish_runs [OF I] by fastforce
next
  case (join x s')
  then have "phase c x = Some Running \<or> phase c x = Some Done" by (cases "phase c x" rule: active.cases) auto
  then show ?thesis using join join_running [OF K I, of x] join_done [OF K I, of x] by auto
next
  case (free_thread x s')
  then show ?thesis using free_thread_inv [OF I] by fastforce
next
  case (new_mutex x h s')
  then show ?thesis using new_mutex_inv [OF I] by blast
next
  case (free_mutex x s')
  then obtain h where "mutexes (store c) x = Some (Some h)"
    by (auto simp: nabto_device_threads_free_mutex_def vSemaphoreDelete_def bind_Some_conv)
  then show ?thesis using free_mutex free_mutex_inv [OF I] by fastforce
next
  case (new_cond x h s')
  then show ?thesis using new_cond_inv [OF I] by blast
next
  case (free_cond x s')
  then obtain co h where "conditions (store c) x = Some co" "co_semaphore co = Some h"
    by (auto simp: nabto_device_threads_free_cond_def vSemaphoreDelete_def bind_Some_conv)
  then show ?thesis using free_cond free_cond_inv [OF I] by fastforce
qed

definition no_objects :: "'q rtos \<Rightarrow> bool" where
  "no_objects s \<longleftrightarrow> threads s = Map.empty \<and> mutexes s = Map.empty \<and> conditions s = Map.empty"

lemma inv_empty:
  assumes I: "objects_inv K c" and n: "no_objects (store c)"
  shows "sems (store c) = Map.empty \<and> tasks (store c) = Map.empty"
proof -
  have p: "\<not> active (phase c x)" for x using objects_invD(2) [OF I] n by (auto simp: no_objects_def dom_def)
  have "owner c h = None" for h
  proof (cases "owner c h")
    case (Some w)
    then show ?thesis using objects_invD(4,6,7) [OF I, of h] p n by (cases w) (auto simp: no_objects_def)
  qed simp
  then have "dom (sems (store c)) = {}" using objects_invD(1) [OF I] by auto
  moreover have "tasks (store c) t = None" for t using objects_invD(5) [OF I, of t] p by (cases "tasks (store c) t") auto
  ultimately show ?thesis by auto
qed


definition count_sems :: "nat sem_fns" where
  "count_sems = \<lparr>fn_mutex = 1, fn_binary = 0, fn_counting = 0, fn_take = (\<lambda>q. if q = 0 then None else Some (q - 1)), fn_give = (\<lambda>q. 1)\<rparr>"

definition empty_objects :: "nat objects" where
  "empty_objects = \<lparr>store = \<lparr>sems = Map.empty, tasks = Map.empty, threads = Map.empty, mutexes = Map.empty, conditions = Map.empty\<rparr>,
     phase = Map.empty, owner = Map.empty\<rparr>"


text \<open>When \<^verbatim>\<open>xTaskCreate\<close> fails, the two semaphores of the thread are live and nothing in the interface deletes them: \<open>free_thread\<close> only frees the object.\<close>

lemma run_failure_leaks:
  assumes "threads s x = Some th" "sems s m = None" "sems s b = None" "m \<noteq> b"
  shows "\<exists>s1 s2. nabto_device_threads_run K (Some m) (Some b) None x f d s = Some (NABTO_EC_UNKNOWN, s1) \<and>
    nabto_device_threads_free_thread x s1 = Some s2 \<and> sems s2 m \<noteq> None \<and> sems s2 b \<noteq> None \<and> threads s2 x = None"
  using assms by (simp add: nabto_device_threads_run_def nabto_device_threads_free_thread_def sem_create_def)

end
