(* ===== verification/Chksum.thy ===== *)
theory Chksum
  imports Ip_Convert Pbuf_Chain
begin

unbundle bit_operations_syntax

text \<open>
  The Internet checksum, \<^verbatim>\<open>lwip/src/core/inet_chksum.c\<close> with \<^verbatim>\<open>LWIP_CHKSUM_ALGORITHM\<close> 2, on a host with
  the byte order of x86: the sum of a piece of memory, of a chain of pbufs and with the pseudo headers
  of IPv4 and IPv6. Memory is read in aligned half-words, so the routine depends on whether the
  address is odd: an argument, for pbufs a function of the address.
\<close>

definition FOLD_U32T :: "u32 \<Rightarrow> u32" where
  "FOLD_U32T u = drop_bit 16 u + (u AND 0x0000ffff)"

definition SWAP_BYTES_IN_WORD :: "u32 \<Rightarrow> u32" where
  "SWAP_BYTES_IN_WORD w = push_bit 8 (w AND 0xff) OR drop_bit 8 (w AND 0xff00)"

text \<open>\<open>half a b\<close>: the half-word in two bytes of memory.\<close>

definition half :: "u8 \<Rightarrow> u8 \<Rightarrow> u16" where
  "half a b = ucast a OR push_bit 8 (ucast b)"

definition lwip_htons :: "u16 \<Rightarrow> u16" where
  "lwip_htons n = push_bit 8 (n AND 0x00ff) OR drop_bit 8 (n AND 0xff00)"

fun sum_halves :: "bytes \<Rightarrow> u32 \<Rightarrow> bytes \<times> u32" where
  "sum_halves (a # b # bs) s = sum_halves bs (s + ucast (half a b))"
| "sum_halves bs s = (bs, s)"

definition lwip_standard_chksum :: "bool \<Rightarrow> bytes \<Rightarrow> u16" where
  "lwip_standard_chksum is_odd dataptr =
     (let (t1, pb) = (if is_odd \<and> dataptr \<noteq> [] then (hd dataptr, tl dataptr) else (0, dataptr));
          (ps, sum) = sum_halves pb 0;
          t0 = (case ps of [] \<Rightarrow> 0 | b # _ \<Rightarrow> b);
          sum1 = FOLD_U32T (FOLD_U32T (sum + ucast (half t0 t1)))
      in ucast (if is_odd then SWAP_BYTES_IN_WORD sum1 else sum1))"

definition inet_chksum :: "bool \<Rightarrow> bytes \<Rightarrow> u16" where
  "inet_chksum is_odd dataptr = NOT (lwip_standard_chksum is_odd dataptr)"

subsection \<open>Packets\<close>

text \<open>The loop over the pbufs, which three functions share; \<open>is_odd\<close> tells for an address whether it is odd.\<close>

partial_function (option) chksum_loop ::
    "(address \<Rightarrow> bool) \<Rightarrow> ptr option \<Rightarrow> u32 \<Rightarrow> bool \<Rightarrow> pmem \<Rightarrow> (u32 \<times> bool) option" where
  "chksum_loop is_odd q acc swapped m = (case q of
     None \<Rightarrow> Some (acc, swapped)
   | Some x \<Rightarrow> do {
       b \<leftarrow> pb m x;
       bs \<leftarrow> rd m (payload b) (unat (pb_len b));
       let acc1 = FOLD_U32T (acc + ucast (lwip_standard_chksum (is_odd (payload b)) bs));
       if pb_len b mod 2 \<noteq> 0
       then chksum_loop is_odd (pb_next b) (SWAP_BYTES_IN_WORD acc1) (\<not> swapped) m
       else chksum_loop is_odd (pb_next b) acc1 swapped m })"

definition inet_chksum_pbuf :: "(address \<Rightarrow> bool) \<Rightarrow> ptr option \<Rightarrow> pmem \<Rightarrow> u16 option" where
  "inet_chksum_pbuf is_odd p m = do {
     (acc, swapped) \<leftarrow> chksum_loop is_odd p 0 False m;
     let acc1 = (if swapped then SWAP_BYTES_IN_WORD acc else acc);
     Some (ucast (NOT (acc1 AND 0xffff))) }"

text \<open>\<open>add_pseudo\<close>: the end of the functions with a pseudo header, after the loop.\<close>

definition add_pseudo :: "u8 \<Rightarrow> u16 \<Rightarrow> u32 \<times> bool \<Rightarrow> u16" where
  "add_pseudo proto proto_len = (\<lambda>(acc, swapped).
     (let acc1 = (if swapped then SWAP_BYTES_IN_WORD acc else acc);
          acc2 = acc1 + ucast (lwip_htons (ucast proto)) + ucast (lwip_htons proto_len)
      in ucast (NOT (FOLD_U32T (FOLD_U32T acc2) AND 0xffff))))"

definition inet_cksum_pseudo_base ::
    "(address \<Rightarrow> bool) \<Rightarrow> ptr option \<Rightarrow> u8 \<Rightarrow> u16 \<Rightarrow> u32 \<Rightarrow> pmem \<Rightarrow> u16 option" where
  "inet_cksum_pseudo_base is_odd p proto proto_len acc m = do {
     r \<leftarrow> chksum_loop is_odd p acc False m;
     Some (add_pseudo proto proto_len r) }"

text \<open>\<open>addr_word a i\<close>: the \<open>i\<close>th 32-bit word of an address in memory.\<close>

definition addr_word :: "ip_addr \<Rightarrow> nat \<Rightarrow> u32" where
  "addr_word a i = (let bs = u_addr a
     in ucast (half (bs ! (4 * i)) (bs ! (4 * i + 1))) OR push_bit 16 (ucast (half (bs ! (4 * i + 2)) (bs ! (4 * i + 3)))))"

definition add_addr :: "u32 \<Rightarrow> u32 \<Rightarrow> u32" where
  "add_addr acc addr = acc + (addr AND 0xffff) + (drop_bit 16 addr AND 0xffff)"

definition ip4_pseudo_acc :: "ip_addr \<Rightarrow> ip_addr \<Rightarrow> u32" where
  "ip4_pseudo_acc src dest = FOLD_U32T (FOLD_U32T (add_addr (add_addr 0 (addr_word src 0)) (addr_word dest 0)))"

definition ip6_pseudo_acc :: "ip_addr \<Rightarrow> ip_addr \<Rightarrow> u32" where
  "ip6_pseudo_acc src dest =
     FOLD_U32T (FOLD_U32T (fold (\<lambda>i acc. add_addr (add_addr acc (addr_word src i)) (addr_word dest i)) [0..<4] 0))"

definition inet_chksum_pseudo ::
    "(address \<Rightarrow> bool) \<Rightarrow> ptr option \<Rightarrow> u8 \<Rightarrow> u16 \<Rightarrow> ip_addr \<Rightarrow> ip_addr \<Rightarrow> pmem \<Rightarrow> u16 option" where
  "inet_chksum_pseudo is_odd p proto proto_len src dest m =
     inet_cksum_pseudo_base is_odd p proto proto_len (ip4_pseudo_acc src dest) m"

definition ip6_chksum_pseudo ::
    "(address \<Rightarrow> bool) \<Rightarrow> ptr option \<Rightarrow> u8 \<Rightarrow> u16 \<Rightarrow> ip_addr \<Rightarrow> ip_addr \<Rightarrow> pmem \<Rightarrow> u16 option" where
  "ip6_chksum_pseudo is_odd p proto proto_len src dest m =
     inet_cksum_pseudo_base is_odd p proto proto_len (ip6_pseudo_acc src dest) m"

definition ip_chksum_pseudo ::
    "(address \<Rightarrow> bool) \<Rightarrow> ptr option \<Rightarrow> u8 \<Rightarrow> u16 \<Rightarrow> ip_addr \<Rightarrow> ip_addr \<Rightarrow> pmem \<Rightarrow> u16 option" where
  "ip_chksum_pseudo is_odd p proto proto_len src dest m =
     (if ip_type dest = IPADDR_TYPE_V6 then ip6_chksum_pseudo is_odd p proto proto_len src dest m
      else inet_chksum_pseudo is_odd p proto proto_len src dest m)"

text \<open>The functions for the first \<open>chksum_len\<close> bytes of a packet; an assertion bounds what is left after a pbuf.\<close>

partial_function (option) partial_loop ::
    "(address \<Rightarrow> bool) \<Rightarrow> ptr option \<Rightarrow> u16 \<Rightarrow> u32 \<Rightarrow> bool \<Rightarrow> pmem \<Rightarrow> (u32 \<times> bool) option" where
  "partial_loop is_odd q chksum_len acc swapped m = (case q of
     None \<Rightarrow> Some (acc, swapped)
   | Some x \<Rightarrow>
       if chksum_len > 0
       then do {
         b \<leftarrow> pb m x;
         let chklen = (if pb_len b > chksum_len then chksum_len else pb_len b);
         bs \<leftarrow> rd m (payload b) (unat chklen);
         let rest = chksum_len - chklen;
         require (rest < 0x7fff);
         let acc1 = FOLD_U32T (acc + ucast (lwip_standard_chksum (is_odd (payload b)) bs));
         if pb_len b mod 2 \<noteq> 0
         then partial_loop is_odd (pb_next b) rest (SWAP_BYTES_IN_WORD acc1) (\<not> swapped) m
         else partial_loop is_odd (pb_next b) rest acc1 swapped m }
       else Some (acc, swapped))"

definition inet_cksum_pseudo_partial_base ::
    "(address \<Rightarrow> bool) \<Rightarrow> ptr option \<Rightarrow> u8 \<Rightarrow> u16 \<Rightarrow> u16 \<Rightarrow> u32 \<Rightarrow> pmem \<Rightarrow> u16 option" where
  "inet_cksum_pseudo_partial_base is_odd p proto proto_len chksum_len acc m = do {
     r \<leftarrow> partial_loop is_odd p chksum_len acc False m;
     Some (add_pseudo proto proto_len r) }"

definition inet_chksum_pseudo_partial ::
    "(address \<Rightarrow> bool) \<Rightarrow> ptr option \<Rightarrow> u8 \<Rightarrow> u16 \<Rightarrow> u16 \<Rightarrow> ip_addr \<Rightarrow> ip_addr \<Rightarrow> pmem \<Rightarrow> u16 option" where
  "inet_chksum_pseudo_partial is_odd p proto proto_len chksum_len src dest m =
     inet_cksum_pseudo_partial_base is_odd p proto proto_len chksum_len (ip4_pseudo_acc src dest) m"

definition ip6_chksum_pseudo_partial ::
    "(address \<Rightarrow> bool) \<Rightarrow> ptr option \<Rightarrow> u8 \<Rightarrow> u16 \<Rightarrow> u16 \<Rightarrow> ip_addr \<Rightarrow> ip_addr \<Rightarrow> pmem \<Rightarrow> u16 option" where
  "ip6_chksum_pseudo_partial is_odd p proto proto_len chksum_len src dest m =
     inet_cksum_pseudo_partial_base is_odd p proto proto_len chksum_len (ip6_pseudo_acc src dest) m"

definition ip_chksum_pseudo_partial ::
    "(address \<Rightarrow> bool) \<Rightarrow> ptr option \<Rightarrow> u8 \<Rightarrow> u16 \<Rightarrow> u16 \<Rightarrow> ip_addr \<Rightarrow> ip_addr \<Rightarrow> pmem \<Rightarrow> u16 option" where
  "ip_chksum_pseudo_partial is_odd p proto proto_len chksum_len src dest m =
     (if ip_type dest = IPADDR_TYPE_V6 then ip6_chksum_pseudo_partial is_odd p proto proto_len chksum_len src dest m
      else inet_chksum_pseudo_partial is_odd p proto proto_len chksum_len src dest m)"

subsection \<open>Sums in ones' complement\<close>

text \<open>
  The reference: \<open>hsum\<close> adds the bytes with weights 1 and 256 alternating, as a number; \<open>oc\<close> is the
  value of a number in 16-bit ones' complement arithmetic, with zero only for zero.
\<close>

fun hsum :: "bool \<Rightarrow> bytes \<Rightarrow> nat" where
  "hsum hi [] = 0"
| "hsum hi (b # bs) = (if hi then 256 * unat b else unat b) + hsum (\<not> hi) bs"

definition oc :: "nat \<Rightarrow> nat" where
  "oc n = (if n = 0 then 0 else (n - 1) mod 65535 + 1)"

lemma oc_mod: "oc n mod 65535 = n mod 65535"
  by (cases n) (simp_all add: oc_def mod_Suc_eq)

lemma oc_0 [simp]: "oc n = 0 \<longleftrightarrow> n = 0"
  by (simp add: oc_def)

lemma oc_zero [simp]: "oc 0 = 0"
  by simp

lemma oc_le: "oc n \<le> 65535"
proof -
  have "(n - 1) mod 65535 < 65535" by simp
  then show ?thesis unfolding oc_def by (split if_split) linarith
qed

lemma oc_eq_iff: "oc a = oc b \<longleftrightarrow> a mod 65535 = b mod 65535 \<and> (a = 0 \<longleftrightarrow> b = 0)"
proof
  assume "a mod 65535 = b mod 65535 \<and> (a = 0 \<longleftrightarrow> b = 0)"
  then have m: "oc a mod 65535 = oc b mod 65535" and z: "oc a = 0 \<longleftrightarrow> oc b = 0" by (simp_all add: oc_mod)
  consider "oc a < 65535" "oc b < 65535" | "oc a = 65535" | "oc b = 65535" using oc_le [of a] oc_le [of b] by linarith
  then show "oc a = oc b"
  proof cases
    case 1
    then show ?thesis using m by simp
  next
    case 2
    then show ?thesis using m z oc_le [of b] by (cases "oc b = 65535") auto
  next
    case 3
    then show ?thesis using m z oc_le [of a] by (cases "oc a = 65535") auto
  qed
qed (metis oc_0 oc_mod)

lemma oc_small: "n < 65536 \<Longrightarrow> oc n = n"
  by (auto simp: oc_def)

lemma oc_add: "oc (oc a + b) = oc (a + b)"
  unfolding oc_eq_iff by (metis add_is_0 mod_add_left_eq oc_0 oc_mod)

lemma oc_add2: "oc (b + oc a) = oc (b + a)"
  using oc_add [of a b] by (simp add: add.commute)

lemma oc_oc [simp]: "oc (oc n) = oc n"
  using oc_add [of n 0] by simp

lemma oc_mult: "oc (c * oc a) = oc (c * a)"
  unfolding oc_eq_iff by (metis mult_is_0 mod_mult_right_eq oc_0 oc_mod)

lemma mod_65536: "(65536 * n) mod 65535 = n mod (65535 :: nat)"
  using mod_mult_left_eq [of 65536 65535 n] by simp

lemma oc_shift: "oc (65536 * n) = oc n"
  unfolding oc_eq_iff by (simp add: mod_65536)

lemma hsum_shift: "(256 * hsum hi bs) mod 65535 = hsum (\<not> hi) bs mod 65535"
proof (induction bs arbitrary: hi)
  case (Cons b bs)
  have "(256 * (if hi then 256 * unat b else unat b)) mod 65535 = (if \<not> hi then 256 * unat b else unat b) mod 65535"
    using mod_65536 [of "unat b"] by simp
  from mod_add_cong [OF this Cons.IH [of "\<not> hi"]] show ?case by (simp add: distrib_left)
qed simp

lemma hsum_0: "hsum hi bs = 0 \<longleftrightarrow> hsum (\<not> hi) bs = 0"
  by (induction bs arbitrary: hi) auto

lemma oc_hsum: "oc (256 * hsum hi bs) = oc (hsum (\<not> hi) bs)"
  unfolding oc_eq_iff using hsum_shift [of hi bs] hsum_0 [of hi bs] by auto

lemma hsum_append: "hsum hi (xs @ ys) = hsum hi xs + hsum (hi \<noteq> odd (length xs)) ys"
proof (induction xs arbitrary: hi)
  case (Cons x xs)
  have "((\<not> hi) \<noteq> odd (length xs)) = (hi \<noteq> odd (length (x # xs)))" by auto
  then show ?case using Cons.IH [of "\<not> hi"] by simp
qed simp

subsection \<open>The macros\<close>

lemma and_mask: "(w :: 'a :: len word) AND 0xff = take_bit 8 w" "w AND 0xffff = take_bit 16 w"
  by (simp_all add: take_bit_eq_mask mask_numeral)

lemma unat_fold: "unat (FOLD_U32T u) = unat u div 65536 + unat u mod 65536"
proof -
  have "unat (drop_bit 16 u) = unat u div 65536" unfolding unat_drop_bit_eq by (simp add: drop_bit_eq_div)
  moreover have "unat (u AND 0x0000ffff) = unat u mod 65536" unfolding and_mask unsigned_take_bit_eq by (simp add: take_bit_eq_mod)
  moreover have "unat u < 2 ^ 32" using unsigned_less [of u] by simp
  ultimately show ?thesis unfolding FOLD_U32T_def by (subst unat_word_ariths) simp
qed

lemma oc_fold: "oc (unat (FOLD_U32T u)) = oc (unat u)"
proof -
  have "(65536 * (unat u div 65536) + unat u mod 65536) mod 65535 = (unat u div 65536 + unat u mod 65536) mod 65535"
    by (rule mod_add_cong) (simp_all add: mod_65536)
  then have "unat u mod 65535 = (unat u div 65536 + unat u mod 65536) mod 65535" by (simp del: mult_mod_left)
  then show ?thesis unfolding oc_eq_iff unat_fold by (auto simp: mod_eq_0_iff_dvd)
qed

lemma or_bytes: "push_bit 8 (take_bit 8 (w :: nat)) OR take_bit 8 v = 256 * (w mod 256) + v mod 256"
proof -
  have "push_bit 8 (take_bit 8 w) OR take_bit 8 v = push_bit 8 (take_bit 8 w) + take_bit 8 v"
    by (rule disjunctive_add_eq_or [symmetric]) (auto simp: bit_eq_iff bit_simps)
  then show ?thesis by (simp add: push_bit_eq_mult take_bit_eq_mod)
qed

lemma mask_high: "drop_bit 8 ((w :: 'a :: len word) AND 0xff00) = take_bit 8 (drop_bit 8 w)"
proof -
  have "(0xff00 :: 'a word) = push_bit 8 (mask 8)" by (simp add: mask_numeral push_bit_eq_mult)
  then show ?thesis unfolding \<open>_ = push_bit 8 (mask 8)\<close> by (intro bit_word_eqI) (auto simp: bit_simps dest: bit_imp_le_length)
qed

lemma unat_swap:
  assumes "unat w < 65536"
  shows "unat (SWAP_BYTES_IN_WORD w) = 256 * (unat w mod 256) + unat w div 256"
proof -
  have "take_bit 32 (push_bit 8 (take_bit 8 (unat w))) = push_bit 8 (take_bit 8 (unat w))"
    by (rule bit_eqI) (auto simp: bit_simps)
  moreover have "unat w div 256 mod 256 = unat w div 256" using assms by simp
  ultimately show ?thesis unfolding SWAP_BYTES_IN_WORD_def mask_high and_mask
    using or_bytes [of "unat w" "drop_bit 8 (unat w)"]
    unfolding unsigned_or_eq unsigned_push_bit_eq unsigned_take_bit_eq unat_drop_bit_eq by (simp add: drop_bit_eq_div)
qed

lemma unat_htons: "unat (lwip_htons n) = 256 * (unat n mod 256) + unat n div 256"
proof -
  have "take_bit 16 (push_bit 8 (take_bit 8 (unat n))) = push_bit 8 (take_bit 8 (unat n))"
    by (rule bit_eqI) (auto simp: bit_simps)
  moreover have "unat n div 256 mod 256 = unat n div 256" using unat16_less [of n] by simp
  ultimately show ?thesis unfolding lwip_htons_def mask_high and_mask
    using or_bytes [of "unat n" "drop_bit 8 (unat n)"]
    unfolding unsigned_or_eq unsigned_push_bit_eq unsigned_take_bit_eq unat_drop_bit_eq by (simp add: drop_bit_eq_div)
qed

lemma unat8_less: "unat (w :: u8) < 256"
  using unsigned_less [of w] by simp

lemma unat_half: "unat (half a b) = unat a + 256 * unat b"
proof -
  note l = unat8_less [of a] unat8_less [of b]
  then have t: "take_bit 8 (unat a) = unat a" "take_bit 8 (unat b) = unat b" "take_bit 16 (unat a) = unat a" "take_bit 16 (unat b) = unat b"
    by (simp_all add: take_bit_eq_mod)
  have "take_bit 16 (push_bit 8 (unat b)) = push_bit 8 (unat b)" using l by (simp add: take_bit_eq_mod push_bit_eq_mult)
  then show ?thesis using or_bytes [of "unat b" "unat a"] t l unfolding half_def
    by (simp add: unsigned_or_eq unsigned_push_bit_eq unsigned_ucast_eq or.commute)
qed

subsection \<open>The sum of a piece of memory\<close>

lemma hsum_bound: "2 * hsum hi bs \<le> 65535 * length bs + (if hi then 65025 else 0)"
proof (induction bs arbitrary: hi)
  case (Cons b bs)
  have "unat b \<le> 255" using unat8_less [of b] by simp
  then show ?case using Cons.IH [of "\<not> hi"] by (cases hi) simp_all
qed simp

lemma half_nat: "ucast (half a b) = (of_nat (unat a + 256 * unat b) :: u32)"
  unfolding unat_half [symmetric] by simp

lemma sum_halves_eq:
  "sum_halves bs s = (ps, r) \<Longrightarrow> r + of_nat (unat (case ps of [] \<Rightarrow> 0 | b # _ \<Rightarrow> b)) = s + of_nat (hsum False bs)"
proof (induction bs s rule: sum_halves.induct)
  case (1 a b bs s)
  from 1(1) [of] 1(2) show ?case by (simp add: half_nat algebra_simps)
qed auto

lemma fold_fold: "unat (FOLD_U32T (FOLD_U32T u)) = oc (unat u)"
proof -
  have "unat u < 2 ^ 32" using unsigned_less [of u] by simp
  then have "unat u div 65536 < 65536" by simp
  moreover have "unat u mod 65536 < 65536" by simp
  ultimately have "unat (FOLD_U32T u) \<le> 131070" unfolding unat_fold by linarith
  then have "unat (FOLD_U32T (FOLD_U32T u)) < 65536" unfolding unat_fold [of "FOLD_U32T u"]
    using mult_div_mod_eq [of 65536 "unat (FOLD_U32T u)"] by linarith
  from oc_small [OF this] show ?thesis by (simp add: oc_fold)
qed

lemma unat_swap_oc:
  assumes "unat w < 65536"
  shows "unat (SWAP_BYTES_IN_WORD w) = oc (256 * unat w)"
proof -
  have s: "unat (SWAP_BYTES_IN_WORD w) < 65536" unfolding unat_swap [OF assms] using assms by linarith
  have "256 * unat w = 65536 * (unat w div 256) + 256 * (unat w mod 256)"
    using mult_div_mod_eq [of 256 "unat w"] by linarith
  moreover have "(65536 * (unat w div 256) + 256 * (unat w mod 256)) mod 65535 = (unat w div 256 + 256 * (unat w mod 256)) mod 65535"
    by (rule mod_add_cong) (simp_all add: mod_65536)
  ultimately have "oc (256 * unat w) = oc (unat (SWAP_BYTES_IN_WORD w))"
    unfolding oc_eq_iff unat_swap [OF assms] by (auto simp: add.commute)
  then show ?thesis using oc_small [OF s] by simp
qed

lemma standard_chksum_eq:
  assumes "length bs \<le> 0x20000"
  shows "unat (lwip_standard_chksum is_odd bs) = oc (hsum False bs)"
proof -
  obtain t1 pb where t1: "(if is_odd \<and> bs \<noteq> [] then (hd bs, tl bs) else (0, bs)) = (t1, pb)" by fastforce
  obtain ps r where r: "sum_halves pb 0 = (ps, r)" by fastforce
  define t0 :: u8 where "t0 = (case ps of [] \<Rightarrow> 0 | b # _ \<Rightarrow> b)"
  have h: "hsum is_odd bs = 256 * unat t1 + hsum False pb" using t1 by (cases bs) (auto split: if_splits)
  have "r + ucast (half t0 t1) = of_nat (hsum is_odd bs)"
    using sum_halves_eq [OF r] h by (simp add: half_nat t0_def algebra_simps)
  moreover have "hsum is_odd bs < 2 ^ 32" using hsum_bound [of is_odd bs] assms by (auto split: if_splits)
  ultimately have u: "unat (r + ucast (half t0 t1)) = hsum is_odd bs" by (simp add: unat_of_nat_small)
  define w where "w = FOLD_U32T (FOLD_U32T (r + ucast (half t0 t1)))"
  have w: "unat w = oc (hsum is_odd bs)" unfolding w_def fold_fold u ..
  then have l: "unat w < 65536" using oc_le [of "hsum is_odd bs"] by simp
  have c: "lwip_standard_chksum is_odd bs = ucast (if is_odd then SWAP_BYTES_IN_WORD w else w)"
    unfolding lwip_standard_chksum_def t1 by (simp add: r w_def t0_def)
  show ?thesis
  proof (cases is_odd)
    case True
    then have "unat (SWAP_BYTES_IN_WORD w) = oc (hsum False bs)"
      using unat_swap_oc [OF l] oc_hsum [of True bs] by (simp add: w oc_mult)
    then show ?thesis unfolding c using True oc_le [of "hsum False bs"] by (simp add: unsigned_ucast_eq take_bit_eq_mod)
  next
    case False
    then show ?thesis unfolding c using w l by (simp add: unsigned_ucast_eq take_bit_eq_mod)
  qed
qed

subsection \<open>The sum of a packet\<close>

text \<open>The value of an accumulator: with an odd number of bytes before, its two bytes are exchanged.\<close>

definition acc_value :: "u32 \<Rightarrow> bool \<Rightarrow> nat" where
  "acc_value acc swapped = oc ((if swapped then 256 else 1) * unat acc)"

lemma acc_value_swap: "unat acc < 65536 \<Longrightarrow> acc_value (SWAP_BYTES_IN_WORD acc) (\<not> swapped) = acc_value acc swapped"
  by (simp add: acc_value_def unat_swap_oc oc_mult oc_shift flip: mult.assoc)

lemma swap_less: "unat acc < 65536 \<Longrightarrow> unat (SWAP_BYTES_IN_WORD acc) < 65536"
  using oc_le [of "256 * unat acc"] by (simp add: unat_swap_oc)

text \<open>One pbuf: the folded sum stays below \<open>2^16\<close> and its value grows by the sum of the bytes.\<close>

lemma acc_step:
  assumes "unat acc < 65536" "length bs < 65536" "acc1 = FOLD_U32T (acc + ucast (lwip_standard_chksum od bs))"
  shows "unat acc1 < 65536" "acc_value acc1 swapped = oc (acc_value acc swapped + hsum swapped bs)"
proof -
  define c where "c = oc (hsum False bs)"
  have c: "unat (ucast (lwip_standard_chksum od bs) :: u32) = c" "c \<le> 65535"
    using standard_chksum_eq [of bs od] assms(2) oc_le [of "hsum False bs"] unat16_less [of "lwip_standard_chksum od bs"]
    by (simp_all add: unsigned_ucast_eq take_bit_eq_mod c_def)
  have u: "unat (acc + ucast (lwip_standard_chksum od bs)) = unat acc + c" using c assms(1) by (subst unat_word_ariths) simp
  then show "unat acc1 < 65536" using mult_div_mod_eq [of 65536 "unat acc + c"] c(2) assms(1)
    unfolding assms(3) unat_fold u by linarith
  have "oc (unat acc1) = oc (unat acc + hsum False bs)"
    unfolding assms(3) oc_fold u c_def by (simp add: add.commute [of "unat acc"] oc_add)
  then have "acc_value acc1 swapped = oc ((if swapped then 256 else 1) * (unat acc + hsum False bs))"
    unfolding acc_value_def by (metis oc_mult)
  also have "\<dots> = oc (acc_value acc swapped + hsum swapped bs)"
  proof (cases swapped)
    case True
    have "oc (256 * unat acc + 256 * hsum False bs) = oc (256 * hsum False bs + 256 * unat acc)" by (simp add: add.commute)
    also have "\<dots> = oc (hsum True bs + 256 * unat acc)" using oc_hsum [of False bs] oc_add by metis
    finally show ?thesis using True by (simp add: acc_value_def oc_add2 distrib_left add.commute [of "oc _"])
  qed (simp add: acc_value_def oc_add)
  finally show "acc_value acc1 swapped = oc (acc_value acc swapped + hsum swapped bs)" .
qed

lemma acc_next:
  assumes "unat acc < 65536"
  shows "unat (if od then SWAP_BYTES_IN_WORD acc else acc) < 65536"
    "acc_value (if od then SWAP_BYTES_IN_WORD acc else acc) (swapped \<noteq> od) = acc_value acc swapped"
  using assms swap_less [OF assms] acc_value_swap [OF assms, of swapped] by auto

lemma odd_len: "(w :: u16) mod 2 \<noteq> 0 \<longleftrightarrow> odd (unat w)"
  by (simp add: word_unat_eq_iff unat_mod odd_iff_mod_2_eq_one)

lemma chksum_loop_chain:
  assumes "chain (pb m) q xs" "data_ok m xs" "unat acc < 65536"
  shows "\<exists>acc' sw'. chksum_loop is_odd q acc sw m = Some (acc', sw') \<and> unat acc' < 65536 \<and>
    acc_value acc' sw' = oc (acc_value acc sw + hsum sw (content m xs))"
  using assms
proof (induction xs arbitrary: q acc sw)
  case Nil
  then show ?case by (subst chksum_loop.simps) (simp add: acc_value_def)
next
  case (Cons x xs)
  then obtain b where b: "q = Some x" "pb m x = Some b" "in_buf m (payload b) (unat (pb_len b))"
    "chain (pb m) (pb_next b) xs" "data_ok m xs" by auto
  have lp: "length (pay m x) = unat (pb_len b)" by (rule length_pay [OF b(2,3)])
  have sh: "shift (payload b) 0 = payload b" by simp
  have rd: "rd m (payload b) (unat (pb_len b)) = Some (pay m x)" using rd_pay [OF b(2,3), of 0 "unat (pb_len b)"] lp sh by simp
  define acc1 where "acc1 = FOLD_U32T (acc + ucast (lwip_standard_chksum (is_odd (payload b)) (pay m x)))"
  define od where "od \<longleftrightarrow> odd (length (pay m x))"
  define acc2 where "acc2 = (if od then SWAP_BYTES_IN_WORD acc1 else acc1)"
  have l: "length (pay m x) < 65536" using lp unat16_less [of "pb_len b"] by simp
  note st = acc_step [OF Cons.prems(3) l acc1_def]
  have nx: "unat acc2 < 65536" "acc_value acc2 (sw \<noteq> od) = acc_value acc1 sw" using acc_next(1) [OF st(1), of od] acc_next(2) [OF st(1), of od sw] by (simp_all add: acc2_def)
  obtain acc' sw' where r: "chksum_loop is_odd (pb_next b) acc2 (sw \<noteq> od) m = Some (acc', sw')" "unat acc' < 65536"
    "acc_value acc' sw' = oc (acc_value acc2 (sw \<noteq> od) + hsum (sw \<noteq> od) (content m xs))"
    using Cons.IH [OF b(4,5) nx(1)] by blast
  have "pb_len b mod 2 \<noteq> 0 \<longleftrightarrow> od" using odd_len [of "pb_len b"] by (simp only: od_def lp)
  then have "chksum_loop is_odd q acc sw m = Some (acc', sw')"
    using b(1,2) rd r(1) by (subst chksum_loop.simps, cases od) (simp_all add: acc2_def flip: acc1_def)
  moreover have "oc (acc_value acc2 (sw \<noteq> od) + hsum (sw \<noteq> od) (content m xs)) = oc (acc_value acc sw + hsum sw (content m (x # xs)))"
    unfolding nx(2) st(2) by (simp add: oc_add hsum_append od_def add.assoc)
  ultimately show ?case using r(2,3) by auto
qed

lemma acc_final: "unat acc < 65536 \<Longrightarrow> unat (if sw then SWAP_BYTES_IN_WORD acc else acc) = acc_value acc sw"
  by (simp add: acc_value_def unat_swap_oc oc_small)

lemma ucast_not: "ucast (NOT (v AND 0xffff)) = (NOT (ucast (v :: u32)) :: u16)"
  unfolding and_mask by (intro bit_word_eqI) (auto simp: bit_simps)

lemma chksum_finish:
  assumes "unat (v :: u32) = oc (hsum False bs)" "length bs \<le> 0x20000"
  shows "ucast (NOT (v AND 0xffff)) = inet_chksum od bs"
proof -
  have "(ucast v :: u16) = lwip_standard_chksum od bs"
    using standard_chksum_eq [OF assms(2), of od] assms(1) oc_le [of "hsum False bs"]
    by (simp add: word_unat_eq_iff unsigned_ucast_eq take_bit_eq_mod)
  then show ?thesis unfolding ucast_not inet_chksum_def by simp
qed

lemma chksum_pbuf_chain:
  assumes "chain (pb m) p xs" "data_ok m xs" "lens (pb m) xs \<le> 0x20000"
  shows "inet_chksum_pbuf is_odd p m = Some (inet_chksum od (content m xs))"
proof -
  obtain acc sw where l: "chksum_loop is_odd p 0 False m = Some (acc, sw)" "unat acc < 65536"
    "acc_value acc sw = oc (hsum False (content m xs))"
    using chksum_loop_chain [OF assms(1,2), of 0 is_odd False] by (auto simp: acc_value_def)
  have "unat (if sw then SWAP_BYTES_IN_WORD acc else acc) = oc (hsum False (content m xs))" using acc_final [OF l(2)] l(3) by simp
  from chksum_finish [OF this, of od] show ?thesis using l(1) assms(3) length_content [OF assms(2)]
    by (simp add: inet_chksum_pbuf_def split del: if_split)
qed

subsection \<open>Pseudo headers\<close>

definition be16 :: "u16 \<Rightarrow> bytes" where
  "be16 n = [ucast (drop_bit 8 n), ucast n]"

text \<open>The pseudo headers of RFC 768/793 and RFC 8200.\<close>

definition pseudo_header :: "ip_addr \<Rightarrow> ip_addr \<Rightarrow> u8 \<Rightarrow> u16 \<Rightarrow> bytes" where
  "pseudo_header src dest proto proto_len =
     (if ip_type dest = IPADDR_TYPE_V6 then u_addr src @ u_addr dest @ [0, 0] @ be16 proto_len @ [0, 0, 0, proto]
      else take 4 (u_addr src) @ take 4 (u_addr dest) @ [0, proto] @ be16 proto_len)"

lemma unat_addr_halves:
  "unat (half a b) = unat (((ucast (half a b) OR push_bit 16 (ucast (half c d))) :: u32) AND 0xffff)"
  "unat (half c d) = unat (drop_bit 16 ((ucast (half a b) OR push_bit 16 (ucast (half c d))) :: u32) AND 0xffff)"
proof -
  have "((ucast (half a b) OR push_bit 16 (ucast (half c d))) :: u32) AND 0xffff = ucast (half a b)"
    "drop_bit 16 ((ucast (half a b) OR push_bit 16 (ucast (half c d))) :: u32) AND 0xffff = ucast (half c d)"
    unfolding and_mask by (intro bit_word_eqI; auto simp: bit_simps dest: bit_imp_le_length)+
  then show "unat (half a b) = unat (((ucast (half a b) OR push_bit 16 (ucast (half c d))) :: u32) AND 0xffff)"
  "unat (half c d) = unat (drop_bit 16 ((ucast (half a b) OR push_bit 16 (ucast (half c d))) :: u32) AND 0xffff)"
    using unat16_less [of "half a b"] unat16_less [of "half c d"] by (simp_all add: unsigned_ucast_eq take_bit_eq_mod)
qed

definition addr_sum :: "ip_addr \<Rightarrow> nat \<Rightarrow> nat" where
  "addr_sum a i = hsum False (take 4 (drop (4 * i) (u_addr a)))"

lemma take4: "i + 4 \<le> length bs \<Longrightarrow> take 4 (drop i bs) = [bs ! i, bs ! (i + 1), bs ! (i + 2), bs ! (i + 3)]"
  by (simp add: list_eq_iff_nth_eq nth_Cons' numeral_eq_Suc less_Suc_eq_le le_Suc_eq)

lemma unat_add_addr:
  assumes "length (u_addr a) = 16" "i < 4" "unat acc \<le> 2 ^ 31"
  shows "unat (add_addr acc (addr_word a i)) = unat acc + addr_sum a i" "addr_sum a i \<le> 131070"
proof -
  define h1 where "h1 = half (u_addr a ! (4 * i)) (u_addr a ! (4 * i + 1))"
  define h2 where "h2 = half (u_addr a ! (4 * i + 2)) (u_addr a ! (4 * i + 3))"
  have s: "addr_sum a i = unat h1 + unat h2"
    unfolding addr_sum_def h1_def h2_def using assms(1,2) by (subst take4) (auto simp: unat_half)
  have w: "unat (addr_word a i AND 0xffff) = unat h1" "unat (drop_bit 16 (addr_word a i) AND 0xffff) = unat h2"
    unfolding addr_word_def Let_def h1_def h2_def by (rule unat_addr_halves [symmetric])+
  show "unat (add_addr acc (addr_word a i)) = unat acc + addr_sum a i"
    using assms(3) unat16_less [of h1] unat16_less [of h2] unfolding s add_addr_def unat_word_ariths w by simp
  show "addr_sum a i \<le> 131070" using unat16_less [of h1] unat16_less [of h2] unfolding s by simp
qed

lemma ip4_acc:
  assumes "length (u_addr src) = 16" "length (u_addr dest) = 16"
  shows "unat (ip4_pseudo_acc src dest) = oc (hsum False (take 4 (u_addr src) @ take 4 (u_addr dest)))"
proof -
  have "unat (add_addr (add_addr 0 (addr_word src 0)) (addr_word dest 0)) = addr_sum src 0 + addr_sum dest 0"
    using unat_add_addr [OF assms(1), of 0 0] unat_add_addr(1) [OF assms(2), of 0 "add_addr 0 (addr_word src 0)"] by simp
  then show ?thesis using assms by (simp add: ip4_pseudo_acc_def fold_fold hsum_append addr_sum_def)
qed

lemma fold_addrs:
  assumes "length (u_addr src) = 16" "length (u_addr dest) = 16" "k \<le> 4"
  shows "unat (fold (\<lambda>i acc. add_addr (add_addr acc (addr_word src i)) (addr_word dest i)) [0..<k] 0) =
      (\<Sum>i<k. addr_sum src i + addr_sum dest i) \<and> (\<Sum>i<k. addr_sum src i + addr_sum dest i) \<le> k * 262140"
  using assms(3)
proof (induction k)
  case (Suc k)
  let ?acc = "fold (\<lambda>i acc. add_addr (add_addr acc (addr_word src i)) (addr_word dest i)) [0..<k] 0"
  have a: "unat ?acc = (\<Sum>i<k. addr_sum src i + addr_sum dest i)" "unat ?acc \<le> k * 262140" "k < 4" using Suc by auto
  note s = unat_add_addr [OF assms(1) a(3), of ?acc]
  note d = unat_add_addr [OF assms(2) a(3), of "add_addr ?acc (addr_word src k)"]
  show ?case using a s d by simp
qed simp

lemma sum4: "(\<Sum>i<4. f i) = f 0 + f 1 + f 2 + (f 3 :: nat)" for f :: "nat \<Rightarrow> nat"
  by (simp add: numeral_eq_Suc)

lemma hsum_16:
  assumes "length (u_addr a) = 16"
  shows "hsum False (u_addr a) = (\<Sum>i<4. addr_sum a i)"
proof -
  let ?b = "u_addr a"
  have "?b = take 4 ?b @ take 4 (drop 4 ?b) @ take 4 (drop 8 ?b) @ take 4 (drop 12 ?b)"
    using append_take_drop_id [of 4 ?b] append_take_drop_id [of 4 "drop 4 ?b"] append_take_drop_id [of 4 "drop 8 ?b"] assms
    by (simp del: append_take_drop_id)
  then have "hsum False ?b = hsum False (take 4 ?b @ take 4 (drop 4 ?b) @ take 4 (drop 8 ?b) @ take 4 (drop 12 ?b))" by simp
  then show ?thesis using assms by (simp add: hsum_append addr_sum_def sum4)
qed

lemma ip6_acc:
  assumes "length (u_addr src) = 16" "length (u_addr dest) = 16"
  shows "unat (ip6_pseudo_acc src dest) = oc (hsum False (u_addr src @ u_addr dest))"
  using fold_addrs [OF assms, of 4] assms
  by (simp add: ip6_pseudo_acc_def fold_fold hsum_append hsum_16 sum.distrib)

lemma unat_be16: "unat (lwip_htons n) = hsum False (be16 n)"
proof -
  have "unat (ucast (drop_bit 8 n) :: u8) = unat n div 256" "unat (ucast n :: u8) = unat n mod 256"
    unfolding unsigned_ucast_eq unat_drop_bit_eq using unat16_less [of n] by (simp_all add: take_bit_eq_mod drop_bit_eq_div)
  then show ?thesis by (simp add: unat_htons be16_def)
qed

lemma unat_htons8: "unat (lwip_htons (ucast (p :: u8))) = 256 * unat p"
  using unat8_less [of p] by (simp add: unat_htons unsigned_ucast_eq take_bit_eq_mod)

lemma hsum_even: "even (length xs) \<Longrightarrow> hsum False (xs @ ys) = hsum False xs + hsum False ys"
  by (simp add: hsum_append)

text \<open>Whatever the sum of the bytes of the packet: the functions end with the sum of the pseudo header and these bytes.\<close>

lemma add_pseudo_eq:
  assumes l: "length (u_addr src) = 16" "length (u_addr dest) = 16"
    and a: "acc = (if ip_type dest = IPADDR_TYPE_V6 then ip6_pseudo_acc src dest else ip4_pseudo_acc src dest)"
    and r: "unat acc' < 65536" "acc_value acc' sw' = oc (unat acc + hsum False bs)" "length bs < 65536"
  shows "add_pseudo proto proto_len (acc', sw') = inet_chksum od (pseudo_header src dest proto proto_len @ bs)"
proof -
  let ?v = "(if sw' then SWAP_BYTES_IN_WORD acc' else acc') + ucast (lwip_htons (ucast proto)) + ucast (lwip_htons proto_len)"
  let ?h = "pseudo_header src dest proto proto_len"
  have e: "even (length ?h)" "length ?h \<le> 40" using l by (simp_all add: pseudo_header_def be16_def)
  have b: "hsum False (be16 proto_len) < 65536" unfolding unat_be16 [symmetric] by (rule unat16_less)
  have f: "unat (if sw' then SWAP_BYTES_IN_WORD acc' else acc') = oc (unat acc + hsum False bs)" using acc_final [OF r(1)] r(2) by simp
  have g: "unat (ucast (lwip_htons (ucast proto)) :: u32) = 256 * unat proto" "unat (ucast (lwip_htons proto_len) :: u32) = hsum False (be16 proto_len)"
    using b unat8_less [of proto] unfolding unsigned_ucast_eq unat_htons8 by (simp_all add: take_bit_eq_mod unat_be16)
  have "unat ?v = oc (unat acc + hsum False bs) + 256 * unat proto + hsum False (be16 proto_len)"
    using oc_le [of "unat acc + hsum False bs"] b unat8_less [of proto] unfolding unat_word_ariths f g by simp
  then have "unat (FOLD_U32T (FOLD_U32T ?v)) = oc (unat acc + hsum False bs + 256 * unat proto + hsum False (be16 proto_len))"
    unfolding fold_fold by (simp add: oc_add add.assoc)
  also have "\<dots> = oc (hsum False (?h @ bs))"
  proof (cases "ip_type dest = IPADDR_TYPE_V6")
    case True
    then show ?thesis unfolding hsum_even [OF e(1)] using a l ip6_acc [OF l]
      by (simp add: pseudo_header_def hsum_append oc_add be16_def add.assoc) (simp add: add_ac)
  next
    case False
    then show ?thesis unfolding hsum_even [OF e(1)] using a l ip4_acc [OF l]
      by (simp add: pseudo_header_def hsum_append oc_add be16_def add.assoc) (simp add: add_ac)
  qed
  finally have "unat (FOLD_U32T (FOLD_U32T ?v)) = oc (hsum False (?h @ bs))" .
  from chksum_finish [OF this, of od] e(2) r(3) show ?thesis by (simp add: add_pseudo_def Let_def split del: if_split)
qed

lemma pseudo_acc_less:
  assumes "length (u_addr src) = 16" "length (u_addr dest) = 16"
  shows "unat (if ip_type dest = IPADDR_TYPE_V6 then ip6_pseudo_acc src dest else ip4_pseudo_acc src dest) < 65536"
  using ip4_acc [OF assms] ip6_acc [OF assms] oc_le [of "hsum False (u_addr src @ u_addr dest)"]
    oc_le [of "hsum False (take 4 (u_addr src) @ take 4 (u_addr dest))"] by simp

lemma pseudo_chain:
  assumes l: "length (u_addr src) = 16" "length (u_addr dest) = 16"
    and p: "chain (pb m) p xs" "data_ok m xs" "lens (pb m) xs < 65536"
  shows "ip_chksum_pseudo is_odd p proto proto_len src dest m = Some (inet_chksum od (pseudo_header src dest proto proto_len @ content m xs))"
proof -
  define acc where "acc = (if ip_type dest = IPADDR_TYPE_V6 then ip6_pseudo_acc src dest else ip4_pseudo_acc src dest)"
  have al: "unat acc < 65536" using pseudo_acc_less [OF l] by (simp add: acc_def)
  obtain acc' sw' where r: "chksum_loop is_odd p acc False m = Some (acc', sw')" "unat acc' < 65536"
    "acc_value acc' sw' = oc (unat acc + hsum False (content m xs))"
    using chksum_loop_chain [OF p(1,2) al, of is_odd False] al by (auto simp: acc_value_def oc_small)
  have "ip_chksum_pseudo is_odd p proto proto_len src dest m = Some (add_pseudo proto proto_len (acc', sw'))"
    using r(1) by (simp add: ip_chksum_pseudo_def ip6_chksum_pseudo_def inet_chksum_pseudo_def inet_cksum_pseudo_base_def acc_def split: if_splits)
  then show ?thesis using add_pseudo_eq [OF l acc_def r(2,3)] length_content [OF p(2)] p(3) by simp
qed

lemma partial_loop_chain:
  assumes "chain (pb m) q xs" "data_ok m xs" "unat acc < 65536" "n < 0x7fff"
  shows "\<exists>acc' sw'. partial_loop is_odd q n acc sw m = Some (acc', sw') \<and> unat acc' < 65536 \<and>
    acc_value acc' sw' = oc (acc_value acc sw + hsum sw (take (unat n) (content m xs)))"
  using assms
proof (induction xs arbitrary: q acc sw n)
  case Nil
  then show ?case by (subst partial_loop.simps) (simp add: acc_value_def)
next
  case (Cons x xs)
  then obtain b where b: "q = Some x" "pb m x = Some b" "in_buf m (payload b) (unat (pb_len b))"
    "chain (pb m) (pb_next b) xs" "data_ok m xs" by auto
  show ?case
  proof (cases "n = 0")
    case True
    then show ?thesis using Cons.prems(3) b(1) by (subst partial_loop.simps) (simp add: acc_value_def)
  next
    case False
    have lp: "length (pay m x) = unat (pb_len b)" by (rule length_pay [OF b(2,3)])
    define k where "k = (if pb_len b > n then n else pb_len b)"
    have k: "unat k = min (unat n) (unat (pb_len b))" "unat (n - k) = unat n - unat k"
      by (auto simp: k_def word_less_nat_alt unat_sub word_le_nat_alt min_def)
    define bs where "bs = take (unat k) (pay m x)"
    have sh: "shift (payload b) 0 = payload b" by simp
    have rd: "rd m (payload b) (unat k) = Some bs" using rd_pay [OF b(2,3), of 0 "unat k"] k(1) sh by (simp add: bs_def)
    define acc1 where "acc1 = FOLD_U32T (acc + ucast (lwip_standard_chksum (is_odd (payload b)) bs))"
    define od where "od \<longleftrightarrow> odd (unat (pb_len b))"
    define acc2 where "acc2 = (if od then SWAP_BYTES_IN_WORD acc1 else acc1)"
    have l: "length bs < 65536" using lp unat16_less [of "pb_len b"] by (simp add: bs_def)
    note st = acc_step [OF Cons.prems(3) l acc1_def]
    have nx: "unat acc2 < 65536" "acc_value acc2 (sw \<noteq> od) = acc_value acc1 sw"
      using acc_next(1) [OF st(1), of od] acc_next(2) [OF st(1), of od sw] by (simp_all add: acc2_def)
    have rest: "n - k < 0x7fff" using Cons.prems(4) k(2) by (simp add: word_less_nat_alt)
    obtain acc' sw' where r: "partial_loop is_odd (pb_next b) (n - k) acc2 (sw \<noteq> od) m = Some (acc', sw')" "unat acc' < 65536"
      "acc_value acc' sw' = oc (acc_value acc2 (sw \<noteq> od) + hsum (sw \<noteq> od) (take (unat (n - k)) (content m xs)))"
      using Cons.IH [OF b(4,5) nx(1) rest] by blast
    have "pb_len b mod 2 \<noteq> 0 \<longleftrightarrow> od" using odd_len [of "pb_len b"] by (simp only: od_def)
    then have "partial_loop is_odd q n acc sw m = Some (acc', sw')"
      using b(1,2) rd r(1) False rest
      by (subst partial_loop.simps, cases od) (simp_all add: acc2_def word_gt_0 flip: acc1_def k_def)
    moreover have "hsum sw bs + hsum (sw \<noteq> od) (take (unat (n - k)) (content m xs)) = hsum sw (take (unat n) (content m (x # xs)))"
      using k lp by (cases "unat n \<le> unat (pb_len b)") (simp_all add: bs_def hsum_append od_def)
    then have "oc (acc_value acc2 (sw \<noteq> od) + hsum (sw \<noteq> od) (take (unat (n - k)) (content m xs))) =
        oc (acc_value acc sw + hsum sw (take (unat n) (content m (x # xs))))"
      unfolding nx(2) st(2) by (simp add: oc_add add.assoc)
    ultimately show ?thesis using r(2,3) by auto
  qed
qed

lemma pseudo_partial_chain:
  assumes l: "length (u_addr src) = 16" "length (u_addr dest) = 16"
    and p: "chain (pb m) p xs" "data_ok m xs" "n < 0x7fff"
  shows "ip_chksum_pseudo_partial is_odd p proto proto_len n src dest m =
    Some (inet_chksum od (pseudo_header src dest proto proto_len @ take (unat n) (content m xs)))"
proof -
  define acc where "acc = (if ip_type dest = IPADDR_TYPE_V6 then ip6_pseudo_acc src dest else ip4_pseudo_acc src dest)"
  have al: "unat acc < 65536" using pseudo_acc_less [OF l] by (simp add: acc_def)
  obtain acc' sw' where r: "partial_loop is_odd p n acc False m = Some (acc', sw')" "unat acc' < 65536"
    "acc_value acc' sw' = oc (unat acc + hsum False (take (unat n) (content m xs)))"
    using partial_loop_chain [OF p(1,2) al p(3), of is_odd False] al by (auto simp: acc_value_def oc_small)
  have "ip_chksum_pseudo_partial is_odd p proto proto_len n src dest m = Some (add_pseudo proto proto_len (acc', sw'))"
    using r(1) by (simp add: ip_chksum_pseudo_partial_def ip6_chksum_pseudo_partial_def inet_chksum_pseudo_partial_def
        inet_cksum_pseudo_partial_base_def acc_def split: if_splits)
  then show ?thesis using add_pseudo_eq [OF l acc_def r(2,3)] p(3) unat16_less [of n] by simp
qed

subsection \<open>Checking a checksum\<close>

lemma unat_not16: "unat (NOT (w :: u16)) = 65535 - unat w"
  using unat_sub [of w "-1"] by (simp add: not_eq_complement minus_diff_commute unsigned_minus_1_eq_mask mask_numeral)

definition weight :: "bool \<Rightarrow> nat \<Rightarrow> nat" where
  "weight hi i = (if hi \<noteq> odd i then 256 else 1)"

lemma weight_Suc: "weight hi (Suc i) = weight (\<not> hi) i"
  by (auto simp: weight_def)

lemma hsum_update:
  "i < length bs \<Longrightarrow> hsum hi (bs[i := v]) + weight hi i * unat (bs ! i) = hsum hi bs + weight hi i * unat v"
proof (induction bs arbitrary: hi i)
  case (Cons b bs)
  show ?case
  proof (cases i)
    case 0
    then show ?thesis by (simp add: weight_def)
  next
    case (Suc j)
    then show ?thesis using Cons.IH [of j "\<not> hi"] Cons.prems by (simp add: weight_Suc)
  qed
qed simp

lemma chksum_zero: "length bs \<le> 0x20000 \<Longrightarrow> inet_chksum od bs = 0 \<longleftrightarrow> hsum False bs mod 65535 = 0 \<and> hsum False bs \<noteq> 0"
proof -
  assume l: "length bs \<le> 0x20000"
  have "inet_chksum od bs = 0 \<longleftrightarrow> unat (lwip_standard_chksum od bs) = 65535"
    using unat16_less [of "lwip_standard_chksum od bs"] unfolding inet_chksum_def word_unat_eq_iff unat_not16 by auto
  also have "\<dots> \<longleftrightarrow> oc (hsum False bs) = oc 65535" by (simp add: standard_chksum_eq [OF l] oc_small)
  finally show ?thesis unfolding oc_eq_iff by simp
qed

lemma unat_halves16: "half (ucast c) (ucast (drop_bit 8 c)) = c"
  by (intro bit_word_eqI) (auto simp: half_def bit_simps)

lemma detects_change:
  assumes "length bs \<le> 0x20000" "inet_chksum od bs = 0" "i < length bs" "v \<noteq> bs ! i"
  shows "inet_chksum od' (bs[i := v]) \<noteq> 0"
proof
  assume "inet_chksum od' (bs[i := v]) = 0"
  then have z: "hsum False (bs[i := v]) mod 65535 = 0" "hsum False bs mod 65535 = 0"
    using assms(1,2) chksum_zero [of bs od] chksum_zero [of "bs[i := v]" od'] by auto
  have "(weight False i * unat (bs ! i)) mod 65535 = (hsum False (bs[i := v]) + weight False i * unat (bs ! i)) mod 65535"
    using z(1) by (metis add_0 mod_add_left_eq)
  also have "\<dots> = (weight False i * unat v) mod 65535" unfolding hsum_update [OF assms(3)] using z(2) by (metis add_0 mod_add_left_eq)
  finally have "weight False i * unat (bs ! i) = weight False i * unat v"
    using unat8_less [of v] unat8_less [of "bs ! i"] by (auto simp: weight_def split: if_splits)
  then have "unat (bs ! i) = unat v" by (auto simp: weight_def split: if_splits)
  then show False using assms(4) by (simp add: word_unat_eq_iff)
qed

lemma chksum_inserted:
  assumes "even (length as)" "length as + length bs \<le> 0x1fffe" "c = inet_chksum od (as @ [0, 0] @ bs)"
  shows "inet_chksum od' (as @ [ucast c, ucast (drop_bit 8 c)] @ bs) = 0"
proof -
  let ?s = "hsum False (as @ [0, 0] @ bs)"
  have l: "length (as @ [0, 0] @ bs) \<le> 0x20000" "length (as @ [ucast c, ucast (drop_bit 8 c)] @ bs) \<le> 0x20000" using assms(2) by auto
  have u: "unat c = 65535 - oc ?s" unfolding assms(3) inet_chksum_def unat_not16 standard_chksum_eq [OF l(1)] ..
  have "hsum False (as @ [ucast c, ucast (drop_bit 8 c)] @ bs) = ?s + unat c"
    using assms(1) unat_half [of "ucast c" "ucast (drop_bit 8 c)"] by (simp add: hsum_append unat_halves16)
  also have "(?s + unat c) mod 65535 = (oc ?s + unat c) mod 65535" by (metis mod_add_left_eq oc_mod)
  then have "(?s + unat c) mod 65535 = 0" using u oc_le [of ?s] by simp
  moreover have "?s + unat c \<noteq> 0" using u by auto
  ultimately show ?thesis using chksum_zero [OF l(2)] by metis
qed

subsection \<open>Properties\<close>

text \<open>
  C11: the checksum of a packet is the Internet checksum of its bytes: the complement of their sum as
  16-bit numbers in ones' complement arithmetic. It depends neither on how the bytes are cut into
  pbufs, with odd lengths at any place, nor on whether a payload starts at an odd address.
\<close>

theorem chksum_pbuf_correct:
  assumes "chain (pb m) (Some x) xs" "data_ok m xs" "lens (pb m) xs \<le> 0x20000"
  shows "inet_chksum_pbuf is_odd (Some x) m = Some (inet_chksum od (content m xs)) \<and>
    unat (inet_chksum od (content m xs)) = 65535 - oc (hsum False (content m xs))"
  using chksum_pbuf_chain [OF assms] standard_chksum_eq [of "content m xs" od] length_content [OF assms(2)] assms(3)
  by (simp add: inet_chksum_def unat_not16)

theorem chksum_pbuf_correct_witness:
  "inet_chksum_pbuf (\<lambda>a. True) (Some (Pool_elem 0)) two_mem = Some 55215"
proof -
  have "inet_chksum False [10, 20, 30, 20, 40] = 55215" by code_simp
  then show ?thesis using chksum_pbuf_correct [OF two_mem_ok(1,2), of "\<lambda>a. True" False] unfolding two_mem_ok(5,6) by simp
qed

text \<open>
  C28: the checksum of UDP and TCP. For both versions of IP, \<open>ip_chksum_pseudo\<close> of a packet is the
  Internet checksum of the pseudo header that the RFCs prescribe followed by the bytes of the packet,
  and \<open>ip_chksum_pseudo_partial\<close> that of the pseudo header and the first \<open>n\<close> bytes, for \<open>n\<close> below the
  limit its assertion sets.
\<close>

theorem ip_chksum_pseudo_correct:
  assumes "length (u_addr src) = 16" "length (u_addr dest) = 16"
    and "chain (pb m) (Some x) xs" "data_ok m xs" "lens (pb m) xs < 65536" "n < 0x7fff"
  shows "ip_chksum_pseudo is_odd (Some x) proto proto_len src dest m =
      Some (inet_chksum od (pseudo_header src dest proto proto_len @ content m xs)) \<and>
    ip_chksum_pseudo_partial is_odd (Some x) proto proto_len n src dest m =
      Some (inet_chksum od (pseudo_header src dest proto proto_len @ take (unat n) (content m xs)))"
  using pseudo_chain [OF assms(1-5)] pseudo_partial_chain [OF assms(1-4,6)] by blast

definition sample_addr :: ip_addr where
  "sample_addr = \<lparr>ip_type = IPADDR_TYPE_V4, u_addr = [192, 168, 0, 1] @ replicate 12 0, ip_zone = 0\<rparr>"

theorem ip_chksum_pseudo_correct_witness:
  "ip_chksum_pseudo (\<lambda>a. False) (Some (Pool_elem 0)) 17 5 sample_addr sample_addr two_mem =
     Some (inet_chksum False ([192, 168, 0, 1, 192, 168, 0, 1, 0, 17, 0, 5] @ [10, 20, 30, 20, 40]))"
proof -
  have "length (u_addr sample_addr) = 16" "pseudo_header sample_addr sample_addr 17 5 = [192, 168, 0, 1, 192, 168, 0, 1, 0, 17, 0, 5]"
    by (simp_all add: sample_addr_def pseudo_header_def be16_def)
  then show ?thesis
    using ip_chksum_pseudo_correct [OF _ _ two_mem_ok(1,2), of sample_addr sample_addr 0 "\<lambda>a. False" 17 5 False]
    unfolding two_mem_ok(5,6) by simp
qed



end
