(* ===== verification/Timeouts.thy ===== *)
theory Timeouts
  imports Memp "HOL-Library.Multiset"
begin

text \<open>
  The timers of lwIP, \<^verbatim>\<open>lwip/src/core/timeouts.c\<close>: one-shot timeouts in a linked list ordered by due time,
  whose elements come from the pool \<^verbatim>\<open>MEMP_SYS_TIMEOUT\<close>, and the cyclic timers of the protocols, which
  start themselves again. The clock is a 32-bit counter of milliseconds that wraps around. What
  \<^verbatim>\<open>sys_now\<close> returns is the field \<open>clock\<close>; the work of a protocol timer (\<^verbatim>\<open>tcp_tmr\<close>, \<^verbatim>\<open>dns_tmr\<close>, ...) and of
  other handlers are parameters, which may take time. All calls are made with the core lock held.
\<close>

text \<open>A handler with its argument: a cyclic timer by its index, the TCP timer, or another function.\<close>

datatype timer = Cyclic nat | Tcp_timer | Other nat

record sys_timeo =
  to_next :: "nat option"
  to_time :: u32
  to_h :: "timer option"

record timeouts =
  timeos :: "nat \<Rightarrow> sys_timeo option"
  next_timeout :: "nat option"
  tpools :: memp_pools
  current_timeout_due_time :: u32
  tcpip_tcp_timer_active :: bool
  tcp_pcbs :: bool
  clock :: u32

abbreviation LWIP_MAX_TIMEOUT :: u32 where "LWIP_MAX_TIMEOUT \<equiv> 0x7fffffff"

definition TIME_LESS_THAN :: "u32 \<Rightarrow> u32 \<Rightarrow> bool" where
  "TIME_LESS_THAN t compare_to \<longleftrightarrow> t - compare_to > LWIP_MAX_TIMEOUT"

text \<open>The intervals of \<^verbatim>\<open>tcp_tmr\<close>, \<^verbatim>\<open>ip_reass_tmr\<close>, \<^verbatim>\<open>etharp_tmr\<close>, \<^verbatim>\<open>dhcp_coarse_tmr\<close>, \<^verbatim>\<open>dhcp_fine_tmr\<close>,
  \<^verbatim>\<open>autoip_tmr\<close>, \<^verbatim>\<open>igmp_tmr\<close>, \<^verbatim>\<open>dns_tmr\<close>, \<^verbatim>\<open>nd6_tmr\<close>, \<^verbatim>\<open>ip6_reass_tmr\<close> and \<^verbatim>\<open>mld6_tmr\<close>.\<close>

definition lwip_cyclic_timers :: "u32 list" where
  "lwip_cyclic_timers = [250, 1000, 1000, 60000, 500, 100, 100, 1000, 1000, 1000, 100]"

subsection \<open>The list\<close>

definition set_to_next :: "nat \<Rightarrow> nat option \<Rightarrow> timeouts \<Rightarrow> timeouts option" where
  "set_to_next i n s = do {
     c \<leftarrow> timeos s i;
     Some (s\<lparr>timeos := (timeos s)(i \<mapsto> c\<lparr>to_next := n\<rparr>)\<rparr>) }"

partial_function (option) insert_loop :: "nat \<Rightarrow> u32 \<Rightarrow> nat option \<Rightarrow> timeouts \<Rightarrow> timeouts option" where
  "insert_loop i time t s = (case t of
     None \<Rightarrow> Some s
   | Some a \<Rightarrow> do {
       c \<leftarrow> timeos s a;
       before \<leftarrow> (case to_next c of
          None \<Rightarrow> Some True
        | Some b \<Rightarrow> do { n \<leftarrow> timeos s b; Some (TIME_LESS_THAN time (to_time n)) });
       if before
       then do { s1 \<leftarrow> set_to_next i (to_next c) s; set_to_next a (Some i) s1 }
       else insert_loop i time (to_next c) s })"

definition link_timeout :: "nat \<Rightarrow> u32 \<Rightarrow> timeouts \<Rightarrow> timeouts option" where
  "link_timeout i abs_time s = (case next_timeout s of
       None \<Rightarrow> Some (s\<lparr>next_timeout := Some i\<rparr>)
     | Some a \<Rightarrow> do {
         c \<leftarrow> timeos s a;
         if TIME_LESS_THAN abs_time (to_time c)
         then do { s1 \<leftarrow> set_to_next i (Some a) s; Some (s1\<lparr>next_timeout := Some i\<rparr>) }
         else insert_loop i abs_time (Some a) s })"

definition sys_timeout_abs :: "u32 \<Rightarrow> timer option \<Rightarrow> timeouts \<Rightarrow> timeouts option" where
  "sys_timeout_abs abs_time h s = do {
     let (e, ps) = memp_malloc MEMP_SYS_TIMEOUT (tpools s);
     i \<leftarrow> e;
     link_timeout i abs_time
       (s\<lparr>tpools := ps, timeos := (timeos s)(i \<mapsto> \<lparr>to_next = None, to_time = abs_time, to_h = h\<rparr>)\<rparr>) }"

definition sys_timeout :: "u32 \<Rightarrow> timer option \<Rightarrow> timeouts \<Rightarrow> timeouts option" where
  "sys_timeout msecs h s = do {
     require (msecs \<le> 0x3fffffff);
     sys_timeout_abs (clock s + msecs) h s }"

definition free_timeo :: "nat \<Rightarrow> timeouts \<Rightarrow> timeouts" where
  "free_timeo i s = s\<lparr>timeos := (timeos s)(i := None), tpools := memp_free MEMP_SYS_TIMEOUT (Some i) (tpools s)\<rparr>"

partial_function (option) untimeout_loop :: "timer option \<Rightarrow> nat option \<Rightarrow> nat option \<Rightarrow> timeouts \<Rightarrow> timeouts option" where
  "untimeout_loop h prev_t t s = (case t of
     None \<Rightarrow> Some s
   | Some a \<Rightarrow> do {
       c \<leftarrow> timeos s a;
       if to_h c = h
       then do {
         s1 \<leftarrow> (case prev_t of None \<Rightarrow> Some (s\<lparr>next_timeout := to_next c\<rparr>) | Some p \<Rightarrow> set_to_next p (to_next c) s);
         Some (free_timeo a s1) }
       else untimeout_loop h (Some a) (to_next c) s })"

definition sys_untimeout :: "timer option \<Rightarrow> timeouts \<Rightarrow> timeouts option" where
  "sys_untimeout h s = untimeout_loop h None (next_timeout s) s"

partial_function (option) restart_loop :: "u32 \<Rightarrow> u32 \<Rightarrow> nat option \<Rightarrow> timeouts \<Rightarrow> timeouts option" where
  "restart_loop base now t s = (case t of
     None \<Rightarrow> Some s
   | Some a \<Rightarrow> do {
       c \<leftarrow> timeos s a;
       restart_loop base now (to_next c) (s\<lparr>timeos := (timeos s)(a \<mapsto> c\<lparr>to_time := (to_time c - base) + now\<rparr>)\<rparr>) })"

definition sys_restart_timeouts :: "timeouts \<Rightarrow> timeouts option" where
  "sys_restart_timeouts s = (case next_timeout s of
     None \<Rightarrow> Some s
   | Some a \<Rightarrow> do {
       c \<leftarrow> timeos s a;
       restart_loop (to_time c) (clock s) (next_timeout s) s })"

definition sys_timeouts_sleeptime :: "timeouts \<Rightarrow> u32 option" where
  "sys_timeouts_sleeptime s = (case next_timeout s of
     None \<Rightarrow> Some 0xffffffff
   | Some a \<Rightarrow> do {
       c \<leftarrow> timeos s a;
       if TIME_LESS_THAN (to_time c) (clock s) then Some 0
       else do {
         let ret = to_time c - clock s;
         require (ret \<le> LWIP_MAX_TIMEOUT);
         Some ret } })"

subsection \<open>Timers\<close>

type_synonym work_fn = "nat \<Rightarrow> timeouts \<Rightarrow> timeouts option"

text \<open>\<open>work\<close>: \<^verbatim>\<open>cyclic->handler()\<close>, by the index of the timer; index 0 is \<^verbatim>\<open>tcp_tmr\<close>.\<close>

definition lwip_cyclic_timer :: "work_fn \<Rightarrow> nat \<Rightarrow> timeouts \<Rightarrow> timeouts option" where
  "lwip_cyclic_timer work i s = do {
     s1 \<leftarrow> work i s;
     let now = clock s1;
     let interval_ms = lwip_cyclic_timers ! i;
     let next_timeout_time = current_timeout_due_time s1 + interval_ms;
     if TIME_LESS_THAN next_timeout_time now
     then sys_timeout_abs (now + interval_ms) (Some (Cyclic i)) s1
     else sys_timeout_abs next_timeout_time (Some (Cyclic i)) s1 }"

definition tcpip_tcp_timer :: "work_fn \<Rightarrow> timeouts \<Rightarrow> timeouts option" where
  "tcpip_tcp_timer work s = do {
     s1 \<leftarrow> work 0 s;
     if tcp_pcbs s1
     then sys_timeout (lwip_cyclic_timers ! 0) (Some Tcp_timer) s1
     else Some (s1\<lparr>tcpip_tcp_timer_active := False\<rparr>) }"

definition tcp_timer_needed :: "timeouts \<Rightarrow> timeouts option" where
  "tcp_timer_needed s =
     (if \<not> tcpip_tcp_timer_active s \<and> tcp_pcbs s
      then sys_timeout (lwip_cyclic_timers ! 0) (Some Tcp_timer) (s\<lparr>tcpip_tcp_timer_active := True\<rparr>)
      else Some s)"

fun init_loop :: "nat list \<Rightarrow> timeouts \<Rightarrow> timeouts option" where
  "init_loop [] s = Some s"
| "init_loop (i # is) s = do { s1 \<leftarrow> sys_timeout (lwip_cyclic_timers ! i) (Some (Cyclic i)) s; init_loop is s1 }"

definition sys_timeouts_init :: "timeouts \<Rightarrow> timeouts option" where
  "sys_timeouts_init s = init_loop [1..<length lwip_cyclic_timers] s"

definition call_handler :: "work_fn \<Rightarrow> work_fn \<Rightarrow> timer option \<Rightarrow> timeouts \<Rightarrow> timeouts option" where
  "call_handler work other h s = (case h of
     None \<Rightarrow> Some s
   | Some (Cyclic i) \<Rightarrow> lwip_cyclic_timer work i s
   | Some Tcp_timer \<Rightarrow> tcpip_tcp_timer work s
   | Some (Other k) \<Rightarrow> other k s)"

partial_function (option) check_loop :: "work_fn \<Rightarrow> work_fn \<Rightarrow> u32 \<Rightarrow> timeouts \<Rightarrow> timeouts option" where
  "check_loop work other now s = (case next_timeout s of
     None \<Rightarrow> Some s
   | Some a \<Rightarrow> do {
       c \<leftarrow> timeos s a;
       if TIME_LESS_THAN now (to_time c) then Some s
       else do {
         s1 \<leftarrow> call_handler work other (to_h c)
           (free_timeo a (s\<lparr>next_timeout := to_next c, current_timeout_due_time := to_time c\<rparr>));
         check_loop work other now s1 } })"

definition sys_check_timeouts :: "work_fn \<Rightarrow> work_fn \<Rightarrow> timeouts \<Rightarrow> timeouts option" where
  "sys_check_timeouts work other s = check_loop work other (clock s) s"

subsection \<open>The order of the list\<close>

text \<open>\<open>off B t\<close>: the time from \<open>B\<close> to \<open>t\<close>. Within half the range of the clock after \<open>B\<close> the comparison is that of the offsets.\<close>

definition off :: "u32 \<Rightarrow> u32 \<Rightarrow> nat" where
  "off B t = unat (t - B)"

lemma mod_0_once:
  assumes "(a :: nat) mod n = 0" "0 < a" "a < 2 * n"
  shows "a = n"
proof -
  obtain k where k: "a = n * k" using assms(1) by (auto simp: mod_eq_0_iff_dvd)
  then have "0 < k" "k < 2" using assms(2,3) by (auto simp: mult.commute [of n])
  then show ?thesis using k by (simp add: less_2_cases_iff)
qed

lemma time_less:
  assumes "off B t < 2 ^ 31" "off B u < 2 ^ 31"
  shows "TIME_LESS_THAN t u \<longleftrightarrow> off B t < off B u"
proof -
  have e: "t - u = (t - B) - (u - B)" by simp
  show ?thesis
  proof (cases "u - B \<le> t - B")
    case True
    have "unat (t - u) = off B t - off B u" unfolding e off_def by (rule unat_sub [OF True])
    moreover have "off B u \<le> off B t" using True by (simp add: off_def word_le_nat_alt)
    ultimately show ?thesis using assms by (auto simp: TIME_LESS_THAN_def word_less_nat_alt)
  next
    case False
    then have l: "off B t < off B u" by (simp add: off_def word_less_nat_alt not_le)
    have "t - B \<le> u - B" using False by simp
    from unat_sub [OF this] have x: "unat (u - t) = off B u - off B t" by (simp add: off_def)
    define a where "a = unat (t - u)"
    have m: "(a + (off B u - off B t)) mod 2 ^ 32 = 0"
      unfolding a_def x [symmetric] using unat_word_ariths(1) [of "t - u" "u - t"] by simp
    have b: "a < 2 ^ 32" using unsigned_less [of "t - u"] by (simp add: a_def)
    have "a + (off B u - off B t) = 2 ^ 32" by (rule mod_0_once [OF m]) (use l b assms(2) in simp_all)
    then have "a > 2147483647" using l assms(2) by simp
    then show ?thesis using l by (simp add: TIME_LESS_THAN_def word_less_nat_alt a_def)
  qed
qed

lemma off_add:
  assumes "off B t + unat d < 2 ^ 32"
  shows "off B (t + d) = off B t + unat d"
proof -
  have "t + d - B = (t - B) + d" by (simp add: algebra_simps)
  moreover have "unat ((t - B) + d) = unat (t - B) + unat d" using assms unfolding unat_word_ariths by (simp add: off_def)
  ultimately show ?thesis unfolding off_def by metis
qed

text \<open>
  The list in memory: entries with the index of the element, the due time and the handler. \<open>ins\<close> inserts
  an entry behind all that are due before it or at the same time.
\<close>

type_synonym tentry = "nat \<times> u32 \<times> timer option"

fun tpath :: "(nat \<Rightarrow> sys_timeo option) \<Rightarrow> nat option \<Rightarrow> tentry list \<Rightarrow> bool" where
  "tpath h p [] \<longleftrightarrow> p = None"
| "tpath h p ((i, t, k) # es) \<longleftrightarrow> p = Some i \<and> (\<exists>n. h i = Some \<lparr>to_next = n, to_time = t, to_h = k\<rparr> \<and> tpath h n es)"

abbreviation due :: "tentry \<Rightarrow> u32" where "due e \<equiv> fst (snd e)"

fun ins :: "u32 \<Rightarrow> tentry \<Rightarrow> tentry list \<Rightarrow> tentry list" where
  "ins B e [] = [e]"
| "ins B e (f # es) = (if off B (due e) < off B (due f) then e # f # es else f # ins B e es)"

definition timer_rep :: "u32 \<Rightarrow> timeouts \<Rightarrow> tentry list \<Rightarrow> bool" where
  "timer_rep B s es \<longleftrightarrow> tpath (timeos s) (next_timeout s) es \<and> distinct (map fst es) \<and>
     dom (timeos s) = fst ` set es \<and> pool_live 17 (tpools s MEMP_SYS_TIMEOUT) (fst ` set es) \<and>
     sorted (map (off B \<circ> due) es) \<and> (\<forall>e \<in> set es. off B (due e) < 2 ^ 31)"

lemma tpath_upd [simp]: "i \<notin> fst ` set es \<Longrightarrow> tpath (h(i := x)) p es = tpath h p es"
  by (induction es arbitrary: p) (auto split: prod.splits)

lemma set_ins [simp]: "set (ins B e es) = insert e (set es)"
  by (induction es) auto

lemma mset_ins: "mset (ins B e es) = add_mset e (mset es)"
  by (induction es) auto

lemma sorted_ins: "sorted (map (off B \<circ> due) es) \<Longrightarrow> sorted (map (off B \<circ> due) (ins B e es))"
  by (induction es) (fastforce simp: not_less)+

lemma insert_loop_path:
  assumes "tpath (timeos s) (Some a) ((a, ta, ka) # es)" "timeos s i = Some \<lparr>to_next = n0, to_time = t, to_h = k\<rparr>"
    and "distinct (a # map fst es)" "i \<notin> fst ` set ((a, ta, ka) # es)"
    and "off B t < 2 ^ 31" "\<forall>e \<in> set es. off B (due e) < 2 ^ 31"
  shows "\<exists>h'. insert_loop i t (Some a) s = Some (s\<lparr>timeos := h'\<rparr>) \<and> tpath h' (Some a) ((a, ta, ka) # ins B (i, t, k) es) \<and>
    dom h' = dom (timeos s) \<and> (\<forall>j. j \<notin> insert a (insert i (fst ` set es)) \<longrightarrow> h' j = timeos s j)"
  using assms
proof (induction es arbitrary: a ta ka)
  case Nil
  define h where "h = (timeos s)(i \<mapsto> \<lparr>to_next = None, to_time = t, to_h = k\<rparr>, a \<mapsto> \<lparr>to_next = Some i, to_time = ta, to_h = ka\<rparr>)"
  have "insert_loop i t (Some a) s = Some (s\<lparr>timeos := h\<rparr>)"
    using Nil.prems by (subst insert_loop.simps) (auto simp: set_to_next_def h_def)
  moreover have "tpath h (Some a) ((a, ta, ka) # ins B (i, t, k) [])" using Nil.prems by (auto simp: h_def)
  moreover have "dom h = dom (timeos s)" "\<forall>j. j \<notin> {a, i} \<longrightarrow> h j = timeos s j" using Nil.prems by (auto simp: h_def)
  ultimately show ?case by (intro exI [of _ h]) simp
next
  case (Cons e es)
  obtain b tb kb where e: "e = (b, tb, kb)" by (cases e)
  obtain n where n: "timeos s a = Some \<lparr>to_next = Some b, to_time = ta, to_h = ka\<rparr>" "timeos s b = Some \<lparr>to_next = n, to_time = tb, to_h = kb\<rparr>"
    "tpath (timeos s) n es" using Cons.prems(1) e by auto
  have lt: "TIME_LESS_THAN t tb \<longleftrightarrow> off B t < off B tb" using Cons.prems(5,6) e by (intro time_less) auto
  show ?case
  proof (cases "off B t < off B tb")
    case True
    define h where "h = (timeos s)(i \<mapsto> \<lparr>to_next = Some b, to_time = t, to_h = k\<rparr>, a \<mapsto> \<lparr>to_next = Some i, to_time = ta, to_h = ka\<rparr>)"
    have "insert_loop i t (Some a) s = Some (s\<lparr>timeos := h\<rparr>)"
      using Cons.prems(2,4) n True lt by (subst insert_loop.simps) (auto simp: set_to_next_def h_def)
    moreover have "tpath h (Some a) ((a, ta, ka) # ins B (i, t, k) (e # es))"
      using Cons.prems(2-4) n True e by (auto simp: h_def)
    moreover have "dom h = dom (timeos s)" "\<forall>j. j \<notin> {a, i} \<longrightarrow> h j = timeos s j" using Cons.prems(2) n by (auto simp: h_def)
    ultimately show ?thesis by (intro exI [of _ h]) simp
  next
    case False
    have "\<exists>h'. insert_loop i t (Some b) s = Some (s\<lparr>timeos := h'\<rparr>) \<and> tpath h' (Some b) ((b, tb, kb) # ins B (i, t, k) es) \<and>
      dom h' = dom (timeos s) \<and> (\<forall>j. j \<notin> insert b (insert i (fst ` set es)) \<longrightarrow> h' j = timeos s j)"
      using Cons.prems e n by (intro Cons.IH) auto
    then obtain h' where h: "insert_loop i t (Some b) s = Some (s\<lparr>timeos := h'\<rparr>)" "tpath h' (Some b) ((b, tb, kb) # ins B (i, t, k) es)"
      "dom h' = dom (timeos s)" "\<forall>j. j \<notin> insert b (insert i (fst ` set es)) \<longrightarrow> h' j = timeos s j" by blast
    have "insert_loop i t (Some a) s = Some (s\<lparr>timeos := h'\<rparr>)" using n False lt h(1) by (subst insert_loop.simps) simp
    moreover have "h' a = timeos s a" using h(4) Cons.prems(3,4) e by auto
    then have "tpath h' (Some a) ((a, ta, ka) # ins B (i, t, k) (e # es))" using n h(2) False e by auto
    ultimately show ?thesis using h(3,4) e by (intro exI [of _ h']) auto
  qed
qed

text \<open>The outcome of \<open>sys_timeout_abs\<close> on a list in order: the pool is empty, or the new entry is in its place.\<close>

lemma pool_live_card:
  assumes "pool_live 17 p L" "L = fst ` set es" "distinct (map fst es)"
  shows "length es \<le> 17" "length es = 17 \<longleftrightarrow> L = {..<17}"
proof -
  have c: "card L = length es" using assms(2,3) distinct_card [of "map fst es"] by simp
  have "L \<subseteq> {..<17}" using assms(1) by (auto simp: pool_live_def)
  then show "length es \<le> 17" "length es = 17 \<longleftrightarrow> L = {..<17}"
    using c card_mono [of "{..<17 :: nat}" L] card_subset_eq [of "{..<17 :: nat}" L] by auto
qed

lemma timer_repD:
  assumes "timer_rep B s es"
  shows "tpath (timeos s) (next_timeout s) es" "distinct (map fst es)" "dom (timeos s) = fst ` set es"
    "pool_live 17 (tpools s MEMP_SYS_TIMEOUT) (fst ` set es)" "sorted (map (off B \<circ> due) es)" "\<forall>e \<in> set es. off B (due e) < 2 ^ 31"
  using assms by (simp_all add: timer_rep_def)

text \<open>The entry in its place, as the two branches of \<open>sys_timeout_abs\<close> leave it.\<close>

lemma insert_path:
  assumes p: "tpath h p es" "distinct (map fst es)" "i \<notin> fst ` set es" "\<forall>e \<in> set es. off B (due e) < 2 ^ 31" "off B t < 2 ^ 31"
    and s: "timeos s = h(i \<mapsto> \<lparr>to_next = None, to_time = t, to_h = k\<rparr>)" "next_timeout s = p"
  shows "\<exists>h' p'. link_timeout i t s = Some (s\<lparr>timeos := h', next_timeout := p'\<rparr>) \<and>
    tpath h' p' (ins B (i, t, k) es) \<and> dom h' = insert i (dom h)"
proof (cases es)
  case Nil
  then show ?thesis using p(1) s by (intro exI [of _ "timeos s"] exI [of _ "Some i"]) (auto simp: link_timeout_def)
next
  case (Cons e fs)
  obtain a ta ka where e: "e = (a, ta, ka)" by (cases e)
  obtain n where n: "p = Some a" "h a = Some \<lparr>to_next = n, to_time = ta, to_h = ka\<rparr>" "tpath h n fs" using p(1) Cons e by auto
  have ai: "a \<noteq> i" "i \<notin> fst ` set fs" using p(3) Cons e by auto
  have lt: "TIME_LESS_THAN t ta \<longleftrightarrow> off B t < off B ta" using p(4,5) Cons e by (intro time_less) auto
  show ?thesis
  proof (cases "off B t < off B ta")
    case True
    define h1 where "h1 = h(i \<mapsto> \<lparr>to_next = Some a, to_time = t, to_h = k\<rparr>)"
    have "tpath h1 (Some i) (ins B (i, t, k) es)" using True Cons e n ai by (simp add: h1_def)
    moreover have "dom h1 = insert i (dom h)" by (auto simp: h1_def)
    ultimately show ?thesis using n ai s lt True by (intro exI [of _ h1] exI [of _ "Some i"]) (simp add: link_timeout_def set_to_next_def h1_def)
  next
    case False
    have "\<exists>h'. insert_loop i t (Some a) s = Some (s\<lparr>timeos := h'\<rparr>) \<and> tpath h' (Some a) ((a, ta, ka) # ins B (i, t, k) fs) \<and>
      dom h' = dom (timeos s) \<and> (\<forall>j. j \<notin> insert a (insert i (fst ` set fs)) \<longrightarrow> h' j = timeos s j)"
      using p Cons e n ai s by (intro insert_loop_path) auto
    then obtain h' where h: "insert_loop i t (Some a) s = Some (s\<lparr>timeos := h'\<rparr>)" "tpath h' (Some a) ((a, ta, ka) # ins B (i, t, k) fs)"
      "dom h' = dom (timeos s)" by blast
    then have "tpath h' (Some a) (ins B (i, t, k) es)" using False Cons e by simp
    moreover have "s\<lparr>timeos := h', next_timeout := Some a\<rparr> = s\<lparr>timeos := h'\<rparr>" using s n by simp
    moreover have "dom h' = insert i (dom h)" using h(3) s by simp
    ultimately show ?thesis using h(1) n ai s lt False by (intro exI [of _ h'] exI [of _ "Some a"]) (simp add: link_timeout_def)
  qed
qed

definition same_clock :: "timeouts \<Rightarrow> timeouts \<Rightarrow> bool" where
  "same_clock s s' \<longleftrightarrow> clock s' = clock s \<and> tcp_pcbs s' = tcp_pcbs s \<and> tcpip_tcp_timer_active s' = tcpip_tcp_timer_active s"

lemma timeout_abs_rep:
  assumes r: "timer_rep B s es" and t: "off B t < 2 ^ 31"
  shows "if length es = 17 then sys_timeout_abs t k s = None
    else \<exists>i s'. sys_timeout_abs t k s = Some s' \<and> i \<notin> fst ` set es \<and> timer_rep B s' (ins B (i, t, k) es) \<and> same_clock s s'"
proof -
  note d = timer_repD [OF r]
  obtain b p where b: "do_memp_malloc_pool (tpools s MEMP_SYS_TIMEOUT) = (b, p)"
    "case b of None \<Rightarrow> fst ` set es = {..<17} \<and> pool_live 17 p (fst ` set es)
     | Some x \<Rightarrow> x \<notin> fst ` set es \<and> x < 17 \<and> pool_live 17 p (insert x (fst ` set es))"
    using pool_live_alloc [OF d(4)] by blast
  note c = pool_live_card [OF d(4) refl d(2)]
  show ?thesis
  proof (cases b)
    case None
    then show ?thesis using b c(2) by (simp add: sys_timeout_abs_def memp_malloc_def)
  next
    case (Some i)
    then have i: "i \<notin> fst ` set es" "i < 17" "pool_live 17 p (insert i (fst ` set es))" using b(2) by auto
    then have l: "length es \<noteq> 17" using c(2) by auto
    define s1 where "s1 = s\<lparr>tpools := (tpools s)(MEMP_SYS_TIMEOUT := p), timeos := (timeos s)(i \<mapsto> \<lparr>to_next = None, to_time = t, to_h = k\<rparr>)\<rparr>"
    have s1: "timeos s1 = (timeos s)(i \<mapsto> \<lparr>to_next = None, to_time = t, to_h = k\<rparr>)" "next_timeout s1 = next_timeout s" by (simp_all add: s1_def)
    have "sys_timeout_abs t k s = link_timeout i t s1" using b(1) Some by (simp add: sys_timeout_abs_def memp_malloc_def s1_def)
    with insert_path [OF d(1,2) i(1) d(6) t s1] obtain h' p' where h: "sys_timeout_abs t k s = Some (s1\<lparr>timeos := h', next_timeout := p'\<rparr>)"
      "tpath h' p' (ins B (i, t, k) es)" "dom h' = insert i (dom (timeos s))" by auto
    define s' where "s' = s1\<lparr>timeos := h', next_timeout := p'\<rparr>"
    have "distinct (map fst (ins B (i, t, k) es))"
    proof -
      have "mset (map fst (ins B (i, t, k) es)) = mset (i # map fst es)" by (simp add: mset_ins)
      then show ?thesis using d(2) i(1) by (metis distinct.simps(2) list.set_map mset_eq_imp_distinct_iff)
    qed
    then have "timer_rep B s' (ins B (i, t, k) es)"
      using h(2,3) d i(3) t sorted_ins [OF d(5)] by (simp add: timer_rep_def s'_def s1_def)
    moreover have "same_clock s s'" by (simp add: same_clock_def s'_def s1_def)
    ultimately show ?thesis using h(1) l i(1) by (auto simp: s'_def)
  qed
qed

lemma timeout_rep:
  assumes r: "timer_rep B s es" and m: "msecs \<le> 0x3fffffff" "off B (clock s) + unat msecs < 2 ^ 31"
  shows "if length es = 17 then sys_timeout msecs k s = None
    else \<exists>i s'. sys_timeout msecs k s = Some s' \<and> i \<notin> fst ` set es \<and> timer_rep B s' (ins B (i, clock s + msecs, k) es) \<and> same_clock s s'"
proof -
  have "off B (clock s + msecs) = off B (clock s) + unat msecs" using m(2) by (intro off_add) simp
  then have "off B (clock s + msecs) < 2 ^ 31" using m(2) by simp
  from timeout_abs_rep [OF r this, of k] show ?thesis using m(1) by (simp add: sys_timeout_def)
qed

subsection \<open>Removing\<close>

fun tseg :: "(nat \<Rightarrow> sys_timeo option) \<Rightarrow> nat option \<Rightarrow> tentry list \<Rightarrow> nat option \<Rightarrow> bool" where
  "tseg h p [] q \<longleftrightarrow> p = q"
| "tseg h p ((i, t, k) # es) q \<longleftrightarrow> p = Some i \<and> (\<exists>n. h i = Some \<lparr>to_next = n, to_time = t, to_h = k\<rparr> \<and> tseg h n es q)"

lemma tpath_append: "tpath h p (us @ es) \<longleftrightarrow> (\<exists>q. tseg h p us q \<and> tpath h q es)"
proof (induction us arbitrary: p)
  case (Cons u us)
  then show ?case by (cases u) (simp, blast)
qed simp

lemma tseg_append: "tseg h p (us @ vs) q \<longleftrightarrow> (\<exists>r. tseg h p us r \<and> tseg h r vs q)"
proof (induction us arbitrary: p)
  case (Cons u us)
  then show ?case by (cases u) (simp, blast)
qed simp

lemma tseg_upd [simp]: "i \<notin> fst ` set es \<Longrightarrow> tseg (h(i := x)) p es q = tseg h p es q"
  by (induction es arbitrary: p) (auto split: prod.splits)

fun del :: "timer option \<Rightarrow> tentry list \<Rightarrow> tentry list" where
  "del k [] = []"
| "del k (e # es) = (if snd (snd e) = k then es else e # del k es)"

text \<open>Taking an entry out of the list and giving its element back keeps the list in order.\<close>

lemma rep_remove:
  assumes "timer_rep B s (us @ e # vs)" "tpath (timeos s') (next_timeout s') (us @ vs)" "dom (timeos s') = dom (timeos s) - {fst e}"
    and "tpools s' = memp_free MEMP_SYS_TIMEOUT (Some (fst e)) (tpools s)"
  shows "timer_rep B s' (us @ vs)"
proof -
  note d = timer_repD [OF assms(1)]
  have "fst e \<notin> fst ` set (us @ vs)" using d(2) by auto
  then have f: "fst ` set (us @ e # vs) - {fst e} = fst ` set (us @ vs)" by simp
  have "pool_live 17 (tpools s' MEMP_SYS_TIMEOUT) (fst ` set (us @ vs))"
    using pool_live_free [OF d(4), of "fst e"] assms(4) unfolding f by (simp add: memp_free_def)
  moreover have "dom (timeos s') = fst ` set (us @ vs)" using assms(3) d(3) f by simp
  moreover have "sorted (map (off B \<circ> due) (us @ vs))" using d(5) unfolding map_append list.map sorted_append by simp
  moreover have "distinct (map fst (us @ vs))" "\<forall>e \<in> set (us @ vs). off B (due e) < 2 ^ 31" using d(2,6) by simp_all
  ultimately show ?thesis unfolding timer_rep_def by (intro conjI assms(2))
qed

lemma unlink_first:
  assumes r: "timer_rep B s ((a, ta, ka) # es)" and n: "timeos s a = Some \<lparr>to_next = n, to_time = ta, to_h = ka\<rparr>"
  shows "timer_rep B (free_timeo a (s\<lparr>next_timeout := n\<rparr>)) es"
proof -
  have "tpath ((timeos s)(a := None)) n es" "dom ((timeos s)(a := None)) = dom (timeos s) - {a}"
    using timer_repD(1,2) [OF r] n by auto
  then show ?thesis using rep_remove [of B s "[]" "(a, ta, ka)" es] r by (simp add: free_timeo_def)
qed

lemma unlink_later:
  assumes r: "timer_rep B s (vs @ (b, tb, kb) # (a, ta, ka) # es)" and n: "timeos s a = Some \<lparr>to_next = n, to_time = ta, to_h = ka\<rparr>"
  shows "\<exists>s1. set_to_next b n s = Some s1 \<and> timer_rep B (free_timeo a s1) (vs @ (b, tb, kb) # es) \<and> same_clock s s1"
proof -
  note d = timer_repD [OF r]
  have ab: "a \<noteq> b" "b \<notin> fst ` set vs" "b \<notin> fst ` set es" "a \<notin> fst ` set vs" "a \<notin> fst ` set es" using d(2) by auto
  have p: "tseg (timeos s) (next_timeout s) vs (Some b)" "timeos s b = Some \<lparr>to_next = Some a, to_time = tb, to_h = kb\<rparr>"
    "tpath (timeos s) n es" using d(1) n by (auto simp: tpath_append)
  let ?h = "(timeos s)(b \<mapsto> \<lparr>to_next = n, to_time = tb, to_h = kb\<rparr>, a := None)"
  have "tpath ?h (next_timeout s) (vs @ (b, tb, kb) # es)" using p ab by (auto simp: tpath_append)
  moreover have "dom ?h = dom (timeos s) - {a}" using p(2) ab(1) by auto
  ultimately show ?thesis using rep_remove [of B s "vs @ [(b, tb, kb)]" "(a, ta, ka)" es] r p(2)
    by (simp add: free_timeo_def set_to_next_def same_clock_def)
qed

lemma same_clock_ops [simp]: "same_clock s (free_timeo a s') = same_clock s s'"
    "same_clock s (s'\<lparr>next_timeout := n\<rparr>) = same_clock s s'" "same_clock s s"
  by (auto simp: same_clock_def free_timeo_def)

lemma untimeout_loop_rep:
  assumes "timer_rep B s (us @ es)" "tpath (timeos s) t es" "prev = (if us = [] then None else Some (fst (last us)))"
  shows "\<exists>s'. untimeout_loop k prev t s = Some s' \<and> timer_rep B s' (us @ del k es) \<and> same_clock s s'"
  using assms
proof (induction es arbitrary: us t prev)
  case Nil
  then show ?case by (subst untimeout_loop.simps) simp
next
  case (Cons e es)
  obtain a ta ka where e: "e = (a, ta, ka)" by (cases e)
  obtain n where n: "t = Some a" "timeos s a = Some \<lparr>to_next = n, to_time = ta, to_h = ka\<rparr>" "tpath (timeos s) n es"
    using Cons.prems(2) e by auto
  consider (other) "ka \<noteq> k" | (first) "ka = k" "us = []" | (later) vs b tb kb where "ka = k" "us = vs @ [(b, tb, kb)]"
    by (cases us rule: rev_cases) auto
  then show ?case
  proof cases
    case other
    from Cons.IH [OF _ n(3), of "us @ [e]" "Some a"] obtain s' where
      "untimeout_loop k (Some a) n s = Some s'" "timer_rep B s' ((us @ [e]) @ del k es)" "same_clock s s'"
      using Cons.prems(1) e by auto
    then show ?thesis using n other e by (subst untimeout_loop.simps) simp
  next
    case first
    then show ?thesis using Cons.prems n e unlink_first [of B s a ta ka es n] by (subst untimeout_loop.simps) simp
  next
    case later
    obtain s1 where "set_to_next b n s = Some s1" "timer_rep B (free_timeo a s1) (vs @ (b, tb, kb) # es)" "same_clock s s1"
      using unlink_later [of B s vs b tb kb a ta ka es n] Cons.prems(1) n(2) later e by auto
    then show ?thesis using later Cons.prems(3) n e by (subst untimeout_loop.simps) simp
  qed
qed

lemma untimeout_rep:
  assumes "timer_rep B s es"
  shows "\<exists>s'. sys_untimeout k s = Some s' \<and> timer_rep B s' (del k es) \<and> same_clock s s'"
  using untimeout_loop_rep [of B s "[]" es "next_timeout s" None k] assms timer_repD(1) [OF assms] by (simp add: sys_untimeout_def)

subsection \<open>Sleeping and moving\<close>

lemma off_diff:
  assumes "off B u \<le> off B t"
  shows "off u t = off B t - off B u"
proof -
  have e: "t - u = (t - B) - (u - B)" by simp
  have "u - B \<le> t - B" using assms by (simp add: off_def word_le_nat_alt)
  from unat_sub [OF this] show ?thesis unfolding off_def [of u] e by (simp only: off_def)
qed

lemma sleeptime_rep:
  assumes r: "timer_rep B s es" and c: "off B (clock s) < 2 ^ 31"
  shows "\<exists>d. sys_timeouts_sleeptime s = Some d \<and>
    (case es of [] \<Rightarrow> d = 0xffffffff | e # _ \<Rightarrow> unat d = off B (due e) - off B (clock s))"
proof (cases es)
  case Nil
  then show ?thesis using timer_repD(1) [OF r] by (simp add: sys_timeouts_sleeptime_def)
next
  case (Cons e es')
  obtain a ta ka where e: "e = (a, ta, ka)" by (cases e)
  obtain n where n: "next_timeout s = Some a" "timeos s a = Some \<lparr>to_next = n, to_time = ta, to_h = ka\<rparr>"
    using timer_repD(1) [OF r] Cons e by auto
  have ta: "off B ta < 2 ^ 31" using timer_repD(6) [OF r] Cons e by simp
  have lt: "TIME_LESS_THAN ta (clock s) \<longleftrightarrow> off B ta < off B (clock s)" by (rule time_less [OF ta c])
  show ?thesis
  proof (cases "off B ta < off B (clock s)")
    case True
    then show ?thesis using Cons e n lt by (simp add: sys_timeouts_sleeptime_def)
  next
    case False
    then have "unat (ta - clock s) = off B ta - off B (clock s)" using off_diff [of B "clock s" ta] by (simp add: off_def)
    then show ?thesis using Cons e n lt False ta by (simp add: sys_timeouts_sleeptime_def word_le_nat_alt)
  qed
qed

lemma rep_rebase:
  assumes r: "timer_rep B s es" and b: "\<forall>e \<in> set es. off B B' \<le> off B (due e)"
  shows "timer_rep B' s es"
proof -
  have o: "\<forall>e \<in> set es. off B' (due e) = off B (due e) - off B B'" using b by (auto intro: off_diff)
  have "sorted (map (off B' \<circ> due) es) = sorted (map (\<lambda>e. off B (due e) - off B B') es)"
    using o by (intro arg_cong [where f = sorted] map_cong) simp_all
  moreover have "sorted (map (\<lambda>e. off B (due e) - off B B') es)"
    using timer_repD(5) [OF r] unfolding sorted_map by (rule sorted_wrt_mono_rel [rotated]) (simp add: diff_le_mono)
  moreover have "\<forall>e \<in> set es. off B' (due e) < 2 ^ 31" using o timer_repD(6) [OF r] by fastforce
  ultimately show ?thesis using r unfolding timer_rep_def by blast
qed

text \<open>\<open>sys_restart_timeouts\<close> moves the whole list: the first timeout becomes due now, the others as long after it as before.\<close>

abbreviation shift :: "u32 \<Rightarrow> u32 \<Rightarrow> tentry \<Rightarrow> tentry" where
  "shift base now e \<equiv> (fst e, (due e - base) + now, snd (snd e))"

lemma restart_loop_path:
  assumes "tpath (timeos s) p es" "distinct (map fst es)"
  shows "\<exists>h. restart_loop base now p s = Some (s\<lparr>timeos := h\<rparr>) \<and> tpath h p (map (shift base now) es) \<and> dom h = dom (timeos s) \<and>
    (\<forall>j. j \<notin> fst ` set es \<longrightarrow> h j = timeos s j)"
  using assms
proof (induction es arbitrary: p s)
  case Nil
  then show ?case by (intro exI [of _ "timeos s"], subst restart_loop.simps) simp
next
  case (Cons e es)
  obtain a ta ka where e: "e = (a, ta, ka)" by (cases e)
  obtain n where n: "p = Some a" "timeos s a = Some \<lparr>to_next = n, to_time = ta, to_h = ka\<rparr>" "tpath (timeos s) n es"
    using Cons.prems(1) e by auto
  define s1 where "s1 = s\<lparr>timeos := (timeos s)(a \<mapsto> \<lparr>to_next = n, to_time = (ta - base) + now, to_h = ka\<rparr>)\<rparr>"
  have a: "a \<notin> fst ` set es" using Cons.prems(2) e by simp
  have "tpath (timeos s1) n es" using n(3) a by (simp add: s1_def)
  from Cons.IH [OF this] obtain h where h: "restart_loop base now n s1 = Some (s1\<lparr>timeos := h\<rparr>)" "tpath h n (map (shift base now) es)"
    "dom h = dom (timeos s1)" "\<forall>j. j \<notin> fst ` set es \<longrightarrow> h j = timeos s1 j" using Cons.prems(2) by fastforce
  have "restart_loop base now p s = Some (s\<lparr>timeos := h\<rparr>)" using n h(1) by (subst restart_loop.simps) (simp add: s1_def)
  moreover have "h a = timeos s1 a" using h(4) a by simp
  ultimately show ?case using n h(2-4) e by (intro exI [of _ h]) (auto simp: s1_def)
qed

lemma restart_rep:
  assumes r: "timer_rep B s es"
  shows "\<exists>s'. sys_restart_timeouts s = Some s' \<and> same_clock s s' \<and>
    timer_rep (clock s) s' (case es of [] \<Rightarrow> [] | e # _ \<Rightarrow> map (shift (due e) (clock s)) es)"
proof (cases es)
  case Nil
  then show ?thesis using r by (auto simp: sys_restart_timeouts_def timer_rep_def)
next
  case (Cons e es')
  note d = timer_repD [OF r]
  obtain a ta ka where e: "e = (a, ta, ka)" by (cases e)
  obtain n where n: "next_timeout s = Some a" "timeos s a = Some \<lparr>to_next = n, to_time = ta, to_h = ka\<rparr>"
    using d(1) Cons e by auto
  obtain h where h: "restart_loop ta (clock s) (Some a) s = Some (s\<lparr>timeos := h\<rparr>)"
    "tpath h (Some a) (map (shift ta (clock s)) es)" "dom h = dom (timeos s)"
    using restart_loop_path [OF d(1,2), of ta "clock s"] n(1) by auto
  have le: "\<forall>f \<in> set es. off B ta \<le> off B (due f)" using d(5) Cons e by auto
  from rep_rebase [OF r this] have "timer_rep ta s es" .
  note d' = timer_repD [OF this]
  have "off (clock s) \<circ> due \<circ> shift ta (clock s) = off ta \<circ> due" by (auto simp: off_def fun_eq_iff)
  then have "sorted (map (off (clock s) \<circ> due) (map (shift ta (clock s)) es))" using d'(5) by (simp add: comp_assoc)
  moreover have "map fst (map (shift ta (clock s)) es) = map fst es" by simp
  then have "fst ` set (map (shift ta (clock s)) es) = fst ` set es" by (metis set_map)
  ultimately have "timer_rep (clock s) (s\<lparr>timeos := h\<rparr>) (map (shift ta (clock s)) es)"
    using h(2,3) n(1) d(2-4) d'(6) by (auto simp: timer_rep_def off_def comp_def)
  then show ?thesis using n h(1) Cons e by (simp add: sys_restart_timeouts_def same_clock_def)
qed

subsection \<open>The timers of the protocols\<close>

text \<open>
  \<open>timers_complete\<close>: the list holds each of the ten cyclic timers that \<open>sys_timeouts_init\<close> starts exactly once,
  the TCP timer exactly when it is marked active, and nothing else. \<open>work_ok\<close> is what a protocol timer may do: it leaves the
  timers alone, and takes time, but does not bring the clock more than \<open>C\<close> past \<open>B\<close>.
\<close>

abbreviation handlers :: "tentry list \<Rightarrow> timer option multiset" where
  "handlers es \<equiv> image_mset (snd \<circ> snd) (mset es)"

definition timers_complete :: "timeouts \<Rightarrow> tentry list \<Rightarrow> bool" where
  "timers_complete s es \<longleftrightarrow> handlers es =
     mset (map (Some \<circ> Cyclic) [1..<11]) + (if tcpip_tcp_timer_active s then {#Some Tcp_timer#} else {#})"

definition work_ok :: "u32 \<Rightarrow> nat \<Rightarrow> work_fn \<Rightarrow> bool" where
  "work_ok B C work \<longleftrightarrow> (\<forall>i s. off B (clock s) \<le> C \<longrightarrow> (\<exists>s'. work i s = Some s' \<and> timeos s' = timeos s \<and>
     next_timeout s' = next_timeout s \<and> tpools s' MEMP_SYS_TIMEOUT = tpools s MEMP_SYS_TIMEOUT \<and>
     current_timeout_due_time s' = current_timeout_due_time s \<and> tcpip_tcp_timer_active s' = tcpip_tcp_timer_active s \<and>
     off B (clock s) \<le> off B (clock s') \<and> off B (clock s') \<le> C))"

lemma rep_frame:
  assumes "timer_rep B s es" "timeos s' = timeos s" "next_timeout s' = next_timeout s" "tpools s' MEMP_SYS_TIMEOUT = tpools s MEMP_SYS_TIMEOUT"
  shows "timer_rep B s' es"
  using assms by (simp add: timer_rep_def)

lemma complete_length: "timers_complete s es \<Longrightarrow> length es \<le> 11"
proof -
  assume "timers_complete s es"
  then have "size (handlers es) \<le> 11" by (auto simp: timers_complete_def)
  then show ?thesis by simp
qed

lemma complete_handler:
  assumes "timers_complete s (e # es)"
  shows "(\<exists>i \<in> {1..<11}. snd (snd e) = Some (Cyclic i)) \<or> snd (snd e) = Some Tcp_timer \<and> tcpip_tcp_timer_active s"
proof -
  have "snd (snd e) \<in># handlers (e # es)" by simp
  then show ?thesis unfolding assms [unfolded timers_complete_def] by (auto split: if_splits)
qed

lemma interval_bounds:
  assumes "i < 11"
  shows "0 < unat (lwip_cyclic_timers ! i)" "unat (lwip_cyclic_timers ! i) \<le> 60000"
proof -
  have "\<forall>v \<in> set lwip_cyclic_timers. 0 < unat v \<and> unat v \<le> 60000" by (simp add: lwip_cyclic_timers_def)
  moreover have "lwip_cyclic_timers ! i \<in> set lwip_cyclic_timers" using assms by (intro nth_mem) (simp add: lwip_cyclic_timers_def)
  ultimately show "0 < unat (lwip_cyclic_timers ! i)" "unat (lwip_cyclic_timers ! i) \<le> 60000" by auto
qed

text \<open>A cyclic timer starts itself again, later than it was due; the TCP timer too, or it stops and is marked so.\<close>

lemma cyclic_fires:
  assumes r: "timer_rep B s es" "length es < 17" and w: "work_ok B C work" and C: "C + 60000 < 2 ^ 31" and i: "i < 11"
    and c: "off B (current_timeout_due_time s) \<le> off B (clock s)" "off B (clock s) \<le> C"
  shows "\<exists>s' es' x d. lwip_cyclic_timer work i s = Some s' \<and> timer_rep B s' es' \<and> mset es' = add_mset (x, d, Some (Cyclic i)) (mset es) \<and>
    off B (current_timeout_due_time s) < off B d \<and> off B d \<le> C + 60000 \<and>
    tcpip_tcp_timer_active s' = tcpip_tcp_timer_active s \<and> off B (clock s) \<le> off B (clock s') \<and> off B (clock s') \<le> C"
proof -
  obtain s1 where s1: "work i s = Some s1" "timeos s1 = timeos s" "next_timeout s1 = next_timeout s"
    "tpools s1 MEMP_SYS_TIMEOUT = tpools s MEMP_SYS_TIMEOUT" "current_timeout_due_time s1 = current_timeout_due_time s"
    "tcpip_tcp_timer_active s1 = tcpip_tcp_timer_active s" "off B (clock s) \<le> off B (clock s1)" "off B (clock s1) \<le> C"
    using w c(2) unfolding work_ok_def by blast
  let ?v = "lwip_cyclic_timers ! i" and ?D = "current_timeout_due_time s"
  note v = interval_bounds [OF i]
  have n: "off B (?D + ?v) = off B ?D + unat ?v" "off B (clock s1 + ?v) = off B (clock s1) + unat ?v"
    using c s1(7,8) v C by (auto intro!: off_add)
  define d where "d = (if TIME_LESS_THAN (?D + ?v) (clock s1) then clock s1 + ?v else ?D + ?v)"
  have d: "off B ?D < off B d" "off B d \<le> C + 60000" using n v c s1(7,8) by (auto simp: d_def)
  have e: "lwip_cyclic_timer work i s = sys_timeout_abs d (Some (Cyclic i)) s1"
    using s1(1,5) by (simp add: lwip_cyclic_timer_def d_def)
  have r1: "timer_rep B s1 es" by (rule rep_frame [OF r(1) s1(2-4)])
  have "off B d < 2 ^ 31" using d(2) C by simp
  from timeout_abs_rep [OF r1 this, of "Some (Cyclic i)"] r(2) obtain x s' where
    s': "sys_timeout_abs d (Some (Cyclic i)) s1 = Some s'" "timer_rep B s' (ins B (x, d, Some (Cyclic i)) es)" "same_clock s1 s'" by auto
  then show ?thesis unfolding e using d s1(6-8) mset_ins [of B "(x, d, Some (Cyclic i))" es] by (auto simp: same_clock_def)
qed

lemma tcp_fires:
  assumes r: "timer_rep B s es" "length es < 17" and w: "work_ok B C work" and C: "C + 60000 < 2 ^ 31"
    and c: "off B (current_timeout_due_time s) \<le> off B (clock s)" "off B (clock s) \<le> C"
  shows "\<exists>s' es'. tcpip_tcp_timer work s = Some s' \<and> timer_rep B s' es' \<and> off B (clock s) \<le> off B (clock s') \<and> off B (clock s') \<le> C \<and>
    (es' = es \<and> \<not> tcpip_tcp_timer_active s' \<or>
     (\<exists>x d. mset es' = add_mset (x, d, Some Tcp_timer) (mset es) \<and> off B (current_timeout_due_time s) < off B d \<and>
       off B d \<le> C + 60000 \<and> tcpip_tcp_timer_active s' = tcpip_tcp_timer_active s))"
proof -
  obtain s1 where s1: "work 0 s = Some s1" "timeos s1 = timeos s" "next_timeout s1 = next_timeout s"
    "tpools s1 MEMP_SYS_TIMEOUT = tpools s MEMP_SYS_TIMEOUT"
    "tcpip_tcp_timer_active s1 = tcpip_tcp_timer_active s" "off B (clock s) \<le> off B (clock s1)" "off B (clock s1) \<le> C"
    using w c(2) unfolding work_ok_def by blast
  have r1: "timer_rep B s1 es" by (rule rep_frame [OF r(1) s1(2-4)])
  have v: "lwip_cyclic_timers ! 0 = 250" by (simp add: lwip_cyclic_timers_def)
  show ?thesis
  proof (cases "tcp_pcbs s1")
    case True
    have d: "off B (clock s1 + 250) = off B (clock s1) + 250" using off_add [of B "clock s1" 250] s1(7) C by simp
    have "off B (clock s1) + unat (250 :: u32) < 2 ^ 31" using s1(7) C by simp
    from timeout_rep [OF r1 _ this, of "Some Tcp_timer"] r(2) obtain x s' where
      s': "sys_timeout 250 (Some Tcp_timer) s1 = Some s'" "timer_rep B s' (ins B (x, clock s1 + 250, Some Tcp_timer) es)" "same_clock s1 s'" by auto
    have "off B (current_timeout_due_time s) < off B (clock s1 + 250)" "off B (clock s1 + 250) \<le> C + 60000" using d c s1(6,7) by auto
    then show ?thesis using s1 True s' v mset_ins [of B "(x, clock s1 + 250, Some Tcp_timer)" es]
      by (auto simp: tcpip_tcp_timer_def same_clock_def)
  next
    case False
    have "timer_rep B (s1\<lparr>tcpip_tcp_timer_active := False\<rparr>) es" by (rule rep_frame [OF r1]) simp_all
    then show ?thesis using s1 False by (auto simp: tcpip_tcp_timer_def)
  qed
qed

text \<open>One round of \<open>check_loop\<close>. \<open>lateness\<close> is what it makes smaller: the sum over the entries that are due of how late they are.\<close>

definition lateness :: "u32 \<Rightarrow> u32 \<Rightarrow> tentry list \<Rightarrow> nat" where
  "lateness B now es = (\<Sum>e \<in># mset es. off B now + 1 - off B (due e))"

definition on_time :: "u32 \<Rightarrow> nat \<Rightarrow> timeouts \<Rightarrow> tentry list \<Rightarrow> bool" where
  "on_time B C s es \<longleftrightarrow> timer_rep B s es \<and> timers_complete s es \<and> off B (clock s) \<le> C \<and> (\<forall>e \<in> set es. off B (due e) \<le> C + 60000)"

lemma fires:
  assumes J: "on_time B C s (e # es)" and w: "work_ok B C work" and C: "C + 60000 < 2 ^ 31"
    and c: "off B (due e) \<le> off B (clock s)" and s0: "timer_rep B s0 es" "current_timeout_due_time s0 = due e" "same_clock s s0"
  shows "\<exists>s' es'. call_handler work other (snd (snd e)) s0 = Some s' \<and> on_time B C s' es' \<and> off B (clock s) \<le> off B (clock s') \<and>
    (es' = es \<or> (\<exists>f. mset es' = add_mset f (mset es) \<and> off B (due e) < off B (due f)))"
proof -
  have l: "length es < 17" using complete_length [of s "e # es"] J by (simp add: on_time_def)
  have k: "off B (current_timeout_due_time s0) \<le> off B (clock s0)" "off B (clock s0) \<le> C"
    using s0 c J by (auto simp: on_time_def same_clock_def)
  have D: "\<forall>f \<in> set es. off B (due f) \<le> C + 60000" using J by (simp add: on_time_def)
  have H: "add_mset (snd (snd e)) (handlers es) = mset (map (Some \<circ> Cyclic) [1..<11]) + (if tcpip_tcp_timer_active s then {#Some Tcp_timer#} else {#})"
    using J by (simp add: on_time_def timers_complete_def)
  have again: ?thesis if "call_handler work other (snd (snd e)) s0 = Some s'" "timer_rep B s' es'" "mset es' = add_mset (x, d, snd (snd e)) (mset es)"
      "off B (due e) < off B d" "off B d \<le> C + 60000" "tcpip_tcp_timer_active s' = tcpip_tcp_timer_active s0"
      "off B (clock s0) \<le> off B (clock s')" "off B (clock s') \<le> C" for s' es' x d
  proof -
    have "set es' = insert (x, d, snd (snd e)) (set es)" using that(3) by (metis set_mset_add_mset_insert set_mset_mset)
    then have "on_time B C s' es'" using that H D s0(3) unfolding on_time_def timers_complete_def by (simp add: same_clock_def)
    then show ?thesis using that s0(3) by (intro exI [of _ s'] exI [of _ es']) (auto simp: same_clock_def)
  qed
  from complete_handler [of s e es] J consider (cyc) i where "i < 11" "snd (snd e) = Some (Cyclic i)"
    | (tcp) "snd (snd e) = Some Tcp_timer" "tcpip_tcp_timer_active s" by (auto simp: on_time_def)
  then show ?thesis
  proof cases
    case cyc
    from cyclic_fires [OF s0(1) l w C cyc(1) k] show ?thesis
      using again cyc(2) s0(2) by (auto simp: call_handler_def)
  next
    case tcp
    from tcp_fires [OF s0(1) l w C k] obtain s' es' where t: "tcpip_tcp_timer work s0 = Some s'" "timer_rep B s' es'"
      "off B (clock s0) \<le> off B (clock s')" "off B (clock s') \<le> C" and alt: "es' = es \<and> \<not> tcpip_tcp_timer_active s' \<or>
     (\<exists>x d. mset es' = add_mset (x, d, Some Tcp_timer) (mset es) \<and> off B (current_timeout_due_time s0) < off B d \<and>
       off B d \<le> C + 60000 \<and> tcpip_tcp_timer_active s' = tcpip_tcp_timer_active s0)" by blast
    have h: "call_handler work other (snd (snd e)) s0 = Some s'" using t(1) tcp by (simp add: call_handler_def)
    from alt show ?thesis
    proof
      assume a: "es' = es \<and> \<not> tcpip_tcp_timer_active s'"
      then have "on_time B C s' es'" using t D H tcp unfolding on_time_def timers_complete_def by simp
      then show ?thesis using h a t(3) s0(3) by (auto simp: same_clock_def)
    next
      assume "\<exists>x d. mset es' = add_mset (x, d, Some Tcp_timer) (mset es) \<and> off B (current_timeout_due_time s0) < off B d \<and>
       off B d \<le> C + 60000 \<and> tcpip_tcp_timer_active s' = tcpip_tcp_timer_active s0"
      then show ?thesis using again [OF h t(2)] t(3,4) tcp(1) s0(2) by auto
    qed
  qed
qed

lemma check_round:
  assumes J: "on_time B C s (e # es)" and w: "work_ok B C work" and C: "C + 60000 < 2 ^ 31"
    and now: "off B now \<le> off B (clock s)" "off B (due e) \<le> off B now"
  shows "\<exists>s' es'. check_loop work other now s = check_loop work other now s' \<and> on_time B C s' es' \<and>
    lateness B now es' < lateness B now (e # es) \<and> off B now \<le> off B (clock s')"
proof -
  obtain a ta ka where e: "e = (a, ta, ka)" by (cases e)
  have r: "timer_rep B s (e # es)" using J by (simp add: on_time_def)
  obtain n where n: "next_timeout s = Some a" "timeos s a = Some \<lparr>to_next = n, to_time = ta, to_h = ka\<rparr>"
    using timer_repD(1) [OF r] e by auto
  define s0 where "s0 = free_timeo a (s\<lparr>next_timeout := n, current_timeout_due_time := ta\<rparr>)"
  have "off B now < 2 ^ 31" "off B ta < 2 ^ 31" using now J C e by (auto simp: on_time_def)
  then have lt: "\<not> TIME_LESS_THAN now ta" using time_less [of B now ta] now(2) e by simp
  have "timer_rep B s0 es" by (rule rep_frame [OF unlink_first [of B s a ta ka es n]]) (use r e n in \<open>simp_all add: s0_def free_timeo_def\<close>)
  moreover have "current_timeout_due_time s0 = due e" "same_clock s s0" using e by (simp_all add: s0_def free_timeo_def same_clock_def)
  ultimately obtain s' es' where s': "call_handler work other ka s0 = Some s'" "on_time B C s' es'" "off B (clock s) \<le> off B (clock s')"
    "es' = es \<or> (\<exists>f. mset es' = add_mset f (mset es) \<and> off B (due e) < off B (due f))"
    using fires [OF J w C, of s0 other] now e by auto
  have "lateness B now es' < lateness B now (e # es)" using s'(4) now(2) by (auto simp: lateness_def)
  moreover have "check_loop work other now s = check_loop work other now s'"
    using n lt s'(1) by (subst check_loop.simps) (simp add: s0_def)
  ultimately show ?thesis using s'(2,3) now(1) by (intro exI [of _ s'] exI [of _ es']) simp
qed

lemma check_loop_returns:
  assumes "on_time B C s es" "work_ok B C work" "C + 60000 < 2 ^ 31" "off B now \<le> off B (clock s)"
  shows "\<exists>s' es'. check_loop work other now s = Some s' \<and> on_time B C s' es' \<and> off B now \<le> off B (clock s') \<and>
    (\<forall>e \<in> set es'. off B now < off B (due e))"
  using assms(1,4)
proof (induction "lateness B now es" arbitrary: s es rule: less_induct)
  case less
  have r: "timer_rep B s es" using less.prems(1) by (simp add: on_time_def)
  show ?case
  proof (cases es)
    case Nil
    then show ?thesis using less.prems timer_repD(1) [OF r] by (subst check_loop.simps) auto
  next
    case (Cons e es0)
    obtain a ta ka where e: "e = (a, ta, ka)" by (cases e)
    show ?thesis
    proof (cases "off B (due e) \<le> off B now")
      case True
      from check_round [OF less.prems(1) [unfolded Cons] assms(2,3) less.prems(2) True, of other] obtain s1 es1 where
        s1: "check_loop work other now s = check_loop work other now s1" "on_time B C s1 es1" "lateness B now es1 < lateness B now es"
        "off B now \<le> off B (clock s1)" using Cons by auto
      show ?thesis unfolding s1(1) by (rule less.hyps [OF s1(3,2,4)])
    next
      case False
      have "off B now < 2 ^ 31" "off B ta < 2 ^ 31" using less.prems assms(3) timer_repD(6) [OF r] Cons e by (auto simp: on_time_def)
      then have "TIME_LESS_THAN now ta" using time_less [of B now ta] False e by simp
      then have "check_loop work other now s = Some s" using timer_repD(1) [OF r] Cons e by (subst check_loop.simps) auto
      moreover have "\<forall>f \<in> set es. off B now < off B (due f)" using False Cons timer_repD(5) [OF r] by fastforce
      ultimately show ?thesis using less.prems by auto
    qed
  qed
qed

text \<open>Starting the timers, and the TCP timer when a connection needs it.\<close>

lemma init_loop_rep:
  assumes "timer_rep B s es" "length es + length is \<le> 17" "set is \<subseteq> {..<11}" "clock s = B" "\<forall>e \<in> set es. off B (due e) \<le> 60000"
  shows "\<exists>s' es'. init_loop is s = Some s' \<and> timer_rep B s' es' \<and> handlers es' = handlers es + mset (map (Some \<circ> Cyclic) is) \<and>
    same_clock s s' \<and> (\<forall>e \<in> set es'. off B (due e) \<le> 60000)"
  using assms
proof (induction "is" arbitrary: s es)
  case (Cons i "is")
  let ?v = "lwip_cyclic_timers ! i"
  have i: "i < 11" using Cons.prems(3) by simp
  note v = interval_bounds [OF i]
  have z: "off B (clock s) = 0" using Cons.prems(4) by (simp add: off_def)
  have o: "off B (clock s + ?v) = unat ?v" using off_add [of B "clock s" ?v] v z by simp
  have "?v \<le> 0x3fffffff" "off B (clock s) + unat ?v < 2 ^ 31" using v z by (simp_all add: word_le_nat_alt)
  from timeout_rep [OF Cons.prems(1) this, of "Some (Cyclic i)"] Cons.prems(2) obtain x s1 where
    s1: "sys_timeout ?v (Some (Cyclic i)) s = Some s1" "timer_rep B s1 (ins B (x, clock s + ?v, Some (Cyclic i)) es)" "same_clock s s1" by auto
  let ?es = "ins B (x, clock s + ?v, Some (Cyclic i)) es"
  have m: "mset ?es = add_mset (x, clock s + ?v, Some (Cyclic i)) (mset es)" by (rule mset_ins)
  have l: "length ?es = Suc (length es)" using arg_cong [OF m, of size] by simp
  have "length ?es + length is \<le> 17" "set is \<subseteq> {..<11}" "clock s1 = B" "\<forall>e \<in> set ?es. off B (due e) \<le> 60000"
    using Cons.prems l s1(3) o v by (simp_all add: same_clock_def)
  from Cons.IH [OF s1(2) this] obtain s' es' where s': "init_loop is s1 = Some s'" "timer_rep B s' es'"
    "handlers es' = handlers ?es + mset (map (Some \<circ> Cyclic) is)" "same_clock s1 s'" "\<forall>e \<in> set es'. off B (due e) \<le> 60000" by blast
  have "handlers es' = handlers es + mset (map (Some \<circ> Cyclic) (i # is))" unfolding s'(3) m by simp
  moreover have "init_loop (i # is) s = Some s'" "same_clock s s'" using s1(1,3) s'(1,4) by (simp_all add: same_clock_def)
  ultimately show ?case using s'(2,5) by blast
qed auto

lemma init_on_time:
  assumes "timer_rep (clock s) s []" "\<not> tcpip_tcp_timer_active s"
  shows "\<exists>s' es. sys_timeouts_init s = Some s' \<and> on_time (clock s) C s' es \<and> same_clock s s'"
proof -
  have "length lwip_cyclic_timers = 11" by (simp add: lwip_cyclic_timers_def)
  moreover obtain s' es where "init_loop [1..<11] s = Some s'" "timer_rep (clock s) s' es"
    "handlers es = mset (map (Some \<circ> Cyclic) [1..<11])" "same_clock s s'" "\<forall>e \<in> set es. off (clock s) (due e) \<le> 60000"
    using init_loop_rep [OF assms(1), of "[1..<11]"] by fastforce
  ultimately show ?thesis using assms(2) unfolding sys_timeouts_init_def on_time_def timers_complete_def
    by (intro exI [of _ s'] exI [of _ es]) (auto simp: same_clock_def off_def)
qed

lemma needed_on_time:
  assumes J: "on_time B C s es" and C: "C + 60000 < 2 ^ 31"
  shows "\<exists>s' es'. tcp_timer_needed s = Some s' \<and> on_time B C s' es' \<and> (tcp_pcbs s \<longrightarrow> tcpip_tcp_timer_active s')"
proof (cases "\<not> tcpip_tcp_timer_active s \<and> tcp_pcbs s")
  case False
  then show ?thesis using J by (auto simp: tcp_timer_needed_def)
next
  case True
  let ?s = "s\<lparr>tcpip_tcp_timer_active := True\<rparr>"
  have v: "lwip_cyclic_timers ! 0 = 250" by (simp add: lwip_cyclic_timers_def)
  have r: "timer_rep B ?s es" by (rule rep_frame [of B s]) (use J in \<open>simp_all add: on_time_def\<close>)
  have c: "off B (clock s) \<le> C" using J by (simp add: on_time_def)
  have o: "off B (clock s + 250) = off B (clock s) + 250" using off_add [of B "clock s" 250] c C by simp
  have "off B (clock ?s) + unat (250 :: u32) < 2 ^ 31" using c C by simp
  from timeout_rep [OF r _ this, of "Some Tcp_timer"] complete_length [of s es] J obtain x s' where
    s': "sys_timeout 250 (Some Tcp_timer) ?s = Some s'" "timer_rep B s' (ins B (x, clock s + 250, Some Tcp_timer) es)" "same_clock ?s s'"
    by (auto simp: on_time_def)
  have "timers_complete s' (ins B (x, clock s + 250, Some Tcp_timer) es)"
    using J True s'(3) by (simp add: on_time_def timers_complete_def mset_ins same_clock_def)
  then have "on_time B C s' (ins B (x, clock s + 250, Some Tcp_timer) es)" using J s' o c by (auto simp: on_time_def same_clock_def)
  then show ?thesis using True s' v by (auto simp: tcp_timer_needed_def same_clock_def)
qed

lemma check_on_time:
  assumes J: "on_time B C s es" and w: "work_ok B C work" and C: "C + 60000 < 2 ^ 31"
  shows "\<exists>s' es'. sys_check_timeouts work other s = Some s' \<and> on_time (clock s) C s' es' \<and> (\<forall>e \<in> set es'. 0 < off (clock s) (due e))"
proof -
  obtain s' es' where s': "check_loop work other (clock s) s = Some s'" "on_time B C s' es'"
    "off B (clock s) \<le> off B (clock s')" "\<forall>e \<in> set es'. off B (clock s) < off B (due e)"
    using check_loop_returns [OF J w C order.refl] by blast
  have o: "\<forall>e \<in> set es'. off (clock s) (due e) = off B (due e) - off B (clock s)"
    "off (clock s) (clock s') = off B (clock s') - off B (clock s)"
    using s'(3,4) by (auto intro!: off_diff simp: less_imp_le)
  have "timer_rep (clock s) s' es'" by (rule rep_rebase [of B]) (use s' in \<open>auto simp: on_time_def less_imp_le\<close>)
  then have "on_time (clock s) C s' es'" using s'(2) o by (fastforce simp: on_time_def)
  then show ?thesis using s'(1,4) o by (intro exI [of _ s'] exI [of _ es']) (auto simp: sys_check_timeouts_def)
qed

text \<open>
  The timers in operation: started once by \<open>lwip_init\<close>, then the clock moves, the TCP connections come and go,
  TCP asks for its timer, and the timeouts are checked, each time with whatever the protocols do then. \<open>B\<close> is the clock
  at the last check; the next begins, and its work ends, within \<open>C\<close> milliseconds of it.
\<close>

inductive timer_run :: "nat \<Rightarrow> u32 \<Rightarrow> timeouts \<Rightarrow> bool" for C :: nat where
  start: "timer_run C (clock s) s'"
    if "timeos s = Map.empty" "next_timeout s = None" "tpools s = memp_init (\<lambda>_. idle_pool)" "\<not> tcpip_tcp_timer_active s"
      "sys_timeouts_init s = Some s'"
| tick: "timer_run C B (s\<lparr>clock := t\<rparr>)" if "timer_run C B s" "off B (clock s) \<le> off B t" "off B t \<le> C"
| pcbs: "timer_run C B (s\<lparr>tcp_pcbs := b\<rparr>)" if "timer_run C B s"
| needed: "timer_run C B s'" if "timer_run C B s" "tcp_timer_needed s = Some s'"
| check: "timer_run C (clock s) s'" if "timer_run C B s" "work_ok B C work" "sys_check_timeouts work other s = Some s'"

lemma initial_rep:
  assumes "timeos s = Map.empty" "next_timeout s = None" "tpools s = memp_init (\<lambda>_. idle_pool)"
  shows "timer_rep B s []"
proof -
  have "pool_live (memp_num MEMP_SYS_TIMEOUT) (memp_init (\<lambda>_. idle_pool) MEMP_SYS_TIMEOUT) {}"
    by (rule memp_init_live) (simp add: idle_pool_def)
  then show ?thesis using assms by (simp add: timer_rep_def)
qed

lemma timer_run_on_time:
  assumes "timer_run C B s" and C: "C + 60000 < 2 ^ 31"
  shows "\<exists>es. on_time B C s es"
  using assms(1)
proof (induction rule: timer_run.induct)
  case (start s s')
  then show ?case using init_on_time [OF initial_rep [OF start(1-3)] start(4), of C] by auto
next
  case (tick B s t)
  then obtain es where "on_time B C s es" by blast
  then have "on_time B C (s\<lparr>clock := t\<rparr>) es" using tick(3) by (simp add: on_time_def timer_rep_def timers_complete_def)
  then show ?case by blast
next
  case (pcbs B s b)
  then obtain es where "on_time B C s es" by blast
  then have "on_time B C (s\<lparr>tcp_pcbs := b\<rparr>) es" by (simp add: on_time_def timer_rep_def timers_complete_def)
  then show ?case by blast
next
  case (needed B s s')
  then show ?case using needed_on_time [OF _ C, of B s] by fastforce
next
  case (check B s work other s')
  then obtain es where "on_time B C s es" by blast
  from check_on_time [OF this check(2) C, of other] check(3) show ?case by auto
qed

text \<open>
  C10: no protocol timer is ever lost. In every state the timers can reach, however often the clock has wrapped around, as
  long as two checks are less than \<open>2 ^ 31\<close> milliseconds less one minute apart: the list holds each of the ten cyclic timers exactly
  once and the TCP timer exactly when it is active; and the next \<open>sys_check_timeouts\<close> ends without running out of elements,
  whatever time the protocols take, with every timer that was due called and started again for a time after the check began.
\<close>

theorem timers_never_lost:
  assumes "timer_run C B s" "C + 60000 < 2 ^ 31" "work_ok B C work"
  shows "\<exists>es. timer_rep B s es \<and> timers_complete s es \<and>
    (\<exists>s' es'. sys_check_timeouts work other s = Some s' \<and> timer_rep (clock s) s' es' \<and> timers_complete s' es' \<and>
      (\<forall>e \<in> set es'. 0 < off (clock s) (due e) \<and> off (clock s) (due e) \<le> C + 60000))"
proof -
  obtain es where J: "on_time B C s es" using timer_run_on_time [OF assms(1,2)] by blast
  from check_on_time [OF J assms(3,2), of other] obtain s' es' where
    "sys_check_timeouts work other s = Some s'" "on_time (clock s) C s' es'" "\<forall>e \<in> set es'. 0 < off (clock s) (due e)" by blast
  with J show ?thesis unfolding on_time_def by (intro exI [of _ es] conjI exI [of _ s'] exI [of _ es']) auto
qed

definition boot_timers :: timeouts where
  "boot_timers = \<lparr>timeos = Map.empty, next_timeout = None, tpools = memp_init (\<lambda>_. idle_pool), current_timeout_due_time = 0,
     tcpip_tcp_timer_active = False, tcp_pcbs = False, clock = 0xfffffff0\<rparr>"

theorem timers_never_lost_witness:
  "\<exists>s es s' es'. sys_timeouts_init boot_timers = Some s \<and> work_ok 0xfffffff0 1000 (\<lambda>_. Some) \<and> timer_rep 0xfffffff0 s es \<and>
     sys_check_timeouts (\<lambda>_. Some) (\<lambda>_. Some) (s\<lparr>clock := 0x3d8\<rparr>) = Some s' \<and> timer_rep 0x3d8 s' es' \<and> timers_complete s' es' \<and>
     (\<forall>e \<in> set es'. 0 < off 0x3d8 (due e) \<and> off 0x3d8 (due e) \<le> 61000)"
proof -
  have c: "clock boot_timers = 0xfffffff0" by (simp add: boot_timers_def)
  obtain s es where s: "sys_timeouts_init boot_timers = Some s" "on_time 0xfffffff0 1000 s es" "same_clock boot_timers s"
    using init_on_time [of boot_timers 1000] initial_rep [of boot_timers] c by (auto simp: boot_timers_def)
  have "timer_run 1000 (clock boot_timers) s" by (rule timer_run.start [OF _ _ _ _ s(1)]) (simp_all add: boot_timers_def)
  then have r: "timer_run 1000 0xfffffff0 (s\<lparr>clock := 0x3d8\<rparr>)" unfolding c
    by (rule timer_run.tick) (use s(3) c in \<open>simp_all add: off_def same_clock_def\<close>)
  have w: "work_ok 0xfffffff0 1000 (\<lambda>_. Some)" by (simp add: work_ok_def)
  from timers_never_lost [OF r _ w, of "\<lambda>_. Some"] s(1,2) w show ?thesis by (auto simp: on_time_def)
qed

text \<open>
  C27: the list of timeouts stays in order of due time across the wrap-around of the clock. With every due time and the new
  one less than \<open>2 ^ 31\<close> milliseconds after \<open>B\<close>: \<open>sys_timeout\<close> fails only when all 17 elements are in use, and otherwise
  puts the new timeout behind all that are due before it or at the same time; \<open>sys_untimeout\<close> takes the first timeout with the
  handler out and returns its element; \<open>sys_timeouts_sleeptime\<close> returns the exact time left until the first one is
  due, its assertion holding; \<open>sys_restart_timeouts\<close> makes the first due now and keeps the distances.
\<close>

theorem timeouts_in_order:
  assumes "timer_rep B s es" "msecs \<le> 0x3fffffff" "off B (clock s) + unat msecs < 2 ^ 31"
  shows "(if length es = 17 then sys_timeout msecs k s = None
      else \<exists>i s'. sys_timeout msecs k s = Some s' \<and> i \<notin> fst ` set es \<and> timer_rep B s' (ins B (i, clock s + msecs, k) es)) \<and>
    (\<exists>s'. sys_untimeout k s = Some s' \<and> timer_rep B s' (del k es)) \<and>
    (\<exists>d. sys_timeouts_sleeptime s = Some d \<and>
      (case es of [] \<Rightarrow> d = 0xffffffff | e # _ \<Rightarrow> unat d = off B (due e) - off B (clock s))) \<and>
    (\<exists>s'. sys_restart_timeouts s = Some s' \<and>
      timer_rep (clock s) s' (case es of [] \<Rightarrow> [] | e # _ \<Rightarrow> map (shift (due e) (clock s)) es))"
  using timeout_rep [OF assms, of k] untimeout_rep [OF assms(1), of k] sleeptime_rep [OF assms(1)] assms(3) restart_rep [OF assms(1)]
  by (auto split: if_splits)

theorem timeouts_in_order_witness:
  "\<exists>i s'. timer_rep 0xfffffff0 boot_timers [] \<and> sys_timeout 32 (Some (Other 7)) boot_timers = Some s' \<and>
     timer_rep 0xfffffff0 s' [(i, 0x10, Some (Other 7))]"
proof -
  have r: "timer_rep 0xfffffff0 boot_timers []" by (rule initial_rep) (simp_all add: boot_timers_def)
  have c: "clock boot_timers + 32 = 0x10" by (simp add: boot_timers_def)
  have "off 0xfffffff0 (clock boot_timers) = 0" by (simp add: boot_timers_def off_def)
  with timeouts_in_order [OF r, of 32 "Some (Other 7)", unfolded c] r show ?thesis by auto
qed

end
