(* ===== verification/Tcpip.thy ===== *)
theory Tcpip
  imports Timeouts Sys_Arch Pbuf_Chain
begin

text \<open>
  The thread of lwIP and the messages to it, \<^verbatim>\<open>lwip/src/api/tcpip.c\<close>, on the mailboxes of the port, the pools,
  the packet buffers and the timers. With \<^verbatim>\<open>LWIP_TCPIP_CORE_LOCKING\<close> a message is a received packet or a function to call; it lies in an
  element of one of two pools, and the mailbox holds pointers to such elements. What runs between taking and releasing the core lock is one
  step here: \<open>core_lock_safe\<close> shows that the lock excludes the other tasks.
\<close>

subsection \<open>Messages\<close>

text \<open>
  A pointer to a message, by the pool it is from, and the message. \<open>'x\<close> is the state of the protocols above the packet
  buffers; the functions in messages work on it and on the memory of lwIP.
\<close>

datatype msg_ptr = Api_msg nat | Inpkt_msg nat

type_synonym 'x netif_input_fn = "ptr option \<Rightarrow> nat \<Rightarrow> pmem \<times> 'x \<Rightarrow> (err_t \<times> (pmem \<times> 'x)) option"
type_synonym 'x tcpip_callback_fn = "nat \<Rightarrow> pmem \<times> 'x \<Rightarrow> (pmem \<times> 'x) option"

datatype 'x tcpip_msg =
    TCPIP_MSG_INPKT "ptr option" nat "'x netif_input_fn"
  | TCPIP_MSG_CALLBACK "'x tcpip_callback_fn" nat
  | TCPIP_MSG_CALLBACK_STATIC "'x tcpip_callback_fn" nat

record ('q, 'x) tcpip =
  lw :: "pmem \<times> 'x"
  msgs :: "msg_ptr \<Rightarrow> 'x tcpip_msg option"
  mbox :: "'q option"
  mstats :: sys_stats

fun msg_pool :: "msg_ptr \<Rightarrow> memp_t" where
  "msg_pool (Api_msg i) = MEMP_TCPIP_MSG_API"
| "msg_pool (Inpkt_msg i) = MEMP_TCPIP_MSG_INPKT"

fun msg_index :: "msg_ptr \<Rightarrow> nat" where
  "msg_index (Api_msg i) = i"
| "msg_index (Inpkt_msg i) = i"

abbreviation set_pools :: "memp_pools \<Rightarrow> ('q, 'x) tcpip \<Rightarrow> ('q, 'x) tcpip" where
  "set_pools ps s \<equiv> s\<lparr>lw := ((fst (lw s))\<lparr>pools := ps\<rparr>, snd (lw s))\<rparr>"

text \<open>\<open>memp_malloc\<close> of a message with its contents, and \<open>memp_free\<close> of one.\<close>

definition new_msg :: "(nat \<Rightarrow> msg_ptr) \<Rightarrow> 'x tcpip_msg \<Rightarrow> ('q, 'x) tcpip \<Rightarrow> msg_ptr option \<times> ('q, 'x) tcpip" where
  "new_msg ptr c s = (let (e, ps) = memp_malloc (msg_pool (ptr 0)) (pools (fst (lw s))); s1 = set_pools ps s
     in case e of None \<Rightarrow> (None, s1) | Some i \<Rightarrow> (Some (ptr i), s1\<lparr>msgs := (msgs s1)(ptr i \<mapsto> c)\<rparr>))"

definition free_msg :: "msg_ptr \<Rightarrow> ('q, 'x) tcpip \<Rightarrow> ('q, 'x) tcpip" where
  "free_msg m s = set_pools (memp_free (msg_pool m) (Some (msg_index m)) (pools (fst (lw s)))) (s\<lparr>msgs := (msgs s)(m := None)\<rparr>)"

definition trypost_msg :: "(msg_ptr, 'q) send_fn \<Rightarrow> msg_ptr \<Rightarrow> ('q, 'x) tcpip \<Rightarrow> (err_t \<times> ('q, 'x) tcpip) option" where
  "trypost_msg send m s = do {
     (err, mbx, st) \<leftarrow> sys_mbox_trypost send (mbox s) m (mstats s);
     if err \<noteq> ERR_OK
     then Some (ERR_MEM, free_msg m (s\<lparr>mbox := mbx, mstats := st\<rparr>))
     else Some (ERR_OK, s\<lparr>mbox := mbx, mstats := st\<rparr>) }"

definition tcpip_inpkt :: "(msg_ptr, 'q) send_fn \<Rightarrow> ptr option \<Rightarrow> nat \<Rightarrow> 'x netif_input_fn \<Rightarrow> ('q, 'x) tcpip \<Rightarrow> (err_t \<times> ('q, 'x) tcpip) option" where
  "tcpip_inpkt send p inp input_fn s = do {
     require (mbox s \<noteq> None);
     let (msg, s1) = new_msg Inpkt_msg (TCPIP_MSG_INPKT p inp input_fn) s;
     case msg of
       None \<Rightarrow> Some (ERR_MEM, s1)
     | Some m \<Rightarrow> trypost_msg send m s1 }"

text \<open>\<open>ethernet_input\<close> and \<open>ip_input\<close> are not modelled; \<open>eth\<close> tells whether the interface has \<^verbatim>\<open>NETIF_FLAG_ETHARP\<close> or \<^verbatim>\<open>NETIF_FLAG_ETHERNET\<close>.\<close>

definition tcpip_input :: "'x netif_input_fn \<Rightarrow> 'x netif_input_fn \<Rightarrow> (nat \<Rightarrow> bool) \<Rightarrow> (msg_ptr, 'q) send_fn \<Rightarrow> ptr option \<Rightarrow> nat \<Rightarrow>
    ('q, 'x) tcpip \<Rightarrow> (err_t \<times> ('q, 'x) tcpip) option" where
  "tcpip_input ethernet_input ip_input eth send p inp s =
     (if eth inp then tcpip_inpkt send p inp ethernet_input s else tcpip_inpkt send p inp ip_input s)"

definition tcpip_callback :: "(msg_ptr, 'q) send_fn \<Rightarrow> 'x tcpip_callback_fn \<Rightarrow> nat \<Rightarrow> ('q, 'x) tcpip \<Rightarrow> (err_t \<times> ('q, 'x) tcpip) option" where
  "tcpip_callback send fn ctx s = do {
     require (mbox s \<noteq> None);
     let (msg, s1) = new_msg Api_msg (TCPIP_MSG_CALLBACK fn ctx) s;
     case msg of
       None \<Rightarrow> Some (ERR_MEM, s1)
     | Some m \<Rightarrow> do {
         mbx \<leftarrow> sys_mbox_post send (mbox s1) m;
         Some (ERR_OK, s1\<lparr>mbox := mbx\<rparr>) } }"

definition tcpip_try_callback :: "(msg_ptr, 'q) send_fn \<Rightarrow> 'x tcpip_callback_fn \<Rightarrow> nat \<Rightarrow> ('q, 'x) tcpip \<Rightarrow> (err_t \<times> ('q, 'x) tcpip) option" where
  "tcpip_try_callback send fn ctx s = do {
     require (mbox s \<noteq> None);
     let (msg, s1) = new_msg Api_msg (TCPIP_MSG_CALLBACK fn ctx) s;
     case msg of
       None \<Rightarrow> Some (ERR_MEM, s1)
     | Some m \<Rightarrow> trypost_msg send m s1 }"

definition tcpip_callbackmsg_new :: "'x tcpip_callback_fn \<Rightarrow> nat \<Rightarrow> ('q, 'x) tcpip \<Rightarrow> msg_ptr option \<times> ('q, 'x) tcpip" where
  "tcpip_callbackmsg_new fn ctx s = new_msg Api_msg (TCPIP_MSG_CALLBACK_STATIC fn ctx) s"

definition tcpip_callbackmsg_delete :: "msg_ptr \<Rightarrow> ('q, 'x) tcpip \<Rightarrow> ('q, 'x) tcpip" where
  "tcpip_callbackmsg_delete m s = free_msg m s"

definition tcpip_callbackmsg_trycallback :: "(msg_ptr, 'q) send_fn \<Rightarrow> msg_ptr \<Rightarrow> ('q, 'x) tcpip \<Rightarrow> (err_t \<times> ('q, 'x) tcpip) option" where
  "tcpip_callbackmsg_trycallback send m s = do {
     require (mbox s \<noteq> None);
     (err, mbx, st) \<leftarrow> sys_mbox_trypost send (mbox s) m (mstats s);
     Some (err, s\<lparr>mbox := mbx, mstats := st\<rparr>) }"

definition tcpip_callbackmsg_trycallback_fromisr ::
    "(msg_ptr \<Rightarrow> 'q \<Rightarrow> bool \<times> bool \<times> 'q) \<Rightarrow> msg_ptr \<Rightarrow> ('q, 'x) tcpip \<Rightarrow> ((err_t + unit) \<times> ('q, 'x) tcpip) option" where
  "tcpip_callbackmsg_trycallback_fromisr isr_send m s = do {
     require (mbox s \<noteq> None);
     (err, mbx, st) \<leftarrow> sys_mbox_trypost_fromisr isr_send (mbox s) m (mstats s);
     Some (err, s\<lparr>mbox := mbx, mstats := st\<rparr>) }"

text \<open>Freeing from an interrupt: the pointers, of a packet buffer and into the heap, as the context of a callback.\<close>

definition pbuf_free_int :: "(nat \<Rightarrow> ptr option) \<Rightarrow> 'x tcpip_callback_fn" where
  "pbuf_free_int decode ctx w = do { (n, m) \<leftarrow> pbuf_free (decode ctx) (fst w); Some (m, snd w) }"

definition pbuf_free_callback :: "(nat \<Rightarrow> ptr option) \<Rightarrow> (msg_ptr, 'q) send_fn \<Rightarrow> nat \<Rightarrow> ('q, 'x) tcpip \<Rightarrow> (err_t \<times> ('q, 'x) tcpip) option" where
  "pbuf_free_callback decode send p s = tcpip_try_callback send (pbuf_free_int decode) p s"

definition mem_free_callback :: "(msg_ptr, 'q) send_fn \<Rightarrow> nat \<Rightarrow> ('q, 'x) tcpip \<Rightarrow> (err_t \<times> ('q, 'x) tcpip) option" where
  "mem_free_callback send m s = tcpip_try_callback send
     (\<lambda>ctx w. do { h \<leftarrow> mem_free (Some (int ctx)) (hp (fst w)); Some ((fst w)\<lparr>hp := h\<rparr>, snd w) }) m s"

subsection \<open>The thread\<close>

text \<open>\<open>None\<close> for a message that is not live.\<close>

definition tcpip_thread_handle_msg :: "msg_ptr \<Rightarrow> ('q, 'x) tcpip \<Rightarrow> ('q, 'x) tcpip option" where
  "tcpip_thread_handle_msg m s = do {
     c \<leftarrow> msgs s m;
     case c of
       TCPIP_MSG_INPKT p inp input_fn \<Rightarrow> do {
         (err, w) \<leftarrow> input_fn p inp (lw s);
         w1 \<leftarrow> (if err \<noteq> ERR_OK then do { (n, pm) \<leftarrow> pbuf_free p (fst w); Some (pm, snd w) } else Some w);
         Some (free_msg m (s\<lparr>lw := w1\<rparr>)) }
     | TCPIP_MSG_CALLBACK fn ctx \<Rightarrow> do {
         w \<leftarrow> fn ctx (lw s);
         Some (free_msg m (s\<lparr>lw := w\<rparr>)) }
     | TCPIP_MSG_CALLBACK_STATIC fn ctx \<Rightarrow> do {
         w \<leftarrow> fn ctx (lw s);
         Some (s\<lparr>lw := w\<rparr>) } }"

text \<open>
  \<open>tcpip_timeouts_mbox_fetch\<close> in two parts. \<open>fetch_again\<close> is what it does with the core lock from \<^verbatim>\<open>again\<close> on: it runs the timers that are due until the
  thread has to wait, and gives the time to wait, 0 for no limit. In the wait the other tasks run. \<open>fetch_done\<close> is the end of the wait: a message, or nothing,
  and then the timers run and the thread goes to \<^verbatim>\<open>again\<close>.
\<close>

partial_function (option) fetch_again :: "work_fn \<Rightarrow> work_fn \<Rightarrow> timeouts \<Rightarrow> (u32 \<times> timeouts) option" where
  "fetch_again work other t = do {
     sleeptime \<leftarrow> sys_timeouts_sleeptime t;
     if sleeptime = 0xffffffff then Some (0, t)
     else if sleeptime = 0 then do { t1 \<leftarrow> sys_check_timeouts work other t; fetch_again work other t1 }
     else Some (sleeptime, t) }"

definition fetch_done :: "(msg_ptr, 'q) receive_fn \<Rightarrow> work_fn \<Rightarrow> work_fn \<Rightarrow> u32 \<Rightarrow> ('q, 'x) tcpip \<Rightarrow> timeouts \<Rightarrow>
    (msg_ptr option \<times> ('q, 'x) tcpip \<times> timeouts) option" where
  "fetch_done receive work other sleeptime s t = do {
     (res, msg, mbx) \<leftarrow> sys_arch_mbox_fetch receive (mbox s) sleeptime;
     let s1 = s\<lparr>mbox := mbx\<rparr>;
     if sleeptime \<noteq> 0 \<and> res = SYS_ARCH_TIMEOUT
     then do { t1 \<leftarrow> sys_check_timeouts work other t; Some (None, s1, t1) }
     else Some (msg, s1, t) }"

text \<open>One turn of the main loop of \<^verbatim>\<open>tcpip_thread\<close> after a wait.\<close>

definition tcpip_thread_turn :: "(msg_ptr, 'q) receive_fn \<Rightarrow> work_fn \<Rightarrow> work_fn \<Rightarrow> u32 \<Rightarrow> ('q, 'x) tcpip \<Rightarrow> timeouts \<Rightarrow>
    (msg_ptr option \<times> ('q, 'x) tcpip \<times> timeouts) option" where
  "tcpip_thread_turn receive work other sleeptime s t = do {
     (msg, s1, t1) \<leftarrow> fetch_done receive work other sleeptime s t;
     case msg of
       None \<Rightarrow> Some (None, s1, t1)
     | Some m \<Rightarrow> do { s2 \<leftarrow> tcpip_thread_handle_msg m s1; Some (msg, s2, t1) } }"

text \<open>The start: \<open>init_core\<close> is \<^verbatim>\<open>lwip_init\<close>, \<open>mutex\<close> and \<open>create\<close> are what FreeRTOS returns for the core lock and the mailbox, \<open>task\<close> whether it creates the thread.\<close>

definition tcpip_init :: "(pmem \<times> 'x) option \<Rightarrow> (int \<Rightarrow> 'q option) \<Rightarrow> 'm option \<Rightarrow> 'h option \<Rightarrow> sys_stats \<Rightarrow>
    (('q, 'x) tcpip \<times> 'm option \<times> 'h) option" where
  "tcpip_init init_core create mutex task st = do {
     w \<leftarrow> init_core;
     (err, mbx, st1) \<leftarrow> sys_mbox_new create 100 st;
     require (err = ERR_OK);
     let (err2, mut, st2) = sys_mutex_new mutex st1;
     require (err2 = ERR_OK);
     h \<leftarrow> task;
     Some (\<lparr>lw = w, msgs = Map.empty, mbox = mbx, mstats = st2\<rparr>, mut, h) }"

text \<open>The first part of \<^verbatim>\<open>tcpip_thread\<close>; \<^verbatim>\<open>tcpip_init_done\<close> may be \<^verbatim>\<open>NULL\<close>.\<close>

definition tcpip_thread_start :: "(nat \<Rightarrow> 'm \<Rightarrow> 'm option) \<Rightarrow> nat \<Rightarrow> ('w \<Rightarrow> 'w option) option \<Rightarrow> 'm core_state \<times> 'w \<Rightarrow> ('m core_state \<times> 'w) option" where
  "tcpip_thread_start mtake me init_done s = do {
     c \<leftarrow> sys_lock_tcpip_core mtake me (sys_mark_tcpip_thread me (fst s));
     w \<leftarrow> (case init_done of None \<Rightarrow> Some (snd s) | Some f \<Rightarrow> f (snd s));
     Some (c, w) }"

text \<open>Calls from other threads with the core lock, over the lock of the port.\<close>

definition tcpip_api_call :: "(nat \<Rightarrow> 'm \<Rightarrow> 'm option) \<Rightarrow> (nat \<Rightarrow> 'm \<Rightarrow> bool \<times> 'm) \<Rightarrow> nat \<Rightarrow> ('w \<Rightarrow> (err_t \<times> 'w) option) \<Rightarrow>
    'm core_state \<times> 'w \<Rightarrow> (err_t \<times> 'm core_state \<times> 'w) option" where
  "tcpip_api_call mtake mgive me fn s = do {
     c1 \<leftarrow> sys_lock_tcpip_core mtake me (fst s);
     (err, w) \<leftarrow> fn (snd s);
     c2 \<leftarrow> sys_unlock_tcpip_core mgive me c1;
     Some (err, c2, w) }"

definition tcpip_send_msg_wait_sem :: "(nat \<Rightarrow> 'm \<Rightarrow> 'm option) \<Rightarrow> (nat \<Rightarrow> 'm \<Rightarrow> bool \<times> 'm) \<Rightarrow> nat \<Rightarrow> ('w \<Rightarrow> 'w option) \<Rightarrow>
    'm core_state \<times> 'w \<Rightarrow> (err_t \<times> 'm core_state \<times> 'w) option" where
  "tcpip_send_msg_wait_sem mtake mgive me fn s = do {
     c1 \<leftarrow> sys_lock_tcpip_core mtake me (fst s);
     w \<leftarrow> fn (snd s);
     c2 \<leftarrow> sys_unlock_tcpip_core mgive me c1;
     Some (ERR_OK, c2, w) }"

subsection \<open>The messages in use\<close>

text \<open>
  \<open>msgs_inv s ds\<close> with \<open>ds\<close> in the mailbox: what is in the mailbox is live, the elements in use are the live
  messages, and a message that is freed after its use is in the mailbox exactly once.
\<close>

fun is_static :: "'x tcpip_msg \<Rightarrow> bool" where
  "is_static (TCPIP_MSG_CALLBACK_STATIC f c) = True"
| "is_static _ = False"

definition in_use :: "(nat \<Rightarrow> msg_ptr) \<Rightarrow> (msg_ptr \<Rightarrow> 'x tcpip_msg option) \<Rightarrow> nat set" where
  "in_use ptr M = {i. ptr i \<in> dom M}"

lemma in_use_upd [simp]:
  "in_use Api_msg (M(Api_msg i \<mapsto> c)) = insert i (in_use Api_msg M)" "in_use Api_msg (M(Inpkt_msg i := x)) = in_use Api_msg M"
  "in_use Inpkt_msg (M(Inpkt_msg i \<mapsto> c)) = insert i (in_use Inpkt_msg M)" "in_use Inpkt_msg (M(Api_msg i := x)) = in_use Inpkt_msg M"
  "in_use Api_msg (M(Api_msg i := None)) = in_use Api_msg M - {i}" "in_use Inpkt_msg (M(Inpkt_msg i := None)) = in_use Inpkt_msg M - {i}"
  by (auto simp: in_use_def)

definition msgs_inv :: "('q, 'x) tcpip \<Rightarrow> msg_ptr list \<Rightarrow> bool" where
  "msgs_inv s ds \<longleftrightarrow> set ds \<subseteq> dom (msgs s) \<and>
     pool_live 16 (pools (fst (lw s)) MEMP_TCPIP_MSG_API) (in_use Api_msg (msgs s)) \<and>
     pool_live 16 (pools (fst (lw s)) MEMP_TCPIP_MSG_INPKT) (in_use Inpkt_msg (msgs s)) \<and>
     (\<forall>m c. msgs s m = Some c \<longrightarrow> \<not> is_static c \<longrightarrow> count_list ds m = 1)"

abbreviation contents :: "('q, 'x) tcpip \<Rightarrow> msg_ptr list \<Rightarrow> 'x tcpip_msg list" where
  "contents s ds \<equiv> map (\<lambda>m. the (msgs s m)) ds"

lemma msgs_invD:
  assumes "msgs_inv s ds"
  shows "set ds \<subseteq> dom (msgs s)" "pool_live 16 (pools (fst (lw s)) (msg_pool (Api_msg 0))) (in_use Api_msg (msgs s))"
    "pool_live 16 (pools (fst (lw s)) (msg_pool (Inpkt_msg 0))) (in_use Inpkt_msg (msgs s))"
    "msgs s m = Some c \<Longrightarrow> \<not> is_static c \<Longrightarrow> count_list ds m = 1"
  using assms by (auto simp: msgs_inv_def)

lemma new_msg_inv:
  assumes I: "msgs_inv s ds" and p: "ptr = Api_msg \<or> ptr = Inpkt_msg"
  obtains (full) s1 where "new_msg ptr c s = (None, s1)" "in_use ptr (msgs s) = {..<16}" "msgs_inv s1 ds" "msgs s1 = msgs s"
      "mbox s1 = mbox s" "mstats s1 = mstats s"
  | (new) m s1 where "new_msg ptr c s = (Some m, s1)" "in_use ptr (msgs s) \<noteq> {..<16}" "m \<notin> dom (msgs s)" "msgs s1 = (msgs s)(m \<mapsto> c)"
      "mbox s1 = mbox s" "mstats s1 = mstats s" "msgs_inv s1 (ds @ [m])" "is_static c \<Longrightarrow> msgs_inv s1 ds"
proof -
  let ?t = "msg_pool (ptr 0)" and ?L = "in_use ptr (msgs s)" and ?ps = "pools (fst (lw s))"
  have L: "pool_live 16 (?ps ?t) ?L" using p msgs_invD(2,3) [OF I] by auto
  obtain e p' where e: "do_memp_malloc_pool (?ps ?t) = (e, p')"
    "case e of None \<Rightarrow> ?L = {..<16} \<and> pool_live 16 p' ?L | Some x \<Rightarrow> x \<notin> ?L \<and> x < 16 \<and> pool_live 16 p' (insert x ?L)"
    using pool_live_alloc [OF L] by blast
  show ?thesis
  proof (cases e)
    case None
    show ?thesis by (rule full [of "set_pools (?ps(?t := p')) s"])
        (use e None I p in \<open>auto simp: new_msg_def memp_malloc_def msgs_inv_def\<close>)
  next
    case (Some i)
    define s1 where "s1 = (set_pools (?ps(?t := p')) s)\<lparr>msgs := (msgs s)(ptr i \<mapsto> c)\<rparr>"
    have i: "ptr i \<notin> dom (msgs s)" "i < 16" "i \<notin> ?L" "pool_live 16 p' (insert i ?L)" using e(2) Some by (auto simp: in_use_def)
    have n: "count_list ds (ptr i) = 0" using i(1) msgs_invD(1) [OF I] by (auto simp: count_list_0_iff)
    have D: "dom (msgs s1) = insert (ptr i) (dom (msgs s))" by (simp add: s1_def)
    have L1: "pool_live 16 (pools (fst (lw s1)) MEMP_TCPIP_MSG_API) (in_use Api_msg (msgs s1))"
      "pool_live 16 (pools (fst (lw s1)) MEMP_TCPIP_MSG_INPKT) (in_use Inpkt_msg (msgs s1))"
      using p i(4) msgs_invD(2,3) [OF I] by (auto simp: s1_def)
    have a: "msgs_inv s1 (ds @ [ptr i])" unfolding msgs_inv_def
      by (intro conjI L1) (use msgs_invD(1,4) [OF I] n D in \<open>auto simp: s1_def\<close>)
    moreover have "is_static c \<Longrightarrow> msgs_inv s1 ds" unfolding msgs_inv_def
      by (intro conjI L1) (use msgs_invD(1,4) [OF I] D in \<open>auto simp: s1_def\<close>)
    moreover have "new_msg ptr c s = (Some (ptr i), s1)" using e Some by (simp add: new_msg_def memp_malloc_def s1_def)
    ultimately show ?thesis using i by (intro new [of "ptr i" s1]) (auto simp: s1_def)
  qed
qed

lemma free_msg_inv:
  assumes I: "msgs_inv s es" and m: "m \<in> dom (msgs s)" "m \<notin> set ds" "\<forall>m'. m' \<noteq> m \<longrightarrow> count_list ds m' = count_list es m'"
  shows "msgs_inv (free_msg m s) ds"
proof -
  have "set ds \<subseteq> set es" using m(2,3) by (metis count_list_0_iff subsetI)
  then have "set ds \<subseteq> dom (msgs s) - {m}" using msgs_invD(1) [OF I] m(2) by blast
  moreover have "pool_live 16 (pools (fst (lw (free_msg m s))) MEMP_TCPIP_MSG_API) (in_use Api_msg (msgs (free_msg m s))) \<and>
    pool_live 16 (pools (fst (lw (free_msg m s))) MEMP_TCPIP_MSG_INPKT) (in_use Inpkt_msg (msgs (free_msg m s)))"
  proof (cases m)
    case (Api_msg i)
    then have "i \<in> in_use Api_msg (msgs s)" using m(1) by (simp add: in_use_def)
    from pool_live_free [OF msgs_invD(2) [OF I] this] show ?thesis using msgs_invD(3) [OF I] Api_msg by (simp add: free_msg_def memp_free_def)
  next
    case (Inpkt_msg i)
    then have "i \<in> in_use Inpkt_msg (msgs s)" using m(1) by (simp add: in_use_def)
    from pool_live_free [OF msgs_invD(3) [OF I] this] show ?thesis using msgs_invD(2) [OF I] Inpkt_msg by (simp add: free_msg_def memp_free_def)
  qed
  moreover have "\<forall>m' c. msgs (free_msg m s) m' = Some c \<longrightarrow> \<not> is_static c \<longrightarrow> count_list ds m' = 1"
    using msgs_invD(4) [OF I] m(3) by (simp add: free_msg_def)
  moreover have "dom (msgs (free_msg m s)) = dom (msgs s) - {m}" by (simp add: free_msg_def)
  ultimately show ?thesis unfolding msgs_inv_def by blast
qed

lemma world_inv:
  assumes "msgs_inv s ds" "pools (fst w) MEMP_TCPIP_MSG_API = pools (fst (lw s)) MEMP_TCPIP_MSG_API"
    and "pools (fst w) MEMP_TCPIP_MSG_INPKT = pools (fst (lw s)) MEMP_TCPIP_MSG_INPKT"
  shows "msgs_inv (s\<lparr>lw := w\<rparr>) ds"
  using assms by (simp add: msgs_inv_def)

text \<open>What handling a message does to the world, apart from its element.\<close>

fun run_msg :: "'x tcpip_msg \<Rightarrow> pmem \<times> 'x \<Rightarrow> (pmem \<times> 'x) option" where
  "run_msg (TCPIP_MSG_INPKT p inp input_fn) w = do {
     (err, w1) \<leftarrow> input_fn p inp w;
     if err \<noteq> ERR_OK then do { (n, pm) \<leftarrow> pbuf_free p (fst w1); Some (pm, snd w1) } else Some w1 }"
| "run_msg (TCPIP_MSG_CALLBACK fn ctx) w = fn ctx w"
| "run_msg (TCPIP_MSG_CALLBACK_STATIC fn ctx) w = fn ctx w"

lemma handle_run:
  "tcpip_thread_handle_msg m s = do { c \<leftarrow> msgs s m; w \<leftarrow> run_msg c (lw s);
     Some (if is_static c then s\<lparr>lw := w\<rparr> else free_msg m (s\<lparr>lw := w\<rparr>)) }"
proof (cases "msgs s m")
  case (Some c)
  then show ?thesis
  proof (cases c)
    case (TCPIP_MSG_INPKT p inp f)
    then show ?thesis using Some by (cases "f p inp (lw s)") (auto simp: tcpip_thread_handle_msg_def)
  qed (simp_all add: tcpip_thread_handle_msg_def)
qed (simp add: tcpip_thread_handle_msg_def)

text \<open>The functions in messages leave the pools of the messages alone.\<close>

definition keeps_msgs :: "pmem \<times> 'x \<Rightarrow> pmem \<times> 'x \<Rightarrow> bool" where
  "keeps_msgs w w' \<longleftrightarrow> pools (fst w') MEMP_TCPIP_MSG_API = pools (fst w) MEMP_TCPIP_MSG_API \<and>
     pools (fst w') MEMP_TCPIP_MSG_INPKT = pools (fst w) MEMP_TCPIP_MSG_INPKT"

fun msg_ok :: "'x tcpip_msg \<Rightarrow> bool" where
  "msg_ok (TCPIP_MSG_INPKT p inp input_fn) = (\<forall>w err w'. input_fn p inp w = Some (err, w') \<longrightarrow> keeps_msgs w w')"
| "msg_ok (TCPIP_MSG_CALLBACK fn ctx) = (\<forall>w w'. fn ctx w = Some w' \<longrightarrow> keeps_msgs w w')"
| "msg_ok (TCPIP_MSG_CALLBACK_STATIC fn ctx) = (\<forall>w w'. fn ctx w = Some w' \<longrightarrow> keeps_msgs w w')"

lemma run_keeps:
  assumes "msg_ok c" "run_msg c w = Some w'"
  shows "keeps_msgs w w'"
proof (cases c)
  case (TCPIP_MSG_INPKT p inp f)
  obtain err w1 where f: "f p inp w = Some (err, w1)" using assms(2) TCPIP_MSG_INPKT by (auto simp: bind_Some_conv)
  have k: "keeps_msgs w w1" using assms(1) f TCPIP_MSG_INPKT by (cases w, cases w1) simp
  show ?thesis
  proof (cases "err = ERR_OK")
    case False
    then obtain n pm where "pbuf_free p (fst w1) = Some (n, pm)" "w' = (pm, snd w1)"
      using assms(2) f TCPIP_MSG_INPKT by (auto simp: bind_Some_conv)
    then show ?thesis using k free_loop_pools [of p 0 "fst w1" "(n, pm)"] by (simp add: keeps_msgs_def pbuf_free_def split: option.splits)
  qed (use assms(2) f k TCPIP_MSG_INPKT in simp)
qed (use assms in \<open>cases w; cases w'; simp\<close>)+

subsection \<open>The mailbox\<close>

text \<open>
  The queue of FreeRTOS: a bounded first-in first-out queue; a send without limit on a queue that is not full
  and a receive from one that is not empty do not wait. A receive from an empty queue gives nothing: after its limit, and without
  one it does not return, which \<open>sys_arch_mbox_fetch\<close> turns into \<open>None\<close>.
\<close>

definition rtos_queue :: "('q \<Rightarrow> 'd list \<Rightarrow> bool) \<Rightarrow> ('q \<Rightarrow> nat) \<Rightarrow> ('d, 'q) send_fn \<Rightarrow> ('d, 'q) receive_fn \<Rightarrow> bool" where
  "rtos_queue qrep qcap send receive \<longleftrightarrow> fifo qrep qcap (\<lambda>d q. Some (send (Some 0) d q)) (\<lambda>q. Some (receive (Some 0) q)) \<and>
     (\<forall>q ds d. qrep q ds \<longrightarrow> length ds < qcap q \<longrightarrow> send None d q = send (Some 0) d q) \<and>
     (\<forall>q ds w. qrep q ds \<longrightarrow> receive w q = receive (Some 0) q)"

definition tcpip_inv :: "('q \<Rightarrow> msg_ptr list \<Rightarrow> bool) \<Rightarrow> ('q \<Rightarrow> nat) \<Rightarrow> ('q, 'x) tcpip \<Rightarrow> msg_ptr list \<Rightarrow> bool" where
  "tcpip_inv qrep qcap s ds \<longleftrightarrow> (\<exists>q. mbox s = Some q \<and> qrep q ds \<and> qcap q = 100) \<and> msgs_inv s ds \<and> (\<forall>c \<in> ran (msgs s). msg_ok c)"

lemma trypost_rep:
  assumes "rtos_queue qrep qcap send receive" "mbox s = Some q" "qrep q ds" "qcap q = 100"
  shows "\<exists>q' st. sys_mbox_trypost send (mbox s) m (mstats s) = Some (if length ds < 100 then ERR_OK else ERR_MEM, Some q', st) \<and>
    qrep q' (if length ds < 100 then ds @ [m] else ds) \<and> qcap q' = 100"
proof -
  have "fifo qrep qcap (\<lambda>d q. Some (send (Some 0) d q)) (\<lambda>q. Some (receive (Some 0) q))" using assms(1) by (simp add: rtos_queue_def)
  from fifo.push_rep [OF this assms(3), of m] assms(2,4) show ?thesis by (auto simp: sys_mbox_trypost_def)
qed

lemma contents_new [simp]: "m \<notin> set ds \<Longrightarrow> map (\<lambda>k. the (((msgs s)(m := x)) k)) ds = contents s ds"
  by (induction ds) auto

lemma trypost_msg_inv:
  assumes Q: "rtos_queue qrep qcap send receive" and q: "mbox s1 = Some q" "qrep q ds" "qcap q = 100"
    and I: "msgs_inv s1 (ds @ [m])" "m \<notin> set ds" "m \<in> dom (msgs s1)" and ok: "\<forall>c \<in> ran (msgs s1). msg_ok c"
  shows "\<exists>err s'. trypost_msg send m s1 = Some (err, s') \<and>
    (if length ds < 100 then err = ERR_OK \<and> tcpip_inv qrep qcap s' (ds @ [m]) \<and> msgs s' = msgs s1
     else err = ERR_MEM \<and> tcpip_inv qrep qcap s' ds \<and> msgs s' = (msgs s1)(m := None))"
proof -
  obtain q' st where q': "sys_mbox_trypost send (mbox s1) m (mstats s1) = Some (if length ds < 100 then ERR_OK else ERR_MEM, Some q', st)"
    "qrep q' (if length ds < 100 then ds @ [m] else ds)" "qcap q' = 100" using trypost_rep [OF Q q] by blast
  let ?s2 = "s1\<lparr>mbox := Some q', mstats := st\<rparr>"
  have I2: "msgs_inv ?s2 (ds @ [m])" using I(1) by (simp add: msgs_inv_def)
  show ?thesis
  proof (cases "length ds < 100")
    case True
    then show ?thesis using q' I2 ok by (simp add: trypost_msg_def tcpip_inv_def)
  next
    case False
    have "msgs_inv (free_msg m ?s2) ds" by (rule free_msg_inv [OF I2]) (use I in auto)
    moreover have "\<forall>c \<in> ran ((msgs s1)(m := None)). msg_ok c" using ok by (auto simp: ran_def)
    ultimately show ?thesis using q' False by (simp add: trypost_msg_def tcpip_inv_def) (simp add: free_msg_def)
  qed
qed

definition post_result :: "('q \<Rightarrow> msg_ptr list \<Rightarrow> bool) \<Rightarrow> ('q \<Rightarrow> nat) \<Rightarrow> bool \<Rightarrow> 'x tcpip_msg \<Rightarrow> ('q, 'x) tcpip \<Rightarrow> msg_ptr list \<Rightarrow> err_t \<Rightarrow> ('q, 'x) tcpip \<Rightarrow> bool" where
  "post_result qrep qcap room c s ds err s' \<longleftrightarrow>
    (if room then err = ERR_OK \<and> (\<exists>m. tcpip_inv qrep qcap s' (ds @ [m]) \<and> contents s' (ds @ [m]) = contents s ds @ [c])
     else err = ERR_MEM \<and> tcpip_inv qrep qcap s' ds \<and> contents s' ds = contents s ds)"

lemma new_posted:
  assumes Q: "rtos_queue qrep qcap send receive" and I: "tcpip_inv qrep qcap s ds"
    and p: "ptr = Api_msg \<or> ptr = Inpkt_msg" and c: "\<not> is_static c" "msg_ok c"
  shows "\<exists>err s'. (case new_msg ptr c s of (msg, s1) \<Rightarrow> case msg of None \<Rightarrow> Some (ERR_MEM, s1) | Some m \<Rightarrow> trypost_msg send m s1) = Some (err, s') \<and>
    post_result qrep qcap (in_use ptr (msgs s) \<noteq> {..<16} \<and> length ds < 100) c s ds err s'"
proof -
  obtain q where q: "mbox s = Some q" "qrep q ds" "qcap q = 100" and M: "msgs_inv s ds" and ok: "\<forall>c \<in> ran (msgs s). msg_ok c"
    using I by (auto simp: tcpip_inv_def)
  show ?thesis
  proof (cases rule: new_msg_inv [OF M p, of c])
    case (1 s1)
    then show ?thesis using q ok by (simp add: post_result_def tcpip_inv_def)
  next
    case (2 m s1)
    have m: "m \<notin> set ds" using 2(3) msgs_invD(1) [OF M] by blast
    have "\<forall>c \<in> ran (msgs s1). msg_ok c" using ok c(2) 2(4) by (auto simp: ran_def)
    from trypost_msg_inv [OF Q _ q(2,3) 2(7) m _ this] obtain err s' where "trypost_msg send m s1 = Some (err, s')"
      "if length ds < 100 then err = ERR_OK \<and> tcpip_inv qrep qcap s' (ds @ [m]) \<and> msgs s' = msgs s1
       else err = ERR_MEM \<and> tcpip_inv qrep qcap s' ds \<and> msgs s' = (msgs s1)(m := None)" using q(1) 2(4,5) by auto
    then show ?thesis using 2 m unfolding post_result_def by (cases "length ds < 100") auto
  qed
qed

lemma inpkt_inv:
  assumes "rtos_queue qrep qcap send receive" "tcpip_inv qrep qcap s ds" "msg_ok (TCPIP_MSG_INPKT p inp f)"
  shows "\<exists>err s'. tcpip_inpkt send p inp f s = Some (err, s') \<and>
    post_result qrep qcap (in_use Inpkt_msg (msgs s) \<noteq> {..<16} \<and> length ds < 100) (TCPIP_MSG_INPKT p inp f) s ds err s'"
proof -
  have "mbox s \<noteq> None" using assms(2) by (auto simp: tcpip_inv_def)
  then show ?thesis using new_posted [OF assms(1,2), of Inpkt_msg "TCPIP_MSG_INPKT p inp f"] assms(3) by (simp add: tcpip_inpkt_def)
qed

lemma try_callback_inv:
  assumes "rtos_queue qrep qcap send receive" "tcpip_inv qrep qcap s ds" "msg_ok (TCPIP_MSG_CALLBACK f ctx)"
  shows "\<exists>err s'. tcpip_try_callback send f ctx s = Some (err, s') \<and>
    post_result qrep qcap (in_use Api_msg (msgs s) \<noteq> {..<16} \<and> length ds < 100) (TCPIP_MSG_CALLBACK f ctx) s ds err s'"
proof -
  have "mbox s \<noteq> None" using assms(2) by (auto simp: tcpip_inv_def)
  then show ?thesis using new_posted [OF assms(1,2), of Api_msg "TCPIP_MSG_CALLBACK f ctx"] assms(3) by (simp add: tcpip_try_callback_def)
qed

text \<open>\<open>tcpip_callback\<close> waits for room in the mailbox: with room it does what \<open>tcpip_try_callback\<close> does.\<close>

lemma callback_same:
  assumes Q: "rtos_queue qrep qcap send receive" and I: "tcpip_inv qrep qcap s ds" and l: "length ds < 100"
  shows "tcpip_callback send f ctx s = tcpip_try_callback send f ctx s"
proof -
  obtain q where q: "mbox s = Some q" "qrep q ds" "qcap q = 100" and M: "msgs_inv s ds" using I by (auto simp: tcpip_inv_def)
  show ?thesis
  proof (cases rule: new_msg_inv [OF M disjI1 [OF refl], of "TCPIP_MSG_CALLBACK f ctx"])
    case (2 m s1)
    have n: "send None m q = send (Some 0) m q" using Q q l by (simp add: rtos_queue_def)
    obtain q' st where "sys_mbox_trypost send (mbox s1) m (mstats s1) = Some (ERR_OK, Some q', st)"
      using trypost_rep [OF Q _ q(2,3), of s1 m] q(1) 2(5) l by auto
    then have "send (Some 0) m q = (True, q')" "st = mstats s1" using q(1) 2(5)
      by (auto simp: sys_mbox_trypost_def split: prod.splits if_splits)
    then show ?thesis using 2 q(1) n
      by (cases s1) (simp add: tcpip_callback_def tcpip_try_callback_def trypost_msg_def sys_mbox_post_def sys_mbox_trypost_def)
  qed (auto simp: tcpip_callback_def tcpip_try_callback_def)
qed

text \<open>Messages allocated once: they are used again and again, and stay.\<close>

lemma callbackmsg_new_inv:
  assumes I: "tcpip_inv qrep qcap s ds" and c: "msg_ok (TCPIP_MSG_CALLBACK_STATIC f ctx)"
    and e: "tcpip_callbackmsg_new f ctx s = (msg, s')"
  shows "tcpip_inv qrep qcap s' ds \<and> contents s' ds = contents s ds"
proof -
  obtain q where q: "mbox s = Some q" "qrep q ds" "qcap q = 100" and M: "msgs_inv s ds" and ok: "\<forall>c \<in> ran (msgs s). msg_ok c"
    using I by (auto simp: tcpip_inv_def)
  show ?thesis
  proof (cases rule: new_msg_inv [OF M disjI1 [OF refl], of "TCPIP_MSG_CALLBACK_STATIC f ctx"])
    case (2 m s1)
    have "m \<notin> set ds" using 2(3) msgs_invD(1) [OF M] by blast
    moreover have "\<forall>c \<in> ran (msgs s1). msg_ok c" using ok c 2(4) by (auto simp: ran_def)
    ultimately show ?thesis using 2 e q by (auto simp: tcpip_callbackmsg_new_def tcpip_inv_def)
  qed (use e q ok in \<open>auto simp: tcpip_callbackmsg_new_def tcpip_inv_def\<close>)
qed

lemma trycallback_inv:
  assumes Q: "rtos_queue qrep qcap send receive" and I: "tcpip_inv qrep qcap s ds" and m: "msgs s m = Some c" "is_static c"
  shows "\<exists>err s'. tcpip_callbackmsg_trycallback send m s = Some (err, s') \<and> post_result qrep qcap (length ds < 100) c s ds err s'"
proof -
  obtain q where q: "mbox s = Some q" "qrep q ds" "qcap q = 100" and M: "msgs_inv s ds" using I by (auto simp: tcpip_inv_def)
  obtain q' st where q': "sys_mbox_trypost send (mbox s) m (mstats s) = Some (if length ds < 100 then ERR_OK else ERR_MEM, Some q', st)"
    "qrep q' (if length ds < 100 then ds @ [m] else ds)" "qcap q' = 100" using trypost_rep [OF Q q] by blast
  let ?s = "s\<lparr>mbox := Some q', mstats := st\<rparr>"
  have "msgs_inv ?s ds" using M by (simp add: msgs_inv_def)
  moreover have "msgs_inv ?s (ds @ [m])" using M m by (auto simp: msgs_inv_def)
  ultimately have "tcpip_inv qrep qcap ?s (if length ds < 100 then ds @ [m] else ds)" using q' I by (simp add: tcpip_inv_def)
  then show ?thesis using q q' m(1) by (simp add: tcpip_callbackmsg_trycallback_def post_result_def) auto
qed

lemma delete_inv:
  assumes I: "tcpip_inv qrep qcap s ds" and m: "m \<in> dom (msgs s)" "m \<notin> set ds"
  shows "tcpip_inv qrep qcap (tcpip_callbackmsg_delete m s) ds \<and> contents (tcpip_callbackmsg_delete m s) ds = contents s ds"
proof -
  have "msgs_inv (free_msg m s) ds" by (rule free_msg_inv [of s ds]) (use I m in \<open>auto simp: tcpip_inv_def\<close>)
  moreover have "\<forall>c \<in> ran ((msgs s)(m := None)). msg_ok c" using I by (auto simp: tcpip_inv_def ran_def)
  ultimately show ?thesis using I m(2) by (simp add: tcpip_inv_def tcpip_callbackmsg_delete_def) (simp add: free_msg_def)
qed

text \<open>The end of a wait and the work on the message.\<close>

lemma fetch_rep:
  assumes Q: "rtos_queue qrep qcap send receive" and q: "mbox s = Some q" "qrep q ds" "qcap q = 100" and w: "ds \<noteq> [] \<or> sl \<noteq> 0"
  shows "\<exists>q'. sys_arch_mbox_fetch receive (mbox s) sl =
      Some (if ds = [] then SYS_ARCH_TIMEOUT else 1, if ds = [] then None else Some (hd ds), Some q') \<and> qrep q' (tl ds) \<and> qcap q' = 100"
proof -
  have "fifo qrep qcap (\<lambda>d q. Some (send (Some 0) d q)) (\<lambda>q. Some (receive (Some 0) q))" using Q by (simp add: rtos_queue_def)
  from fifo.pop_rep [OF this q(2)] q(3) obtain q' where
    q': "receive (Some 0) q = (if ds = [] then None else Some (hd ds), q')" "qrep q' (tl ds)" "qcap q' = 100" by auto
  have "receive v q = receive (Some 0) q" for v using Q q(2) unfolding rtos_queue_def by blast
  then show ?thesis using q(1) q' w by (auto simp: sys_arch_mbox_fetch_def)
qed

lemma fetch_forever:
  assumes Q: "rtos_queue qrep qcap send receive" and I: "tcpip_inv qrep qcap s []"
  shows "sys_arch_mbox_fetch receive (mbox s) 0 = None"
proof -
  obtain q where q: "mbox s = Some q" "qrep q []" using I by (auto simp: tcpip_inv_def)
  have f: "fifo qrep qcap (\<lambda>d q. Some (send (Some 0) d q)) (\<lambda>q. Some (receive (Some 0) q))" and r: "receive None q = receive (Some 0) q"
    using Q q(2) by (auto simp: rtos_queue_def)
  from fifo.pop_rep [OF f q(2)] show ?thesis using q(1) r by (auto simp: sys_arch_mbox_fetch_def)
qed

lemma turn_message:
  assumes Q: "rtos_queue qrep qcap send receive" and I: "tcpip_inv qrep qcap s (m # ds)"
  shows "case run_msg (the (msgs s m)) (lw s) of
     None \<Rightarrow> tcpip_thread_turn receive work other sl s t = None
   | Some w \<Rightarrow> \<exists>s'. tcpip_thread_turn receive work other sl s t = Some (Some m, s', t) \<and> tcpip_inv qrep qcap s' ds \<and>
       contents s' ds = contents s ds \<and> (fst (lw s'))\<lparr>pools := pools (fst w)\<rparr> = fst w \<and> snd (lw s') = snd w"
proof -
  obtain q where q: "mbox s = Some q" "qrep q (m # ds)" "qcap q = 100" and M: "msgs_inv s (m # ds)" and ok: "\<forall>c \<in> ran (msgs s). msg_ok c"
    using I by (auto simp: tcpip_inv_def)
  obtain q' where f: "sys_arch_mbox_fetch receive (mbox s) sl = Some (1, Some m, Some q')" "qrep q' ds" "qcap q' = 100"
    using fetch_rep [OF Q q, of sl] by auto
  obtain c where c: "msgs s m = Some c" using msgs_invD(1) [OF M] by auto
  have k: "msg_ok c" using ok c by (auto simp: ran_def)
  let ?s1 = "s\<lparr>mbox := Some q'\<rparr>"
  have t: "tcpip_thread_turn receive work other sl s t = do { s2 \<leftarrow> tcpip_thread_handle_msg m ?s1; Some (Some m, s2, t) }"
    using f(1) by (simp add: tcpip_thread_turn_def fetch_done_def)
  show ?thesis
  proof (cases "run_msg c (lw s)")
    case None
    then show ?thesis using t c by (simp add: handle_run)
  next
    case (Some w)
    let ?s2 = "?s1\<lparr>lw := w\<rparr>"
    have "msgs_inv ?s1 (m # ds)" using M by (simp add: msgs_inv_def)
    then have M2: "msgs_inv ?s2 (m # ds)" using run_keeps [OF k Some] by (intro world_inv) (simp_all add: keeps_msgs_def)
    show ?thesis
    proof (cases "is_static c")
      case True
      have "\<forall>m' c'. msgs s m' = Some c' \<longrightarrow> \<not> is_static c' \<longrightarrow> count_list ds m' = 1"
      proof (intro allI impI)
        fix m' c'
        assume "msgs s m' = Some c'" "\<not> is_static c'"
        moreover from this have "m' \<noteq> m" using True c by auto
        ultimately show "count_list ds m' = 1" using msgs_invD(4) [OF M, of m' c'] by simp
      qed
      then have "msgs_inv ?s2 ds" using M2 by (auto simp: msgs_inv_def)
      then have "tcpip_inv qrep qcap ?s2 ds" using f ok by (simp add: tcpip_inv_def)
      then show ?thesis using t c Some True by (simp add: handle_run)
    next
      case False
      have d: "m \<notin> set ds" using msgs_invD(4) [OF M c False] by (simp add: count_list_0_iff)
      have "msgs_inv (free_msg m ?s2) ds" by (rule free_msg_inv [OF M2]) (use c d in auto)
      moreover have "\<forall>c \<in> ran ((msgs s)(m := None)). msg_ok c" using ok by (auto simp: ran_def)
      ultimately have "tcpip_inv qrep qcap (free_msg m ?s2) ds" using f by (simp add: tcpip_inv_def) (simp add: free_msg_def)
      moreover have "contents (free_msg m ?s2) ds = contents s ds" using d by (simp add: free_msg_def)
      ultimately show ?thesis using t c Some False by (simp add: handle_run) (simp add: free_msg_def)
    qed
  qed
qed

lemma turn_timeout:
  assumes Q: "rtos_queue qrep qcap send receive" and I: "tcpip_inv qrep qcap s []" and sl: "sl \<noteq> 0"
  shows "\<exists>s'. tcpip_thread_turn receive work other sl s t = do { t1 \<leftarrow> sys_check_timeouts work other t; Some (None, s', t1) } \<and>
    tcpip_inv qrep qcap s' [] \<and> lw s' = lw s"
proof -
  obtain q where q: "mbox s = Some q" "qrep q []" "qcap q = 100" using I by (auto simp: tcpip_inv_def)
  obtain q' where f: "sys_arch_mbox_fetch receive (mbox s) sl = Some (SYS_ARCH_TIMEOUT, None, Some q')" "qrep q' []" "qcap q' = 100"
    using fetch_rep [OF Q q, of sl] sl by auto
  let ?s = "s\<lparr>mbox := Some q'\<rparr>"
  have "tcpip_inv qrep qcap ?s []" using I f by (simp add: tcpip_inv_def msgs_inv_def)
  moreover have "tcpip_thread_turn receive work other sl s t = do { t1 \<leftarrow> sys_check_timeouts work other t; Some (None, ?s, t1) }"
    using f(1) sl by (cases "sys_check_timeouts work other t") (simp_all add: tcpip_thread_turn_def fetch_done_def)
  ultimately show ?thesis by (intro exI [of _ ?s]) simp
qed

subsection \<open>The thread in operation\<close>

text \<open>
  Posts by any tasks, turns of the thread, and other tasks that work with the core lock, in any order. \<open>acc\<close> are the
  messages accepted, \<open>han\<close> those handled, in order.
\<close>

inductive tcpip_run :: "('q \<Rightarrow> msg_ptr list \<Rightarrow> bool) \<Rightarrow> ('q \<Rightarrow> nat) \<Rightarrow> (msg_ptr, 'q) send_fn \<Rightarrow> (msg_ptr, 'q) receive_fn \<Rightarrow>
    ('q, 'x) tcpip \<Rightarrow> 'x tcpip_msg list \<Rightarrow> 'x tcpip_msg list \<Rightarrow> bool"
  for qrep qcap send receive where
  start: "tcpip_run qrep qcap send receive s [] []"
    if "tcpip_init (Some w) create (mutex :: unit option) (task :: unit option) st = Some (s, mut, h)" "create 100 = Some q" "qrep q []" "qcap q = 100"
      "pool_live 16 (pools (fst w) MEMP_TCPIP_MSG_API) {}" "pool_live 16 (pools (fst w) MEMP_TCPIP_MSG_INPKT) {}"
| input: "tcpip_run qrep qcap send receive s' (if err = ERR_OK then acc @ [TCPIP_MSG_INPKT p inp f] else acc) han"
    if "tcpip_run qrep qcap send receive s acc han" "msg_ok (TCPIP_MSG_INPKT p inp f)" "tcpip_inpkt send p inp f s = Some (err, s')"
| callback: "tcpip_run qrep qcap send receive s' (if err = ERR_OK then acc @ [TCPIP_MSG_CALLBACK f ctx] else acc) han"
    if "tcpip_run qrep qcap send receive s acc han" "msg_ok (TCPIP_MSG_CALLBACK f ctx)" "tcpip_try_callback send f ctx s = Some (err, s')"
| create: "tcpip_run qrep qcap send receive s' acc han"
    if "tcpip_run qrep qcap send receive s acc han" "msg_ok (TCPIP_MSG_CALLBACK_STATIC f ctx)" "tcpip_callbackmsg_new f ctx s = (msg, s')"
| trigger: "tcpip_run qrep qcap send receive s' (if err = ERR_OK then acc @ [c] else acc) han"
    if "tcpip_run qrep qcap send receive s acc han" "msgs s m = Some c" "is_static c" "tcpip_callbackmsg_trycallback send m s = Some (err, s')"
| delete: "tcpip_run qrep qcap send receive (tcpip_callbackmsg_delete m s) acc han"
    if "tcpip_run qrep qcap send receive s acc han" "m \<in> dom (msgs s)" "\<And>q ds. mbox s = Some q \<Longrightarrow> qrep q ds \<Longrightarrow> m \<notin> set ds"
| others: "tcpip_run qrep qcap send receive (s\<lparr>lw := w\<rparr>) acc han"
    if "tcpip_run qrep qcap send receive s acc han" "keeps_msgs (lw s) w"
| turn: "tcpip_run qrep qcap send receive s' acc (case r of None \<Rightarrow> han | Some m \<Rightarrow> han @ [the (msgs s m)])"
    if "tcpip_run qrep qcap send receive s acc han" "tcpip_thread_turn receive work other sl s t = Some (r, s', t')"

lemma post_result_acc:
  assumes "post_result qrep qcap room c s ds err s'" "acc = han @ contents s ds"
  shows "\<exists>ds'. tcpip_inv qrep qcap s' ds' \<and> (if err = ERR_OK then acc @ [c] else acc) = han @ contents s' ds'"
  using assms by (auto simp: post_result_def split: if_splits)

lemma init_inv:
  assumes "tcpip_init (Some w) create mutex task st = Some (s, mut, h)" "create 100 = Some q" "qrep q []" "qcap q = 100"
    and "pool_live 16 (pools (fst w) MEMP_TCPIP_MSG_API) {}" "pool_live 16 (pools (fst w) MEMP_TCPIP_MSG_INPKT) {}"
  shows "tcpip_inv qrep qcap s []"
  using assms by (auto simp: tcpip_init_def sys_mbox_new_def bind_Some_conv tcpip_inv_def msgs_inv_def in_use_def split: prod.splits)

lemma tcpip_run_inv:
  assumes Q: "rtos_queue qrep qcap send receive" and "tcpip_run qrep qcap send receive s acc han"
  shows "\<exists>ds. tcpip_inv qrep qcap s ds \<and> acc = han @ contents s ds"
  using assms(2)
proof (induction rule: tcpip_run.induct)
  case (start w create mutex task st s mut h q)
  then show ?case using init_inv [of w create mutex task st s mut h q qrep qcap] by auto
next
  case (input s acc han p inp f err s')
  then obtain ds where "tcpip_inv qrep qcap s ds" "acc = han @ contents s ds" by blast
  then show ?case using inpkt_inv [OF Q _ input(2)] input(3) post_result_acc by fastforce
next
  case (callback s acc han f ctx err s')
  then obtain ds where "tcpip_inv qrep qcap s ds" "acc = han @ contents s ds" by blast
  then show ?case using try_callback_inv [OF Q _ callback(2)] callback(3) post_result_acc by fastforce
next
  case (create s acc han f ctx msg s')
  then obtain ds where "tcpip_inv qrep qcap s ds" "acc = han @ contents s ds" by blast
  then show ?case using callbackmsg_new_inv [OF _ create(2,3), of qrep qcap ds] by auto
next
  case (trigger s acc han m c err s')
  then obtain ds where "tcpip_inv qrep qcap s ds" "acc = han @ contents s ds" by blast
  then show ?case using trycallback_inv [OF Q _ trigger(2,3)] trigger(4) post_result_acc by fastforce
next
  case (delete s acc han m)
  then obtain ds where d: "tcpip_inv qrep qcap s ds" "acc = han @ contents s ds" by blast
  then have "m \<notin> set ds" using delete(3) by (auto simp: tcpip_inv_def)
  from delete_inv [OF d(1) delete(2) this] d show ?case by auto
next
  case (others s acc han w)
  then obtain ds where d: "tcpip_inv qrep qcap s ds" "acc = han @ contents s ds" by blast
  then have "msgs_inv (s\<lparr>lw := w\<rparr>) ds" using others(2) by (intro world_inv) (auto simp: tcpip_inv_def keeps_msgs_def)
  then show ?case using d by (intro exI [of _ ds]) (simp add: tcpip_inv_def)
next
  case (turn s acc han work other sl t r s' t')
  then obtain ds where d: "tcpip_inv qrep qcap s ds" "acc = han @ contents s ds" by blast
  show ?case
  proof (cases ds)
    case Nil
    have "sl \<noteq> 0" using turn(2) fetch_forever [OF Q, of s] Nil d(1) by (auto simp: tcpip_thread_turn_def fetch_done_def)
    from turn_timeout [OF Q _ this, of s work other t] d Nil obtain s1 where
      s1: "tcpip_thread_turn receive work other sl s t = do { t1 \<leftarrow> sys_check_timeouts work other t; Some (None, s1, t1) }"
      "tcpip_inv qrep qcap s1 []" by blast
    have "r = None" "s' = s1" using turn(2) unfolding s1(1) by (auto simp: bind_Some_conv)
    then show ?thesis using s1(2) d Nil by auto
  next
    case (Cons m ds')
    from turn_message [OF Q d(1) [unfolded Cons], of work other sl t] turn(2) d Cons show ?thesis by (auto split: option.splits)
  qed
qed

subsection \<open>Waiting\<close>

lemma complete_nonempty:
  assumes "timers_complete s es"
  shows "es \<noteq> []"
proof -
  have "10 \<le> size (handlers es)" using assms unfolding timers_complete_def by simp
  then show ?thesis by auto
qed

lemma fetch_again_waits:
  assumes w: "work_ok B C work" and C: "C + 60000 < 2 ^ 31" and J: "on_time B C t es"
  shows "\<exists>sl t' e es'. fetch_again work other t = Some (sl, t') \<and> on_time B C t' (e # es') \<and> sl \<noteq> 0 \<and>
    off B (due e) = off B (clock t') + unat sl"
  using J
proof (induction "2 * (C - off B (clock t)) + (if \<exists>e \<in> set es. off B (due e) \<le> off B (clock t) then 1 else 0)"
    arbitrary: t es rule: less_induct)
  case less
  have r: "timer_rep B t es" and c: "off B (clock t) \<le> C" using less.prems by (auto simp: on_time_def)
  obtain e es' where es: "es = e # es'" using complete_nonempty [of t es] less.prems by (cases es) (auto simp: on_time_def)
  obtain d where d: "sys_timeouts_sleeptime t = Some d" "unat d = off B (due e) - off B (clock t)"
    using sleeptime_rep [OF r] c C es by auto
  have "off B (due e) < 2 ^ 31" using timer_repD(6) [OF r] es by simp
  then have "unat d \<noteq> unat (0xffffffff :: u32)" using d(2) by simp
  then have n: "d \<noteq> 0xffffffff" by blast
  show ?case
  proof (cases "d = 0")
    case False
    then have "unat d \<noteq> 0" by (simp add: unat_eq_0)
    then have "off B (due e) = off B (clock t) + unat d" using d(2) by simp
    moreover have "fetch_again work other t = Some (d, t)" using False n d(1) by (subst fetch_again.simps) simp
    ultimately show ?thesis using False less.prems es by blast
  next
    case True
    then have le: "off B (due e) \<le> off B (clock t)" using d(2) by simp
    obtain t1 es1 where t1: "check_loop work other (clock t) t = Some t1" "on_time B C t1 es1" "off B (clock t) \<le> off B (clock t1)"
      "\<forall>e \<in> set es1. off B (clock t) < off B (due e)" using check_loop_returns [OF less.prems w C order.refl] by blast
    have c1: "off B (clock t1) \<le> C" using t1(2) by (simp add: on_time_def)
    have "2 * (C - off B (clock t1)) + (if \<exists>e \<in> set es1. off B (due e) \<le> off B (clock t1) then 1 else 0)
        < 2 * (C - off B (clock t)) + (1 :: nat)"
      using t1(3,4) c1 by (cases "off B (clock t1) = off B (clock t)") (auto simp: not_le)
    moreover have "\<exists>e \<in> set es. off B (due e) \<le> off B (clock t)" using le es by auto
    ultimately have "\<exists>sl t' e es'. fetch_again work other t1 = Some (sl, t') \<and> on_time B C t' (e # es') \<and> sl \<noteq> 0 \<and>
      off B (due e) = off B (clock t') + unat sl" by (intro less.hyps [OF _ t1(2)]) simp
    then show ?thesis using d(1) True t1(1) by (subst fetch_again.simps) (simp add: sys_check_timeouts_def)
  qed
qed


text \<open>
  C26: the thread waits for messages only when no timer is due, and never longer than until the first one is. From every state the timers can
  reach \<open>fetch_again\<close> ends, whatever time the timers take before the limit \<open>C\<close>; the wait that follows is limited, because the cyclic
  timers are always there, and its limit is exactly the time from now to the earliest due time.
\<close>

theorem tcpip_fetch_waits:
  assumes "timer_run C B t" "C + 60000 < 2 ^ 31" "work_ok B C work"
  shows "\<exists>sl t' es. fetch_again work other t = Some (sl, t') \<and> timer_rep B t' es \<and> timers_complete t' es \<and> sl \<noteq> 0 \<and>
    (\<forall>e \<in> set es. off B (clock t') + unat sl \<le> off B (due e)) \<and> (\<exists>e \<in> set es. off B (clock t') + unat sl = off B (due e))"
proof -
  obtain es0 where "on_time B C t es0" using timer_run_on_time [OF assms(1,2)] by blast
  from fetch_again_waits [OF assms(3,2) this, of other] obtain sl t' e es where
    f: "fetch_again work other t = Some (sl, t')" "on_time B C t' (e # es)" "sl \<noteq> 0" "off B (due e) = off B (clock t') + unat sl" by blast
  have "\<forall>g \<in> set (e # es). off B (due e) \<le> off B (due g)" using f(2) timer_repD(5) [of B t' "e # es"] by (auto simp: on_time_def)
  then show ?thesis using f by (intro exI [of _ sl] exI [of _ t'] exI [of _ "e # es"]) (auto simp: on_time_def)
qed

theorem tcpip_fetch_waits_witness:
  "\<exists>t sl t' es. sys_timeouts_init boot_timers = Some t \<and> fetch_again (\<lambda>_. Some) (\<lambda>_. Some) t = Some (sl, t') \<and> sl \<noteq> 0 \<and>
     timer_rep 0xfffffff0 t' es \<and> timers_complete t' es"
proof -
  have c: "clock boot_timers = 0xfffffff0" by (simp add: boot_timers_def)
  obtain t where t: "sys_timeouts_init boot_timers = Some t"
    using init_on_time [of boot_timers 1000] initial_rep [of boot_timers] by (auto simp: boot_timers_def)
  have r: "timer_run 1000 (clock boot_timers) t" by (rule timer_run.start [OF _ _ _ _ t]) (simp_all add: boot_timers_def)
  have "work_ok (clock boot_timers) 1000 (\<lambda>_. Some)" by (simp add: work_ok_def)
  from tcpip_fetch_waits [OF r _ this, of "\<lambda>_. Some"] t show ?thesis unfolding c by auto
qed

definition list_send :: "('d, 'd list) send_fn" where
  "list_send w d q = (if length q < 100 then (True, q @ [d]) else (False, q))"

definition list_receive :: "('d, 'd list) receive_fn" where
  "list_receive w q = (case q of [] \<Rightarrow> (None, q) | d # q' \<Rightarrow> (Some d, q'))"

lemma list_queue: "rtos_queue (=) (\<lambda>_. 100) list_send list_receive"
proof -
  have "fifo (=) (\<lambda>_. 100) (\<lambda>d q. Some (list_send (Some 0) d q)) (\<lambda>q. Some (list_receive (Some 0) q))"
    by unfold_locales (auto simp: list_send_def list_receive_def split: list.splits)
  then show ?thesis by (simp add: rtos_queue_def list_send_def list_receive_def)
qed


end
