(* ===== verification/Echo_Apps.thy ===== *)
theory Echo_Apps
  imports Pbuf_Chain Nabto_Tcp
begin

text \<open>
  The echo servers the integration test talks to, \<^verbatim>\<open>lwip-contrib/apps/tcpecho_raw/tcpecho_raw.c\<close> and
  \<^verbatim>\<open>lwip-contrib/apps/udpecho_raw/udpecho_raw.c\<close>, on the packet buffers. TCP is a parameter: the record \<open>tcp_fns\<close> on the state \<open>'n\<close> of a connection.
  The state of a server connection has the memory, the object \<open>es\<close> (\<open>None\<close> when it is freed; the memory of the object itself is not kept), what was given to \<^verbatim>\<open>tcp_write\<close> and
  accepted, and whether \<^verbatim>\<open>tcp_close\<close> or \<^verbatim>\<open>tcp_abort\<close> was called.
\<close>

record 'n tcp_fns =
  tf_sndbuf :: "'n \<Rightarrow> u16"
  tf_write :: "bytes \<Rightarrow> 'n \<Rightarrow> err_t \<times> 'n"
  tf_recved :: "u16 \<Rightarrow> 'n \<Rightarrow> 'n"

datatype tcpecho_raw_states = ES_NONE | ES_ACCEPTED | ES_RECEIVED | ES_CLOSING

record tcpecho_raw_state =
  es_state :: tcpecho_raw_states
  es_retries :: u8
  es_p :: "ptr option"

record 'n echo =
  e_mem :: pmem
  e_pcb :: 'n
  e_es :: "tcpecho_raw_state option"
  e_written :: bytes
  e_closed :: bool
  e_aborted :: bool

subsection \<open>TCP\<close>

definition tcpecho_raw_free :: "'n echo \<Rightarrow> 'n echo option" where
  "tcpecho_raw_free s = (case e_es s of
     None \<Rightarrow> Some s
   | Some es \<Rightarrow> do {
       m \<leftarrow> (case es_p es of None \<Rightarrow> Some (e_mem s) | Some x \<Rightarrow> do { (n, m) \<leftarrow> pbuf_free (Some x) (e_mem s); Some m });
       Some (s\<lparr>e_mem := m, e_es := None\<rparr>) })"

definition tcpecho_raw_close :: "'n echo \<Rightarrow> 'n echo option" where
  "tcpecho_raw_close s = do { s1 \<leftarrow> tcpecho_raw_free s; Some (s1\<lparr>e_closed := True\<rparr>) }"

partial_function (option) send_loop :: "'n tcp_fns \<Rightarrow> err_t \<Rightarrow> tcpecho_raw_state \<Rightarrow> 'n echo \<Rightarrow> (tcpecho_raw_state \<times> 'n echo) option" where
  "send_loop T wr_err es s = (case es_p es of
     None \<Rightarrow> Some (es, s)
   | Some ptr \<Rightarrow>
       if wr_err \<noteq> ERR_OK then Some (es, s)
       else do {
         b \<leftarrow> pb (e_mem s) ptr;
         if pb_len b > tf_sndbuf T (e_pcb s) then Some (es, s)
         else do {
           bs \<leftarrow> rd (e_mem s) (payload b) (unat (pb_len b));
           let (err, n1) = tf_write T bs (e_pcb s);
           if err = ERR_OK
           then do {
             m1 \<leftarrow> (if pb_next b \<noteq> None then pbuf_ref (pb_next b) (e_mem s) else Some (e_mem s));
             (k, m2) \<leftarrow> pbuf_free (Some ptr) m1;
             send_loop T err (es\<lparr>es_p := pb_next b\<rparr>)
               (s\<lparr>e_mem := m2, e_pcb := tf_recved T (pb_len b) n1, e_written := e_written s @ bs\<rparr>) }
           else send_loop T err (es\<lparr>es_p := Some ptr\<rparr>) (s\<lparr>e_pcb := n1\<rparr>) } })"

definition tcpecho_raw_send :: "'n tcp_fns \<Rightarrow> 'n echo \<Rightarrow> 'n echo option" where
  "tcpecho_raw_send T s = do {
     es \<leftarrow> e_es s;
     (es1, s1) \<leftarrow> send_loop T ERR_OK es s;
     Some (s1\<lparr>e_es := Some es1\<rparr>) }"

definition tcpecho_raw_error :: "'n echo \<Rightarrow> 'n echo option" where
  "tcpecho_raw_error s = tcpecho_raw_free s"

definition tcpecho_raw_poll :: "'n tcp_fns \<Rightarrow> 'n echo \<Rightarrow> (err_t \<times> 'n echo) option" where
  "tcpecho_raw_poll T s = (case e_es s of
     None \<Rightarrow> Some (ERR_ABRT, s\<lparr>e_aborted := True\<rparr>)
   | Some es \<Rightarrow> do {
       s1 \<leftarrow> (if es_p es \<noteq> None then tcpecho_raw_send T s
              else if es_state es = ES_CLOSING then tcpecho_raw_close s else Some s);
       Some (ERR_OK, s1) })"

definition tcpecho_raw_sent :: "'n tcp_fns \<Rightarrow> 'n echo \<Rightarrow> (err_t \<times> 'n echo) option" where
  "tcpecho_raw_sent T s = do {
     es \<leftarrow> e_es s;
     let s0 = s\<lparr>e_es := Some (es\<lparr>es_retries := 0\<rparr>)\<rparr>;
     s1 \<leftarrow> (if es_p es \<noteq> None then tcpecho_raw_send T s0
            else if es_state es = ES_CLOSING then tcpecho_raw_close s0 else Some s0);
     Some (ERR_OK, s1) }"

definition tcpecho_raw_recv :: "'n tcp_fns \<Rightarrow> ptr option \<Rightarrow> err_t \<Rightarrow> 'n echo \<Rightarrow> (err_t \<times> 'n echo) option" where
  "tcpecho_raw_recv T p err s = do {
     es \<leftarrow> e_es s;
     case p of
       None \<Rightarrow> do {
         let s0 = s\<lparr>e_es := Some (es\<lparr>es_state := ES_CLOSING\<rparr>)\<rparr>;
         s1 \<leftarrow> (if es_p es = None then tcpecho_raw_close s0 else tcpecho_raw_send T s0);
         Some (ERR_OK, s1) }
     | Some x \<Rightarrow>
         if err \<noteq> ERR_OK then do { (k, m) \<leftarrow> pbuf_free p (e_mem s); Some (err, s\<lparr>e_mem := m\<rparr>) }
         else if es_state es = ES_ACCEPTED then do {
           s1 \<leftarrow> tcpecho_raw_send T (s\<lparr>e_es := Some (es\<lparr>es_state := ES_RECEIVED, es_p := p\<rparr>)\<rparr>);
           Some (ERR_OK, s1) }
         else if es_state es = ES_RECEIVED then
           (if es_p es = None then do {
              s1 \<leftarrow> tcpecho_raw_send T (s\<lparr>e_es := Some (es\<lparr>es_p := p\<rparr>)\<rparr>);
              Some (ERR_OK, s1) }
            else do { m \<leftarrow> pbuf_cat (es_p es) p (e_mem s); Some (ERR_OK, s\<lparr>e_mem := m\<rparr>) })
         else do {
           b \<leftarrow> pb (e_mem s) x;
           (k, m) \<leftarrow> pbuf_free p (e_mem s);
           Some (ERR_OK, s\<lparr>e_mem := m, e_pcb := tf_recved T (tot_len b) (e_pcb s)\<rparr>) } }"

text \<open>\<open>ok\<close>: whether \<^verbatim>\<open>mem_malloc\<close> returns an object.\<close>

definition tcpecho_raw_accept :: "bool \<Rightarrow> err_t \<Rightarrow> 'n option \<Rightarrow> pmem \<Rightarrow> err_t \<times> 'n echo option" where
  "tcpecho_raw_accept ok err newpcb m = (case newpcb of
     None \<Rightarrow> (ERR_VAL, None)
   | Some n \<Rightarrow>
       if err \<noteq> ERR_OK then (ERR_VAL, None)
       else if ok then (ERR_OK, Some \<lparr>e_mem = m, e_pcb = n,
         e_es = Some \<lparr>es_state = ES_ACCEPTED, es_retries = 0, es_p = None\<rparr>, e_written = [], e_closed = False, e_aborted = False\<rparr>)
       else (ERR_MEM, None))"

subsection \<open>UDP\<close>

definition udpecho_raw_recv :: "sendto_fn \<Rightarrow> ptr option \<Rightarrow> ip_addr \<Rightarrow> u16 \<Rightarrow> pmem \<Rightarrow> pmem option" where
  "udpecho_raw_recv sendto p addr port m = (case p of
     None \<Rightarrow> Some m
   | Some x \<Rightarrow> do {
       (err, m1) \<leftarrow> sendto x addr port m;
       (k, m2) \<leftarrow> pbuf_free (Some x) m1;
       Some m2 })"

text \<open>
  The start of the servers: the control block the server keeps, and whether its function is registered. The functions of lwIP are arguments:
  a new control block, binding it to a port, and for TCP the listening control block that replaces it.
\<close>

definition udpecho_raw_init :: "nat option \<Rightarrow> (nat \<Rightarrow> u16 \<Rightarrow> err_t) \<Rightarrow> nat option \<times> bool" where
  "udpecho_raw_init new bind_pcb = (case new of None \<Rightarrow> (None, False) | Some u \<Rightarrow> (Some u, bind_pcb u 7 = ERR_OK))"

definition tcpecho_raw_init :: "nat option \<Rightarrow> (nat \<Rightarrow> u16 \<Rightarrow> err_t) \<Rightarrow> (nat \<Rightarrow> nat option) \<Rightarrow> nat option \<times> bool" where
  "tcpecho_raw_init new bind_pcb listen = (case new of
     None \<Rightarrow> (None, False)
   | Some u \<Rightarrow> if bind_pcb u 7 = ERR_OK then (listen u, listen u \<noteq> None) else (Some u, False))"

subsection \<open>Taking the first structure off a chain\<close>

text \<open>A packet whose structures have one reference each.\<close>

definition sole_packet :: "pmem \<Rightarrow> ptr option \<Rightarrow> ptr list \<Rightarrow> bool" where
  "sole_packet m p xs \<longleftrightarrow> own_packet m p xs \<and> list_all (\<lambda>x. \<exists>b. pb m x = Some b \<and> pb_ref b = 1) xs"

lemma sole_packet_frame:
  assumes "\<And>z. z \<in> set xs \<Longrightarrow> pb m1 z = pb m z" "\<And>z. z \<in> set xs \<Longrightarrow> dat m1 (Own z) = dat m (Own z)" "sole_packet m p xs"
  shows "sole_packet m1 p xs" "content m1 xs = content m xs"
  using own_packet_frame [OF assms(1,2), of xs p] assms(1,3) by (auto simp: sole_packet_def list_all_iff)

lemma unlink_head:
  assumes inv: "pm_inv L m" and p: "sole_packet m (Some x) (x # xs)" "pb m x = Some b"
  shows "\<exists>m1 k m2 L2. (if pb_next b \<noteq> None then pbuf_ref (pb_next b) m else Some m) = Some m1 \<and> pbuf_free (Some x) m1 = Some (k, m2) \<and>
    pm_inv L2 m2 \<and> sole_packet m2 (pb_next b) xs \<and> content m2 xs = content m xs"
proof -
  have b: "own_packet m (pb_next b) xs" "x \<notin> set xs" "chain (pb m) (Some x) (x # xs)" "pb_ref b = 1"
    using own_packet_tl [of m "Some x" x xs] p by (auto simp: sole_packet_def own_packet_def)
  have sp: "sole_packet m (pb_next b) xs" using b(1) p(1) by (simp add: sole_packet_def)
  show ?thesis
  proof (cases xs)
    case Nil
    then have n: "pb_next b = None" using b(1) by (cases "pb_next b") (auto simp: own_packet_def)
    have "refs_pos (pb m) [x]" "chain (pb m) (Some x) [x]" using p(2) b(4) n by simp_all
    then obtain k m2 L2 where "pbuf_free (Some x) m = Some (k, m2)" "pm_inv L2 m2" using free_own [OF inv, of x "[x]"] by blast
    then show ?thesis using n Nil by (intro exI [of _ m] exI [of _ k] exI [of _ m2] exI [of _ L2]) (simp add: sole_packet_def own_packet_def)
  next
    case (Cons y ys)
    obtain c where c: "pb m y = Some c" "pb_ref c = 1" "pb_next b = Some y" "x \<noteq> y" "y \<notin> set ys" "chain (pb m) (pb_next c) ys"
      using p(1) b(1,2) Cons chain_distinct [of "pb m" "pb_next b" xs] by (auto simp: sole_packet_def own_packet_def)
    define m1 where "m1 = put_pb y (c\<lparr>pb_ref := 2\<rparr>) m"
    have r: "pbuf_ref (pb_next b) m = Some m1" using c by (simp add: pbuf_ref_def m1_def)
    have i: "pm_inv L m1" unfolding m1_def by (rule pm_inv_put [OF inv c(1)]) (use pm_invD(1) [OF inv c(1)] in simp)
    have ch: "chain (pb m1) (Some x) (x # xs)" using p(2) c b(2) Cons by (simp add: m1_def)
    have rp: "refs_pos (pb m1) (x # xs)" using p b c Cons by (simp add: m1_def sole_packet_def own_packet_def)
    have nf: "nfree (pb m1) (x # xs) = 1" "unref (pb m1) (x # xs) = (pb m)(x := None)"
      using p(2) b(4) c Cons by (auto simp: m1_def fun_eq_iff)
    obtain k m2 where f: "pbuf_free (Some x) m1 = Some (k, m2)" "pb m2 = (pb m)(x := None)" "pm_inv (drop_lives [x] L) m2"
      "\<forall>bf. bf \<notin> heap_bufs [x] \<longrightarrow> dat m2 bf = dat m bf"
      using pbuf_free_chain [OF i ch rp] unfolding nf by (auto simp: m1_def)
    have "pb m2 z = pb m z" "Own z \<notin> heap_bufs [x]" if "z \<in> set xs" for z using that b(2) f(2) by (auto simp: heap_bufs_def)
    from sole_packet_frame [OF this(1) f(4) [rule_format, OF this(2)] sp] show ?thesis using r c(3) f(1,3) by (intro exI [of _ m1] exI [of _ k] exI [of _ m2] exI [of _ "drop_lives [x] L"]) simp
  qed
qed

subsection \<open>The stream\<close>

text \<open>\<open>takes_all T\<close>: TCP accepts all that is written. What is written and what is still in the chain do not change when taken together.\<close>

definition takes_all :: "'n tcp_fns \<Rightarrow> bool" where
  "takes_all T \<longleftrightarrow> (\<forall>n v. v \<le> tf_sndbuf T n) \<and> (\<forall>bs n. fst (tf_write T bs n) = ERR_OK)"

lemma send_loop_stream:
  assumes "pm_inv L (e_mem s)" "sole_packet (e_mem s) (es_p es) xs"
  shows "\<exists>es' s' L' xs'. send_loop T err es s = Some (es', s') \<and> pm_inv L' (e_mem s') \<and> sole_packet (e_mem s') (es_p es') xs' \<and>
    e_written s' @ content (e_mem s') xs' = e_written s @ content (e_mem s) xs \<and> es_state es' = es_state es \<and>
    e_closed s' = e_closed s \<and> e_aborted s' = e_aborted s \<and>
    (err = ERR_OK \<and> takes_all T \<longrightarrow> xs' = [])"
  using assms
proof (induction xs arbitrary: L es s err)
  case Nil
  then have "es_p es = None" by (cases "es_p es") (auto simp: sole_packet_def own_packet_def)
  then show ?case using Nil by (intro exI [of _ es] exI [of _ s] exI [of _ L] exI [of _ "[]"]) (simp add: send_loop.simps)
next
  case (Cons x xs)
  obtain b where b: "es_p es = Some x" "pb (e_mem s) x = Some b" "in_buf (e_mem s) (payload b) (unat (pb_len b))"
    using own_packet_tl [of "e_mem s" "es_p es" x xs] Cons.prems(2) by (auto simp: sole_packet_def)
  have sp: "sole_packet (e_mem s) (Some x) (x # xs)" using Cons.prems(2) b(1) by simp
  have stop: "\<exists>es' s' L' xs'. Some (es, s\<lparr>e_pcb := n\<rparr>) = Some (es', s') \<and> pm_inv L' (e_mem s') \<and> sole_packet (e_mem s') (es_p es') xs' \<and>
    e_written s' @ content (e_mem s') xs' = e_written s @ content (e_mem s) (x # xs) \<and> es_state es' = es_state es \<and>
    e_closed s' = e_closed s \<and> e_aborted s' = e_aborted s" for n
    using Cons.prems by (intro exI [of _ es] exI [of _ "s\<lparr>e_pcb := n\<rparr>"] exI [of _ L] exI [of _ "x # xs"]) simp
  show ?case
  proof (cases "err = ERR_OK \<and> pb_len b \<le> tf_sndbuf T (e_pcb s)")
    case False
    then have e: "send_loop T err es s = Some (es, s\<lparr>e_pcb := e_pcb s\<rparr>)" using b(1,2) by (auto simp: send_loop.simps)
    have "\<not> (err = ERR_OK \<and> takes_all T)" using False by (auto simp: takes_all_def)
    then show ?thesis unfolding e using stop [of "e_pcb s"] by auto
  next
    case True
    have r: "rd (e_mem s) (payload b) (unat (pb_len b)) = Some (pay (e_mem s) x)"
      using rd_pay [OF b(2,3), of 0 "unat (pb_len b)"] length_pay [OF b(2,3)] by simp
    have nl: "\<not> tf_sndbuf T (e_pcb s) < pb_len b" using True by (simp add: not_less)
    obtain wr n1 where w: "tf_write T (pay (e_mem s) x) (e_pcb s) = (wr, n1)" by fastforce
    show ?thesis
    proof (cases "wr = ERR_OK")
      case False
      have "es\<lparr>es_p := Some x\<rparr> = es" using b(1) by (cases es) simp
      then have e: "send_loop T err es s = Some (es, s\<lparr>e_pcb := n1\<rparr>)"
        using b(1,2) True nl r w False by (subst send_loop.simps, simp) (subst send_loop.simps, simp)
      have "\<not> takes_all T" using w False unfolding takes_all_def by (metis fst_conv)
      then show ?thesis unfolding e using stop [of n1] by auto
    next
      case ok: True
      obtain m1 k m2 L2 where u: "(if pb_next b \<noteq> None then pbuf_ref (pb_next b) (e_mem s) else Some (e_mem s)) = Some m1"
        "pbuf_free (Some x) m1 = Some (k, m2)" "pm_inv L2 m2" "sole_packet m2 (pb_next b) xs" "content m2 xs = content (e_mem s) xs"
        using unlink_head [OF Cons.prems(1) sp b(2)] by blast
      let ?s = "s\<lparr>e_mem := m2, e_pcb := tf_recved T (pb_len b) n1, e_written := e_written s @ pay (e_mem s) x\<rparr>"
      have e: "send_loop T err es s = send_loop T ERR_OK (es\<lparr>es_p := pb_next b\<rparr>) ?s"
        using b(1,2) True nl r w ok u(1,2) by (subst send_loop.simps) simp
      have "pm_inv L2 (e_mem ?s)" "sole_packet (e_mem ?s) (es_p (es\<lparr>es_p := pb_next b\<rparr>)) xs" using u(3,4) by simp_all
      from Cons.IH [OF this, of ERR_OK] show ?thesis unfolding e using True u(5) by simp
    qed
  qed
qed

text \<open>
  The connection: open, with what was received and is not written yet in the chain of \<open>es\<close>, or closed after all was written.
\<close>

definition echo_open :: "'n echo \<Rightarrow> tcpecho_raw_state \<Rightarrow> bytes \<Rightarrow> bool" where
  "echo_open s es pending \<longleftrightarrow> e_es s = Some es \<and> \<not> e_closed s \<and> \<not> e_aborted s \<and> es_state es \<noteq> ES_NONE \<and>
     (es_state es = ES_ACCEPTED \<longrightarrow> es_p es = None) \<and>
     (\<exists>L xs. pm_inv L (e_mem s) \<and> sole_packet (e_mem s) (es_p es) xs \<and> content (e_mem s) xs = pending)"

definition echo_inv :: "'n echo \<Rightarrow> bytes \<Rightarrow> bool" where
  "echo_inv s rcv \<longleftrightarrow> (\<exists>es pending. echo_open s es pending \<and> e_written s @ pending = rcv) \<or>
     e_es s = None \<and> e_closed s \<and> \<not> e_aborted s \<and> e_written s = rcv"

lemma echo_openI:
  assumes "e_es s = Some es" "\<not> e_closed s" "\<not> e_aborted s" "es_state es \<noteq> ES_NONE" "es_state es = ES_ACCEPTED \<Longrightarrow> es_p es = None"
    and "pm_inv L (e_mem s)" "sole_packet (e_mem s) (es_p es) xs" "content (e_mem s) xs = pending"
  shows "echo_open s es pending"
  unfolding echo_open_def using assms by blast

lemma send_stream:
  assumes o: "echo_open s es pending" and a: "es_state es \<noteq> ES_ACCEPTED"
  shows "\<exists>s' es' rest. tcpecho_raw_send T s = Some s' \<and> echo_open s' es' rest \<and> e_written s' @ rest = e_written s @ pending \<and>
    es_state es' = es_state es \<and> (takes_all T \<longrightarrow> rest = [])"
proof -
  obtain L xs where p: "pm_inv L (e_mem s)" "sole_packet (e_mem s) (es_p es) xs" "content (e_mem s) xs = pending"
    and e: "e_es s = Some es" "\<not> e_closed s" "\<not> e_aborted s" "es_state es \<noteq> ES_NONE" using o by (auto simp: echo_open_def)
  from send_loop_stream [OF p(1,2), of T ERR_OK] obtain es' s' L' xs' where
    l: "send_loop T ERR_OK es s = Some (es', s')" "pm_inv L' (e_mem s')" "sole_packet (e_mem s') (es_p es') xs'"
    "e_written s' @ content (e_mem s') xs' = e_written s @ content (e_mem s) xs" "es_state es' = es_state es"
    "e_closed s' = e_closed s" "e_aborted s' = e_aborted s"
    "takes_all T \<longrightarrow> xs' = []" by blast
  have "echo_open (s'\<lparr>e_es := Some es'\<rparr>) es' (content (e_mem s') xs')"
    using l e a by (intro echo_openI [of _ _ L' xs']) auto
  moreover have "tcpecho_raw_send T s = Some (s'\<lparr>e_es := Some es'\<rparr>)" using e(1) l(1) by (simp add: tcpecho_raw_send_def)
  ultimately show ?thesis using l(4,5,8) p(3) by (intro exI [of _ "s'\<lparr>e_es := Some es'\<rparr>"] exI [of _ es'] exI [of _ "content (e_mem s') xs'"]) auto
qed

lemma close_stream:
  assumes o: "echo_open s es pending" and n: "es_p es = None"
  shows "\<exists>s'. tcpecho_raw_close s = Some s' \<and> echo_inv s' (e_written s @ pending)"
proof -
  have "pending = []" using o n by (auto simp: echo_open_def sole_packet_def own_packet_def)
  then show ?thesis using o n by (auto simp: tcpecho_raw_close_def tcpecho_raw_free_def echo_open_def echo_inv_def)
qed

text \<open>The callbacks on an open connection.\<close>

lemma echo_open_retries: "echo_open s es pending \<Longrightarrow> echo_open (s\<lparr>e_es := Some (es\<lparr>es_retries := 0\<rparr>)\<rparr>) (es\<lparr>es_retries := 0\<rparr>) pending"
  by (simp add: echo_open_def)

lemma work_stream:
  assumes o: "echo_open s es pending"
  shows "\<exists>s'. (if es_p es \<noteq> None then tcpecho_raw_send T s else if es_state es = ES_CLOSING then tcpecho_raw_close s else Some s) = Some s' \<and>
    echo_inv s' (e_written s @ pending) \<and>
    (takes_all T \<longrightarrow> e_written s' = e_written s @ pending)"
proof (cases "es_p es = None")
  case True
  then have "pending = []" using o by (auto simp: echo_open_def sole_packet_def own_packet_def)
  moreover have "e_written s' = e_written s" if "tcpecho_raw_close s = Some s'" for s'
    using that True o by (auto simp: tcpecho_raw_close_def tcpecho_raw_free_def echo_open_def)
  moreover have "echo_inv s (e_written s @ pending)" using o unfolding echo_inv_def by blast
  ultimately show ?thesis using True close_stream [OF o True] by auto
next
  case False
  then have "es_state es \<noteq> ES_ACCEPTED" using o by (auto simp: echo_open_def)
  from send_stream [OF o this, of T] obtain s' es' rest where "tcpecho_raw_send T s = Some s'" "echo_open s' es' rest"
    "e_written s' @ rest = e_written s @ pending" "takes_all T \<longrightarrow> rest = []" by blast
  moreover from this have "echo_inv s' (e_written s @ pending)" unfolding echo_inv_def by metis
  ultimately show ?thesis using False by auto
qed

lemma poll_stream:
  assumes o: "echo_open s es pending"
  shows "\<exists>s'. tcpecho_raw_poll T s = Some (ERR_OK, s') \<and> echo_inv s' (e_written s @ pending) \<and>
    (takes_all T \<longrightarrow> e_written s' = e_written s @ pending)"
proof -
  have "e_es s = Some es" using o by (simp add: echo_open_def)
  moreover obtain s' where "(if es_p es \<noteq> None then tcpecho_raw_send T s else if es_state es = ES_CLOSING then tcpecho_raw_close s else Some s) = Some s'"
    "echo_inv s' (e_written s @ pending)" "takes_all T \<longrightarrow> e_written s' = e_written s @ pending" using work_stream [OF o, of T] by blast
  ultimately show ?thesis by (intro exI [of _ s']) (simp add: tcpecho_raw_poll_def)
qed

lemma sent_stream:
  assumes o: "echo_open s es pending"
  shows "\<exists>s'. tcpecho_raw_sent T s = Some (ERR_OK, s') \<and> echo_inv s' (e_written s @ pending)"
proof -
  have e: "e_es s = Some es" using o by (simp add: echo_open_def)
  let ?es = "es\<lparr>es_retries := 0\<rparr>" and ?s = "s\<lparr>e_es := Some (es\<lparr>es_retries := 0\<rparr>)\<rparr>"
  obtain s' where "(if es_p ?es \<noteq> None then tcpecho_raw_send T ?s else if es_state ?es = ES_CLOSING then tcpecho_raw_close ?s else Some ?s) = Some s'"
    "echo_inv s' (e_written ?s @ pending)" using work_stream [OF echo_open_retries [OF o], of T] by blast
  then show ?thesis using e by (intro exI [of _ s']) (simp add: tcpecho_raw_sent_def Let_def split: if_splits)
qed

lemma fin_stream:
  assumes o: "echo_open s es pending"
  shows "\<exists>s'. tcpecho_raw_recv T None err s = Some (ERR_OK, s') \<and> echo_inv s' (e_written s @ pending)"
proof -
  let ?s = "s\<lparr>e_es := Some (es\<lparr>es_state := ES_CLOSING\<rparr>)\<rparr>"
  have o': "echo_open ?s (es\<lparr>es_state := ES_CLOSING\<rparr>) pending" using o by (simp add: echo_open_def)
  have e: "e_es s = Some es" using o by (simp add: echo_open_def)
  show ?thesis
  proof (cases "es_p es = None")
    case True
    then show ?thesis using close_stream [OF o'] e by (auto simp: tcpecho_raw_recv_def)
  next
    case False
    obtain s' es' rest where "tcpecho_raw_send T ?s = Some s'" "echo_open s' es' rest" "e_written s' @ rest = e_written s @ pending"
      using send_stream [OF o', of T] by auto
    moreover from this have "echo_inv s' (e_written s @ pending)" unfolding echo_inv_def by metis
    ultimately show ?thesis using False e by (auto simp: tcpecho_raw_recv_def Let_def)
  qed
qed

lemma sole_cat:
  assumes x: "sole_packet m (Some x) xs" and y: "sole_packet m (Some y) ys" and d: "set xs \<inter> set ys = {}"
    and l: "lens (pb m) xs + lens (pb m) ys < 65536" and inv: "pm_inv L m"
  shows "\<exists>m'. pbuf_cat (Some x) (Some y) m = Some m' \<and> pm_inv L m' \<and> sole_packet m' (Some x) (xs @ ys) \<and>
    content m' (xs @ ys) = content m xs @ content m ys"
proof -
  obtain h where h: "pbuf_cat (Some x) (Some y) m = Some (m\<lparr>pb := h\<rparr>)" "same_cells (pb m) h" "chain h (Some x) (xs @ ys)" "tots h (xs @ ys)"
    using cat_chain [of m x xs y ys, OF _ _ _ _ d l] x y unfolding sole_packet_def own_packet_def by blast
  note c = same_cells_mem [OF h(2)]
  have "\<exists>b. h z = Some b \<and> pb_ref b = 1" if z: "z \<in> set (xs @ ys)" for z
  proof -
    obtain b where "pb m z = Some b" "pb_ref b = 1" using z x y by (auto simp: sole_packet_def list_all_iff)
    then show ?thesis using same_cellsD [OF h(2), of z b] by auto
  qed
  then have "sole_packet (m\<lparr>pb := h\<rparr>) (Some x) (xs @ ys)"
    using h(3,4) x y unfolding sole_packet_def own_packet_def list_all_iff by (simp add: c list_all_iff ball_Un)
  then show ?thesis using h(1) c(4) inv same_cells_content [OF h(2)] by (intro exI [of _ "m\<lparr>pb := h\<rparr>"]) simp
qed

lemma arrive_stream:
  assumes o: "echo_open s es pending" and st: "es_state es = ES_ACCEPTED \<or> es_state es = ES_RECEIVED"
    and x: "sole_packet (e_mem s) (Some x) ys" "content (e_mem s) ys = bs"
    and d: "\<And>xs. sole_packet (e_mem s) (es_p es) xs \<Longrightarrow> set xs \<inter> set ys = {} \<and> lens (pb (e_mem s)) xs + lens (pb (e_mem s)) ys < 65536"
  shows "\<exists>s'. tcpecho_raw_recv T (Some x) ERR_OK s = Some (ERR_OK, s') \<and> echo_inv s' (e_written s @ pending @ bs)"
proof -
  obtain L xs where p: "pm_inv L (e_mem s)" "sole_packet (e_mem s) (es_p es) xs" "content (e_mem s) xs = pending"
    and e: "e_es s = Some es" "\<not> e_closed s" "\<not> e_aborted s" using o by (auto simp: echo_open_def)
  show ?thesis
  proof (cases "es_p es")
    case None
    then have "pending = []" using p(2,3) by (auto simp: sole_packet_def own_packet_def)
    let ?es = "es\<lparr>es_state := ES_RECEIVED, es_p := Some x\<rparr>"
    have "echo_open (s\<lparr>e_es := Some ?es\<rparr>) ?es bs" by (rule echo_openI [of _ _ L ys]) (use e p(1) x in simp_all)
    from send_stream [OF this, of T] obtain s' es' rest where
      s': "tcpecho_raw_send T (s\<lparr>e_es := Some ?es\<rparr>) = Some s'" "echo_open s' es' rest" "e_written s' @ rest = e_written s @ bs" by auto
    have u: "es_state es = ES_RECEIVED \<Longrightarrow> es\<lparr>es_p := Some x\<rparr> = ?es" by (cases es) simp
    have "tcpecho_raw_recv T (Some x) ERR_OK s = Some (ERR_OK, s')" using st
    proof
      assume "es_state es = ES_RECEIVED"
      moreover have "tcpecho_raw_send T (s\<lparr>e_es := Some (es\<lparr>es_p := Some x\<rparr>)\<rparr>) = Some s'" unfolding u [OF calculation] by (rule s'(1))
      ultimately show ?thesis using e(1) None by (simp add: tcpecho_raw_recv_def)
    qed (use e(1) None s'(1) in \<open>simp add: tcpecho_raw_recv_def\<close>)
    moreover have "echo_inv s' (e_written s @ pending @ bs)" unfolding echo_inv_def using s'(2,3) \<open>pending = []\<close> by auto
    ultimately show ?thesis by blast
  next
    case (Some y)
    then have r: "es_state es = ES_RECEIVED" using st o by (auto simp: echo_open_def)
    obtain m' where m': "pbuf_cat (Some y) (Some x) (e_mem s) = Some m'" "pm_inv L m'" "sole_packet m' (Some y) (xs @ ys)"
      "content m' (xs @ ys) = content (e_mem s) xs @ content (e_mem s) ys"
      using sole_cat [OF p(2) [unfolded Some] x(1) _ _ p(1)] d [OF p(2)] by blast
    have "echo_open (s\<lparr>e_mem := m'\<rparr>) es (pending @ bs)" by (rule echo_openI [of _ _ L "xs @ ys"]) (use e r m' Some p(3) x(2) in simp_all)
    then have "echo_inv (s\<lparr>e_mem := m'\<rparr>) (e_written s @ pending @ bs)" unfolding echo_inv_def by auto
    moreover have "tcpecho_raw_recv T (Some x) ERR_OK s = Some (ERR_OK, s\<lparr>e_mem := m'\<rparr>)"
      using r e(1) Some m'(1) by (simp add: tcpecho_raw_recv_def)
    ultimately show ?thesis by blast
  qed
qed

text \<open>
  A connection in operation: packets arrive (within the receive window, 20 KiB), the peer closes, data is acknowledged, the timer of TCP polls, and the
  rest of the stack works on the memory without touching the chain of the connection. \<open>rcv\<close> are the bytes received.
\<close>

inductive echo_run :: "'n tcp_fns \<Rightarrow> 'n echo \<Rightarrow> bytes \<Rightarrow> bool" for T where
  accept: "echo_run T s []" if "tcpecho_raw_accept True ERR_OK (Some n) m = (ERR_OK, Some s)" "pm_inv L m"
| arrive: "echo_run T s' (rcv @ bs)"
    if "echo_run T s rcv" "e_es s = Some es" "es_state es \<noteq> ES_CLOSING" "sole_packet (e_mem s) (Some x) ys" "content (e_mem s) ys = bs"
      "\<And>xs. sole_packet (e_mem s) (es_p es) xs \<Longrightarrow> set xs \<inter> set ys = {} \<and> lens (pb (e_mem s)) xs + lens (pb (e_mem s)) ys < 65536"
      "tcpecho_raw_recv T (Some x) ERR_OK s = Some (r, s')"
| fin: "echo_run T s' rcv" if "echo_run T s rcv" "e_es s \<noteq> None" "tcpecho_raw_recv T None err s = Some (r, s')"
| sent: "echo_run T s' rcv" if "echo_run T s rcv" "e_es s \<noteq> None" "tcpecho_raw_sent T s = Some (r, s')"
| poll: "echo_run T s' rcv" if "echo_run T s rcv" "e_es s \<noteq> None" "tcpecho_raw_poll T s = Some (r, s')"
| stack: "echo_run T (s\<lparr>e_mem := m, e_pcb := n\<rparr>) rcv"
    if "echo_run T s rcv" "pm_inv L m"
      "\<And>es xs. e_es s = Some es \<Longrightarrow> sole_packet (e_mem s) (es_p es) xs \<Longrightarrow> sole_packet m (es_p es) xs \<and> content m xs = content (e_mem s) xs"

lemma echo_inv_open:
  assumes "echo_inv s rcv" "e_es s = Some es"
  obtains pending where "echo_open s es pending" "e_written s @ pending = rcv"
  using assms by (auto simp: echo_inv_def echo_open_def)

lemma echo_run_inv: "echo_run T s rcv \<Longrightarrow> echo_inv s rcv"
proof (induction rule: echo_run.induct)
  case (accept n m s L)
  have s: "s = \<lparr>e_mem = m, e_pcb = n, e_es = Some \<lparr>es_state = ES_ACCEPTED, es_retries = 0, es_p = None\<rparr>, e_written = [], e_closed = False, e_aborted = False\<rparr>"
    using accept(1) by (simp add: tcpecho_raw_accept_def)
  have "echo_open s \<lparr>es_state = ES_ACCEPTED, es_retries = 0, es_p = None\<rparr> []"
    by (rule echo_openI [of _ _ L "[]"]) (use accept(2) s in \<open>simp_all add: sole_packet_def own_packet_def\<close>)
  then show ?case using s unfolding echo_inv_def by auto
next
  case (arrive s rcv es x ys bs r s')
  from echo_inv_open [OF arrive.IH arrive(2)] obtain pending where o: "echo_open s es pending" "e_written s @ pending = rcv" .
  then have "es_state es = ES_ACCEPTED \<or> es_state es = ES_RECEIVED" using arrive(3) by (cases "es_state es") (auto simp: echo_open_def)
  from arrive_stream [OF o(1) this arrive(4-6), of T] arrive(7) o(2) show ?case by auto
next
  case (fin s rcv err r s')
  then show ?case using fin_stream [of s _ _ T err] by (auto elim!: echo_inv_open)
next
  case (sent s rcv r s')
  then show ?case using sent_stream [of s _ _ T] by (fastforce elim!: echo_inv_open)
next
  case (poll s rcv r s')
  then show ?case using poll_stream [of s _ _ T] by (fastforce elim!: echo_inv_open)
next
  case (stack s rcv L m n)
  show ?case
  proof (cases "e_es s")
    case None
    then show ?thesis using stack(4) by (auto simp: echo_inv_def echo_open_def)
  next
    case (Some es)
    from echo_inv_open [OF stack.IH Some] obtain pending where o: "echo_open s es pending" "e_written s @ pending = rcv" .
    then obtain xs where "sole_packet (e_mem s) (es_p es) xs" "content (e_mem s) xs = pending" by (auto simp: echo_open_def)
    with stack(3) [OF Some this(1)] have "echo_open (s\<lparr>e_mem := m, e_pcb := n\<rparr>) es pending"
      using o(1) stack(2) by (intro echo_openI [of _ _ L xs]) (auto simp: echo_open_def)
    then show ?thesis using o(2) unfolding echo_inv_def by auto
  qed
qed


definition ex_tcp :: "unit tcp_fns" where
  "ex_tcp = \<lparr>tf_sndbuf = (\<lambda>_. 0xffff), tf_write = (\<lambda>bs n. (ERR_OK, n)), tf_recved = (\<lambda>k n. n)\<rparr>"

lemma ex_takes_all: "takes_all ex_tcp"
proof -
  have "v \<le> 0xffff" for v :: u16 using unat16_less [of v] by (simp add: word_le_nat_alt)
  then show ?thesis by (simp add: takes_all_def ex_tcp_def)
qed


text \<open>The UDP server hands the packet it received to \<^verbatim>\<open>udp_sendto\<close> with the address and port it came from, and then gives it back.\<close>

lemma udp_echo_returns:
  assumes "pm_inv L m" "own_packet m (Some x) [x]" "sendable m x" "sendto_ok send"
  shows "\<exists>e m1 k m2 L'. send x addr port m = Some (e, m1) \<and> pbuf_free (Some x) m1 = Some (k, m2) \<and>
    udpecho_raw_recv send (Some x) addr port m = Some m2 \<and> pm_inv L' m2"
proof -
  obtain e m1 L1 where s: "send x addr port m = Some (e, m1)" "pm_inv L1 m1" "chain (pb m1) (Some x) [x]" "refs_pos (pb m1) [x]"
    using assms unfolding sendto_ok_def by blast
  with free_own [OF s(2-4)] show ?thesis by (fastforce simp: udpecho_raw_recv_def)
qed

end
