(* ===== verification/Ip4_Addr.thy ===== *)
theory Ip4_Addr
  imports Sim_Prelude
begin

unbundle bit_operations_syntax

text \<open>
  IPv4 addresses, \<^verbatim>\<open>lwip/src/core/ipv4/ip4_addr.c\<close>: broadcast addresses of an interface, netmasks, and the textual form.
  An address is the 32-bit word in memory, in network byte order on a little-endian host. A string is the list of its characters
  without the terminating zero, so reading at its end gives 0.
\<close>

definition lwip_htonl :: "u32 \<Rightarrow> u32" where
  "lwip_htonl n = push_bit 24 (n AND 0x000000ff) OR push_bit 8 (n AND 0x0000ff00) OR
     drop_bit 8 (n AND 0x00ff0000) OR drop_bit 24 (n AND 0xff000000)"

text \<open>What these functions use of an interface.\<close>

record ip4_netif =
  if_flags :: u8
  if_ip4 :: u32
  if_netmask :: u32

definition ip4_addr_netcmp :: "u32 \<Rightarrow> u32 \<Rightarrow> u32 \<Rightarrow> bool" where
  "ip4_addr_netcmp addr1 addr2 msk \<longleftrightarrow> addr1 AND msk = addr2 AND msk"

definition ip4_addr_isbroadcast_u32 :: "u32 \<Rightarrow> ip4_netif \<Rightarrow> bool" where
  "ip4_addr_isbroadcast_u32 addr n =
     (if NOT addr = 0 \<or> addr = 0 then True
      else if if_flags n AND 0x02 = 0 then False
      else if addr = if_ip4 n then False
      else ip4_addr_netcmp addr (if_ip4 n) (if_netmask n) \<and> addr AND NOT (if_netmask n) = 0xffffffff AND NOT (if_netmask n))"

subsection \<open>Netmasks\<close>

lemma drop_bit_decreases: "(msk :: u32) \<noteq> 0 \<Longrightarrow> unat (drop_bit 1 msk) < unat msk"
  by (simp add: drop_bit_eq_div unat_div unat_gt_0)

function skip_ones :: "u32 \<Rightarrow> u32 \<Rightarrow> u32" where
  "skip_ones nm msk = (if msk = 0 then 0 else if nm AND msk = 0 then msk else skip_ones nm (drop_bit 1 msk))"
  by pat_completeness auto

termination by (relation "measure (\<lambda>(nm, msk). unat msk)") (auto simp: drop_bit_decreases [unfolded One_nat_def])

function only_zeros :: "u32 \<Rightarrow> u32 \<Rightarrow> bool" where
  "only_zeros nm msk = (if msk = 0 then True else if nm AND msk \<noteq> 0 then False else only_zeros nm (drop_bit 1 msk))"
  by pat_completeness auto

termination by (relation "measure (\<lambda>(nm, msk). unat msk)") (auto simp: drop_bit_decreases [unfolded One_nat_def])

declare skip_ones.simps [simp del] only_zeros.simps [simp del]

definition ip4_addr_netmask_valid :: "u32 \<Rightarrow> bool" where
  "ip4_addr_netmask_valid netmask =
     (let nm_hostorder = lwip_htonl netmask in only_zeros nm_hostorder (skip_ones nm_hostorder (push_bit 31 1)))"

subsection \<open>From text\<close>

definition lwip_isdigit :: "u8 \<Rightarrow> bool" where
  "lwip_isdigit c \<longleftrightarrow> 48 \<le> c \<and> c \<le> 57"

definition lwip_islower :: "u8 \<Rightarrow> bool" where
  "lwip_islower c \<longleftrightarrow> 97 \<le> c \<and> c \<le> 122"

definition lwip_isxdigit :: "u8 \<Rightarrow> bool" where
  "lwip_isxdigit c \<longleftrightarrow> lwip_isdigit c \<or> 97 \<le> c \<and> c \<le> 102 \<or> 65 \<le> c \<and> c \<le> 70"

definition lwip_isspace :: "u8 \<Rightarrow> bool" where
  "lwip_isspace c \<longleftrightarrow> c = 32 \<or> 9 \<le> c \<and> c \<le> 13"

definition peek :: "bytes \<Rightarrow> u8" where
  "peek cp = (case cp of [] \<Rightarrow> 0 | c # _ \<Rightarrow> c)"

text \<open>The number at the start of the string; the base does not restrict the digits 8 and 9.\<close>

fun aton_digits :: "u32 \<Rightarrow> u32 \<Rightarrow> bytes \<Rightarrow> u32 \<times> bytes" where
  "aton_digits base val [] = (val, [])"
| "aton_digits base val (c # cp) =
     (if lwip_isdigit c then aton_digits base (val * base + ucast (c - 48)) cp
      else if base = 16 \<and> lwip_isxdigit c
      then aton_digits base (push_bit 4 val OR (ucast c + 10 - (if lwip_islower c then 97 else 65))) cp
      else (val, c # cp))"

definition aton_number :: "bytes \<Rightarrow> u32 \<times> bytes" where
  "aton_number cp =
     (if peek cp = 48
      then (let cp1 = tl cp in if peek cp1 = 120 \<or> peek cp1 = 88 then aton_digits 16 0 (tl cp1) else aton_digits 8 0 cp1)
      else aton_digits 10 0 cp)"

text \<open>
  The numbers up to the last one, with the places left in \<^verbatim>\<open>parts\<close> before the last; \<open>None\<close> is the result 0 of the function.
\<close>

fun aton_parts :: "nat \<Rightarrow> u32 list \<Rightarrow> bytes \<Rightarrow> (u32 list \<times> u32 \<times> bytes) option" where
  "aton_parts room parts cp =
     (if \<not> lwip_isdigit (peek cp) then None
      else (let (val, cp1) = aton_number cp
            in if peek cp1 = 46 then (case room of 0 \<Rightarrow> None | Suc r \<Rightarrow> aton_parts r (parts @ [val]) (tl cp1))
               else Some (parts, val, cp1)))"

declare aton_parts.simps [simp del]

definition ip4addr_aton :: "bytes \<Rightarrow> u32 option" where
  "ip4addr_aton cp = do {
     (parts, val, rest) \<leftarrow> aton_parts 3 [] cp;
     require (peek rest = 0 \<or> lwip_isspace (peek rest));
     v \<leftarrow> (case parts of
        [] \<Rightarrow> Some val
      | [a] \<Rightarrow> if val > 0xffffff \<or> a > 0xff then None else Some (val OR push_bit 24 a)
      | [a, b] \<Rightarrow> if val > 0xffff \<or> a > 0xff \<or> b > 0xff then None else Some (val OR (push_bit 24 a OR push_bit 16 b))
      | [a, b, c] \<Rightarrow> if val > 0xff \<or> a > 0xff \<or> b > 0xff \<or> c > 0xff then None
          else Some (val OR (push_bit 24 a OR push_bit 16 b OR push_bit 8 c))
      | _ \<Rightarrow> None);
     Some (lwip_htonl v) }"

definition ipaddr_addr :: "bytes \<Rightarrow> u32" where
  "ipaddr_addr cp = (case ip4addr_aton cp of Some v \<Rightarrow> v | None \<Rightarrow> 0xffffffff)"

subsection \<open>To text\<close>

text \<open>The digits of a byte in the order of \<^verbatim>\<open>inv\<close>, last first.\<close>

function ntoa_inv :: "u8 \<Rightarrow> bytes" where
  "ntoa_inv a = (48 + a mod 10) # (if a div 10 = 0 then [] else ntoa_inv (a div 10))"
  by pat_completeness auto

termination
proof (relation "measure unat")
  show "(a div 10, a) \<in> measure unat" if "a div 10 \<noteq> 0" for a :: u8
  proof -
    have "unat a > 0" using that by (metis div_0 unat_eq_0 gr0I)
    then show ?thesis by (simp add: unat_div)
  qed
qed simp

declare ntoa_inv.simps [simp del]

text \<open>The characters stored in the buffer, each after the test of its length; \<open>None\<close> is \<^verbatim>\<open>NULL\<close>.\<close>

fun ntoa_store :: "int \<Rightarrow> bytes \<Rightarrow> bytes \<Rightarrow> bytes option" where
  "ntoa_store buflen out [] = Some out"
| "ntoa_store buflen out (c # cs) = (if int (length out) \<ge> buflen then None else ntoa_store buflen (out @ [c]) cs)"

fun ntoa_loop :: "u8 list \<Rightarrow> int \<Rightarrow> bytes \<Rightarrow> bytes option" where
  "ntoa_loop [] buflen out = Some out"
| "ntoa_loop (a # as) buflen out = do {
     out1 \<leftarrow> ntoa_store buflen out (rev (ntoa_inv a));
     out2 \<leftarrow> ntoa_store buflen out1 [46];
     ntoa_loop as buflen out2 }"

definition ip4addr_ntoa_r :: "u32 \<Rightarrow> int \<Rightarrow> bytes option" where
  "ip4addr_ntoa_r s_addr buflen = do {
     out \<leftarrow> ntoa_loop (map (\<lambda>n. ucast (drop_bit (8 * n) s_addr)) [0..<4]) buflen [];
     Some (butlast out) }"

definition ip4addr_ntoa :: "u32 \<Rightarrow> bytes option" where
  "ip4addr_ntoa s_addr = ip4addr_ntoa_r s_addr 16"

subsection \<open>Netmasks are runs of ones\<close>

lemma shift_mask: "Suc k < 32 \<Longrightarrow> drop_bit 1 ((2 :: u32) ^ Suc k) = 2 ^ k"
proof -
  assume k: "Suc k < 32"
  have "drop_bit 1 (push_bit (Suc k) (1 :: u32)) = push_bit k 1" using k by (intro bit_word_eqI) (auto simp: bit_simps simp del: push_bit_Suc)
  then show ?thesis by (simp only: push_bit_eq_mult mult_1)
qed

lemma exp_nonzero: "k < 32 \<Longrightarrow> (2 :: u32) ^ k \<noteq> 0"
  by (simp add: exp_eq_zero_iff)

lemmas mask_step = and_exp_eq_0_iff_not_bit exp_nonzero shift_mask [unfolded One_nat_def]

lemma only_zeros_step:
  "only_zeros nm (2 ^ 0) \<longleftrightarrow> \<not> bit nm 0" "Suc k < 32 \<Longrightarrow> only_zeros nm (2 ^ Suc k) \<longleftrightarrow> \<not> bit nm (Suc k) \<and> only_zeros nm (2 ^ k)"
  using and_exp_eq_0_iff_not_bit [of nm 0]
  by (simp_all add: only_zeros.simps [of nm 1] only_zeros.simps [of nm 0] only_zeros.simps [of nm "2 ^ Suc k"] mask_step del: power_Suc)

lemma skip_ones_step:
  "skip_ones nm (2 ^ 0) = (if bit nm 0 then 0 else 1)"
  "Suc k < 32 \<Longrightarrow> skip_ones nm (2 ^ Suc k) = (if bit nm (Suc k) then skip_ones nm (2 ^ k) else 2 ^ Suc k)"
  using and_exp_eq_0_iff_not_bit [of nm 0]
  by (simp_all add: skip_ones.simps [of nm 1] skip_ones.simps [of nm 0] skip_ones.simps [of nm "2 ^ Suc k"] mask_step del: power_Suc)

lemma only_zeros_below: "k < 32 \<Longrightarrow> only_zeros nm (2 ^ k) \<longleftrightarrow> (\<forall>i \<le> k. \<not> bit nm i)"
proof (induction k)
  case 0
  then show ?case using only_zeros_step(1) [of nm] by simp
next
  case (Suc k)
  then show ?case unfolding only_zeros_step(2) [OF Suc.prems] by (auto simp: le_Suc_eq)
qed

lemma ones_then_zeros:
  "k < 32 \<Longrightarrow> only_zeros nm (skip_ones nm (2 ^ k)) \<longleftrightarrow> (\<exists>j \<le> Suc k. \<forall>i \<le> k. bit nm i \<longleftrightarrow> j \<le> i)"
proof (induction k)
  case 0
  have "\<exists>j \<le> Suc 0. bit nm 0 \<longleftrightarrow> j \<le> 0" by (intro exI [of _ "if bit nm 0 then 0 else 1"]) simp
  then show ?case using skip_ones_step(1) [of nm] only_zeros_step(1) [of nm] only_zeros.simps [of nm 0] by simp
next
  case (Suc k)
  show ?case
  proof (cases "bit nm (Suc k)")
    case True
    then have "(\<exists>j \<le> Suc (Suc k). \<forall>i \<le> Suc k. bit nm i \<longleftrightarrow> j \<le> i) \<longleftrightarrow> (\<exists>j \<le> Suc k. \<forall>i \<le> k. bit nm i \<longleftrightarrow> j \<le> i)"
      by (metis le_SucE le_SucI le_refl)
    then show ?thesis using Suc True skip_ones_step(2) [OF Suc.prems, of nm] by simp
  next
    case False
    have "(\<exists>j \<le> Suc (Suc k). \<forall>i \<le> Suc k. bit nm i \<longleftrightarrow> j \<le> i) \<longleftrightarrow> (\<forall>i \<le> Suc k. \<not> bit nm i)"
    proof
      assume "\<exists>j \<le> Suc (Suc k). \<forall>i \<le> Suc k. bit nm i \<longleftrightarrow> j \<le> i"
      then obtain j where j: "j \<le> Suc (Suc k)" "\<forall>i \<le> Suc k. bit nm i \<longleftrightarrow> j \<le> i" by blast
      then have "j = Suc (Suc k)" using False by auto
      then show "\<forall>i \<le> Suc k. \<not> bit nm i" using j by auto
    qed (auto intro: exI [of _ "Suc (Suc k)"])
    then show ?thesis using only_zeros_below [OF Suc.prems, of nm] False skip_ones_step(2) [OF Suc.prems, of nm] by simp
  qed
qed

lemma netmask_valid_iff: "ip4_addr_netmask_valid netmask \<longleftrightarrow> (\<exists>j \<le> 32. lwip_htonl netmask = NOT (mask j))"
proof -
  have "(\<forall>i \<le> 31. bit v i \<longleftrightarrow> j \<le> i) \<longleftrightarrow> v = NOT (mask j)" for v :: u32 and j
  proof
    assume "\<forall>i \<le> 31. bit v i \<longleftrightarrow> j \<le> i"
    then show "v = NOT (mask j)" by (intro bit_word_eqI) (auto simp: bit_simps)
  qed (auto simp: bit_simps)
  then show ?thesis using ones_then_zeros [of 31 "lwip_htonl netmask"] by (simp add: ip4_addr_netmask_valid_def push_bit_eq_mult)
qed

subsection \<open>Text and back\<close>

lemma ntoa_inv_cases:
  "ntoa_inv a = (if a div 10 = 0 then [48 + a mod 10] else (48 + a mod 10) # ntoa_inv (a div 10))"
  by (simp add: ntoa_inv.simps [of a])

lemma digit_char: "lwip_isdigit (48 + a mod 10)" "48 + a mod 10 - 48 = a mod 10"
proof -
  have "unat (a mod 10) < 10" by (simp add: unat_mod)
  then show "lwip_isdigit (48 + a mod 10)" by (simp add: lwip_isdigit_def word_le_nat_alt unat_word_ariths)
qed simp

lemma ntoa_digits: "c \<in> set (ntoa_inv a) \<Longrightarrow> lwip_isdigit c"
proof (induction a rule: ntoa_inv.induct)
  case (1 a)
  then show ?case using digit_char(1) [of a] by (cases "a div 10 = 0") (auto simp: ntoa_inv_cases [of a])
qed

lemma ntoa_length: "length (ntoa_inv a) = (if a < 10 then 1 else if a < 100 then 2 else 3)"
proof -
  have u: "unat a < 256" using unsigned_less [of a] by simp
  have "a div 10 = 0 \<longleftrightarrow> unat a < 10" "a div 10 div 10 = 0 \<longleftrightarrow> unat a < 100" "a div 10 div 10 div 10 = 0"
    using u by (auto simp: word_unat_eq_iff unat_div)
  then show ?thesis
    by (simp add: ntoa_inv_cases [of a] ntoa_inv_cases [of "a div 10"] ntoa_inv_cases [of "a div 10 div 10"] word_less_nat_alt)
qed

lemma ntoa_first:
  assumes "a \<noteq> 0"
  shows "peek (rev (ntoa_inv a) @ rest) \<noteq> 48"
  using assms
proof (induction a arbitrary: rest rule: ntoa_inv.induct)
  case (1 a)
  show ?case
  proof (cases "a div 10 = 0")
    case True
    then have "unat a div 10 = 0" by (simp add: word_unat_eq_iff unat_div)
    then have "a mod 10 \<noteq> 0" using 1(2) by (simp add: word_unat_eq_iff unat_mod)
    then show ?thesis using True by (simp add: ntoa_inv_cases [of a] peek_def)
  next
    case False
    then show ?thesis using 1(1) [OF False False, of "(48 + a mod 10) # rest"] by (simp add: ntoa_inv_cases [of a])
  qed
qed

lemma aton_digits_append:
  "(\<And>c. c \<in> set xs \<Longrightarrow> lwip_isdigit c) \<Longrightarrow> aton_digits base v (xs @ ys) = aton_digits base (foldl (\<lambda>v c. v * base + ucast (c - 48)) v xs) ys"
  by (induction xs arbitrary: v) auto

lemma decimal_value: "foldl (\<lambda>v c. v * 10 + ucast (c - 48)) 0 (rev (ntoa_inv a)) = (ucast a :: u32)"
proof (induction a rule: ntoa_inv.induct)
  case (1 a)
  have u: "unat a < 256" using unsigned_less [of a] by simp
  have "unat (ucast (a div 10) * 10 + ucast (a mod 10) :: u32) = unat (ucast a :: u32)"
    using u by (simp add: unat_word_ariths unsigned_ucast_eq take_bit_eq_mod unat_div unat_mod)
  then have e: "(ucast (a div 10) * 10 + ucast (a mod 10) :: u32) = ucast a" by (simp only: word_unat_eq_iff)
  show ?case
  proof (cases "a div 10 = 0")
    case True
    then show ?thesis using e by (simp add: ntoa_inv_cases [of a])
  next
    case False
    then show ?thesis using e 1 by (simp add: ntoa_inv_cases [of a])
  qed
qed

lemma aton_digits_stop: "\<not> lwip_isdigit (peek rest) \<Longrightarrow> base \<noteq> 16 \<Longrightarrow> aton_digits base v rest = (v, rest)"
  by (cases rest) (simp_all add: peek_def)

lemma aton_number_ntoa:
  assumes "\<not> lwip_isdigit (peek rest)" "peek rest \<noteq> 120" "peek rest \<noteq> 88"
  shows "aton_number (rev (ntoa_inv a) @ rest) = (ucast a, rest)" "lwip_isdigit (peek (rev (ntoa_inv a) @ rest))"
proof -
  have z: "ntoa_inv 0 = [48]" by (simp add: ntoa_inv.simps)
  show "aton_number (rev (ntoa_inv a) @ rest) = (ucast a, rest)"
  proof (cases "a = 0")
    case True
    then show ?thesis using assms z aton_digits_stop [OF assms(1), of 8 0] by (simp add: aton_number_def peek_def [of "48 # rest"])
  next
    case False
    have "aton_digits 10 0 (rev (ntoa_inv a) @ rest) = (ucast a, rest)"
      using aton_digits_append [of "rev (ntoa_inv a)" 10 0 rest] ntoa_digits decimal_value [of a] aton_digits_stop [OF assms(1), of 10] by simp
    then show ?thesis using ntoa_first [OF False, of rest] by (simp add: aton_number_def)
  qed
  have "ntoa_inv a \<noteq> []" by (simp add: ntoa_inv_cases [of a])
  then have "peek (rev (ntoa_inv a) @ rest) \<in> set (ntoa_inv a)"
    using set_rev [of "ntoa_inv a"] by (cases "rev (ntoa_inv a)") (auto simp: peek_def simp del: set_rev)
  then show "lwip_isdigit (peek (rev (ntoa_inv a) @ rest))" using ntoa_digits by blast
qed

lemma aton_parts_dot:
  "aton_parts (Suc r) parts (rev (ntoa_inv a) @ 46 # cp) = aton_parts r (parts @ [ucast a]) cp"
proof -
  have "\<not> lwip_isdigit (peek (46 # cp))" by (simp add: peek_def lwip_isdigit_def)
  then show ?thesis using aton_number_ntoa [of "46 # cp" a] by (simp add: aton_parts.simps [of "Suc r"] peek_def [of "46 # cp"])
qed

lemma aton_parts_last: "aton_parts r parts (rev (ntoa_inv a)) = Some (parts, ucast a, [])"
proof -
  have "\<not> lwip_isdigit (peek [])" by (simp add: peek_def lwip_isdigit_def)
  then show ?thesis using aton_number_ntoa [of "[]" a] by (simp add: aton_parts.simps [of r] peek_def [of "[]"])
qed

lemma store_eq: "ntoa_store buflen out cs = (if cs = [] \<or> int (length out + length cs) \<le> buflen then Some (out @ cs) else None)"
  by (induction cs arbitrary: out) auto

abbreviation dotted :: "u8 list \<Rightarrow> bytes" where
  "dotted as \<equiv> concat (map (\<lambda>a. rev (ntoa_inv a) @ [46]) as)"

lemma loop_eq: "ntoa_loop as buflen out = (if as = [] \<or> int (length out + length (dotted as)) \<le> buflen then Some (out @ dotted as) else None)"
proof (induction as arbitrary: out)
  case (Cons a as)
  show ?case
  proof (cases "int (length out + length (ntoa_inv a) + 1) \<le> buflen")
    case True
    then show ?thesis using Cons [of "out @ rev (ntoa_inv a) @ [46]"] by (auto simp: store_eq)
  qed (auto simp: store_eq)
qed simp

lemma byte_masks:
  "(0x000000ff :: u32) = mask 8" "(0x0000ff00 :: u32) = push_bit 8 (mask 8)" "(0x00ff0000 :: u32) = push_bit 16 (mask 8)"
  "(0xff000000 :: u32) = push_bit 24 (mask 8)"
  by (simp_all add: mask_eq_exp_minus_1 push_bit_eq_mult)

lemma bit_htonl:
  "bit (lwip_htonl n) i \<longleftrightarrow> i < 32 \<and>
     (if i < 8 then bit n (24 + i) else if i < 16 then bit n (8 + i) else if i < 24 then bit n (i - 8) else bit n (i - 24))"
  unfolding lwip_htonl_def byte_masks by (auto simp: bit_simps)

lemma htonl_htonl [simp]: "lwip_htonl (lwip_htonl n) = n"
  by (rule bit_word_eqI) (auto simp: bit_htonl)

lemma htonl_bytes:
  "lwip_htonl (ucast (ucast (drop_bit 24 w) :: u8) OR (push_bit 24 (ucast (ucast w :: u8)) OR
     push_bit 16 (ucast (ucast (drop_bit 8 w) :: u8)) OR push_bit 8 (ucast (ucast (drop_bit 16 w) :: u8)))) = w"
  by (rule bit_word_eqI) (auto simp: bit_htonl bit_simps)

lemma byte_bound: "\<not> 0xff < (ucast (a :: u8) :: u32)"
proof -
  have "unat a < 256" using unsigned_less [of a] by simp
  then show ?thesis by (simp add: word_less_nat_alt unsigned_ucast_eq take_bit_eq_mod)
qed

lemma ntoa_text:
  assumes "dotted [ucast w, ucast (drop_bit 8 w), ucast (drop_bit 16 w), ucast (drop_bit 24 w)] = str @ [46]"
  shows "ip4addr_ntoa_r w buflen = (if int (length str) < buflen then Some str else None)"
proof -
  have "map (\<lambda>n. ucast (drop_bit (8 * n) w) :: u8) [0..<4] = [ucast w, ucast (drop_bit 8 w), ucast (drop_bit 16 w), ucast (drop_bit 24 w)]"
    by (simp add: upt_rec numeral_eq_Suc)
  then have "ntoa_loop (map (\<lambda>n. ucast (drop_bit (8 * n) w)) [0..<4]) buflen [] = (if int (length (str @ [46])) \<le> buflen then Some (str @ [46]) else None)"
    using loop_eq [of "[ucast w, ucast (drop_bit 8 w), ucast (drop_bit 16 w), ucast (drop_bit 24 w)]" buflen "[]"] assms by (simp only: list.distinct) simp
  then show ?thesis by (auto simp: ip4addr_ntoa_r_def)
qed

text \<open>The parser reads beyond the range of its values and of the base: wrapped around, and with the digits 8 and 9 in octal numbers.\<close>

lemma aton_lenient:
  "ip4addr_aton [52, 50, 57, 52, 57, 54, 55, 50, 57, 55] = Some (lwip_htonl 1)"
  "ip4addr_aton [48, 57] = Some (lwip_htonl 9)"
proof -
  have w: "(4294967297 :: u32) = 1" by (simp add: word_unat_eq_iff)
  show "ip4addr_aton [52, 50, 57, 52, 57, 54, 55, 50, 57, 55] = Some (lwip_htonl 1)"
    by (simp add: w ip4addr_aton_def aton_parts.simps aton_number_def peek_def lwip_isdigit_def)
qed (simp add: ip4addr_aton_def aton_parts.simps aton_number_def peek_def lwip_isdigit_def)

subsection \<open>Properties\<close>

text \<open>
  C30: printing and reading an IPv4 address are inverse. \<open>ip4addr_ntoa_r\<close> prints every address, in at most 15 characters, exactly if the buffer has
  room for the text and its end, and \<open>ip4addr_aton\<close> reads the text as the same address.
\<close>

theorem ip4addr_text_roundtrip:
  "\<exists>str. length str \<le> 15 \<and> (\<forall>buflen. ip4addr_ntoa_r w buflen = (if int (length str) < buflen then Some str else None)) \<and>
     ip4addr_ntoa w = Some str \<and> ip4addr_aton str = Some w"
proof -
  define a b c d where bytes: "a = (ucast w :: u8)" "b = (ucast (drop_bit 8 w) :: u8)" "c = (ucast (drop_bit 16 w) :: u8)" "d = (ucast (drop_bit 24 w) :: u8)"
  define str where "str = rev (ntoa_inv a) @ 46 # rev (ntoa_inv b) @ 46 # rev (ntoa_inv c) @ 46 # rev (ntoa_inv d)"
  have s: "dotted [a, b, c, d] = str @ [46]" by (simp add: str_def)
  have len: "length str \<le> 15" using ntoa_length by (simp add: str_def)
  have n: "ip4addr_ntoa_r w buflen = (if int (length str) < buflen then Some str else None)" for buflen
    by (rule ntoa_text) (use s in \<open>simp only: bytes\<close>)
  have "aton_parts 3 [] str = Some ([ucast a, ucast b, ucast c], ucast d, [])"
    by (simp add: str_def numeral_3_eq_3 aton_parts_dot aton_parts_last)
  then have "ip4addr_aton str = Some w" using htonl_bytes [of w] byte_bound by (simp add: ip4addr_aton_def peek_def bytes)
  then show ?thesis using n len by (intro exI [of _ str]) (simp add: ip4addr_ntoa_def)
qed

end
