(* ===== verification/Linked_List.thy ===== *)
theory Linked_List
  imports Sim_Prelude
begin

text \<open>
  Singly linked lists in a store: \<open>nx x\<close> is the content of the \<^verbatim>\<open>next\<close> field of a live object, \<open>npath nx p xs q\<close> says
  that from \<open>p\<close> the fields lead through exactly the objects \<open>xs\<close> to \<open>q\<close>.
\<close>

fun npath :: "('a \<Rightarrow> 'a option option) \<Rightarrow> 'a option \<Rightarrow> 'a list \<Rightarrow> 'a option \<Rightarrow> bool" where
  "npath nx p [] q \<longleftrightarrow> p = q"
| "npath nx p (x # xs) q \<longleftrightarrow> p = Some x \<and> (\<exists>n. nx x = Some n \<and> npath nx n xs q)"

lemma npath_append: "npath nx p (xs @ ys) q \<longleftrightarrow> (\<exists>r. npath nx p xs r \<and> npath nx r ys q)"
  by (induction xs arbitrary: p) auto

lemma npath_cong: "(\<And>x. x \<in> set xs \<Longrightarrow> nx' x = nx x) \<Longrightarrow> npath nx' p xs q = npath nx p xs q"
  by (induction xs arbitrary: p) auto

lemma npath_upd [simp]: "x \<notin> set xs \<Longrightarrow> npath (nx(x := v)) p xs q = npath nx p xs q"
  by (rule npath_cong) auto

lemma npath_None [simp]: "npath nx None xs q \<longleftrightarrow> xs = [] \<and> q = None"
  by (cases xs) auto

lemma npath_live: "npath nx p xs q \<Longrightarrow> x \<in> set xs \<Longrightarrow> nx x \<noteq> None"
  by (induction xs arbitrary: p) auto

text \<open>A list that ends has each object once: what follows an object is determined by it.\<close>

lemma npath_unique: "npath nx p xs None \<Longrightarrow> npath nx p ys None \<Longrightarrow> xs = ys"
proof (induction xs arbitrary: p ys)
  case Nil
  then show ?case by simp
next
  case (Cons x xs)
  then show ?case by (cases ys) auto
qed

lemma npath_distinct: "npath nx p xs None \<Longrightarrow> distinct xs"
proof (induction xs arbitrary: p)
  case (Cons x xs)
  have "x \<notin> set xs"
  proof
    assume "x \<in> set xs"
    then obtain as bs where xs: "xs = as @ x # bs" by (auto simp: in_set_conv_decomp)
    then have "npath nx (Some x) (x # bs) None" using Cons.prems by (auto simp: npath_append)
    moreover have "npath nx (Some x) (x # xs) None" using Cons.prems by simp
    ultimately have "x # xs = x # bs" by (rule npath_unique [rotated])
    then show False using xs by simp
  qed
  then show ?case using Cons by auto
qed simp

text \<open>Taking an object out by making its predecessor point to its successor, and putting one in front.\<close>

lemma npath_unlink:
  assumes "npath nx p (xs @ a # x # ys) None" "nx x = Some n"
  shows "npath (nx(a := Some n)) p (xs @ a # ys) None"
proof -
  have d: "distinct (xs @ a # x # ys)" using npath_distinct [OF assms(1)] .
  obtain r where r: "npath nx p xs r" "r = Some a" "npath nx n ys None" using assms by (auto simp: npath_append)
  then show ?thesis using d unfolding npath_append by (intro exI [of _ r]) auto
qed

lemma npath_push:
  assumes "npath nx p xs None" "x \<notin> set xs"
  shows "npath (nx(x := Some p)) (Some x) (x # xs) None"
  using assms by simp

text \<open>Where the \<^verbatim>\<open>next\<close> fields of a list point to, and the search for the predecessor of an object.\<close>

lemma npath_succ: "npath nx p (xs @ x # ys) q \<Longrightarrow> y \<in> set xs \<Longrightarrow> \<exists>z\<in>set xs \<union> {x}. nx y = Some (Some z)"
proof (induction xs arbitrary: p)
  case (Cons a xs)
  then show ?case by (cases xs) auto
qed simp

lemma npath_closed: "npath nx p xs None \<Longrightarrow> y \<in> set xs \<Longrightarrow> nx y = Some (Some z) \<Longrightarrow> z \<in> set xs"
proof (induction xs arbitrary: p)
  case (Cons a xs)
  then show ?case by (cases xs) auto
qed simp

lemma find_append_None: "find P xs = None \<Longrightarrow> find P (xs @ ys) = find P ys"
  by (induction xs) (auto split: if_splits)

lemma npath_find_pred:
  assumes "npath nx p (xs @ a # x # ys) None"
  shows "find (\<lambda>y. nx y = Some (Some x)) (xs @ a # x # ys) = Some a"
proof -
  have d: "distinct (xs @ a # x # ys)" using npath_distinct [OF assms] .
  have "find (\<lambda>y. nx y = Some (Some x)) xs = None"
    using npath_succ [OF assms] d by (fastforce simp: find_None_iff)
  moreover have "nx a = Some (Some x)" using assms by (auto simp: npath_append)
  ultimately show ?thesis by (simp add: find_append_None)
qed

end
