(* ===== verification/Udp_Pcb.thy ===== *)
theory Udp_Pcb
  imports Linked_List Chksum
begin

unbundle bit_operations_syntax

text \<open>
  The control blocks of UDP, \<^verbatim>\<open>lwip/src/core/udp.c\<close>: creation, binding, connecting and removal, on the linked list \<^verbatim>\<open>udp_pcbs\<close> and
  the pool \<^verbatim>\<open>MEMP_UDP_PCB\<close>. A control block is a number, its contents are in a store; \<open>'r\<close> is the type of receive functions
  with their argument. \<^verbatim>\<open>ip6_route\<close> is a parameter: the index of the interface for a source and a destination. All calls are
  made with the core lock held.
\<close>

subsection \<open>Addresses\<close>

text \<open>The macros of \<^verbatim>\<open>ip_addr.h\<close>, \<^verbatim>\<open>ip4_addr.h\<close>, \<^verbatim>\<open>ip6_addr.h\<close> and \<^verbatim>\<open>ip6_zone.h\<close> that UDP uses.\<close>

definition IP_IS_ANY_TYPE_VAL :: "ip_addr \<Rightarrow> bool" where
  "IP_IS_ANY_TYPE_VAL a \<longleftrightarrow> ip_type a = IPADDR_TYPE_ANY"

definition IP_IS_V6 :: "ip_addr \<Rightarrow> bool" where
  "IP_IS_V6 a \<longleftrightarrow> ip_type a = IPADDR_TYPE_V6"

definition IP_IS_V4 :: "ip_addr \<Rightarrow> bool" where
  "IP_IS_V4 a \<longleftrightarrow> ip_type a = IPADDR_TYPE_V4"

definition ip4_addr_isany :: "ip_addr \<Rightarrow> bool" where
  "ip4_addr_isany a \<longleftrightarrow> take 4 (u_addr a) = replicate 4 0"

definition ip6_addr_isany :: "ip_addr \<Rightarrow> bool" where
  "ip6_addr_isany a \<longleftrightarrow> take 16 (u_addr a) = replicate 16 0"

definition ip_addr_isany :: "ip_addr \<Rightarrow> bool" where
  "ip_addr_isany a = (if IP_IS_V6 a then ip6_addr_isany a else ip4_addr_isany a)"

definition ip4_addr_cmp :: "ip_addr \<Rightarrow> ip_addr \<Rightarrow> bool" where
  "ip4_addr_cmp a b \<longleftrightarrow> take 4 (u_addr a) = take 4 (u_addr b)"

definition ip6_addr_cmp :: "ip_addr \<Rightarrow> ip_addr \<Rightarrow> bool" where
  "ip6_addr_cmp a b \<longleftrightarrow> take 16 (u_addr a) = take 16 (u_addr b) \<and> ip_zone a = ip_zone b"

definition ip_addr_cmp :: "ip_addr \<Rightarrow> ip_addr \<Rightarrow> bool" where
  "ip_addr_cmp a b = (if ip_type a \<noteq> ip_type b then False else if IP_IS_V6 a then ip6_addr_cmp a b else ip4_addr_cmp a b)"

definition ip_addr_set :: "ip_addr \<Rightarrow> ip_addr" where
  "ip_addr_set src =
     (if IP_IS_V6 src then \<lparr>ip_type = ip_type src, u_addr = take 16 (u_addr src), ip_zone = ip_zone src\<rparr>
      else \<lparr>ip_type = ip_type src, u_addr = take 4 (u_addr src) @ replicate 12 0, ip_zone = 0\<rparr>)"

definition ip_addr_any :: "u8 \<Rightarrow> ip_addr" where
  "ip_addr_any ty = \<lparr>ip_type = ty, u_addr = replicate 16 0, ip_zone = 0\<rparr>"

definition ip6_addr_has_scope :: "ip_addr \<Rightarrow> bool" where
  "ip6_addr_has_scope a =
     (let b0 = u_addr a ! 0; b1 = u_addr a ! 1
      in b0 = 0xfe \<and> b1 AND 0xc0 = 0x80 \<or> b0 = 0xff \<and> b1 AND 0x8f = 0x01 \<or> b0 = 0xff \<and> b1 AND 0x8f = 0x02)"

definition ip6_addr_lacks_zone :: "ip_addr \<Rightarrow> bool" where
  "ip6_addr_lacks_zone a \<longleftrightarrow> ip_zone a = 0 \<and> ip6_addr_has_scope a"

type_synonym ip6_route_fn = "ip_addr \<Rightarrow> ip_addr \<Rightarrow> u8 option"

definition ip6_addr_select_zone :: "ip6_route_fn \<Rightarrow> ip_addr \<Rightarrow> ip_addr \<Rightarrow> ip_addr" where
  "ip6_addr_select_zone ip6_route dest src = (case ip6_route src dest of
     None \<Rightarrow> dest
   | Some i \<Rightarrow> dest\<lparr>ip_zone := if ip6_addr_has_scope dest then i else 0\<rparr>)"

subsection \<open>Control blocks\<close>

record 'r udp_pcb =
  local_ip :: ip_addr
  remote_ip :: ip_addr
  netif_idx :: u8
  so_options :: u8
  tos :: u8
  ttl :: u8
  udp_next :: "nat option"
  udp_flags :: u8
  local_port :: u16
  remote_port :: u16
  mcast_ip4 :: u32
  mcast_ifindex :: u8
  mcast_ttl :: u8
  chksum_len_rx :: u16
  chksum_len_tx :: u16
  udp_recv_fn :: "'r option"

abbreviation (input) UDP_FLAGS_NOCHKSUM :: u8 where "UDP_FLAGS_NOCHKSUM \<equiv> 0x01"
abbreviation (input) UDP_FLAGS_UDPLITE :: u8 where "UDP_FLAGS_UDPLITE \<equiv> 0x02"
abbreviation (input) UDP_FLAGS_CONNECTED :: u8 where "UDP_FLAGS_CONNECTED \<equiv> 0x04"
abbreviation (input) UDP_FLAGS_MULTICAST_LOOP :: u8 where "UDP_FLAGS_MULTICAST_LOOP \<equiv> 0x08"
abbreviation (input) UDP_TTL :: u8 where "UDP_TTL \<equiv> 255"
abbreviation (input) UDP_LOCAL_PORT_RANGE_START :: u16 where "UDP_LOCAL_PORT_RANGE_START \<equiv> 0xc000"
abbreviation (input) UDP_LOCAL_PORT_RANGE_END :: u16 where "UDP_LOCAL_PORT_RANGE_END \<equiv> 0xffff"

text \<open>The counters of the protocol, of 16 bits.\<close>

record stats_proto =
  st_xmit :: u16
  st_recv :: u16
  st_fw :: u16
  st_drop :: u16
  st_chkerr :: u16
  st_lenerr :: u16
  st_memerr :: u16
  st_rterr :: u16
  st_proterr :: u16
  st_opterr :: u16
  st_err :: u16
  st_cachehit :: u16

record 'r udp =
  pcbs :: "nat \<Rightarrow> 'r udp_pcb option"
  udp_pcbs :: "nat option"
  udp_port :: u16
  udp_mem :: pmem
  udp_stats :: stats_proto

definition put_pcb :: "nat \<Rightarrow> 'r udp_pcb \<Rightarrow> 'r udp \<Rightarrow> 'r udp" where
  "put_pcb x c s = s\<lparr>pcbs := (pcbs s)(x \<mapsto> c)\<rparr>"

text \<open>A loop through the list that ends at the first control block with a property.\<close>

partial_function (option) walk :: "(nat \<Rightarrow> 'r udp_pcb \<Rightarrow> bool) \<Rightarrow> nat option \<Rightarrow> (nat \<Rightarrow> 'r udp_pcb option) \<Rightarrow> nat option option" where
  "walk P p h = (case p of
     None \<Rightarrow> Some None
   | Some x \<Rightarrow> do { c \<leftarrow> h x; if P x c then Some (Some x) else walk P (udp_next c) h })"

text \<open>\<open>r\<close>: what \<^verbatim>\<open>LWIP_RAND\<close> returns.\<close>

definition udp_init :: "u32 \<Rightarrow> 'r udp \<Rightarrow> 'r udp" where
  "udp_init r s = s\<lparr>udp_port := (ucast r AND NOT UDP_LOCAL_PORT_RANGE_START) + UDP_LOCAL_PORT_RANGE_START\<rparr>"

partial_function (option) new_port_loop :: "u16 \<Rightarrow> 'r udp \<Rightarrow> (u16 \<times> 'r udp) option" where
  "new_port_loop n s = do {
     let port = (if udp_port s = UDP_LOCAL_PORT_RANGE_END then UDP_LOCAL_PORT_RANGE_START else udp_port s + 1);
     let s1 = s\<lparr>udp_port := port\<rparr>;
     used \<leftarrow> walk (\<lambda>x c. local_port c = port) (udp_pcbs s1) (pcbs s1);
     if used \<noteq> None
     then (if n + 1 > UDP_LOCAL_PORT_RANGE_END - UDP_LOCAL_PORT_RANGE_START then Some (0, s1) else new_port_loop (n + 1) s1)
     else Some (port, s1) }"

definition udp_new_port :: "'r udp \<Rightarrow> (u16 \<times> 'r udp) option" where
  "udp_new_port s = new_port_loop 0 s"

text \<open>The address to bind to: the given one, with a zone if it needs one.\<close>

definition bind_ip :: "ip6_route_fn \<Rightarrow> ip_addr option \<Rightarrow> ip_addr" where
  "bind_ip ip6_route ipaddr = (let ip = (case ipaddr of None \<Rightarrow> ip_addr_any IPADDR_TYPE_V4 | Some a \<Rightarrow> a)
     in if IP_IS_V6 ip \<and> ip6_addr_lacks_zone ip then ip6_addr_select_zone ip6_route (ip_addr_set ip) (ip_addr_set ip) else ip)"

text \<open>Another control block on the list takes datagrams for the address and port.\<close>

definition port_taken :: "nat \<Rightarrow> ip_addr \<Rightarrow> u16 \<Rightarrow> nat \<Rightarrow> 'r udp_pcb \<Rightarrow> bool" where
  "port_taken x ip port y c \<longleftrightarrow> x \<noteq> y \<and> local_port c = port \<and>
     (ip_addr_cmp (local_ip c) ip \<or> ip_addr_isany ip \<or> ip_addr_isany (local_ip c))"

definition udp_bind :: "ip6_route_fn \<Rightarrow> nat option \<Rightarrow> ip_addr option \<Rightarrow> u16 \<Rightarrow> 'r udp \<Rightarrow> (err_t \<times> 'r udp) option" where
  "udp_bind ip6_route pcb ipaddr port s = do {
     x \<leftarrow> pcb;
     rebind \<leftarrow> walk (\<lambda>y c. y = x) (udp_pcbs s) (pcbs s);
     let ip = bind_ip ip6_route ipaddr;
     (err, port1, s1) \<leftarrow>
       (if port = 0
        then do { (p, s1) \<leftarrow> udp_new_port s; Some (if p = 0 then ERR_USE else ERR_OK, p, s1) }
        else do {
          used \<leftarrow> walk (port_taken x ip port) (udp_pcbs s) (pcbs s);
          Some (if used \<noteq> None then ERR_USE else ERR_OK, port, s) });
     if err \<noteq> ERR_OK then Some (err, s1)
     else do {
       c \<leftarrow> pcbs s1 x;
       let c1 = c\<lparr>local_ip := ip_addr_set ip, local_port := port1\<rparr>;
       Some (ERR_OK, if rebind = None then (put_pcb x (c1\<lparr>udp_next := udp_pcbs s1\<rparr>) s1)\<lparr>udp_pcbs := Some x\<rparr> else put_pcb x c1 s1) } }"

text \<open>\<open>i\<close>: the index of the interface, \<open>None\<close> for \<^verbatim>\<open>NULL\<close>.\<close>

definition udp_bind_netif :: "nat \<Rightarrow> u8 option \<Rightarrow> 'r udp \<Rightarrow> 'r udp option" where
  "udp_bind_netif x i s = do { c \<leftarrow> pcbs s x; Some (put_pcb x (c\<lparr>netif_idx := (case i of None \<Rightarrow> 0 | Some n \<Rightarrow> n)\<rparr>) s) }"

definition connect_ip :: "ip6_route_fn \<Rightarrow> ip_addr \<Rightarrow> ip_addr \<Rightarrow> ip_addr" where
  "connect_ip ip6_route ipaddr src = (let ip = ip_addr_set ipaddr
     in if IP_IS_V6 ip \<and> ip6_addr_lacks_zone ip then ip6_addr_select_zone ip6_route ip src else ip)"

definition udp_connect :: "ip6_route_fn \<Rightarrow> nat option \<Rightarrow> ip_addr option \<Rightarrow> u16 \<Rightarrow> 'r udp \<Rightarrow> (err_t \<times> 'r udp) option" where
  "udp_connect ip6_route pcb ipaddr port s = do {
     x \<leftarrow> pcb;
     ip \<leftarrow> ipaddr;
     c \<leftarrow> pcbs s x;
     (err, s1) \<leftarrow> (if local_port c = 0 then udp_bind ip6_route pcb (Some (local_ip c)) (local_port c) s else Some (ERR_OK, s));
     if err \<noteq> ERR_OK then Some (err, s1)
     else do {
       c1 \<leftarrow> pcbs s1 x;
       let c2 = c1\<lparr>remote_ip := connect_ip ip6_route ip (local_ip c1), remote_port := port, udp_flags := udp_flags c1 OR UDP_FLAGS_CONNECTED\<rparr>;
       let s2 = put_pcb x c2 s1;
       found \<leftarrow> walk (\<lambda>y c. y = x) (udp_pcbs s2) (pcbs s2);
       Some (ERR_OK, if found \<noteq> None then s2 else (put_pcb x (c2\<lparr>udp_next := udp_pcbs s2\<rparr>) s2)\<lparr>udp_pcbs := Some x\<rparr>) } }"

definition udp_disconnect :: "nat option \<Rightarrow> 'r udp \<Rightarrow> 'r udp option" where
  "udp_disconnect pcb s = do {
     x \<leftarrow> pcb;
     c \<leftarrow> pcbs s x;
     let ip = (if IP_IS_ANY_TYPE_VAL (local_ip c) then ip_addr_any IPADDR_TYPE_ANY
               else ip_addr_any (if IP_IS_V6 (remote_ip c) then IPADDR_TYPE_V6 else IPADDR_TYPE_V4));
     Some (put_pcb x (c\<lparr>remote_ip := ip, remote_port := 0, netif_idx := 0, udp_flags := udp_flags c AND NOT UDP_FLAGS_CONNECTED\<rparr>) s) }"

definition udp_recv :: "nat option \<Rightarrow> 'r option \<Rightarrow> 'r udp \<Rightarrow> 'r udp option" where
  "udp_recv pcb recv s = do { x \<leftarrow> pcb; c \<leftarrow> pcbs s x; Some (put_pcb x (c\<lparr>udp_recv_fn := recv\<rparr>) s) }"

definition free_pcb :: "nat \<Rightarrow> 'r udp \<Rightarrow> 'r udp" where
  "free_pcb x s = s\<lparr>pcbs := (pcbs s)(x := None),
     udp_mem := (udp_mem s)\<lparr>pools := memp_free MEMP_UDP_PCB (Some x) (pools (udp_mem s))\<rparr>\<rparr>"

definition udp_remove :: "nat option \<Rightarrow> 'r udp \<Rightarrow> 'r udp option" where
  "udp_remove pcb s = do {
     x \<leftarrow> pcb;
     c \<leftarrow> pcbs s x;
     if udp_pcbs s = Some x then Some (free_pcb x (s\<lparr>udp_pcbs := udp_next c\<rparr>))
     else do {
       prev \<leftarrow> walk (\<lambda>y d. udp_next d = Some x) (udp_pcbs s) (pcbs s);
       case prev of
         None \<Rightarrow> Some (free_pcb x s)
       | Some y \<Rightarrow> do { d \<leftarrow> pcbs s y; Some (free_pcb x (put_pcb y (d\<lparr>udp_next := udp_next c\<rparr>) s)) } } }"

definition udp_new :: "'r udp \<Rightarrow> nat option \<times> 'r udp" where
  "udp_new s = (let (e, ps) = memp_malloc MEMP_UDP_PCB (pools (udp_mem s)); s1 = s\<lparr>udp_mem := (udp_mem s)\<lparr>pools := ps\<rparr>\<rparr>
     in case e of
          None \<Rightarrow> (None, s1)
        | Some x \<Rightarrow> (Some x, put_pcb x
            \<lparr>local_ip = ip_addr_any 0, remote_ip = ip_addr_any 0, netif_idx = 0, so_options = 0, tos = 0, ttl = UDP_TTL, udp_next = None, udp_flags = 0,
             local_port = 0, remote_port = 0, mcast_ip4 = 0, mcast_ifindex = 0, mcast_ttl = UDP_TTL, chksum_len_rx = 0, chksum_len_tx = 0, udp_recv_fn = None\<rparr> s1))"

definition udp_new_ip_type :: "u8 \<Rightarrow> 'r udp \<Rightarrow> (nat option \<times> 'r udp) option" where
  "udp_new_ip_type ty s = (let (p, s1) = udp_new s
     in case p of
          None \<Rightarrow> Some (None, s1)
        | Some x \<Rightarrow> do {
            c \<leftarrow> pcbs s1 x;
            Some (Some x, put_pcb x (c\<lparr>local_ip := (local_ip c)\<lparr>ip_type := ty\<rparr>, remote_ip := (remote_ip c)\<lparr>ip_type := ty\<rparr>\<rparr>) s1) })"

partial_function (option) addr_changed_loop :: "ip_addr \<Rightarrow> ip_addr \<Rightarrow> nat option \<Rightarrow> 'r udp \<Rightarrow> 'r udp option" where
  "addr_changed_loop old_addr new_addr p s = (case p of
     None \<Rightarrow> Some s
   | Some x \<Rightarrow> do {
       c \<leftarrow> pcbs s x;
       addr_changed_loop old_addr new_addr (udp_next c)
         (if ip_addr_cmp (local_ip c) old_addr then put_pcb x (c\<lparr>local_ip := ip_addr_set new_addr\<rparr>) s else s) })"

definition udp_netif_ip_addr_changed :: "ip_addr \<Rightarrow> ip_addr \<Rightarrow> 'r udp \<Rightarrow> 'r udp option" where
  "udp_netif_ip_addr_changed old_addr new_addr s =
     (if \<not> ip_addr_isany old_addr \<and> \<not> ip_addr_isany new_addr then addr_changed_loop old_addr new_addr (udp_pcbs s) s else Some s)"

subsection \<open>The invariant\<close>

text \<open>
  \<open>addr_ok\<close>: the sixteen bytes of the union are there, and the address of a dual-stack control block is the unspecified one.
  \<open>clash\<close>: two bindings that would take the same datagrams. \<open>udp_wf s xs\<close>: the list holds the live control blocks \<open>xs\<close>,
  exactly those that have a port, no two of them with clashing bindings; the control blocks are the elements in use of the pool.
\<close>

definition addr_ok :: "ip_addr \<Rightarrow> bool" where
  "addr_ok a \<longleftrightarrow> length (u_addr a) = 16 \<and> (IP_IS_ANY_TYPE_VAL a \<longrightarrow> ip_addr_isany a)"

definition clash :: "'r udp_pcb \<Rightarrow> 'r udp_pcb \<Rightarrow> bool" where
  "clash c d \<longleftrightarrow> local_port c = local_port d \<and>
     (ip_addr_cmp (local_ip c) (local_ip d) \<or> ip_addr_isany (local_ip c) \<or> ip_addr_isany (local_ip d))"

abbreviation nexts :: "(nat \<Rightarrow> 'r udp_pcb option) \<Rightarrow> nat \<Rightarrow> nat option option" where
  "nexts h x \<equiv> map_option udp_next (h x)"

definition exclusive :: "nat set \<Rightarrow> (nat \<Rightarrow> 'r udp_pcb option) \<Rightarrow> bool" where
  "exclusive X h \<longleftrightarrow> (\<forall>x\<in>X. \<forall>y\<in>X. x \<noteq> y \<longrightarrow> \<not> clash (the (h x)) (the (h y)))"

definition ports_listed :: "nat set \<Rightarrow> (nat \<Rightarrow> 'r udp_pcb option) \<Rightarrow> bool" where
  "ports_listed X h \<longleftrightarrow> (\<forall>x c. h x = Some c \<longrightarrow> (local_port c \<noteq> 0 \<longleftrightarrow> x \<in> X) \<and> addr_ok (local_ip c))"

definition udp_wf :: "'r udp \<Rightarrow> nat list \<Rightarrow> bool" where
  "udp_wf s xs \<longleftrightarrow> npath (nexts (pcbs s)) (udp_pcbs s) xs None \<and> UDP_LOCAL_PORT_RANGE_START \<le> udp_port s \<and>
     pool_live (memp_num MEMP_UDP_PCB) (pools (udp_mem s) MEMP_UDP_PCB) (dom (pcbs s)) \<and>
     ports_listed (set xs) (pcbs s) \<and> exclusive (set xs) (pcbs s)"

lemma cmp_sym: "ip_addr_cmp a b \<longleftrightarrow> ip_addr_cmp b a"
  by (auto simp: ip_addr_cmp_def IP_IS_V6_def ip6_addr_cmp_def ip4_addr_cmp_def)

lemma cmp_trans: "ip_addr_cmp a b \<Longrightarrow> ip_addr_cmp b c \<Longrightarrow> ip_addr_cmp a c"
  by (auto simp: ip_addr_cmp_def IP_IS_V6_def ip6_addr_cmp_def ip4_addr_cmp_def split: if_splits)

lemma clash_sym: "clash c d \<longleftrightarrow> clash d c"
  using cmp_sym [of "local_ip c" "local_ip d"] by (auto simp: clash_def)

lemma set_isany: "length (u_addr a) = 16 \<Longrightarrow> ip_addr_isany (ip_addr_set a) = ip_addr_isany a"
  by (simp add: ip_addr_set_def ip_addr_isany_def IP_IS_V6_def ip6_addr_isany_def ip4_addr_isany_def)

lemma set_cmp: "length (u_addr a) = 16 \<Longrightarrow> ip_addr_cmp b (ip_addr_set a) = ip_addr_cmp b a"
  by (simp add: ip_addr_set_def ip_addr_cmp_def IP_IS_V6_def ip6_addr_cmp_def ip4_addr_cmp_def)

lemma set_ok: "addr_ok a \<Longrightarrow> addr_ok (ip_addr_set a)"
  using set_isany [of a] by (auto simp: addr_ok_def IP_IS_ANY_TYPE_VAL_def ip_addr_set_def split: if_splits)

lemma zone_ok: "addr_ok a \<Longrightarrow> addr_ok (ip6_addr_select_zone r a b)"
  by (auto simp: addr_ok_def ip6_addr_select_zone_def IP_IS_ANY_TYPE_VAL_def ip_addr_isany_def IP_IS_V6_def ip6_addr_isany_def
      ip4_addr_isany_def split: option.splits)

lemma any_ok [simp]: "addr_ok (ip_addr_any ty)" "addr_ok ((ip_addr_any ty)\<lparr>ip_type := ty'\<rparr>)"
  by (auto simp: addr_ok_def ip_addr_any_def ip_addr_isany_def IP_IS_V6_def ip6_addr_isany_def ip4_addr_isany_def)

lemma put_pcb_sel [simp]:
  "pcbs (put_pcb x c s) = (pcbs s)(x \<mapsto> c)" "udp_pcbs (put_pcb x c s) = udp_pcbs s" "udp_port (put_pcb x c s) = udp_port s"
  "udp_mem (put_pcb x c s) = udp_mem s" "udp_stats (put_pcb x c s) = udp_stats s"
  by (simp_all add: put_pcb_def)

lemma udp_wfD:
  assumes "udp_wf s xs"
  shows "npath (nexts (pcbs s)) (udp_pcbs s) xs None" "UDP_LOCAL_PORT_RANGE_START \<le> udp_port s" "distinct xs"
    "pool_live (memp_num MEMP_UDP_PCB) (pools (udp_mem s) MEMP_UDP_PCB) (dom (pcbs s))" "exclusive (set xs) (pcbs s)"
    "set xs \<subseteq> dom (pcbs s)" "ports_listed (set xs) (pcbs s)"
    "pcbs s x = Some c \<Longrightarrow> local_port c \<noteq> 0 \<longleftrightarrow> x \<in> set xs" "pcbs s x = Some c \<Longrightarrow> addr_ok (local_ip c)"
proof -
  show l: "npath (nexts (pcbs s)) (udp_pcbs s) xs None" using assms by (simp add: udp_wf_def)
  show "distinct xs" using npath_distinct [OF l] .
  show "set xs \<subseteq> dom (pcbs s)" using npath_live [OF l] by auto
qed (use assms in \<open>auto simp: udp_wf_def ports_listed_def\<close>)

lemma walk_find:
  "npath (nexts h) p xs None \<Longrightarrow> walk P p h = Some (find (\<lambda>x. P x (the (h x))) xs)"
proof (induction xs arbitrary: p)
  case Nil
  then show ?case by (simp add: walk.simps [of P None])
next
  case (Cons x xs)
  then obtain c where "p = Some x" "h x = Some c" "npath (nexts h) (udp_next c) xs None" by auto
  then show ?case using Cons.IH [of "udp_next c"] by (simp add: walk.simps [of P "Some x"])
qed

lemma find_eq: "find (\<lambda>y. y = x) xs = (if x \<in> set xs then Some x else None)"
  by (induction xs) auto

text \<open>Replacing a control block without touching its link.\<close>

lemma nexts_upd: "h x = Some c \<Longrightarrow> udp_next c' = udp_next c \<Longrightarrow> nexts (h(x \<mapsto> c')) = nexts h"
  by (rule ext) auto

lemma exclusive_upd:
  assumes X: "exclusive X h" and n: "\<And>y. x \<in> Y \<Longrightarrow> y \<in> X \<Longrightarrow> y \<noteq> x \<Longrightarrow> \<not> clash c' (the (h y))" and Y: "Y - {x} = X - {x}"
  shows "exclusive Y (h(x \<mapsto> c'))"
  unfolding exclusive_def
proof (intro ballI impI)
  fix u v
  assume uv: "u \<in> Y" "v \<in> Y" "u \<noteq> v"
  then have m: "u \<noteq> x \<Longrightarrow> u \<in> X" "v \<noteq> x \<Longrightarrow> v \<in> X" using Y by auto
  show "\<not> clash (the ((h(x \<mapsto> c')) u)) (the ((h(x \<mapsto> c')) v))"
  proof (cases "u = x \<or> v = x")
    case True
    then show ?thesis using uv n [of u] n [of v] m clash_sym [of c'] by auto
  next
    case False
    then show ?thesis using X m uv by (simp add: exclusive_def)
  qed
qed

lemma ports_upd:
  assumes "ports_listed X h" "addr_ok (local_ip c')" "local_port c' \<noteq> 0 \<longleftrightarrow> x \<in> Y" "Y - {x} = X - {x}"
  shows "ports_listed Y (h(x \<mapsto> c'))"
  using assms by (auto simp: ports_listed_def)

lemma wf_upd:
  assumes W: "udp_wf s xs" and x: "pcbs s x = Some c" and l: "npath (nexts ((pcbs s)(x \<mapsto> c'))) p ys None"
    and c: "addr_ok (local_ip c')" "local_port c' \<noteq> 0 \<longleftrightarrow> x \<in> set ys" "set ys - {x} = set xs - {x}"
    and n: "\<And>y. x \<in> set ys \<Longrightarrow> y \<in> set xs \<Longrightarrow> y \<noteq> x \<Longrightarrow> \<not> clash c' (the (pcbs s y))"
  shows "udp_wf ((put_pcb x c' s)\<lparr>udp_pcbs := p\<rparr>) ys"
proof -
  have "dom ((pcbs s)(x \<mapsto> c')) = dom (pcbs s)" using x by auto
  moreover have "exclusive (set ys) ((pcbs s)(x \<mapsto> c'))"
    by (rule exclusive_upd [OF udp_wfD(5) [OF W] n c(3)])
  ultimately show ?thesis
    using ports_upd [OF udp_wfD(7) [OF W] c] l udp_wfD(2,4) [OF W] by (simp add: udp_wf_def del: fun_upd_apply dom_fun_upd)
qed

lemma put_pcb_same: "udp_pcbs s = p \<Longrightarrow> (put_pcb x c s)\<lparr>udp_pcbs := p\<rparr> = put_pcb x c s"
  by (simp add: put_pcb_def)

lemma wf_rebind:
  assumes W: "udp_wf s xs" and x: "pcbs s x = Some c" and c: "udp_next c' = udp_next c" "local_port c' \<noteq> 0 \<longleftrightarrow> x \<in> set xs" "addr_ok (local_ip c')"
    and n: "\<And>y. x \<in> set xs \<Longrightarrow> y \<in> set xs \<Longrightarrow> y \<noteq> x \<Longrightarrow> \<not> clash c' (the (pcbs s y))"
  shows "udp_wf (put_pcb x c' s) xs"
proof -
  have "npath (nexts ((pcbs s)(x \<mapsto> c'))) (udp_pcbs s) xs None" unfolding nexts_upd [of "pcbs s", OF x c(1)] by (rule udp_wfD(1) [OF W])
  from wf_upd [OF W x this c(3,2) refl n] show ?thesis by (simp add: put_pcb_same)
qed

lemma wf_put:
  assumes W: "udp_wf s xs" and x: "pcbs s x = Some c"
    and c: "udp_next c' = udp_next c" "local_port c' = local_port c" "local_ip c' = local_ip c"
  shows "udp_wf (put_pcb x c' s) xs"
proof (rule wf_rebind [OF W x c(1)])
  have e: "clash c' d = clash c d" for d using c by (simp add: clash_def)
  show "\<not> clash c' (the (pcbs s y))" if "x \<in> set xs" "y \<in> set xs" "y \<noteq> x" for y
    using udp_wfD(5) [OF W] that x unfolding e exclusive_def by force
qed (use udp_wfD [OF W] x c in auto)

lemma wf_enlist:
  assumes W: "udp_wf s xs" and x: "pcbs s x = Some c" "x \<notin> set xs" and c: "local_port c' \<noteq> 0" "addr_ok (local_ip c')" "udp_next c' = udp_pcbs s"
    and n: "\<And>y. y \<in> set xs \<Longrightarrow> \<not> clash c' (the (pcbs s y))"
  shows "udp_wf ((put_pcb x c' s)\<lparr>udp_pcbs := Some x\<rparr>) (x # xs)"
proof (rule wf_upd [OF W x(1)])
  have "nexts ((pcbs s)(x \<mapsto> c')) = (nexts (pcbs s))(x := Some (udp_pcbs s))" using c(3) by (auto simp: fun_eq_iff)
  then show "npath (nexts ((pcbs s)(x \<mapsto> c'))) (Some x) (x # xs) None" using npath_push [OF udp_wfD(1) [OF W] x(2)] by presburger
qed (use x c n in auto)

subsection \<open>A free port\<close>

definition next_port :: "u16 \<Rightarrow> u16" where
  "next_port p = (if p = UDP_LOCAL_PORT_RANGE_END then UDP_LOCAL_PORT_RANGE_START else p + 1)"

lemma next_port_range:
  assumes "0xc000 \<le> p"
  shows "0xc000 \<le> next_port p" "unat (next_port p) = 49152 + (unat p - 49152 + 1) mod 16384"
proof -
  have p: "49152 \<le> unat p" "unat p < 65536" using assms unat16_less by (auto simp: word_le_nat_alt)
  show "unat (next_port p) = 49152 + (unat p - 49152 + 1) mod 16384"
  proof (cases "p = 0xffff")
    case False
    then have "unat p \<noteq> 65535" by unat_arith
    then have "unat (p + 1) = unat p + 1" "(unat p - 49152 + 1) mod 16384 = unat p - 49152 + 1"
      using p unat_add_no_overflow [of p 1] by auto
    then show ?thesis using False p by (simp add: next_port_def)
  qed (simp add: next_port_def)
  then show "0xc000 \<le> next_port p" by (simp add: word_le_nat_alt)
qed

lemma ports_range:
  assumes "0xc000 \<le> p"
  shows "0xc000 \<le> (next_port ^^ k) p \<and> unat ((next_port ^^ k) p) = 49152 + (unat p - 49152 + k) mod 16384"
proof (induction k)
  case 0
  have "49152 \<le> unat p" "unat p < 65536" using assms unat16_less by (auto simp: word_le_nat_alt)
  then show ?case using assms by simp
next
  case (Suc k)
  then show ?case using next_port_range [of "(next_port ^^ k) p"] by (simp add: mod_Suc_eq)
qed

lemma mod_add_inj:
  assumes "(a + i) mod m = (a + j) mod m" "i < m" "j < (m :: nat)"
  shows "i = j"
proof -
  have "u = v" if "(a + u) mod m = (a + v) mod m" "u \<le> v" "v < m" for u v
  proof -
    have "m dvd v - u" using mod_eq_dvd_iff_nat [of "a + u" "a + v" m] that by simp
    then show ?thesis using that by (auto dest: dvd_imp_le)
  qed
  from this [of i j] this [of j i] assms show ?thesis by linarith
qed

lemma ports_inj:
  assumes "0xc000 \<le> p"
  shows "inj_on (\<lambda>k. (next_port ^^ Suc k) p) {..<16384}"
proof (rule inj_onI)
  fix i j :: nat
  assume ij: "i \<in> {..<16384}" "j \<in> {..<16384}" "(next_port ^^ Suc i) p = (next_port ^^ Suc j) p"
  have "(unat p - 49152 + Suc i) mod 16384 = (unat p - 49152 + Suc j) mod 16384"
    using ports_range [OF assms, of "Suc i"] ports_range [OF assms, of "Suc j"] ij(3) by simp
  then show "i = j" using ij(1,2) mod_add_inj [of "Suc (unat p - 49152)" i 16384 j] by simp
qed

lemma some_port_free:
  assumes "0xc000 \<le> p" "length us < 16384"
  shows "\<exists>k<16384. (next_port ^^ Suc k) p \<notin> set us"
proof (rule ccontr)
  assume "\<not> (\<exists>k<16384. (next_port ^^ Suc k) p \<notin> set us)"
  then have "(\<lambda>k. (next_port ^^ Suc k) p) ` {..<16384} \<subseteq> set us" by auto
  from card_mono [OF _ this] have "16384 \<le> card (set us)" using card_image [OF ports_inj [OF assms(1)]] by simp
  then show False using card_length [of us] assms(2) by simp
qed

lemma new_port_loop_eq:
  assumes "npath (nexts (pcbs s)) (udp_pcbs s) xs None" and U: "U = (\<lambda>x. local_port (the (pcbs s x))) ` set xs"
    and "\<And>j. j < k \<Longrightarrow> (next_port ^^ Suc j) (udp_port s) \<in> U" "(next_port ^^ Suc k) (udp_port s) \<notin> U" "unat n + k < 16384"
  shows "new_port_loop n s = Some ((next_port ^^ Suc k) (udp_port s), s\<lparr>udp_port := (next_port ^^ Suc k) (udp_port s)\<rparr>)"
  using assms
proof (induction k arbitrary: n s)
  case 0
  have "find (\<lambda>x. local_port (the (pcbs s x)) = next_port (udp_port s)) xs = None" using 0(2,4) by (auto simp: find_None_iff image_iff)
  then show ?case using walk_find [OF 0(1)] by (simp add: new_port_loop.simps [of n s] next_port_def [symmetric] Let_def)
next
  case (Suc k)
  let ?s = "s\<lparr>udp_port := next_port (udp_port s)\<rparr>"
  have "find (\<lambda>x. local_port (the (pcbs s x)) = next_port (udp_port s)) xs \<noteq> None"
    using Suc.prems(2) Suc.prems(3) [of 0] by (auto simp: find_None_iff image_iff)
  moreover have n: "unat (n + 1) = unat n + 1" using unat_add_no_overflow [of n 1] Suc.prems(5) by simp
  then have "\<not> n + 1 > 0xffff - 0xc000" using Suc.prems(5) by (simp add: word_less_nat_alt)
  ultimately have "new_port_loop n s = new_port_loop (n + 1) ?s"
    using walk_find [OF Suc.prems(1)] by (simp add: new_port_loop.simps [of n s] next_port_def [symmetric] Let_def)
  also have "\<dots> = Some ((next_port ^^ Suc k) (udp_port ?s), ?s\<lparr>udp_port := (next_port ^^ Suc k) (udp_port ?s)\<rparr>)"
  proof (rule Suc.IH)
    show "(next_port ^^ Suc j) (udp_port ?s) \<in> U" if "j < k" for j
      using Suc.prems(3) [of "Suc j"] that by (simp add: funpow_swap1)
  qed (use Suc.prems n in \<open>simp_all add: funpow_swap1\<close>)
  finally show ?case by (simp add: funpow_swap1)
qed

lemma listed_few: "udp_wf s xs \<Longrightarrow> length xs \<le> 8"
proof -
  assume W: "udp_wf s xs"
  have "dom (pcbs s) \<subseteq> {..<8}" using udp_wfD(4) [OF W] by (auto simp: pool_live_def)
  then have "card (set xs) \<le> 8" using udp_wfD(6) [OF W] card_mono [of "{..<8::nat}" "set xs"] by auto
  then show "length xs \<le> 8" using distinct_card [OF udp_wfD(3) [OF W]] by simp
qed

lemma new_port_ok:
  assumes W: "udp_wf s xs"
  shows "\<exists>p. udp_new_port s = Some (p, s\<lparr>udp_port := p\<rparr>) \<and> UDP_LOCAL_PORT_RANGE_START \<le> p \<and> (\<forall>x\<in>set xs. local_port (the (pcbs s x)) \<noteq> p)"
proof -
  let ?U = "(\<lambda>x. local_port (the (pcbs s x))) ` set xs" and ?p = "\<lambda>k. (next_port ^^ Suc k) (udp_port s)"
  obtain k0 where k0: "k0 < 16384" "?p k0 \<notin> ?U"
    using some_port_free [OF udp_wfD(2) [OF W], of "map (\<lambda>x. local_port (the (pcbs s x))) xs"] listed_few [OF W] by auto
  define k where "k = (LEAST k. ?p k \<notin> ?U)"
  have k: "k < 16384" "?p k \<notin> ?U" "\<And>j. j < k \<Longrightarrow> ?p j \<in> ?U"
    using k0 Least_le [of "\<lambda>k. ?p k \<notin> ?U" k0] LeastI [of "\<lambda>k. ?p k \<notin> ?U" k0] not_less_Least [of _ "\<lambda>k. ?p k \<notin> ?U"]
    unfolding k_def by (linarith, blast, blast)
  have "udp_new_port s = Some (?p k, s\<lparr>udp_port := ?p k\<rparr>)"
    unfolding udp_new_port_def using k by (intro new_port_loop_eq [OF udp_wfD(1) [OF W] refl]) simp_all
  moreover have "0xc000 \<le> ?p k" using ports_range [OF udp_wfD(2) [OF W], of "Suc k"] by simp
  ultimately show ?thesis using k(2) by (intro exI [of _ "?p k"]) (auto simp: image_iff)
qed

subsection \<open>Binding and connecting\<close>

abbreviation taken :: "nat \<Rightarrow> ip_addr \<Rightarrow> u16 \<Rightarrow> nat set \<Rightarrow> (nat \<Rightarrow> 'r udp_pcb option) \<Rightarrow> bool" where
  "taken x ip port X h \<equiv> \<exists>y\<in>X. port_taken x ip port y (the (h y))"

lemma bind_ip_ok: "(\<And>a. ipaddr = Some a \<Longrightarrow> addr_ok a) \<Longrightarrow> addr_ok (bind_ip r ipaddr)"
  by (cases ipaddr) (auto simp: bind_ip_def Let_def intro!: zone_ok set_ok)

lemma wf_port: "udp_wf s xs \<Longrightarrow> UDP_LOCAL_PORT_RANGE_START \<le> p \<Longrightarrow> udp_wf (s\<lparr>udp_port := p\<rparr>) xs"
  by (simp add: udp_wf_def)

text \<open>What a successful bind leaves: \<open>x\<close> on the list with the address and port, the other control blocks as they were.\<close>

definition bound :: "nat \<Rightarrow> 'r udp_pcb \<Rightarrow> ip_addr \<Rightarrow> u16 \<Rightarrow> 'r udp \<Rightarrow> 'r udp \<Rightarrow> nat list \<Rightarrow> bool" where
  "bound x c ip port s s' xs' \<longleftrightarrow> udp_wf s' xs' \<and> x \<in> set xs' \<and> udp_mem s' = udp_mem s \<and>
     (\<exists>n. pcbs s' = (pcbs s)(x \<mapsto> c\<lparr>local_ip := ip_addr_set ip, local_port := port, udp_next := n\<rparr>))"

lemma wf_bound:
  assumes W: "udp_wf s xs" and x: "pcbs s x = Some c" and ip: "addr_ok ip" "port \<noteq> 0" and n: "\<not> taken x ip port (set xs) (pcbs s)"
    and c1: "c1 = c\<lparr>local_ip := ip_addr_set ip, local_port := port\<rparr>"
  shows "\<exists>xs'. bound x c ip port s
    (if x \<in> set xs then put_pcb x c1 s else (put_pcb x (c1\<lparr>udp_next := udp_pcbs s\<rparr>) s)\<lparr>udp_pcbs := Some x\<rparr>) xs'"
proof -
  have l: "length (u_addr ip) = 16" using ip(1) by (simp add: addr_ok_def)
  have n': "\<not> clash (c1\<lparr>udp_next := m\<rparr>) (the (pcbs s y))" if "y \<in> set xs" "y \<noteq> x" for y m
    using n that set_cmp [OF l] set_isany [OF l] cmp_sym by (auto simp: port_taken_def clash_def c1)
  show ?thesis
  proof (cases "x \<in> set xs")
    case True
    have "udp_wf (put_pcb x c1 s) xs"
      using True ip set_ok [OF ip(1)] n' [of _ "udp_next c"] by (intro wf_rebind [OF W x]) (auto simp: c1)
    then show ?thesis using True by (intro exI [of _ xs]) (auto simp: bound_def c1 intro!: exI [of _ "udp_next c"])
  next
    case False
    have "udp_wf ((put_pcb x (c1\<lparr>udp_next := udp_pcbs s\<rparr>) s)\<lparr>udp_pcbs := Some x\<rparr>) (x # xs)"
      using False ip set_ok [OF ip(1)] n' by (intro wf_enlist [OF W x False]) (auto simp: c1)
    then show ?thesis using False by (intro exI [of _ "x # xs"]) (auto simp: bound_def c1)
  qed
qed

lemma bind_fixed:
  assumes W: "udp_wf s xs" and x: "pcbs s x = Some c" and ip: "addr_ok (bind_ip r ipaddr)" and port: "port \<noteq> 0"
  shows "if taken x (bind_ip r ipaddr) port (set xs) (pcbs s) then udp_bind r (Some x) ipaddr port s = Some (ERR_USE, s)
    else \<exists>s' xs'. udp_bind r (Some x) ipaddr port s = Some (ERR_OK, s') \<and> bound x c (bind_ip r ipaddr) port s s' xs'"
proof -
  note w = walk_find [OF udp_wfD(1) [OF W]]
  let ?t = "find (\<lambda>y. port_taken x (bind_ip r ipaddr) port y (the (pcbs s y))) xs"
  show ?thesis
  proof (cases ?t)
    case None
    then have n: "\<not> taken x (bind_ip r ipaddr) port (set xs) (pcbs s)" by (auto simp: find_None_iff)
    show ?thesis using wf_bound [OF W x ip port n refl] port x n None
      by (auto simp: udp_bind_def w find_eq Let_def split: if_splits)
  next
    case (Some y)
    then have "taken x (bind_ip r ipaddr) port (set xs) (pcbs s)" by (auto simp: find_Some_iff)
    then show ?thesis using port Some by (simp add: udp_bind_def w find_eq Let_def)
  qed
qed

lemma bind_any:
  assumes W: "udp_wf s xs" and x: "pcbs s x = Some c" and ip: "addr_ok (bind_ip r ipaddr)"
  shows "\<exists>p s' xs'. udp_bind r (Some x) ipaddr 0 s = Some (ERR_OK, s') \<and> bound x c (bind_ip r ipaddr) p s s' xs' \<and>
    UDP_LOCAL_PORT_RANGE_START \<le> p \<and> (\<forall>y\<in>set xs. local_port (the (pcbs s y)) \<noteq> p)"
proof -
  note w = walk_find [OF udp_wfD(1) [OF W]]
  obtain p where p: "udp_new_port s = Some (p, s\<lparr>udp_port := p\<rparr>)" "UDP_LOCAL_PORT_RANGE_START \<le> p" "\<forall>y\<in>set xs. local_port (the (pcbs s y)) \<noteq> p"
    using new_port_ok [OF W] by blast
  have "p \<noteq> 0" using p(2) by auto
  moreover have "\<not> taken x (bind_ip r ipaddr) p (set xs) (pcbs s)" using p(3) by (auto simp: port_taken_def)
  ultimately have b: "\<exists>xs'. bound x c (bind_ip r ipaddr) p (s\<lparr>udp_port := p\<rparr>)
      (if x \<in> set xs then put_pcb x (c\<lparr>local_ip := ip_addr_set (bind_ip r ipaddr), local_port := p\<rparr>) (s\<lparr>udp_port := p\<rparr>)
       else (put_pcb x (c\<lparr>local_ip := ip_addr_set (bind_ip r ipaddr), local_port := p, udp_next := udp_pcbs s\<rparr>) (s\<lparr>udp_port := p\<rparr>))\<lparr>udp_pcbs := Some x\<rparr>) xs'"
    using wf_bound [OF wf_port [OF W p(2)] _ ip, of x c p, OF _ _ _ refl] x by (cases "x \<in> set xs") auto
  have e: "bound x c (bind_ip r ipaddr) p (s\<lparr>udp_port := p\<rparr>) = bound x c (bind_ip r ipaddr) p s" by (simp add: bound_def fun_eq_iff)
  show ?thesis using b p \<open>p \<noteq> 0\<close> x unfolding e by (auto simp: udp_bind_def w find_eq Let_def split: if_splits)
qed

lemma connect_ok:
  assumes W: "udp_wf s xs" and x: "pcbs s x = Some c"
  shows "\<exists>s' xs' c' ip'. udp_connect r (Some x) (Some ip) port s = Some (ERR_OK, s') \<and> udp_wf s' xs' \<and> x \<in> set xs' \<and>
    pcbs s' = (pcbs s)(x \<mapsto> c') \<and> remote_ip c' = ip' \<and> remote_port c' = port \<and> udp_flags c' = udp_flags c OR UDP_FLAGS_CONNECTED"
proof -
  have "\<exists>s1 xs1 c1. (if local_port c = 0 then udp_bind r (Some x) (Some (local_ip c)) (local_port c) s else Some (ERR_OK, s)) = Some (ERR_OK, s1) \<and>
      udp_wf s1 xs1 \<and> x \<in> set xs1 \<and> pcbs s1 = (pcbs s)(x \<mapsto> c1) \<and> udp_flags c1 = udp_flags c"
  proof (cases "local_port c = 0")
    case True
    have "addr_ok (bind_ip r (Some (local_ip c)))" using udp_wfD(9) [OF W x] by (intro bind_ip_ok) auto
    from bind_any [OF W x this] obtain s1 xs1 p where s1: "udp_bind r (Some x) (Some (local_ip c)) 0 s = Some (ERR_OK, s1)"
      "bound x c (bind_ip r (Some (local_ip c))) p s s1 xs1" by blast
    from s1(2) obtain n where "udp_wf s1 xs1" "x \<in> set xs1"
      "pcbs s1 = (pcbs s)(x \<mapsto> c\<lparr>local_ip := ip_addr_set (bind_ip r (Some (local_ip c))), local_port := p, udp_next := n\<rparr>)"
      by (auto simp: bound_def)
    moreover have "udp_flags (c\<lparr>local_ip := ip_addr_set (bind_ip r (Some (local_ip c))), local_port := p, udp_next := n\<rparr>) = udp_flags c" by simp
    ultimately show ?thesis using s1(1) True by force
  next
    case False
    then show ?thesis using W x udp_wfD(8) [OF W x] by (auto simp: fun_upd_idem intro!: exI [of _ s] exI [of _ xs] exI [of _ c])
  qed
  then obtain s1 xs1 c1 where s1: "(if local_port c = 0 then udp_bind r (Some x) (Some (local_ip c)) (local_port c) s else Some (ERR_OK, s)) = Some (ERR_OK, s1)"
    "udp_wf s1 xs1" "x \<in> set xs1" "pcbs s1 = (pcbs s)(x \<mapsto> c1)" "udp_flags c1 = udp_flags c" by blast
  define ip' where "ip' = connect_ip r ip (local_ip c1)"
  define c' where "c' = c1\<lparr>remote_ip := ip', remote_port := port, udp_flags := udp_flags c1 OR UDP_FLAGS_CONNECTED\<rparr>"
  have x1: "pcbs s1 x = Some c1" using s1(4) by simp
  have W': "udp_wf (put_pcb x c' s1) xs1" by (rule wf_put [OF s1(2) x1]) (simp_all add: c'_def)
  have "udp_connect r (Some x) (Some ip) port s = Some (ERR_OK, put_pcb x c' s1)"
    using s1(1,3) x x1 walk_find [OF udp_wfD(1) [OF W'], of "\<lambda>y c. y = x"]
    by (simp add: udp_connect_def Let_def find_eq c'_def [symmetric] ip'_def [symmetric] del: fun_upd_apply)
  then show ?thesis using W' s1 by (intro exI [of _ "put_pcb x c' s1"] exI [of _ xs1] exI [of _ c'] exI [of _ ip']) (simp add: c'_def)
qed

subsection \<open>Creation and removal\<close>

abbreviation binding :: "(nat \<Rightarrow> 'r udp_pcb option) \<Rightarrow> nat \<Rightarrow> (u16 \<times> ip_addr) option" where
  "binding h y \<equiv> map_option (\<lambda>d. (local_port d, local_ip d)) (h y)"

lemma wf_drop:
  assumes W: "udp_wf s xs" and x: "pcbs s x = Some c" and p: "npath (nexts (h(x := None))) p ys None" "set ys = set xs - {x}"
    and h: "\<And>y. y \<noteq> x \<Longrightarrow> binding h y = binding (pcbs s) y"
  shows "udp_wf (free_pcb x (s\<lparr>udp_pcbs := p, pcbs := h\<rparr>)) ys"
proof -
  have b: "\<exists>d'. pcbs s y = Some d' \<and> local_port d' = local_port d \<and> local_ip d' = local_ip d" if "y \<noteq> x" "h y = Some d" for y d
    using h [OF that(1)] that(2) by (cases "pcbs s y") auto
  have "dom (h(x := None)) = dom (pcbs s) - {x}"
  proof -
    have "y \<in> dom h \<longleftrightarrow> y \<in> dom (pcbs s)" if "y \<noteq> x" for y using h [OF that] by (cases "h y"; cases "pcbs s y") auto
    then have "dom h - {x} = dom (pcbs s) - {x}" by blast
    then show ?thesis by simp
  qed
  moreover have "ports_listed (set ys) (h(x := None))"
    unfolding ports_listed_def
  proof (intro allI impI)
    fix y d assume "(h(x := None)) y = Some d"
    then have y: "y \<noteq> x" "h y = Some d" by (auto split: if_splits)
    from b [OF this] obtain d' where "pcbs s y = Some d'" "local_port d' = local_port d" "local_ip d' = local_ip d" by blast
    then show "(local_port d \<noteq> 0) = (y \<in> set ys) \<and> addr_ok (local_ip d)" using udp_wfD(8,9) [OF W, of y d'] y(1) p(2) by auto
  qed
  moreover have "exclusive (set ys) (h(x := None))"
    unfolding exclusive_def
  proof (intro ballI impI)
    fix u v assume uv: "u \<in> set ys" "v \<in> set ys" "u \<noteq> v"
    then have m: "u \<in> set xs" "v \<in> set xs" "u \<noteq> x" "v \<noteq> x" using p(2) by auto
    then obtain du dv where d: "pcbs s u = Some du" "pcbs s v = Some dv" using udp_wfD(6) [OF W] by blast
    then obtain eu ev where e: "h u = Some eu" "h v = Some ev" using h [OF m(3)] h [OF m(4)] by auto
    have "clash eu ev = clash du dv" using h [OF m(3)] h [OF m(4)] d e by (simp add: clash_def)
    moreover have "\<not> clash du dv" using udp_wfD(5) [OF W] m uv(3) d unfolding exclusive_def by force
    ultimately show "\<not> clash (the ((h(x := None)) u)) (the ((h(x := None)) v))" using e m by simp
  qed
  moreover have "pool_live (memp_num MEMP_UDP_PCB) (do_memp_free_pool x (pools (udp_mem s) MEMP_UDP_PCB)) (dom (pcbs s) - {x})"
    using pool_live_free [OF udp_wfD(4) [OF W]] x by auto
  ultimately show ?thesis using udp_wfD(2) [OF W] p(1)
    by (simp add: udp_wf_def free_pcb_def memp_free_def del: fun_upd_apply memp_num.simps) (simp only: fun_upd_same)
qed

lemma free_nexts: "x \<notin> set ys \<Longrightarrow> npath (nexts (h(x := None))) p ys q = npath (nexts h) p ys q"
  by (rule npath_cong) auto

lemma pcb_remove_ok:
  assumes W: "udp_wf s xs" and x: "pcbs s x = Some c"
  shows "\<exists>s' xs'. udp_remove (Some x) s = Some s' \<and> udp_wf s' xs' \<and> set xs' = set xs - {x}"
proof -
  note P = udp_wfD(1) [OF W] and w = walk_find [OF udp_wfD(1) [OF W], of "\<lambda>y d. udp_next d = Some x"]
  have nx: "nexts (pcbs s) y = Some (Some x) \<longleftrightarrow> udp_next (the (pcbs s y)) = Some x" if "y \<in> set xs" for y
    using udp_wfD(6) [OF W] that by force
  have f: "find (\<lambda>y. udp_next (the (pcbs s y)) = Some x) xs = find (\<lambda>y. nexts (pcbs s) y = Some (Some x)) xs"
    by (rule find_cong [OF refl]) (metis nx)
  consider (miss) "x \<notin> set xs" | (head) ys where "xs = x # ys" | (later) as a ys where "xs = as @ a # x # ys"
    by (metis append_Nil append_butlast_last_id append.assoc append_Cons split_list)
  then show ?thesis
  proof cases
    case miss
    then have n: "udp_pcbs s \<noteq> Some x" using P by (cases xs) auto
    have "find (\<lambda>y. nexts (pcbs s) y = Some (Some x)) xs = None" using npath_closed [OF P] miss by (auto simp: find_None_iff)
    then have "udp_remove (Some x) s = Some (free_pcb x (s\<lparr>udp_pcbs := udp_pcbs s, pcbs := pcbs s\<rparr>))" using n x w f by (simp add: udp_remove_def)
    moreover have "udp_wf (free_pcb x (s\<lparr>udp_pcbs := udp_pcbs s, pcbs := pcbs s\<rparr>)) xs"
      using P miss by (intro wf_drop [OF W x]) (auto simp: free_nexts simp del: fun_upd_apply)
    ultimately show ?thesis using miss by auto
  next
    case head
    then have n: "udp_pcbs s = Some x" "npath (nexts (pcbs s)) (udp_next c) ys None" "x \<notin> set ys" using P udp_wfD(3) [OF W] x by auto
    then have "udp_remove (Some x) s = Some (free_pcb x (s\<lparr>udp_pcbs := udp_next c, pcbs := pcbs s\<rparr>))" using x by (simp add: udp_remove_def)
    moreover have "udp_wf (free_pcb x (s\<lparr>udp_pcbs := udp_next c, pcbs := pcbs s\<rparr>)) ys"
      using n head by (intro wf_drop [OF W x]) (auto simp: free_nexts simp del: fun_upd_apply)
    ultimately show ?thesis using head n by auto
  next
    case later
    have d: "distinct (as @ a # x # ys)" using udp_wfD(3) [OF W] later by simp
    have n: "udp_pcbs s \<noteq> Some x" using P d later by (cases as) auto
    obtain e where e: "pcbs s a = Some e" using udp_wfD(6) [OF W] later by auto
    let ?h = "(pcbs s)(a \<mapsto> e\<lparr>udp_next := udp_next c\<rparr>)"
    have "find (\<lambda>y. nexts (pcbs s) y = Some (Some x)) xs = Some a" unfolding later by (rule npath_find_pred [OF P [unfolded later]])
    then have "udp_remove (Some x) s = Some (free_pcb x (s\<lparr>udp_pcbs := udp_pcbs s, pcbs := ?h\<rparr>))" using n x w f e by (simp add: udp_remove_def put_pcb_def)
    moreover have "npath (nexts ?h) (udp_pcbs s) (as @ a # ys) None"
    proof -
      have "nexts ?h = (nexts (pcbs s))(a := Some (udp_next c))" by (auto simp: fun_eq_iff)
      then show ?thesis using npath_unlink [OF P [unfolded later], of "udp_next c"] x by simp
    qed
    then have "npath (nexts (?h(x := None))) (udp_pcbs s) (as @ a # ys) None" using d by (subst free_nexts) auto
    then have "udp_wf (free_pcb x (s\<lparr>udp_pcbs := udp_pcbs s, pcbs := ?h\<rparr>)) (as @ a # ys)"
      using d later e by (intro wf_drop [OF W x]) auto
    ultimately show ?thesis using later d by (intro exI [of _ "free_pcb x (s\<lparr>udp_pcbs := udp_pcbs s, pcbs := ?h\<rparr>)"] exI [of _ "as @ a # ys"]) auto
  qed
qed

lemma wf_new:
  assumes W: "udp_wf s xs" and x: "x \<notin> dom (pcbs s)" and c: "local_port c = 0" "addr_ok (local_ip c)"
    and p: "pool_live (memp_num MEMP_UDP_PCB) (ps MEMP_UDP_PCB) (insert x (dom (pcbs s)))"
  shows "udp_wf (put_pcb x c (s\<lparr>udp_mem := (udp_mem s)\<lparr>pools := ps\<rparr>\<rparr>)) xs"
proof -
  have n: "x \<notin> set xs" using udp_wfD(6) [OF W] x by auto
  have "npath (nexts ((pcbs s)(x \<mapsto> c))) (udp_pcbs s) xs None" using udp_wfD(1) [OF W] n by (subst npath_cong [of _ _ "nexts (pcbs s)"]) auto
  moreover have "exclusive (set xs) ((pcbs s)(x \<mapsto> c))" using exclusive_upd [OF udp_wfD(5) [OF W], of x "set xs"] n by simp
  moreover have "ports_listed (set xs) ((pcbs s)(x \<mapsto> c))" using ports_upd [OF udp_wfD(7) [OF W] c(2), of x "set xs"] c(1) n by simp
  ultimately show ?thesis using p udp_wfD(2) [OF W] by (simp add: udp_wf_def del: fun_upd_apply memp_num.simps)
qed

lemma new_ok:
  assumes W: "udp_wf s xs"
  shows "\<exists>p s'. udp_new_ip_type ty s = Some (p, s') \<and> udp_wf s' xs \<and>
    (case p of None \<Rightarrow> dom (pcbs s) = {..<memp_num MEMP_UDP_PCB} \<and> pcbs s' = pcbs s
     | Some x \<Rightarrow> x \<notin> dom (pcbs s) \<and> (\<exists>c. pcbs s' = (pcbs s)(x \<mapsto> c) \<and> local_port c = 0))"
proof -
  obtain b ps where b: "memp_malloc MEMP_UDP_PCB (pools (udp_mem s)) = (b, ps)"
    "case b of None \<Rightarrow> dom (pcbs s) = {..<memp_num MEMP_UDP_PCB} \<and> pool_live (memp_num MEMP_UDP_PCB) (ps MEMP_UDP_PCB) (dom (pcbs s))
     | Some e \<Rightarrow> e \<notin> dom (pcbs s) \<and> e < memp_num MEMP_UDP_PCB \<and> pool_live (memp_num MEMP_UDP_PCB) (ps MEMP_UDP_PCB) (insert e (dom (pcbs s)))"
    using memp_malloc_spec [of MEMP_UDP_PCB "pools (udp_mem s)", OF udp_wfD(4) [OF W]] by blast
  show ?thesis
  proof (cases b)
    case None
    then have "udp_wf (s\<lparr>udp_mem := (udp_mem s)\<lparr>pools := ps\<rparr>\<rparr>) xs" using W b(2) by (auto simp: udp_wf_def simp del: memp_num.simps)
    then show ?thesis using None b by (simp add: udp_new_ip_type_def udp_new_def)
  next
    case (Some x)
    let ?c = "\<lparr>local_ip = (ip_addr_any 0)\<lparr>ip_type := ty\<rparr>, remote_ip = (ip_addr_any 0)\<lparr>ip_type := ty\<rparr>, netif_idx = 0, so_options = 0, tos = 0, ttl = UDP_TTL,
      udp_next = None, udp_flags = 0, local_port = 0, remote_port = 0, mcast_ip4 = 0, mcast_ifindex = 0, mcast_ttl = UDP_TTL, chksum_len_rx = 0,
      chksum_len_tx = 0, udp_recv_fn = None\<rparr>"
    have "udp_wf (put_pcb x ?c (s\<lparr>udp_mem := (udp_mem s)\<lparr>pools := ps\<rparr>\<rparr>)) xs" using Some b(2) by (intro wf_new [OF W]) auto
    moreover have "udp_new_ip_type ty s = Some (Some x, put_pcb x ?c (s\<lparr>udp_mem := (udp_mem s)\<lparr>pools := ps\<rparr>\<rparr>))"
      using Some b(1) by (simp add: udp_new_ip_type_def udp_new_def put_pcb_def)
    ultimately show ?thesis using Some b(2) by auto
  qed
qed

subsection \<open>Change of an interface address\<close>

definition moved :: "ip_addr \<Rightarrow> ip_addr \<Rightarrow> nat set \<Rightarrow> (nat \<Rightarrow> 'r udp_pcb option) \<Rightarrow> nat \<Rightarrow> 'r udp_pcb option" where
  "moved old_addr new_addr X h y = (if y \<in> X then
     map_option (\<lambda>c. if ip_addr_cmp (local_ip c) old_addr then c\<lparr>local_ip := ip_addr_set new_addr\<rparr> else c) (h y) else h y)"

lemma addr_changed_loop_eq:
  assumes "npath (nexts (pcbs s)) p xs None"
  shows "addr_changed_loop a b p s = Some (s\<lparr>pcbs := moved a b (set xs) (pcbs s)\<rparr>)"
  using assms npath_distinct [OF assms]
proof (induction xs arbitrary: p s)
  case Nil
  have "moved a b {} (pcbs s) = pcbs s" by (auto simp: moved_def fun_eq_iff)
  then show ?case using Nil by (simp add: addr_changed_loop.simps [of a b None])
next
  case (Cons x xs)
  then obtain c where c: "p = Some x" "pcbs s x = Some c" "npath (nexts (pcbs s)) (udp_next c) xs None" "x \<notin> set xs" by auto
  define s1 where "s1 = (if ip_addr_cmp (local_ip c) a then put_pcb x (c\<lparr>local_ip := ip_addr_set b\<rparr>) s else s)"
  have "nexts (pcbs s1) = nexts (pcbs s)" using c(2) by (auto simp: s1_def fun_eq_iff)
  then have "addr_changed_loop a b (udp_next c) s1 = Some (s1\<lparr>pcbs := moved a b (set xs) (pcbs s1)\<rparr>)" using Cons c(3) by auto
  moreover have "s1\<lparr>pcbs := moved a b (set xs) (pcbs s1)\<rparr> = s\<lparr>pcbs := moved a b (set (x # xs)) (pcbs s)\<rparr>"
    using c by (auto simp: s1_def moved_def put_pcb_def fun_eq_iff)
  ultimately show ?case using c by (simp add: addr_changed_loop.simps [of a b "Some x"] s1_def)
qed

lemma addr_changed_ok:
  assumes W: "udp_wf s xs" and a: "addr_ok b" and n: "\<And>x c. pcbs s x = Some c \<Longrightarrow> local_port c \<noteq> 0 \<Longrightarrow> \<not> ip_addr_cmp (local_ip c) b"
  shows "\<exists>s'. udp_netif_ip_addr_changed a b s = Some s' \<and> udp_wf s' xs"
proof (cases "\<not> ip_addr_isany a \<and> \<not> ip_addr_isany b")
  case True
  let ?h = "moved a b (set xs) (pcbs s)"
  have l: "length (u_addr b) = 16" using a by (simp add: addr_ok_def)
  have nx: "nexts ?h = nexts (pcbs s)" by (auto simp: moved_def fun_eq_iff map_option_case split: option.splits)
  have dm: "dom ?h = dom (pcbs s)" by (auto simp: moved_def split: if_splits)
  have pl: "ports_listed (set xs) ?h"
    unfolding ports_listed_def
  proof (intro allI impI)
    fix x c assume "?h x = Some c"
    then obtain c0 where c0: "pcbs s x = Some c0" "local_port c = local_port c0" "local_ip c = local_ip c0 \<or> local_ip c = ip_addr_set b"
      by (auto simp: moved_def split: if_splits)
    then show "(local_port c \<noteq> 0) = (x \<in> set xs) \<and> addr_ok (local_ip c)" using udp_wfD(8,9) [OF W c0(1)] set_ok [OF a] by auto
  qed
  have "\<not> clash (the (?h u)) (the (?h v))" if uv: "u \<in> set xs" "v \<in> set xs" "u \<noteq> v" for u v
  proof -
    obtain c d where c: "pcbs s u = Some c" "pcbs s v = Some d" using udp_wfD(6) [OF W] uv by blast
    have nb: "\<not> ip_addr_cmp (local_ip c) b" "\<not> ip_addr_cmp (local_ip d) b" using n [OF c(1)] n [OF c(2)] udp_wfD(8) [OF W] c uv by auto
    have nc: "\<not> clash c d" using udp_wfD(5) [OF W] uv c unfolding exclusive_def by force
    have cmp: "ip_addr_cmp e (ip_addr_set b) = ip_addr_cmp e b" "ip_addr_cmp (ip_addr_set b) e = ip_addr_cmp e b"
      "ip_addr_isany (ip_addr_set b) = ip_addr_isany b" for e using set_cmp [OF l] set_isany [OF l] cmp_sym by auto
    have "ip_addr_cmp (local_ip c) a \<Longrightarrow> ip_addr_cmp (local_ip d) a \<Longrightarrow> ip_addr_cmp (local_ip c) (local_ip d)"
      using cmp_trans cmp_sym by blast
    then show ?thesis using c uv nb nc True cmp by (auto simp: moved_def clash_def)
  qed
  then have "udp_wf (s\<lparr>pcbs := ?h\<rparr>) xs" using udp_wfD(1,2,4) [OF W] pl by (simp add: udp_wf_def nx dm exclusive_def)
  then show ?thesis using True addr_changed_loop_eq [OF udp_wfD(1) [OF W]] by (simp add: udp_netif_ip_addr_changed_def)
next
  case False
  then show ?thesis using W by (auto simp: udp_netif_ip_addr_changed_def)
qed

subsection \<open>Runs of the operations\<close>

datatype 'r udp_op =
    New u8 | Bind nat "ip_addr option" u16 | Bind_netif nat "u8 option" | Connect nat ip_addr u16 | Disconnect nat
  | Recv nat "'r option" | Remove nat | Addr_changed ip_addr ip_addr

primrec udp_exec :: "ip6_route_fn \<Rightarrow> 'r udp_op \<Rightarrow> 'r udp \<Rightarrow> 'r udp option" where
  "udp_exec r (New ty) s = map_option snd (udp_new_ip_type ty s)"
| "udp_exec r (Bind x ip port) s = map_option snd (udp_bind r (Some x) ip port s)"
| "udp_exec r (Bind_netif x i) s = udp_bind_netif x i s"
| "udp_exec r (Connect x ip port) s = map_option snd (udp_connect r (Some x) (Some ip) port s)"
| "udp_exec r (Disconnect x) s = udp_disconnect (Some x) s"
| "udp_exec r (Recv x f) s = udp_recv (Some x) f s"
| "udp_exec r (Remove x) s = udp_remove (Some x) s"
| "udp_exec r (Addr_changed a b) s = udp_netif_ip_addr_changed a b s"

text \<open>
  What the callers keep to: they name live control blocks and proper addresses. An interface does not take over an address to
  which some control block is bound already.
\<close>

primrec udp_may :: "'r udp_op \<Rightarrow> 'r udp \<Rightarrow> bool" where
  "udp_may (New ty) s = True"
| "udp_may (Bind x ip port) s = (pcbs s x \<noteq> None \<and> (\<forall>a. ip = Some a \<longrightarrow> addr_ok a))"
| "udp_may (Bind_netif x i) s = (pcbs s x \<noteq> None)"
| "udp_may (Connect x ip port) s = (pcbs s x \<noteq> None)"
| "udp_may (Disconnect x) s = (pcbs s x \<noteq> None)"
| "udp_may (Recv x f) s = (pcbs s x \<noteq> None)"
| "udp_may (Remove x) s = (pcbs s x \<noteq> None)"
| "udp_may (Addr_changed a b) s = (addr_ok b \<and> (\<forall>x c. pcbs s x = Some c \<longrightarrow> local_port c \<noteq> 0 \<longrightarrow> \<not> ip_addr_cmp (local_ip c) b))"

inductive udp_runs :: "ip6_route_fn \<Rightarrow> 'r udp \<Rightarrow> 'r udp \<Rightarrow> bool" for r s0 where
  start: "udp_runs r s0 s0"
| op: "udp_runs r s0 s \<Longrightarrow> udp_may op s \<Longrightarrow> udp_exec r op s = Some s' \<Longrightarrow> udp_runs r s0 s'"

lemma exec_ok:
  assumes W: "udp_wf s xs" and m: "udp_may op s"
  shows "\<exists>s' xs'. udp_exec r op s = Some s' \<and> udp_wf s' xs'"
proof (cases op)
  case (New ty)
  then show ?thesis using new_ok [OF W, of ty] by auto
next
  case (Bind x ip port)
  then obtain c where c: "pcbs s x = Some c" using m by auto
  have ok: "addr_ok (bind_ip r ip)" using m Bind by (intro bind_ip_ok) auto
  show ?thesis
  proof (cases "port = 0")
    case True
    then show ?thesis using bind_any [OF W c ok] Bind by (auto simp: bound_def)
  next
    case False
    then show ?thesis using bind_fixed [OF W c ok False] W Bind by (auto simp: bound_def split: if_splits)
  qed
next
  case (Connect x ip port)
  then show ?thesis using connect_ok [OF W] m by fastforce
next
  case (Remove x)
  then show ?thesis using pcb_remove_ok [OF W] m by fastforce
next
  case (Addr_changed a b)
  then show ?thesis using addr_changed_ok [OF W, of b a] m by fastforce
next
  case (Bind_netif x i)
  then obtain c where "pcbs s x = Some c" using m by auto
  then show ?thesis using Bind_netif by (auto simp: udp_bind_netif_def intro!: exI [of _ xs] wf_put [OF W])
next
  case (Disconnect x)
  then obtain c where "pcbs s x = Some c" using m by auto
  then show ?thesis using Disconnect by (auto simp: udp_disconnect_def Let_def intro!: exI [of _ xs] wf_put [OF W])
next
  case (Recv x f)
  then obtain c where "pcbs s x = Some c" using m by auto
  then show ?thesis using Recv by (auto simp: udp_recv_def intro!: exI [of _ xs] wf_put [OF W])
qed

lemma init_wf:
  assumes "pcbs s = Map.empty" "udp_pcbs s = None" "pool_live (memp_num MEMP_UDP_PCB) (pools (udp_mem s) MEMP_UDP_PCB) {}"
  shows "udp_wf (udp_init v s) []"
proof -
  have "0xc000 \<le> y + 0xc000" if "y \<le> NOT 0xc000" for y :: u16
  proof -
    have "unat y \<le> 16383" using that by (simp add: word_le_nat_alt)
    then show ?thesis using unat_add_no_overflow [of y "0xc000"] by (simp add: word_le_nat_alt)
  qed
  from this [OF word_and_le1] have "0xc000 \<le> (ucast v AND NOT 0xc000) + (0xc000 :: u16)" .
  then show ?thesis using assms by (simp add: udp_wf_def udp_init_def ports_listed_def exclusive_def)
qed

lemma runs_wf: "udp_runs r s0 s \<Longrightarrow> udp_wf s0 [] \<Longrightarrow> \<exists>xs. udp_wf s xs"
  by (induction rule: udp_runs.induct) (blast, metis exec_ok option.inject)

subsection \<open>Properties\<close>

definition start_udp :: "unit udp" where
  "start_udp = \<lparr>pcbs = Map.empty, udp_pcbs = None, udp_port = UDP_LOCAL_PORT_RANGE_START, udp_mem = start_mem,
     udp_stats = \<lparr>st_xmit = 0, st_recv = 0, st_fw = 0, st_drop = 0, st_chkerr = 0, st_lenerr = 0, st_memerr = 0, st_rterr = 0, st_proterr = 0,
       st_opterr = 0, st_err = 0, st_cachehit = 0\<rparr>\<rparr>"

lemma start_udp_ok:
  "pcbs start_udp = Map.empty" "udp_pcbs start_udp = None" "pool_live (memp_num MEMP_UDP_PCB) (pools (udp_mem start_udp) MEMP_UDP_PCB) {}"
  by (simp_all add: start_udp_def start_mem_def del: memp_num.simps) (rule memp_init_live, simp add: idle_pool_def)

text \<open>A first control block, bound to a port.\<close>

lemma start_udp_bound:
  "\<exists>s x c. udp_runs r (udp_init v start_udp) s \<and> pcbs s x = Some c \<and> local_port c = 5353"
proof -
  have W: "udp_wf (udp_init v start_udp) []" by (rule init_wf [OF start_udp_ok])
  have e: "pcbs (udp_init v start_udp) = Map.empty" by (simp add: udp_init_def start_udp_def)
  obtain p s1 where s1: "udp_new_ip_type 0 (udp_init v start_udp) = Some (p, s1)" "udp_wf s1 []"
    "case p of None \<Rightarrow> dom (pcbs (udp_init v start_udp)) = {..<memp_num MEMP_UDP_PCB} \<and> pcbs s1 = pcbs (udp_init v start_udp)
     | Some x \<Rightarrow> x \<notin> dom (pcbs (udp_init v start_udp)) \<and> (\<exists>c. pcbs s1 = (pcbs (udp_init v start_udp))(x \<mapsto> c) \<and> local_port c = 0)"
    using new_ok [OF W, of 0] by blast
  from s1(3) e obtain x c where x: "p = Some x" "pcbs s1 x = Some c" by (cases p) (auto simp: lessThan_empty_iff dest!: sym [of "{}"])
  have r1: "udp_runs r (udp_init v start_udp) s1" using s1(1) by (intro udp_runs.op [OF udp_runs.start, of "New 0"]) simp_all
  have "addr_ok (bind_ip r None)" by (rule bind_ip_ok) simp
  from bind_fixed [OF s1(2) x(2) this, of 5353] obtain s2 xs2 where s2: "udp_bind r (Some x) None 5353 s1 = Some (ERR_OK, s2)"
    "bound x c (bind_ip r None) 5353 s1 s2 xs2" by auto
  have "udp_runs r (udp_init v start_udp) s2" using s2(1) x(2) by (intro udp_runs.op [OF r1, of "Bind x None 5353"]) simp_all
  moreover have "\<exists>c'. pcbs s2 x = Some c' \<and> local_port c' = 5353" using s2(2) by (auto simp: bound_def)
  ultimately show ?thesis by blast
qed





end
