(* ===== verification/Udp_Input.thy ===== *)
theory Udp_Input
  imports Udp_Pcb Ip4_Addr
begin

unbundle bit_operations_syntax

text \<open>
  Incoming datagrams, \<^verbatim>\<open>udp_input\<close> of \<^verbatim>\<open>lwip/src/core/udp.c\<close>: the choice of the control block, the checksum, and the call of the
  receive function. What IP has set up for the packet is the record \<open>ip_globals\<close>; the functions of other modules that are
  called are the fields of \<open>udp_env\<close>: whether an IPv6 address belongs to an interface (\<^verbatim>\<open>netif_get_ip6_addr_match\<close>), the ICMP
  message \<^verbatim>\<open>icmp_port_unreach\<close>, and the receive functions of the applications, which may call UDP again.
\<close>

subsection \<open>Interfaces and the current packet\<close>

record udp_netif =
  netif_index :: u8
  netif_ip_addr4 :: ip_addr
  netif_ip4_netmask :: u32
  netif_flags :: u8

definition ip4_view :: "udp_netif \<Rightarrow> ip4_netif" where
  "ip4_view n = \<lparr>if_flags = netif_flags n, if_ip4 = addr_word (netif_ip_addr4 n) 0, if_netmask = netif_ip4_netmask n\<rparr>"

definition ip_addr_isbroadcast :: "ip_addr \<Rightarrow> udp_netif \<Rightarrow> bool" where
  "ip_addr_isbroadcast a n = (if IP_IS_V6 a then False else ip4_addr_isbroadcast_u32 (addr_word a 0) (ip4_view n))"

definition ip4_addr_ismulticast :: "ip_addr \<Rightarrow> bool" where
  "ip4_addr_ismulticast a \<longleftrightarrow> addr_word a 0 AND lwip_htonl 0xf0000000 = lwip_htonl 0xe0000000"

definition ip6_addr_ismulticast :: "ip_addr \<Rightarrow> bool" where
  "ip6_addr_ismulticast a \<longleftrightarrow> addr_word a 0 AND lwip_htonl 0xff000000 = lwip_htonl 0xff000000"

definition ip_addr_ismulticast :: "ip_addr \<Rightarrow> bool" where
  "ip_addr_ismulticast a = (if IP_IS_V6 a then ip6_addr_ismulticast a else ip4_addr_ismulticast a)"

record ip_globals =
  current_netif :: udp_netif
  current_input_netif :: udp_netif
  current_is_v6 :: bool
  current_header_proto :: u8
  current_ip_header_tot_len :: u16
  current_iphdr_src :: ip_addr
  current_iphdr_dest :: ip_addr

record 'r udp_env =
  env_is_odd :: "address \<Rightarrow> bool"
  env_ip6_match :: "udp_netif \<Rightarrow> ip_addr \<Rightarrow> bool"
  env_unreach :: "bool \<Rightarrow> ptr \<Rightarrow> pmem \<Rightarrow> pmem option"
  env_recv :: "'r \<Rightarrow> nat \<Rightarrow> ptr \<Rightarrow> ip_addr \<Rightarrow> u16 \<Rightarrow> 'r udp \<Rightarrow> 'r udp option"

abbreviation (input) UDP_HLEN :: nat where "UDP_HLEN \<equiv> 8"
abbreviation (input) IP_PROTO_UDP :: u8 where "IP_PROTO_UDP \<equiv> 17"
abbreviation (input) IP_PROTO_UDPLITE :: u8 where "IP_PROTO_UDPLITE \<equiv> 136"

subsection \<open>The choice of the control block\<close>

definition udp_input_local_match :: "ip_globals \<Rightarrow> 'r udp_pcb \<Rightarrow> udp_netif \<Rightarrow> bool \<Rightarrow> bool" where
  "udp_input_local_match g pcb inp broadcast =
     (if netif_idx pcb \<noteq> 0 \<and> netif_idx pcb \<noteq> netif_index (current_input_netif g) then False
      else if IP_IS_ANY_TYPE_VAL (local_ip pcb) then True
      else if ip_type (local_ip pcb) = ip_type (current_iphdr_dest g) then
        (if broadcast then
           ip4_addr_isany (local_ip pcb) \<or> addr_word (current_iphdr_dest g) 0 = 0xffffffff \<or>
           ip4_addr_netcmp (addr_word (local_ip pcb) 0) (addr_word (current_iphdr_dest g) 0) (netif_ip4_netmask inp)
         else ip_addr_isany (local_ip pcb) \<or> ip_addr_cmp (local_ip pcb) (current_iphdr_dest g))
      else False)"

text \<open>The control block without a remote end that gets the datagram if no other fits better.\<close>

definition update_uncon :: "ip_globals \<Rightarrow> udp_netif \<Rightarrow> bool \<Rightarrow> nat \<Rightarrow> 'r udp_pcb \<Rightarrow> nat option \<Rightarrow> 'r udp \<Rightarrow> nat option option" where
  "update_uncon g inp broadcast x c uncon_pcb s =
     (if udp_flags c AND UDP_FLAGS_CONNECTED = 0 then
        (case uncon_pcb of
           None \<Rightarrow> Some (Some x)
         | Some u \<Rightarrow>
             if broadcast \<and> addr_word (current_iphdr_dest g) 0 = 0xffffffff then do {
               d \<leftarrow> pcbs s u;
               Some (if (\<not> IP_IS_V4 (local_ip d) \<or> \<not> ip4_addr_cmp (local_ip d) (netif_ip_addr4 inp)) \<and>
                        IP_IS_V4 (local_ip c) \<and> ip4_addr_cmp (local_ip c) (netif_ip_addr4 inp)
                     then Some x else Some u) }
             else Some (Some u))
      else Some uncon_pcb)"

definition remote_match :: "ip_globals \<Rightarrow> u16 \<Rightarrow> 'r udp_pcb \<Rightarrow> bool" where
  "remote_match g src c \<longleftrightarrow> remote_port c = src \<and>
     (ip_addr_isany (remote_ip c) \<or> ip_addr_cmp (remote_ip c) (current_iphdr_src g))"

definition to_front :: "nat \<Rightarrow> nat option \<Rightarrow> 'r udp \<Rightarrow> 'r udp option" where
  "to_front x prev s = do {
     c \<leftarrow> pcbs s x;
     (case prev of
        None \<Rightarrow> Some (s\<lparr>udp_stats := (udp_stats s)\<lparr>st_cachehit := st_cachehit (udp_stats s) + 1\<rparr>\<rparr>)
      | Some y \<Rightarrow> do {
          d \<leftarrow> pcbs s y;
          let s1 = put_pcb y (d\<lparr>udp_next := udp_next c\<rparr>) s;
          Some ((put_pcb x (c\<lparr>udp_next := udp_pcbs s1\<rparr>) s1)\<lparr>udp_pcbs := Some x\<rparr>) }) }"

partial_function (option) input_loop :: "ip_globals \<Rightarrow> udp_netif \<Rightarrow> bool \<Rightarrow> u16 \<Rightarrow> u16 \<Rightarrow> nat option \<Rightarrow> nat option \<Rightarrow> nat option \<Rightarrow> 'r udp \<Rightarrow>
    (nat option \<times> nat option \<times> 'r udp) option" where
  "input_loop g inp broadcast src dest prev uncon_pcb p s = (case p of
     None \<Rightarrow> Some (None, uncon_pcb, s)
   | Some x \<Rightarrow> do {
       c \<leftarrow> pcbs s x;
       if local_port c = dest \<and> udp_input_local_match g c inp broadcast
       then do {
         uncon1 \<leftarrow> update_uncon g inp broadcast x c uncon_pcb s;
         if remote_match g src c
         then do { s1 \<leftarrow> to_front x prev s; Some (Some x, uncon1, s1) }
         else input_loop g inp broadcast src dest (Some x) uncon1 (udp_next c) s }
       else input_loop g inp broadcast src dest (Some x) uncon_pcb (udp_next c) s })"

subsection \<open>The datagram\<close>

text \<open>The fields of the header in host byte order; \<open>hdr\<close> are its eight bytes.\<close>

definition hdr_field :: "bytes \<Rightarrow> nat \<Rightarrow> u16" where
  "hdr_field hdr i = lwip_htons (half (hdr ! (2 * i)) (hdr ! (2 * i + 1)))"

definition chksum_ok :: "(address \<Rightarrow> bool) \<Rightarrow> ip_globals \<Rightarrow> ptr \<Rightarrow> pbuf \<Rightarrow> bytes \<Rightarrow> pmem \<Rightarrow> bool option" where
  "chksum_ok is_odd g x b hdr m =
     (if current_header_proto g = IP_PROTO_UDPLITE then
        (let chklen = hdr_field hdr 2
         in if chklen < 8 \<and> chklen \<noteq> 0 then Some False
            else do {
              v \<leftarrow> ip_chksum_pseudo_partial is_odd (Some x) IP_PROTO_UDPLITE (tot_len b) (if chklen = 0 then tot_len b else chklen)
                    (current_iphdr_src g) (current_iphdr_dest g) m;
              Some (v = 0) })
      else if half (hdr ! 6) (hdr ! 7) \<noteq> 0 then do {
        v \<leftarrow> ip_chksum_pseudo is_odd (Some x) IP_PROTO_UDP (tot_len b) (current_iphdr_src g) (current_iphdr_dest g) m;
        Some (v = 0) }
      else Some True)"

definition free_packet :: "ptr option \<Rightarrow> 'r udp \<Rightarrow> 'r udp option" where
  "free_packet p s = do { (n, m) \<leftarrow> pbuf_free p (udp_mem s); Some (s\<lparr>udp_mem := m\<rparr>) }"

definition count_stats :: "(stats_proto \<Rightarrow> stats_proto) \<Rightarrow> 'r udp \<Rightarrow> 'r udp" where
  "count_stats f s = s\<lparr>udp_stats := f (udp_stats s)\<rparr>"

definition no_port :: "'r udp_env \<Rightarrow> ip_globals \<Rightarrow> ptr \<Rightarrow> bool \<Rightarrow> 'r udp \<Rightarrow> 'r udp option" where
  "no_port E g x broadcast s = do {
     m1 \<leftarrow> (if \<not> broadcast \<and> \<not> ip_addr_ismulticast (current_iphdr_dest g) then do {
       (e, m1) \<leftarrow> pbuf_header_force (Some x) (sint (current_ip_header_tot_len g + 8)) (udp_mem s);
       env_unreach E (current_is_v6 g) x m1 }
     else Some (udp_mem s));
     free_packet (Some x) (count_stats (\<lambda>t. t\<lparr>st_proterr := st_proterr t + 1, st_drop := st_drop t + 1\<rparr>) (s\<lparr>udp_mem := m1\<rparr>)) }"

text \<open>What happens once the control block is known.\<close>

definition udp_deliver :: "'r udp_env \<Rightarrow> ip_globals \<Rightarrow> ptr \<Rightarrow> udp_netif \<Rightarrow> pbuf \<Rightarrow> bytes \<Rightarrow> bool \<Rightarrow> u16 \<Rightarrow> nat option \<Rightarrow> 'r udp \<Rightarrow> 'r udp option" where
  "udp_deliver E g x inp b hdr broadcast src pcb s = do {
     let for_us = (pcb \<noteq> None \<or> (if current_is_v6 g then env_ip6_match E inp (current_iphdr_dest g)
                                 else ip4_addr_cmp (netif_ip_addr4 inp) (current_iphdr_dest g)));
     if \<not> for_us then free_packet (Some x) s
     else do {
       ok \<leftarrow> chksum_ok (env_is_odd E) g x b hdr (udp_mem s);
       if \<not> ok then free_packet (Some x) (count_stats (\<lambda>t. t\<lparr>st_chkerr := st_chkerr t + 1, st_drop := st_drop t + 1\<rparr>) s)
       else do {
         (err, m1) \<leftarrow> pbuf_remove_header (Some x) UDP_HLEN (udp_mem s);
         require (\<not> err);
         let s1 = s\<lparr>udp_mem := m1\<rparr>;
         (case pcb of
            None \<Rightarrow> no_port E g x broadcast s1
          | Some y \<Rightarrow> do {
              c \<leftarrow> pcbs s1 y;
              (case udp_recv_fn c of
                 None \<Rightarrow> free_packet (Some x) s1
               | Some f \<Rightarrow> env_recv E f y x (current_iphdr_src g) src s1) }) } } }"

definition udp_input :: "'r udp_env \<Rightarrow> ip_globals \<Rightarrow> ptr option \<Rightarrow> udp_netif \<Rightarrow> 'r udp \<Rightarrow> 'r udp option" where
  "udp_input E g p inp s0 = do {
     x \<leftarrow> p;
     let s = count_stats (\<lambda>t. t\<lparr>st_recv := st_recv t + 1\<rparr>) s0;
     b \<leftarrow> pb (udp_mem s) x;
     if pb_len b < 8
     then free_packet p (count_stats (\<lambda>t. t\<lparr>st_lenerr := st_lenerr t + 1, st_drop := st_drop t + 1\<rparr>) s)
     else do {
       hdr \<leftarrow> rd (udp_mem s) (payload b) UDP_HLEN;
       let broadcast = ip_addr_isbroadcast (current_iphdr_dest g) (current_netif g);
       let src = hdr_field hdr 0;
       let dest = hdr_field hdr 1;
       (found, uncon_pcb, s1) \<leftarrow> input_loop g inp broadcast src dest None None (udp_pcbs s) s;
       let pcb = (if found = None then uncon_pcb else found);
       udp_deliver E g x inp b hdr broadcast src pcb s1 } }"

subsection \<open>The list stays well-formed\<close>

text \<open>\<open>same_pcbs h h'\<close>: the control blocks are the same but for their place in the list.\<close>

definition same_pcbs :: "(nat \<Rightarrow> 'r udp_pcb option) \<Rightarrow> (nat \<Rightarrow> 'r udp_pcb option) \<Rightarrow> bool" where
  "same_pcbs h h' \<longleftrightarrow> (\<forall>y. map_option (udp_next_update (\<lambda>_. None)) (h y) = map_option (udp_next_update (\<lambda>_. None)) (h' y))"

lemma same_pcbs_refl [simp]: "same_pcbs h h"
  by (simp add: same_pcbs_def)

lemma same_pcbsD:
  assumes "same_pcbs h h'" "h' y = Some c"
  shows "\<exists>n. h y = Some (c\<lparr>udp_next := n\<rparr>)"
proof -
  obtain d where d: "h y = Some d" "d\<lparr>udp_next := None\<rparr> = c\<lparr>udp_next := None\<rparr>"
    using assms unfolding same_pcbs_def by (cases "h y") (auto dest!: spec [of _ y])
  have "d = (d\<lparr>udp_next := None\<rparr>)\<lparr>udp_next := udp_next d\<rparr>" by simp
  also have "\<dots> = c\<lparr>udp_next := udp_next d\<rparr>" unfolding d(2) by simp
  finally have "h y = Some (c\<lparr>udp_next := udp_next d\<rparr>)" using d(1) by metis
  then show ?thesis by blast
qed

lemma same_pcbs_None: "same_pcbs h h' \<Longrightarrow> h' y = None \<longleftrightarrow> h y = None"
  unfolding same_pcbs_def by (metis option.map_disc_iff)

lemma wf_relink:
  assumes W: "udp_wf s xs" and p: "npath (nexts h) p zs None" "set zs = set xs" and h: "same_pcbs h (pcbs s)"
  shows "udp_wf (s\<lparr>pcbs := h, udp_pcbs := p\<rparr>) zs"
proof -
  have dm: "dom h = dom (pcbs s)" by (simp add: dom_def same_pcbs_None [OF h] del: not_None_eq)
  have "ports_listed (set zs) h"
    unfolding ports_listed_def
  proof (intro allI impI)
    fix y d assume d: "h y = Some d"
    then obtain c where c: "pcbs s y = Some c" using dm by blast
    then have "local_port d = local_port c" "local_ip d = local_ip c" using same_pcbsD [OF h c] d by auto
    then show "(local_port d \<noteq> 0) = (y \<in> set zs) \<and> addr_ok (local_ip d)" using udp_wfD(8,9) [OF W c] p(2) by simp
  qed
  moreover have "exclusive (set zs) h"
    unfolding exclusive_def
  proof (intro ballI impI)
    fix u v assume uv: "u \<in> set zs" "v \<in> set zs" "u \<noteq> v"
    then obtain c d where c: "pcbs s u = Some c" "pcbs s v = Some d" using udp_wfD(6) [OF W] p(2) by blast
    then obtain k l where k: "h u = Some (c\<lparr>udp_next := k\<rparr>)" "h v = Some (d\<lparr>udp_next := l\<rparr>)" using same_pcbsD [OF h] by metis
    have "\<not> clash c d" using udp_wfD(5) [OF W] uv p(2) c unfolding exclusive_def by force
    then show "\<not> clash (the (h u)) (the (h v))" using k by (simp add: clash_def)
  qed
  ultimately show ?thesis using udp_wfD(2,4) [OF W] p(1) by (simp add: udp_wf_def dm del: memp_num.simps)
qed

definition pred_of :: "nat list \<Rightarrow> nat option" where
  "pred_of ys = (if ys = [] then None else Some (last ys))"

lemma to_front_ok:
  assumes W: "udp_wf s (ys @ x # zs)"
  shows "\<exists>s'. to_front x (pred_of ys) s = Some s' \<and> udp_wf s' (x # ys @ zs) \<and> same_pcbs (pcbs s') (pcbs s) \<and> udp_mem s' = udp_mem s \<and>
    udp_stats s' = (if ys = [] then (udp_stats s)\<lparr>st_cachehit := st_cachehit (udp_stats s) + 1\<rparr> else udp_stats s)"
proof -
  obtain c where c: "pcbs s x = Some c" using udp_wfD(6) [OF W] by auto
  show ?thesis
  proof (cases ys rule: rev_cases)
    case Nil
    then show ?thesis using c W by (auto simp: to_front_def pred_of_def udp_wf_def)
  next
    case (snoc as a)
    then have xs: "ys @ x # zs = as @ a # x # zs" by simp
    have W': "udp_wf s (as @ a # x # zs)" using W unfolding xs .
    note P = udp_wfD(1) [OF W']
    have d: "distinct (as @ a # x # zs)" using udp_wfD(3) [OF W'] .
    obtain e where e: "pcbs s a = Some e" using udp_wfD(6) [OF W'] by auto
    define h where "h = (pcbs s)(a \<mapsto> e\<lparr>udp_next := udp_next c\<rparr>, x \<mapsto> c\<lparr>udp_next := udp_pcbs s\<rparr>)"
    have "a \<noteq> x" using d by auto
    have n1: "nexts ((pcbs s)(a \<mapsto> e\<lparr>udp_next := udp_next c\<rparr>)) = (nexts (pcbs s))(a := Some (udp_next c))" by (auto simp: fun_eq_iff)
    have "npath ((nexts (pcbs s))(a := Some (udp_next c))) (udp_pcbs s) (as @ a # zs) None"
      using npath_unlink [OF P, of "udp_next c"] c by simp
    from npath_push [OF this, of x] have "npath (((nexts (pcbs s))(a := Some (udp_next c)))(x := Some (udp_pcbs s))) (Some x) (x # as @ a # zs) None" using d by auto
    moreover have "nexts h = ((nexts (pcbs s))(a := Some (udp_next c)))(x := Some (udp_pcbs s))" using \<open>a \<noteq> x\<close> by (auto simp: h_def fun_eq_iff)
    ultimately have "npath (nexts h) (Some x) (x # as @ a # zs) None" by metis
    moreover have s: "same_pcbs h (pcbs s)" using c e \<open>a \<noteq> x\<close> by (auto simp: same_pcbs_def h_def)
    ultimately have "udp_wf (s\<lparr>pcbs := h, udp_pcbs := Some x\<rparr>) (x # as @ a # zs)" using d by (intro wf_relink [OF W']) auto
    moreover have "to_front x (pred_of ys) s = Some (s\<lparr>pcbs := h, udp_pcbs := Some x\<rparr>)"
      using snoc c e \<open>a \<noteq> x\<close> by (simp add: to_front_def pred_of_def put_pcb_def h_def Let_def)
    ultimately show ?thesis using snoc s by simp
  qed
qed

subsection \<open>Which control block is found\<close>

definition local_at :: "ip_globals \<Rightarrow> udp_netif \<Rightarrow> bool \<Rightarrow> u16 \<Rightarrow> 'r udp_pcb \<Rightarrow> bool" where
  "local_at g inp broadcast dest c \<longleftrightarrow> local_port c = dest \<and> udp_input_local_match g c inp broadcast"

abbreviation unconnected :: "'r udp_pcb \<Rightarrow> bool" where
  "unconnected c \<equiv> udp_flags c AND UDP_FLAGS_CONNECTED = 0"

text \<open>What the search leaves: at most the order of the list and a counter have changed.\<close>

definition demuxed :: "'r udp \<Rightarrow> 'r udp \<Rightarrow> bool" where
  "demuxed s s' \<longleftrightarrow> (\<exists>xs'. udp_wf s' xs') \<and> same_pcbs (pcbs s') (pcbs s) \<and> udp_mem s' = udp_mem s \<and>
     (\<exists>k. udp_stats s' = (udp_stats s)\<lparr>st_cachehit := k\<rparr>)"

lemma demuxed_refl: "udp_wf s xs \<Longrightarrow> demuxed s s"
  by (auto simp: demuxed_def intro!: exI [of _ "st_cachehit (udp_stats s)"])

lemma to_front_demuxed: "udp_wf s (ys @ x # zs) \<Longrightarrow> \<exists>s'. to_front x (pred_of ys) s = Some s' \<and> demuxed s s'"
proof -
  assume W: "udp_wf s (ys @ x # zs)"
  obtain s' where s': "to_front x (pred_of ys) s = Some s'" "udp_wf s' (x # ys @ zs)" "same_pcbs (pcbs s') (pcbs s)" "udp_mem s' = udp_mem s"
    "udp_stats s' = (if ys = [] then (udp_stats s)\<lparr>st_cachehit := st_cachehit (udp_stats s) + 1\<rparr> else udp_stats s)"
    using to_front_ok [OF W] by blast
  have "\<exists>k. udp_stats s' = (udp_stats s)\<lparr>st_cachehit := k\<rparr>"
    by (rule exI [of _ "if ys = [] then st_cachehit (udp_stats s) + 1 else st_cachehit (udp_stats s)"]) (simp add: s'(5))
  then show ?thesis using s' by (auto simp: demuxed_def)
qed

lemma update_uncon_ok:
  assumes "\<And>v. u = Some v \<Longrightarrow> pcbs s v \<noteq> None"
  shows "\<exists>u1. update_uncon g inp broadcast x c u s = Some u1 \<and> (u1 = u \<or> u1 = Some x) \<and>
    (\<not> broadcast \<longrightarrow> u1 = (if unconnected c \<and> u = None then Some x else u))"
  using assms by (cases u) (auto simp: update_uncon_def)

lemma input_loop_ok:
  assumes "udp_wf s (ys @ zs)" "npath (nexts (pcbs s)) p zs None" "\<And>v. u = Some v \<Longrightarrow> v \<in> set ys"
    and "full = (\<lambda>y. local_at g inp broadcast dest (the (pcbs s y)) \<and> remote_match g src (the (pcbs s y)))"
    and "unc = (\<lambda>y. local_at g inp broadcast dest (the (pcbs s y)) \<and> unconnected (the (pcbs s y)))"
  shows "\<exists>u' s'. input_loop g inp broadcast src dest (pred_of ys) u p s = Some (find full zs, u', s') \<and> demuxed s s' \<and>
    (\<forall>v. u' = Some v \<longrightarrow> v \<in> set (ys @ zs)) \<and> (\<not> broadcast \<and> find full zs = None \<longrightarrow> u' = (if u = None then find unc zs else u))"
  using assms
proof (induction zs arbitrary: ys p u)
  case Nil
  then show ?case using demuxed_refl [of s ys] by (auto simp: input_loop.simps [of _ _ _ _ _ _ _ None])
next
  case (Cons x zs)
  have P: "p = Some x" using Cons.prems(2) by simp
  obtain c where c: "pcbs s x = Some c" "npath (nexts (pcbs s)) (udp_next c) zs None" using Cons.prems(2) by auto
  have W: "udp_wf s ((ys @ [x]) @ zs)" using Cons.prems(1) by simp
  have pr: "pred_of (ys @ [x]) = Some x" by (simp add: pred_of_def)
  note step = input_loop.simps [of g inp broadcast src dest "pred_of ys" u "Some x" s, folded local_at_def]
  show ?case
  proof (cases "local_at g inp broadcast dest c")
    case False
    then have "input_loop g inp broadcast src dest (pred_of ys) u p s = input_loop g inp broadcast src dest (Some x) u (udp_next c) s"
      using c P by (simp add: step)
    moreover have "find full (x # zs) = find full zs" "find unc (x # zs) = find unc zs" using False c(1) Cons.prems(4,5) by simp_all
    moreover have "\<And>v. u = Some v \<Longrightarrow> v \<in> set (ys @ [x])" using Cons.prems(3) by auto
    ultimately show ?thesis using Cons.IH [OF W c(2) _ Cons.prems(4,5), of u] pr by (cases u) auto
  next
    case True
    have "pcbs s v \<noteq> None" if "u = Some v" for v using Cons.prems(3) [OF that] udp_wfD(6) [OF Cons.prems(1)] by auto
    then obtain u1 where u1: "update_uncon g inp broadcast x c u s = Some u1" "u1 = u \<or> u1 = Some x"
      "\<not> broadcast \<longrightarrow> u1 = (if unconnected c \<and> u = None then Some x else u)" using update_uncon_ok by blast
    show ?thesis
    proof (cases "remote_match g src c")
      case full: True
      obtain s' where s': "to_front x (pred_of ys) s = Some s'" "demuxed s s'"
        using to_front_demuxed [OF Cons.prems(1)] by blast
      then have "input_loop g inp broadcast src dest (pred_of ys) u p s = Some (Some x, u1, s')"
        using c P True full u1(1) by (simp add: step)
      moreover have "find full (x # zs) = Some x" using Cons.prems(4) c(1) True full by simp
      ultimately show ?thesis using s'(2) u1(2) Cons.prems(3) by auto
    next
      case rest: False
      then have "input_loop g inp broadcast src dest (pred_of ys) u p s = input_loop g inp broadcast src dest (Some x) u1 (udp_next c) s"
        using c P True u1(1) by (simp add: step)
      moreover have "\<And>v. u1 = Some v \<Longrightarrow> v \<in> set (ys @ [x])" using u1(2) Cons.prems(3) by auto
      moreover have "find full (x # zs) = find full zs" "find unc (x # zs) = (if unconnected c then Some x else find unc zs)"
        using rest True c(1) Cons.prems(4,5) by simp_all
      ultimately show ?thesis using Cons.IH [OF W c(2) _ Cons.prems(4,5), of u1] u1(3) pr by (auto split: if_splits)
    qed
  qed
qed

text \<open>
  The contract of the demultiplexer for a datagram to a single host: it belongs to the control block that is bound to the port and
  the address and, if it is connected, to the sender.
\<close>

definition receiver :: "ip_globals \<Rightarrow> udp_netif \<Rightarrow> u16 \<Rightarrow> u16 \<Rightarrow> 'r udp \<Rightarrow> nat \<Rightarrow> 'r udp_pcb \<Rightarrow> bool" where
  "receiver g inp src dest s y c \<longleftrightarrow> pcbs s y = Some c \<and> dest \<noteq> 0 \<and> local_at g inp False dest c \<and> (unconnected c \<or> remote_match g src c)"

lemma one_local:
  assumes W: "udp_wf s xs" and x: "pcbs s x = Some c" "local_at g inp False dest c" and y: "pcbs s y = Some d" "local_at g inp False dest d"
    and "dest \<noteq> 0"
  shows "x = y"
proof (rule ccontr)
  assume "x \<noteq> y"
  have m: "x \<in> set xs" "y \<in> set xs" using udp_wfD(8) [OF W x(1)] udp_wfD(8) [OF W y(1)] x(2) y(2) \<open>dest \<noteq> 0\<close> by (auto simp: local_at_def)
  then have n: "\<not> clash c d" using udp_wfD(5) [OF W] x y \<open>x \<noteq> y\<close> unfolding exclusive_def by force
  have l: "ip_addr_isany (local_ip e) \<or> ip_addr_cmp (local_ip e) (current_iphdr_dest g)" if "local_at g inp False dest e" "addr_ok (local_ip e)" for e :: "'a udp_pcb"
    using that by (auto simp: local_at_def udp_input_local_match_def addr_ok_def split: if_splits)
  have "ip_addr_cmp (local_ip c) (current_iphdr_dest g)" "ip_addr_cmp (local_ip d) (current_iphdr_dest g)"
    using l [OF x(2) udp_wfD(9) [OF W x(1)]] l [OF y(2) udp_wfD(9) [OF W y(1)]] n x(2) y(2) by (auto simp: clash_def local_at_def)
  then have "ip_addr_cmp (local_ip c) (local_ip d)" using cmp_trans cmp_sym by blast
  then show False using n x(2) y(2) by (auto simp: clash_def local_at_def)
qed

lemma demux_ok:
  assumes W: "udp_wf s xs"
  shows "\<exists>f u s'. input_loop g inp False src dest None None (udp_pcbs s) s = Some (f, u, s') \<and> demuxed s s' \<and>
    (\<forall>y. (if f = None then u else f) = Some y \<longleftrightarrow> (\<exists>c. receiver g inp src dest s y c))"
proof -
  define full where "full = (\<lambda>y. local_at g inp False dest (the (pcbs s y)) \<and> remote_match g src (the (pcbs s y)))"
  define unc where "unc = (\<lambda>y. local_at g inp False dest (the (pcbs s y)) \<and> unconnected (the (pcbs s y)))"
  have pr: "pred_of [] = None" by (simp add: pred_of_def)
  obtain u s' where l: "input_loop g inp False src dest None None (udp_pcbs s) s = Some (find full xs, u, s')" "demuxed s s'"
    "find full xs = None \<longrightarrow> u = find unc xs"
    using input_loop_ok [of s "[]" xs "udp_pcbs s" None full g inp False dest src unc] W udp_wfD(1) [OF W] full_def unc_def unfolding pr by auto
  have c: "\<exists>c. pcbs s y = Some c \<and> local_port c \<noteq> 0" if "y \<in> set xs" for y
    using udp_wfD(6) [OF W] udp_wfD(8) [OF W, of y] that by blast
  have "(if find full xs = None then u else find full xs) = Some y \<longleftrightarrow> (\<exists>c. receiver g inp src dest s y c)" for y
  proof
    assume "(if find full xs = None then u else find full xs) = Some y"
    then have "y \<in> set xs" "full y \<or> unc y" using l(3) by (auto simp: find_Some_iff find_Some_iff2 split: if_splits)
    then show "\<exists>c. receiver g inp src dest s y c" using c [of y] by (auto simp: receiver_def full_def unc_def local_at_def)
  next
    assume "\<exists>c. receiver g inp src dest s y c"
    then obtain d where d: "pcbs s y = Some d" "dest \<noteq> 0" "local_at g inp False dest d" "unconnected d \<or> remote_match g src d" by (auto simp: receiver_def)
    have y: "y \<in> set xs" using udp_wfD(8) [OF W d(1)] d(2,3) by (simp add: local_at_def)
    have eq: "y' = y" if "y' \<in> set xs" "local_at g inp False dest (the (pcbs s y'))" for y'
      using c [OF that(1)] one_local [OF W _ _ d(1,3,2), of y'] that(2) by auto
    show "(if find full xs = None then u else find full xs) = Some y"
    proof (cases "find full xs")
      case None
      then have "\<not> full y" using y by (auto simp: find_None_iff)
      then have "unc y" using d by (simp add: full_def unc_def)
      then obtain y' where "find unc xs = Some y'" using y by (cases "find unc xs") (auto simp: find_None_iff)
      moreover from this have "y' = y" by (intro eq) (auto simp: find_Some_iff unc_def)
      ultimately show ?thesis using None l(3) by simp
    next
      case (Some y')
      then have "y' = y" by (intro eq) (auto simp: find_Some_iff full_def)
      then show ?thesis using Some by simp
    qed
  qed
  then show ?thesis using l by blast
qed

subsection \<open>Header and checksum\<close>

lemma half_zero: "half a b = 0 \<longleftrightarrow> a = 0 \<and> b = 0"
proof -
  have "half a b = 0 \<longleftrightarrow> unat a + 256 * unat b = 0" unfolding word_unat_eq_iff unat_half by simp
  then show ?thesis by (simp add: unat_eq_0)
qed

text \<open>A datagram of UDP as the receiver accepts it: no checksum, or the right one.\<close>

definition udp_valid :: "ip_globals \<Rightarrow> bytes \<Rightarrow> bool" where
  "udp_valid g bs \<longleftrightarrow> bs ! 6 = 0 \<and> bs ! 7 = 0 \<or>
     inet_chksum False (pseudo_header (current_iphdr_src g) (current_iphdr_dest g) IP_PROTO_UDP (of_nat (length bs)) @ bs) = 0"

lemma packet_head:
  assumes "own_packet m (Some x) ps" "8 \<le> len_at (pb m) x" "bs = content m ps"
  shows "\<exists>b hdr qs. ps = x # qs \<and> pb m x = Some b \<and> \<not> pb_len b < 8 \<and> rd m (payload b) 8 = Some hdr \<and> tot_len b = of_nat (length bs) \<and>
    (\<forall>i<8. hdr ! i = bs ! i) \<and> 8 \<le> length bs \<and> lens (pb m) ps < 65536"
proof -
  obtain qs where ps: "ps = x # qs" using assms(1) by (cases ps) (auto simp: own_packet_def)
  then obtain b where b: "pb m x = Some b" "in_buf m (payload b) (unat (pb_len b))" "unat (tot_len b) = lens (pb m) ps"
    using assms(1) unfolding own_packet_def by auto
  have l: "8 \<le> unat (pb_len b)" using assms(2) b(1) by simp
  have lp: "length (pay m x) = unat (pb_len b)" using length_pay [OF b(1,2)] .
  have "data_ok m ps" using assms(1) by (simp add: own_packet_def)
  then have len: "length bs = lens (pb m) ps" using length_content assms(3) by simp
  have t: "tot_len b = of_nat (length bs)" unfolding len b(3) [symmetric] by simp
  have sh: "shift (payload b) 0 = payload b" by simp
  have "rd m (payload b) 8 = Some (take 8 (pay m x))" using rd_pay [OF b(1,2), of 0 8] l sh by simp
  moreover have "\<forall>i<8. take 8 (pay m x) ! i = bs ! i" using assms(3) ps l lp by (simp add: nth_append)
  moreover have "8 \<le> length bs" using assms(3) ps l lp by simp
  ultimately show ?thesis using ps b(1) l t unat16_less [of "tot_len b"] b(3) by (auto simp: word_less_nat_alt)
qed

lemma chksum_ok_udp:
  assumes "own_packet m (Some x) ps" "bs = content m ps" "tot_len b = of_nat (length bs)" "\<forall>i<8. hdr ! i = bs ! i" "lens (pb m) ps < 65536"
    and "current_header_proto g \<noteq> IP_PROTO_UDPLITE" "length (u_addr (current_iphdr_src g)) = 16" "length (u_addr (current_iphdr_dest g)) = 16"
  shows "chksum_ok is_odd g x b hdr m = Some (udp_valid g bs)"
proof -
  have "ip_chksum_pseudo is_odd (Some x) IP_PROTO_UDP (tot_len b) (current_iphdr_src g) (current_iphdr_dest g) m =
      Some (inet_chksum False (pseudo_header (current_iphdr_src g) (current_iphdr_dest g) IP_PROTO_UDP (of_nat (length bs)) @ bs))"
    unfolding assms(2,3) using assms(1,5,7,8) by (intro pseudo_chain) (simp_all add: own_packet_def)
  then show ?thesis using assms(4,6) by (auto simp: chksum_ok_def udp_valid_def half_zero)
qed

subsection \<open>From the packet to the control block\<close>

lemma count_stats_sel [simp]:
  "pcbs (count_stats f s) = pcbs s" "udp_pcbs (count_stats f s) = udp_pcbs s" "udp_mem (count_stats f s) = udp_mem s"
  "udp_stats (count_stats f s) = f (udp_stats s)" "udp_port (count_stats f s) = udp_port s"
  by (simp_all add: count_stats_def)

lemma wf_count [simp]: "udp_wf (count_stats f s) xs = udp_wf s xs"
  by (simp add: udp_wf_def)

lemma hdr_field_cong: "\<forall>i<8. hdr ! i = bs ! i \<Longrightarrow> i < 4 \<Longrightarrow> hdr_field hdr i = hdr_field bs i"
  by (simp add: hdr_field_def)

text \<open>\<open>packet_in s x ps bs b hdr\<close>: the packet holds the bytes \<open>bs\<close>, \<open>b\<close> is its first structure and \<open>hdr\<close> its header.\<close>

definition packet_in :: "pmem \<Rightarrow> ptr \<Rightarrow> ptr list \<Rightarrow> bytes \<Rightarrow> pbuf \<Rightarrow> bytes \<Rightarrow> bool" where
  "packet_in m x ps bs b hdr \<longleftrightarrow> own_packet m (Some x) ps \<and> bs = content m ps \<and> pb m x = Some b \<and> 8 \<le> pb_len b \<and> tot_len b = of_nat (length bs) \<and>
     (\<forall>i<8. hdr ! i = bs ! i) \<and> 8 \<le> length bs \<and> lens (pb m) ps < 65536 \<and> (\<exists>qs. ps = x # qs)"

lemma input_start:
  assumes W: "udp_wf s xs" and p: "own_packet (udp_mem s) (Some x) ps" "8 \<le> len_at (pb (udp_mem s)) x" "bs = content (udp_mem s) ps"
    and u: "\<not> ip_addr_isbroadcast (current_iphdr_dest g) (current_netif g)"
  shows "\<exists>b hdr pcb s1. packet_in (udp_mem s) x ps bs b hdr \<and> demuxed (count_stats (\<lambda>t. t\<lparr>st_recv := st_recv t + 1\<rparr>) s) s1 \<and>
    (\<forall>y. pcb = Some y \<longleftrightarrow> (\<exists>c. receiver g inp (hdr_field bs 0) (hdr_field bs 1) s y c)) \<and>
    (\<forall>E. udp_input E g (Some x) inp s = udp_deliver E g x inp b hdr False (hdr_field bs 0) pcb s1)"
proof -
  let ?s = "count_stats (\<lambda>t. t\<lparr>st_recv := st_recv t + 1\<rparr>) s"
  obtain b hdr qs where b: "ps = x # qs" "pb (udp_mem s) x = Some b" "\<not> pb_len b < 8" "rd (udp_mem s) (payload b) 8 = Some hdr"
    "tot_len b = of_nat (length bs)" "\<forall>i<8. hdr ! i = bs ! i" "8 \<le> length bs" "lens (pb (udp_mem s)) ps < 65536"
    using packet_head [OF p] by blast
  have h: "hdr_field hdr 0 = hdr_field bs 0" "hdr_field hdr 1 = hdr_field bs 1" using hdr_field_cong [OF b(6)] by simp_all
  have Ws: "udp_wf ?s xs" using W by simp
  obtain f u s1 where l: "input_loop g inp False (hdr_field bs 0) (hdr_field bs 1) None None (udp_pcbs ?s) ?s = Some (f, u, s1)" "demuxed ?s s1"
    "\<forall>y. (if f = None then u else f) = Some y \<longleftrightarrow> (\<exists>c. receiver g inp (hdr_field bs 0) (hdr_field bs 1) ?s y c)"
    using demux_ok [OF Ws, of g inp "hdr_field bs 0" "hdr_field bs 1"] by blast
  have r: "receiver g inp (hdr_field bs 0) (hdr_field bs 1) ?s y c = receiver g inp (hdr_field bs 0) (hdr_field bs 1) s y c" for y c by (simp add: receiver_def)
  have "udp_input E g (Some x) inp s = udp_deliver E g x inp b hdr False (hdr_field bs 0) (if f = None then u else f) s1" for E
    using b(2,3,4) l(1) u h by (simp add: udp_input_def Let_def)
  moreover have "packet_in (udp_mem s) x ps bs b hdr" using b p by (simp add: packet_in_def not_less)
  ultimately show ?thesis using l(2,3) r by blast
qed

lemma header_removed:
  assumes "packet_in m x ps bs b hdr" "pm_inv L m"
  shows "\<exists>b'. pbuf_remove_header (Some x) 8 m = Some (False, put_pb x b' m) \<and> own_packet (put_pb x b' m) (Some x) ps \<and>
    content (put_pb x b' m) ps = drop 8 bs \<and> pm_inv L (put_pb x b' m)"
proof -
  obtain qs where ps: "ps = x # qs" using assms(1) by (auto simp: packet_in_def)
  have a: "own_packet m (Some x) (x # qs)" "pb m x = Some b" "8 \<le> pb_len b" "bs = content m ps" using assms(1) ps by (auto simp: packet_in_def)
  obtain b' where b': "pbuf_remove_header (Some x) (unat (8 :: u16)) m = Some (False, put_pb x b' m)" "label_ok x b' = label_ok x b"
    "own_packet (put_pb x b' m) (Some x) (x # qs)" "content (put_pb x b' m) (x # qs) = drop (unat (8 :: u16)) (content m (x # qs))"
    using remove_header_head [OF a(1,2,3)] by auto
  moreover have "pm_inv L (put_pb x b' m)" using pm_inv_put [OF assms(2) a(2)] b'(2) pm_invD(1) [OF assms(2) a(2)] by blast
  ultimately show ?thesis using ps a(4) by auto
qed

lemma wf_mem: "udp_wf s xs \<Longrightarrow> pools m = pools (udp_mem s) \<Longrightarrow> udp_wf (s\<lparr>udp_mem := m\<rparr>) xs"
  by (simp add: udp_wf_def)

lemma input_delivered:
  assumes W: "udp_wf s xs" and m: "pm_inv L (udp_mem s)"
    and p: "own_packet (udp_mem s) (Some x) ps" "8 \<le> len_at (pb (udp_mem s)) x" "bs = content (udp_mem s) ps"
    and u: "\<not> ip_addr_isbroadcast (current_iphdr_dest g) (current_netif g)"
    and a: "current_header_proto g = IP_PROTO_UDP" "length (u_addr (current_iphdr_src g)) = 16" "length (u_addr (current_iphdr_dest g)) = 16"
    and v: "udp_valid g bs" and r: "receiver g inp (hdr_field bs 0) (hdr_field bs 1) s y c"
  shows "\<exists>s1 n xs1. udp_input E g (Some x) inp s =
      (case udp_recv_fn c of None \<Rightarrow> free_packet (Some x) s1 | Some f \<Rightarrow> env_recv E f y x (current_iphdr_src g) (hdr_field bs 0) s1) \<and>
    own_packet (udp_mem s1) (Some x) ps \<and> content (udp_mem s1) ps = drop 8 bs \<and> pm_inv L (udp_mem s1) \<and>
    pcbs s1 y = Some (c\<lparr>udp_next := n\<rparr>) \<and> same_pcbs (pcbs s1) (pcbs s) \<and> udp_wf s1 xs1"
proof -
  obtain b hdr pcb s1 where s1: "packet_in (udp_mem s) x ps bs b hdr" "demuxed (count_stats (\<lambda>t. t\<lparr>st_recv := st_recv t + 1\<rparr>) s) s1"
    "\<forall>y. pcb = Some y \<longleftrightarrow> (\<exists>c. receiver g inp (hdr_field bs 0) (hdr_field bs 1) s y c)"
    "\<forall>E. udp_input E g (Some x) inp s = udp_deliver E g x inp b hdr False (hdr_field bs 0) pcb s1"
    using input_start [OF W p u] by blast
  have pcb: "pcb = Some y" using s1(3) r by blast
  obtain xs1 where d: "udp_wf s1 xs1" "same_pcbs (pcbs s1) (pcbs s)" "udp_mem s1 = udp_mem s" using s1(2) by (auto simp: demuxed_def)
  obtain n where n: "pcbs s1 y = Some (c\<lparr>udp_next := n\<rparr>)" using same_pcbsD [OF d(2)] r by (auto simp: receiver_def)
  have k: "chksum_ok (env_is_odd E) g x b hdr (udp_mem s) = Some True"
    using s1(1) v a by (subst chksum_ok_udp [where ps = ps and bs = bs]) (auto simp: packet_in_def)
  obtain b' where b': "pbuf_remove_header (Some x) 8 (udp_mem s) = Some (False, put_pb x b' (udp_mem s))" "own_packet (put_pb x b' (udp_mem s)) (Some x) ps"
    "content (put_pb x b' (udp_mem s)) ps = drop 8 bs" "pm_inv L (put_pb x b' (udp_mem s))" using header_removed [OF s1(1) m] by blast
  let ?s = "s1\<lparr>udp_mem := put_pb x b' (udp_mem s)\<rparr>"
  have "udp_input E g (Some x) inp s =
      (case udp_recv_fn c of None \<Rightarrow> free_packet (Some x) ?s | Some f \<Rightarrow> env_recv E f y x (current_iphdr_src g) (hdr_field bs 0) ?s)"
    using s1(4) pcb d(3) k b'(1) n by (simp add: udp_deliver_def Let_def)
  moreover have "udp_wf ?s xs1" using d(1,3) by (intro wf_mem) simp_all
  ultimately show ?thesis using b'(2-4) n d(2) by (intro exI [of _ ?s] exI [of _ n] exI [of _ xs1]) simp
qed

subsection \<open>A sample\<close>

text \<open>One control block, bound to port 5353 for every address, and a packet with the bytes \<open>bs\<close> in one pbuf.\<close>

definition sample_pcb :: "unit udp_pcb" where
  "sample_pcb = \<lparr>local_ip = ip_addr_any 0, remote_ip = ip_addr_any 0, netif_idx = 0, so_options = 0, tos = 0, ttl = UDP_TTL, udp_next = None, udp_flags = 0,
     local_port = 5353, remote_port = 0, mcast_ip4 = 0, mcast_ifindex = 0, mcast_ttl = UDP_TTL, chksum_len_rx = 0, chksum_len_tx = 0, udp_recv_fn = Some ()\<rparr>"

definition sample_packet :: "bytes \<Rightarrow> pmem" where
  "sample_packet bs = start_mem\<lparr>pb := [Custom 0 \<mapsto> \<lparr>pb_next = None, payload = Some (Own (Custom 0), 0), tot_len = of_nat (length bs), pb_len = of_nat (length bs),
       type_internal = 0x41, pb_flags = 0x02, pb_ref = 1, if_idx = 0\<rparr>],
     dat := (dat start_mem)(Own (Custom 0) := bs), custom_fn := (\<lambda>_. Some 0), pools := snd (memp_malloc MEMP_UDP_PCB (pools start_mem))\<rparr>"

definition sample_udp :: "bytes \<Rightarrow> nat \<Rightarrow> unit udp" where
  "sample_udp bs e = start_udp\<lparr>pcbs := [e \<mapsto> sample_pcb], udp_pcbs := Some e, udp_mem := sample_packet bs\<rparr>"

definition sample_globals :: "u8 \<Rightarrow> ip_globals" where
  "sample_globals proto = (let n = \<lparr>netif_index = 1, netif_ip_addr4 = sample_addr, netif_ip4_netmask = 0x00ffffff, netif_flags = 0\<rparr>
     in \<lparr>current_netif = n, current_input_netif = n, current_is_v6 = False, current_header_proto = proto, current_ip_header_tot_len = 20,
        current_iphdr_src = sample_addr, current_iphdr_dest = sample_addr\<rparr>)"

definition sample_env :: "unit udp_env" where
  "sample_env = \<lparr>env_is_odd = (\<lambda>_. False), env_ip6_match = (\<lambda>_ _. False), env_unreach = (\<lambda>_ _ m. Some m), env_recv = (\<lambda>_ _ _ _ _ s. Some s)\<rparr>"

lemma sample_packet_ok:
  assumes "length bs < 65536"
  shows "pm_inv (Map.empty, {}, {}) (sample_packet bs)" "own_packet (sample_packet bs) (Some (Custom 0)) [Custom 0]"
    "content (sample_packet bs) [Custom 0] = bs" "len_at (pb (sample_packet bs)) (Custom 0) = length bs"
proof -
  have p: "snd (memp_malloc MEMP_UDP_PCB ps) t = ps t" if "t \<noteq> MEMP_UDP_PCB" for ps t using that by (simp add: memp_malloc_def split: prod.split)
  have "alloc_inv (Map.empty, {}, {}) (sample_packet bs)" using start_inv by (simp add: pm_inv_def sample_packet_def p)
  then show "pm_inv (Map.empty, {}, {}) (sample_packet bs)" by (auto simp: pm_inv_def sample_packet_def label_ok_def)
  have u: "unat (of_nat (length bs) :: u16) = length bs" using assms by (simp add: unat_of_nat take_bit_eq_mod)
  show "own_packet (sample_packet bs) (Some (Custom 0)) [Custom 0]"
    using u by (simp add: own_packet_def sample_packet_def len_at_def in_buf_def buf_at_def refs_pos_def)
  show "content (sample_packet bs) [Custom 0] = bs" "len_at (pb (sample_packet bs)) (Custom 0) = length bs"
    using u by (simp_all add: sample_packet_def pay_def bytes_at_def len_at_def)
qed

lemma sample_udp_ok: "\<exists>e. \<forall>bs. udp_wf (sample_udp bs e) [e]"
proof -
  have l: "pool_live (memp_num MEMP_UDP_PCB) (pools start_mem MEMP_UDP_PCB) {}" using start_udp_ok(3) by (simp add: start_udp_def del: memp_num.simps)
  obtain r ps where r: "memp_malloc MEMP_UDP_PCB (pools start_mem) = (r, ps)"
    "case r of None \<Rightarrow> {} = {..<memp_num MEMP_UDP_PCB} \<and> pool_live (memp_num MEMP_UDP_PCB) (ps MEMP_UDP_PCB) {}
     | Some e \<Rightarrow> e \<notin> {} \<and> e < memp_num MEMP_UDP_PCB \<and> pool_live (memp_num MEMP_UDP_PCB) (ps MEMP_UDP_PCB) {e}"
    using memp_malloc_spec [of MEMP_UDP_PCB "pools start_mem", OF l] by blast
  then obtain e where e: "pool_live (memp_num MEMP_UDP_PCB) (ps MEMP_UDP_PCB) {e}" by (cases r) (auto simp: lessThan_empty_iff dest!: sym [of "{}"])
  have "udp_wf (sample_udp bs e) [e]" for bs
    using e r(1) by (simp add: udp_wf_def sample_udp_def sample_packet_def start_udp_def sample_pcb_def ports_listed_def exclusive_def)
  then show ?thesis by blast
qed

lemma sample_addr_ok: "length (u_addr sample_addr) = 16" "\<not> ip_addr_isbroadcast (current_iphdr_dest (sample_globals p)) (current_netif (sample_globals p))"
proof -
  show "length (u_addr sample_addr) = 16" by (simp add: sample_addr_def)
  have "addr_word sample_addr 0 = 0x0100a8c0" unfolding addr_word_def sample_addr_def by code_simp
  then show "\<not> ip_addr_isbroadcast (current_iphdr_dest (sample_globals p)) (current_netif (sample_globals p))"
    by (simp add: sample_globals_def Let_def ip_addr_isbroadcast_def IP_IS_V6_def ip4_addr_isbroadcast_u32_def ip4_view_def)
qed

lemma sample_receiver: "receiver (sample_globals p) n sp 5353 (sample_udp bs e) e sample_pcb"
  by (simp add: receiver_def sample_udp_def sample_pcb_def local_at_def udp_input_local_match_def sample_globals_def Let_def sample_addr_def
      ip_addr_any_def ip_addr_isany_def IP_IS_V6_def ip4_addr_isany_def)

subsection \<open>Properties\<close>

text \<open>
  C15: a valid datagram to a single host reaches the application it is for, and only this one. If a control block is bound to the port and
  address, and is not connected to another sender, it is the only one, and its receive function is called once, with the sender's
  address and port and a packet that holds exactly the bytes behind the header. The list of control blocks is well-formed at the call.
\<close>

theorem udp_input_delivers:
  assumes W: "udp_wf s xs" and m: "pm_inv L (udp_mem s)"
    and p: "own_packet (udp_mem s) (Some x) ps" "8 \<le> len_at (pb (udp_mem s)) x" "bs = content (udp_mem s) ps"
    and u: "\<not> ip_addr_isbroadcast (current_iphdr_dest g) (current_netif g)"
    and a: "current_header_proto g = IP_PROTO_UDP" "length (u_addr (current_iphdr_src g)) = 16" "length (u_addr (current_iphdr_dest g)) = 16"
    and v: "udp_valid g bs" and r: "receiver g inp (hdr_field bs 0) (hdr_field bs 1) s y c"
  shows "\<exists>s1 n xs1. udp_input E g (Some x) inp s =
      (case udp_recv_fn c of None \<Rightarrow> free_packet (Some x) s1 | Some f \<Rightarrow> env_recv E f y x (current_iphdr_src g) (hdr_field bs 0) s1) \<and>
    own_packet (udp_mem s1) (Some x) ps \<and> content (udp_mem s1) ps = drop 8 bs \<and> pm_inv L (udp_mem s1) \<and>
    pcbs s1 y = Some (c\<lparr>udp_next := n\<rparr>) \<and> same_pcbs (pcbs s1) (pcbs s) \<and> udp_wf s1 xs1 \<and>
    (\<forall>y' c'. receiver g inp (hdr_field bs 0) (hdr_field bs 1) s y' c' \<longrightarrow> y' = y)"
proof -
  have "\<forall>y' c'. receiver g inp (hdr_field bs 0) (hdr_field bs 1) s y' c' \<longrightarrow> y' = y"
    using input_start [OF W p u] r by (metis option.inject)
  then show ?thesis using input_delivered [OF W m p u a v r, of E] by blast
qed

theorem udp_input_delivers_witness:
  "\<exists>e s1. udp_input sample_env (sample_globals 17) (Some (Custom 0)) (current_netif (sample_globals 17)) (sample_udp [0, 7, 0x14, 0xe9, 0, 11, 0, 0, 1, 2, 3] e) = Some s1 \<and>
     content (udp_mem s1) [Custom 0] = [1, 2, 3]"
proof -
  let ?bs = "[0, 7, 0x14, 0xe9, 0, 11, 0, 0, 1, 2, 3] :: bytes"
  obtain e where e: "udp_wf (sample_udp ?bs e) [e]" using sample_udp_ok by blast
  have f: "hdr_field ?bs 1 = 5353" by code_simp
  have m: "udp_mem (sample_udp ?bs e) = sample_packet ?bs" by (simp add: sample_udp_def)
  note k = sample_packet_ok [of ?bs, folded m]
  have v: "udp_valid (sample_globals 17) ?bs" by (simp add: udp_valid_def)
  have r: "receiver (sample_globals 17) (current_netif (sample_globals 17)) (hdr_field ?bs 0) (hdr_field ?bs 1) (sample_udp ?bs e) e sample_pcb"
    unfolding f by (rule sample_receiver)
  have l: "length ?bs < 65536" by simp
  have a: "current_header_proto (sample_globals 17) = 17" "length (u_addr (current_iphdr_src (sample_globals 17))) = 16"
    "length (u_addr (current_iphdr_dest (sample_globals 17))) = 16" by (simp_all add: sample_globals_def Let_def sample_addr_ok(1))
  from udp_input_delivers [OF e k(1) [OF l] k(2) [OF l] _ k(3) [OF l, symmetric] sample_addr_ok(2) a v r, of sample_env] k(4) [OF l]
  show ?thesis by (auto simp: sample_pcb_def sample_env_def)
qed

text \<open>The packet is given back and the counters tell why.\<close>

definition dropped :: "ptr \<Rightarrow> (stats_proto \<Rightarrow> u16) \<Rightarrow> 'r udp \<Rightarrow> 'r udp option \<Rightarrow> bool" where
  "dropped x f s r \<longleftrightarrow> (\<exists>s' n. r = Some s' \<and> pbuf_free (Some x) (udp_mem s) = Some (n, udp_mem s') \<and> same_pcbs (pcbs s') (pcbs s) \<and>
     st_recv (udp_stats s') = st_recv (udp_stats s) + 1 \<and> st_drop (udp_stats s') = st_drop (udp_stats s) + 1 \<and> f (udp_stats s') = f (udp_stats s) + 1)"

lemma env_other:
  "env_is_odd (E\<lparr>env_recv := r\<rparr>) = env_is_odd E" "env_ip6_match (E\<lparr>env_recv := r\<rparr>) = env_ip6_match E" "env_unreach (E\<lparr>env_recv := r\<rparr>) = env_unreach E"
  by simp_all

lemma free_returns:
  assumes "pm_inv L m" "own_packet m (Some x) ps"
  shows "\<exists>n m'. pbuf_free (Some x) m = Some (n, m')"
  using pbuf_free_chain [OF assms(1), of x ps] assms(2) by (auto simp: own_packet_def)



text \<open>
  C40: a datagram of UDP-Lite stops the program if its header asks for a checksum over at least 32767 bytes more than its first pbuf has: an
  assertion in the checksum function fails before the coverage is compared with the length of the packet.
\<close>

theorem udplite_coverage_aborts:
  assumes W: "udp_wf s xs" and p: "own_packet (udp_mem s) (Some x) ps" "8 \<le> len_at (pb (udp_mem s)) x" "bs = content (udp_mem s) ps"
    and u: "\<not> ip_addr_isbroadcast (current_iphdr_dest g) (current_netif g)"
    and a: "current_header_proto g = IP_PROTO_UDPLITE" and r: "receiver g inp (hdr_field bs 0) (hdr_field bs 1) s y c"
    and l: "len_at (pb (udp_mem s)) x + 0x7fff \<le> unat (hdr_field bs 2)"
  shows "udp_input E g (Some x) inp s = None"
proof -
  obtain b hdr pcb s1 where s1: "packet_in (udp_mem s) x ps bs b hdr" "demuxed (count_stats (\<lambda>t. t\<lparr>st_recv := st_recv t + 1\<rparr>) s) s1"
    "\<forall>y. pcb = Some y \<longleftrightarrow> (\<exists>c. receiver g inp (hdr_field bs 0) (hdr_field bs 1) s y c)"
    "\<forall>E. udp_input E g (Some x) inp s = udp_deliver E g x inp b hdr False (hdr_field bs 0) pcb s1"
    using input_start [OF W p u] by blast
  have pcb: "pcb = Some y" using s1(3) r by blast
  have d: "udp_mem s1 = udp_mem s" using s1(2) by (simp add: demuxed_def)
  define n where "n = hdr_field bs 2"
  have b: "pb (udp_mem s) x = Some b" "in_buf (udp_mem s) (payload b) (unat (pb_len b))" "\<forall>i<8. hdr ! i = bs ! i"
    using s1(1) by (auto simp: packet_in_def own_packet_def)
  have n: "unat (pb_len b) + 0x7fff \<le> unat n" "hdr_field hdr 2 = n" using l b(1) hdr_field_cong [OF b(3)] by (simp_all add: n_def)
  then have w: "\<not> n < 8" "n \<noteq> 0" "\<not> n < pb_len b" "\<not> n - pb_len b < 0x7fff" by (auto simp: word_less_nat_alt unat_sub word_le_nat_alt)
  have sh: "shift (payload b) 0 = payload b" by simp
  have rd: "rd (udp_mem s) (payload b) (unat (pb_len b)) = Some (take (unat (pb_len b)) (pay (udp_mem s) x))" using rd_pay [OF b(1,2), of 0] sh by simp
  have "partial_loop od (Some x) n acc sw (udp_mem s) = None" for od acc sw
    using b(1) w rd by (subst partial_loop.simps) (simp add: word_gt_0 Let_def)
  then have "ip_chksum_pseudo_partial od (Some x) 136 pl n src dest (udp_mem s) = None" for od pl src dest
    by (simp add: ip_chksum_pseudo_partial_def ip6_chksum_pseudo_partial_def inet_chksum_pseudo_partial_def inet_cksum_pseudo_partial_base_def)
  then show ?thesis using s1(4) pcb d a n w by (simp add: udp_deliver_def chksum_ok_def Let_def)
qed

theorem udplite_coverage_aborts_witness:
  "\<exists>e. udp_wf (sample_udp [0, 7, 0x14, 0xe9, 0xff, 0xff, 0, 0] e) [e] \<and>
     udp_input sample_env (sample_globals 136) (Some (Custom 0)) (current_netif (sample_globals 136)) (sample_udp [0, 7, 0x14, 0xe9, 0xff, 0xff, 0, 0] e) = None"
proof -
  let ?bs = "[0, 7, 0x14, 0xe9, 0xff, 0xff, 0, 0] :: bytes"
  obtain e where e: "udp_wf (sample_udp ?bs e) [e]" using sample_udp_ok by blast
  have f: "hdr_field ?bs 1 = 5353" "hdr_field ?bs 2 = 0xffff" by code_simp+
  have m: "udp_mem (sample_udp ?bs e) = sample_packet ?bs" by (simp add: sample_udp_def)
  note k = sample_packet_ok [of ?bs, folded m]
  have l: "length ?bs < 65536" by simp
  have a: "current_header_proto (sample_globals 136) = 136" by (simp add: sample_globals_def Let_def)
  have r: "receiver (sample_globals 136) (current_netif (sample_globals 136)) (hdr_field ?bs 0) (hdr_field ?bs 1) (sample_udp ?bs e) e sample_pcb"
    unfolding f(1) by (rule sample_receiver)
  from udplite_coverage_aborts [OF e k(2) [OF l] _ k(3) [OF l, symmetric] sample_addr_ok(2) a r, of sample_env] k(4) [OF l] f(2) e
  show ?thesis by auto
qed

end
