(* ===== verification/Udp_Output.thy ===== *)
theory Udp_Output
  imports Udp_Input Nabto_Udp
begin

unbundle bit_operations_syntax

text \<open>
  Outgoing datagrams, \<^verbatim>\<open>udp_send\<close>, \<^verbatim>\<open>udp_sendto\<close>, \<^verbatim>\<open>udp_sendto_if\<close> and \<^verbatim>\<open>udp_sendto_if_src\<close> of \<^verbatim>\<open>lwip/src/core/udp.c\<close>: the choice
  of the interface and of the source address, the header, in front of the data or in a pbuf of its own, and the checksum. The
  functions of other modules that are called are the fields of \<open>out_env\<close>: routing, the source address for IPv6, and
  \<^verbatim>\<open>ip_output_if_src\<close>, which gets the finished datagram. The contract of the latter is \<open>output_ok\<close>.
\<close>

subsection \<open>Operations\<close>

record out_env =
  out_is_odd :: "address \<Rightarrow> bool"
  netif_get_by_index :: "u8 \<Rightarrow> udp_netif option"
  ip_route :: "ip_addr \<Rightarrow> ip_addr \<Rightarrow> udp_netif option"
  ip4_route_src :: "ip_addr \<Rightarrow> u32 \<Rightarrow> udp_netif option"
  out_ip6_route :: ip6_route_fn
  ip6_select_source_address :: "udp_netif \<Rightarrow> ip_addr \<Rightarrow> ip_addr option"
  netif_get_ip6_addr_match :: "udp_netif \<Rightarrow> ip_addr \<Rightarrow> bool"
  ip_output_if_src :: "ptr \<Rightarrow> ip_addr \<Rightarrow> ip_addr \<Rightarrow> u8 \<Rightarrow> u8 \<Rightarrow> u8 \<Rightarrow> udp_netif \<Rightarrow> pmem \<Rightarrow> (err_t \<times> pmem) option"

abbreviation (input) PBUF_FLAG_MCASTLOOP :: u8 where "PBUF_FLAG_MCASTLOOP \<equiv> 0x04"

definition IP_ADDR_PCB_VERSION_MATCH :: "'r udp_pcb \<Rightarrow> ip_addr \<Rightarrow> bool" where
  "IP_ADDR_PCB_VERSION_MATCH c ip \<longleftrightarrow> IP_IS_ANY_TYPE_VAL (local_ip c) \<or> ip_type (local_ip c) = ip_type ip"

text \<open>The source address is a pointer: into the control block, whose address the binding may set, or elsewhere.\<close>

datatype src_ref = Local_Ip | Src_Addr ip_addr

fun src_addr :: "'r udp_pcb \<Rightarrow> src_ref \<Rightarrow> ip_addr" where
  "src_addr c Local_Ip = local_ip c"
| "src_addr c (Src_Addr a) = a"

text \<open>The pbuf that gets the header: the first of the packet if it has room, or a new one; \<open>None\<close> without memory for it.\<close>

definition header_pbuf :: "ptr \<Rightarrow> pmem \<Rightarrow> (ptr option \<times> pmem) option" where
  "header_pbuf x m = do {
     (failed, m1) \<leftarrow> pbuf_add_header (Some x) UDP_HLEN m;
     if failed then do {
       (q, m2) \<leftarrow> pbuf_alloc PBUF_IP 8 PBUF_RAM m1;
       if q = None then Some (None, m2)
       else do {
         b \<leftarrow> pb m2 x;
         m3 \<leftarrow> (if tot_len b \<noteq> 0 then pbuf_chain q (Some x) m2 else Some m2);
         Some (q, m3) } }
     else Some (Some x, m1) }"

text \<open>Field \<open>i\<close> of the header, a half-word in network byte order.\<close>

definition put_field :: "ptr \<Rightarrow> nat \<Rightarrow> u16 \<Rightarrow> pmem \<Rightarrow> pmem option" where
  "put_field q i v m = do { b \<leftarrow> pb m q; wr m (shift (payload b) (int (2 * i))) [ucast v, ucast (drop_bit 8 v)] }"

definition write_header :: "'r udp_pcb \<Rightarrow> ip_addr \<Rightarrow> u16 \<Rightarrow> ptr \<Rightarrow> pmem \<Rightarrow> pmem option" where
  "write_header c dst_ip dst_port q m = do {
     b \<leftarrow> pb m q;
     require (8 \<le> pb_len b);
     m1 \<leftarrow> put_field q 0 (lwip_htons (local_port c)) m;
     m2 \<leftarrow> put_field q 1 (lwip_htons dst_port) m1;
     m3 \<leftarrow> put_field q 3 0 m2;
     if udp_flags c AND UDP_FLAGS_MULTICAST_LOOP \<noteq> 0 \<and> ip_addr_ismulticast dst_ip
     then do { b1 \<leftarrow> pb m3 q; Some (put_pb q (b1\<lparr>pb_flags := pb_flags b1 OR PBUF_FLAG_MCASTLOOP\<rparr>) m3) }
     else Some m3 }"

definition lite_chksum :: "(address \<Rightarrow> bool) \<Rightarrow> 'r udp_pcb \<Rightarrow> ip_addr \<Rightarrow> ip_addr \<Rightarrow> ptr \<Rightarrow> pmem \<Rightarrow> pmem option" where
  "lite_chksum is_odd c src_ip dst_ip q m = do {
     b \<leftarrow> pb m q;
     let illegal = (chksum_len_tx c < 8 \<or> chksum_len_tx c > tot_len b);
     let chklen_hdr = (if illegal then 0 else chksum_len_tx c);
     let chklen = (if illegal then tot_len b else chksum_len_tx c);
     m1 \<leftarrow> put_field q 2 (lwip_htons chklen_hdr) m;
     v \<leftarrow> ip_chksum_pseudo_partial is_odd (Some q) IP_PROTO_UDPLITE (tot_len b) chklen src_ip dst_ip m1;
     put_field q 3 (if v = 0 then 0xffff else v) m1 }"

definition write_chksum :: "(address \<Rightarrow> bool) \<Rightarrow> 'r udp_pcb \<Rightarrow> ip_addr \<Rightarrow> ip_addr \<Rightarrow> ptr \<Rightarrow> pmem \<Rightarrow> (u8 \<times> pmem) option" where
  "write_chksum is_odd c src_ip dst_ip q m =
     (if udp_flags c AND UDP_FLAGS_UDPLITE \<noteq> 0 then do {
        m1 \<leftarrow> lite_chksum is_odd c src_ip dst_ip q m;
        Some (IP_PROTO_UDPLITE, m1) }
      else do {
        b \<leftarrow> pb m q;
        m1 \<leftarrow> put_field q 2 (lwip_htons (tot_len b)) m;
        m2 \<leftarrow> (if IP_IS_V6 dst_ip \<or> udp_flags c AND UDP_FLAGS_NOCHKSUM = 0 then do {
            v \<leftarrow> ip_chksum_pseudo is_odd (Some q) IP_PROTO_UDP (tot_len b) src_ip dst_ip m1;
            put_field q 3 (if v = 0 then 0xffff else v) m1 }
          else Some m1);
        Some (IP_PROTO_UDP, m2) })"

text \<open>From the header on: \<open>c\<close> is the control block, now bound.\<close>

definition send_datagram :: "out_env \<Rightarrow> 'r udp_pcb \<Rightarrow> ptr \<Rightarrow> ip_addr \<Rightarrow> u16 \<Rightarrow> udp_netif \<Rightarrow> ip_addr \<Rightarrow> 'r udp \<Rightarrow> (err_t \<times> 'r udp) option" where
  "send_datagram E c x dst_ip dst_port netif src_ip s = do {
     (q', m1) \<leftarrow> header_pbuf x (udp_mem s);
     (case q' of
        None \<Rightarrow> Some (ERR_MEM, s\<lparr>udp_mem := m1\<rparr>)
      | Some q \<Rightarrow> do {
          m2 \<leftarrow> write_header c dst_ip dst_port q m1;
          (ip_proto, m3) \<leftarrow> write_chksum (out_is_odd E) c src_ip dst_ip q m2;
          let t = (if ip_addr_ismulticast dst_ip then mcast_ttl c else ttl c);
          (err, m4) \<leftarrow> ip_output_if_src E q src_ip dst_ip t (tos c) ip_proto netif m3;
          m5 \<leftarrow> (if q \<noteq> x then do { (n, m5) \<leftarrow> pbuf_free (Some q) m4; Some m5 } else Some m4);
          Some (err, count_stats (\<lambda>t. t\<lparr>st_xmit := st_xmit t + 1\<rparr>) (s\<lparr>udp_mem := m5\<rparr>)) }) }"

definition udp_sendto_if_src ::
    "out_env \<Rightarrow> nat option \<Rightarrow> ptr option \<Rightarrow> ip_addr option \<Rightarrow> u16 \<Rightarrow> udp_netif option \<Rightarrow> src_ref option \<Rightarrow> 'r udp \<Rightarrow> (err_t \<times> 'r udp) option" where
  "udp_sendto_if_src E pcb p dst_ip dst_port netif src_ip s = do {
     y \<leftarrow> pcb; x \<leftarrow> p; dst \<leftarrow> dst_ip; src \<leftarrow> src_ip; n \<leftarrow> netif;
     c \<leftarrow> pcbs s y;
     if \<not> IP_ADDR_PCB_VERSION_MATCH c (src_addr c src) \<or> \<not> IP_ADDR_PCB_VERSION_MATCH c dst then Some (ERR_VAL, s)
     else do {
       (err, s1) \<leftarrow> (if local_port c = 0 then udp_bind (out_ip6_route E) pcb (Some (local_ip c)) (local_port c) s else Some (ERR_OK, s));
       if err \<noteq> ERR_OK then Some (err, s1)
       else do {
         b \<leftarrow> pb (udp_mem s1) x;
         if tot_len b + 8 < tot_len b then Some (ERR_MEM, s1)
         else do {
           c1 \<leftarrow> pcbs s1 y;
           send_datagram E c1 x dst dst_port n (src_addr c1 src) s1 } } } }"

text \<open>The source address for a destination on an interface.\<close>

definition sendto_src :: "out_env \<Rightarrow> 'r udp_pcb \<Rightarrow> ip_addr \<Rightarrow> udp_netif \<Rightarrow> src_ref option" where
  "sendto_src E c dst n =
     (if IP_IS_V6 dst then
        (if ip6_addr_isany (local_ip c) \<or> ip6_addr_ismulticast (local_ip c) then map_option Src_Addr (ip6_select_source_address E n dst)
         else if \<not> netif_get_ip6_addr_match E n (local_ip c) then None
         else Some Local_Ip)
      else if ip4_addr_isany (local_ip c) \<or> ip4_addr_ismulticast (local_ip c) then Some (Src_Addr (netif_ip_addr4 n))
      else if \<not> ip4_addr_cmp (local_ip c) (netif_ip_addr4 n) then None
      else Some Local_Ip)"

definition udp_sendto_if :: "out_env \<Rightarrow> nat option \<Rightarrow> ptr option \<Rightarrow> ip_addr option \<Rightarrow> u16 \<Rightarrow> udp_netif option \<Rightarrow> 'r udp \<Rightarrow> (err_t \<times> 'r udp) option" where
  "udp_sendto_if E pcb p dst_ip dst_port netif s = do {
     y \<leftarrow> pcb; x \<leftarrow> p; dst \<leftarrow> dst_ip; n \<leftarrow> netif;
     c \<leftarrow> pcbs s y;
     if \<not> IP_ADDR_PCB_VERSION_MATCH c dst then Some (ERR_VAL, s)
     else (case sendto_src E c dst n of
         None \<Rightarrow> Some (ERR_RTE, s)
       | Some src \<Rightarrow> udp_sendto_if_src E pcb p dst_ip dst_port netif (Some src) s) }"

text \<open>The interface for a destination.\<close>

definition sendto_netif :: "out_env \<Rightarrow> 'r udp_pcb \<Rightarrow> ip_addr \<Rightarrow> udp_netif option" where
  "sendto_netif E c dst =
     (if netif_idx c \<noteq> 0 then netif_get_by_index E (netif_idx c)
      else
        (let n = (if ip_addr_ismulticast dst then
                    (if mcast_ifindex c \<noteq> 0 then netif_get_by_index E (mcast_ifindex c)
                     else if IP_IS_V4 dst then
                       (if mcast_ip4 c \<noteq> 0 \<and> mcast_ip4 c \<noteq> 0xffffffff then ip4_route_src E (local_ip c) (mcast_ip4 c) else None)
                     else None)
                  else None)
         in if n = None then ip_route E (local_ip c) dst else n))"

definition udp_sendto :: "out_env \<Rightarrow> nat option \<Rightarrow> ptr option \<Rightarrow> ip_addr option \<Rightarrow> u16 \<Rightarrow> 'r udp \<Rightarrow> (err_t \<times> 'r udp) option" where
  "udp_sendto E pcb p dst_ip dst_port s = do {
     y \<leftarrow> pcb; x \<leftarrow> p; dst \<leftarrow> dst_ip;
     c \<leftarrow> pcbs s y;
     if \<not> IP_ADDR_PCB_VERSION_MATCH c dst then Some (ERR_VAL, s)
     else (case sendto_netif E c dst of
         None \<Rightarrow> Some (ERR_RTE, count_stats (\<lambda>t. t\<lparr>st_rterr := st_rterr t + 1\<rparr>) s)
       | Some n \<Rightarrow> udp_sendto_if E pcb p dst_ip dst_port (Some n) s) }"

definition udp_send :: "out_env \<Rightarrow> nat option \<Rightarrow> ptr option \<Rightarrow> 'r udp \<Rightarrow> (err_t \<times> 'r udp) option" where
  "udp_send E pcb p s = do {
     y \<leftarrow> pcb; x \<leftarrow> p;
     c \<leftarrow> pcbs s y;
     if IP_IS_ANY_TYPE_VAL (remote_ip c) then Some (ERR_VAL, s)
     else udp_sendto E pcb p (Some (remote_ip c)) (remote_port c) s }"

subsection \<open>The packet with its header\<close>

lemma own_cons: "own_packet m (Some x) ps \<Longrightarrow> \<exists>qs. ps = x # qs"
  by (cases ps) (auto simp: own_packet_def)

lemma own_lens: "own_packet m (Some x) ps \<Longrightarrow> lens (pb m) ps < 65536 \<and> length (content m ps) = lens (pb m) ps"
  using tots_bound [of "pb m" ps] length_content [of m ps] by (auto simp: own_packet_def)

lemma own_consI:
  assumes "pb m x = Some b" "own_packet m (pb_next b) xs" "in_buf m (payload b) (unat (pb_len b))"
    "unat (tot_len b) = unat (pb_len b) + lens (pb m) xs" "0 < pb_ref b" "\<exists>off. payload b = Some (Own x, off)"
  shows "own_packet m (Some x) (x # xs)"
  using assms by (auto simp: own_packet_def buf_at_def)

lemma own_put:
  assumes "own_packet m p xs" "x \<notin> set xs"
  shows "own_packet (put_pb x b m) p xs" "content (put_pb x b m) xs = content m xs" "lens (pb (put_pb x b m)) xs = lens (pb m) xs"
proof -
  have z: "pb (put_pb x b m) z = pb m z" if "z \<in> set xs" for z using that assms(2) by auto
  have d: "dat (put_pb x b m) (Own z) = dat m (Own z)" if "z \<in> set xs" for z by simp
  show "own_packet (put_pb x b m) p xs" "content (put_pb x b m) xs = content m xs" using own_packet_frame [OF z d assms(1)] by blast+
  show "lens (pb (put_pb x b m)) xs = lens (pb m) xs" using z by (intro lens_cong) (simp add: len_at_def)
qed

text \<open>Room for a header in front of the payload.\<close>

lemma add_header_packet:
  assumes p: "own_packet m (Some x) ps" "sendable m x" and n: "lens (pb m) ps + n < 65536" "0 < n"
  shows "pbuf_add_header (Some x) n m = Some (True, m) \<or>
    (\<exists>b b' hs. pb m x = Some b \<and> pbuf_add_header (Some x) n m = Some (False, put_pb x b' m) \<and> label_ok x b' = label_ok x b \<and>
       pb_next b' = pb_next b \<and> pb_ref b' = pb_ref b \<and> n \<le> unat (pb_len b') \<and>
       own_packet (put_pb x b' m) (Some x) ps \<and> length hs = n \<and> content (put_pb x b' m) ps = hs @ content m ps)"
proof -
  obtain qs where ps: "ps = x # qs" using own_cons [OF p(1)] by blast
  obtain b off where b: "pb m x = Some b" "payload b = Some (Own x, off)" "0 \<le> off" "nat off + unat (pb_len b) \<le> length (dat m (Own x))"
    using p(2) by (auto simp: sendable_def)
  have t: "unat (tot_len b) = lens (pb m) ps" "unat (pb_len b) \<le> lens (pb m) ps" "x \<notin> set qs" "own_packet m (pb_next b) qs" "0 < pb_ref b"
    using own_packet_tl [OF p(1) [unfolded ps]] b(1) ps by auto
  define k where "k = (of_nat n :: u16)"
  have k: "unat k = n" using n(1) unfolding k_def by (intro unat_of_nat_small) simp
  have u: "unat (k + tot_len b) = n + unat (tot_len b)" "unat (tot_len b + k) = unat (tot_len b) + n" "unat (pb_len b + k) = unat (pb_len b) + n"
    using n(1) t k by (auto intro!: trans [OF unat_add_no_overflow])
  define b' where "b' = b\<lparr>payload := Some (Own x, off - int n), pb_len := pb_len b + k, tot_len := tot_len b + k\<rparr>"
  have nw: "\<not> k + tot_len b < k" by (simp add: word_less_nat_alt u k)
  have e: "pbuf_add_header (Some x) n m = (if type_internal b AND 0x80 \<noteq> 0 \<and> int n \<le> off then Some (False, put_pb x b' m) else Some (True, m))"
    using n b nw by (auto simp: pbuf_add_header_def pbuf_add_header_impl_def Let_def b'_def k_def)
  show ?thesis
  proof (cases "type_internal b AND 0x80 \<noteq> 0 \<and> int n \<le> off")
    case False
    then show ?thesis using e by auto
  next
    case True
    let ?m = "put_pb x b' m"
    define hs where "hs = take n (drop (nat off - n) (dat m (Own x)))"
    have no: "n \<le> nat off" using True le_nat_iff [OF b(3)] by blast
    have hs: "length hs = n" unfolding hs_def length_take length_drop using no b(4) by linarith
    have o: "nat (off - int n) = nat off - n" using True by simp
    have pay: "pay ?m x = hs @ pay m x"
    proof -
      have "take (n + unat (pb_len b)) (drop (nat off - n) (dat m (Own x))) = hs @ take (unat (pb_len b)) (drop (nat off) (dat m (Own x)))"
        using no by (simp add: hs_def take_add)
      then show ?thesis using b u(3) o True by (simp add: pay_def b'_def bytes_at_def put_pb_def add.commute)
    qed
    note f = own_put [OF t(4,3), of b']
    have s: "pb_next b' = pb_next b" "payload b' = Some (Own x, off - int n)" "pb_ref b' = pb_ref b" by (simp_all add: b'_def)
    have w: "unat (pb_len b') = unat (pb_len b) + n" "unat (tot_len b') = unat (tot_len b) + n" using u by (simp_all add: b'_def)
    have "in_buf ?m (payload b') (unat (pb_len b'))" using no b(4) True by (simp add: in_buf_def s w o)
    moreover have "unat (tot_len b') = unat (pb_len b') + lens (pb ?m) qs" using w t(1) b(1) f(3) by (simp add: ps)
    ultimately have "own_packet ?m (Some x) ps" unfolding ps using f(1) t(5) s by (intro own_consI [of _ _ b']) simp_all
    moreover have "content ?m ps = hs @ content m ps" unfolding ps using pay f(2) by simp
    moreover have "label_ok x b' = label_ok x b" by (cases x) (simp_all add: b'_def label_ok_def)
    moreover have "pbuf_add_header (Some x) n m = Some (False, ?m)" "n \<le> unat (pb_len b')" using e True w by simp_all
    ultimately show ?thesis using hs b(1) s by blast
  qed
qed

text \<open>Writing a field of the header.\<close>

lemma put_field_own:
  assumes p: "own_packet m (Some q) qs" and l: "2 * i + 2 \<le> len_at (pb m) q"
  shows "\<exists>m'. put_field q i v m = Some m' \<and> writes {Own q} m m' \<and> own_packet m' (Some q) qs \<and>
    content m' qs = overwrite (2 * i) [ucast v, ucast (drop_bit 8 v)] (content m qs)"
proof -
  obtain rs where qs: "qs = q # rs" using own_cons [OF p] by blast
  obtain b where b: "pb m q = Some b" "in_buf m (payload b) (unat (pb_len b))" "q \<notin> set rs" "buf_at m q = [Own q]"
    using own_packet_tl [OF p [unfolded qs]] p by (auto simp: own_packet_def qs)
  have lb: "2 * i + length [ucast v, ucast (drop_bit 8 v)] \<le> unat (pb_len b)" using l b(1) by simp
  obtain m' where m': "wr m (shift (payload b) (int (2 * i))) [ucast v, ucast (drop_bit 8 v)] = Some m'" "writes {Own q} m m'"
    "pay m' q = overwrite (2 * i) [ucast v, ucast (drop_bit 8 v)] (pay m q)"
    using wr_pay [OF b(1,2) lb] b(4) by auto
  have s: "pb m' = pb m" using writes_sel(1) [OF m'(2)] .
  have "own_packet m' (Some q) qs" using p writes_data_ok [OF m'(2), of qs] by (simp add: own_packet_def s buf_at_def)
  moreover have "content m' rs = content m rs"
    using m'(2) b(3) p by (intro writes_content) (auto simp: own_packet_def qs own_bufs)
  then have "content m' qs = overwrite (2 * i) [ucast v, ucast (drop_bit 8 v)] (content m qs)"
    using m'(3) overwrite_inner [of "2 * i" "[ucast v, ucast (drop_bit 8 v)]" "pay m q" "content m rs"] length_pay [OF b(1,2)] lb
    by (simp add: qs)
  ultimately show ?thesis using m'(1,2) b(1) by (auto simp: put_field_def)
qed

text \<open>A header in a pbuf of its own, in front of the packet.\<close>

lemma chain_own:
  assumes y: "own_packet m (Some y) [y]" and x: "own_packet m (Some x) ps" "y \<notin> set ps" "pb m x = Some c" "pb_ref c < 255"
    and l: "len_at (pb m) y + lens (pb m) ps < 65536" and inv: "pm_inv L m"
  shows "\<exists>m1. pbuf_chain (Some y) (Some x) m = Some m1 \<and> own_packet m1 (Some y) (y # ps) \<and> content m1 (y # ps) = pay m y @ content m ps \<and>
    pm_inv L m1 \<and> pools m1 = pools m \<and> dom (pb m1) = dom (pb m) \<and> len_at (pb m1) y = len_at (pb m) y \<and>
    own_packet m1 (Some x) ps \<and> (\<exists>b. pb m1 x = Some b \<and> 1 < pb_ref b)"
proof -
  obtain qs where ps: "ps = x # qs" using own_cons [OF x(1)] by blast
  obtain b where b: "pb m y = Some b" "pb_next b = None" "unat (tot_len b) = unat (pb_len b)" "0 < pb_ref b" "in_buf m (payload b) (unat (pb_len b))"
    using own_packet_tl [OF y] by (auto simp: own_packet_def)
  have c: "0 < pb_ref c" "unat (tot_len c) = lens (pb m) ps" "in_buf m (payload c) (unat (pb_len c))" "x \<notin> set qs"
    using own_packet_tl [OF x(1) [unfolded ps]] x(3) by (auto simp: ps)
  have off: "\<exists>off. payload c = Some (Own x, off)" "\<exists>off. payload b = Some (Own y, off)"
    using own_packet_tl [OF x(1) [unfolded ps]] x(3) own_packet_tl [OF y] b(1) by auto
  have xy: "x \<noteq> y" using x(2) ps by auto
  define b1 where "b1 = b\<lparr>tot_len := tot_len b + tot_len c, pb_next := Some x\<rparr>"
  define c1 where "c1 = c\<lparr>pb_ref := pb_ref c + 1\<rparr>"
  have c1: "pbuf_cat (Some y) (Some x) m = Some (put_pb y b1 m)"
    using cat_eq [of m y "[y]" x c] y x(3) xy b by (simp add: own_packet_def relink_one put_pb_def b1_def del: fun_upd_apply)
  have rc: "unat (pb_ref c + 1) = unat (pb_ref c) + 1"
    using x(4) by (subst unat_add_no_overflow) (auto simp: word_less_nat_alt)
  let ?n = "put_pb y b1 m" and ?m = "put_pb x c1 (put_pb y b1 m)"
  have "pb_ref c + 1 > 0" using rc by (simp add: word_less_nat_alt)
  then have e: "pbuf_chain (Some y) (Some x) m = Some ?m" using c1 x(3) xy by (simp add: pbuf_chain_def pbuf_ref_def c1_def)
  have "unat (tot_len b + tot_len c) = unat (tot_len b) + unat (tot_len c)" using l b c by (intro unat_add_no_overflow) simp
  then have ut: "unat (tot_len b1) = unat (pb_len b1) + lens (pb m) ps" using b c by (simp add: b1_def)
  have p1: "pb ?m y = Some b1" "pb ?m x = Some c1" using xy by simp_all
  have s: "pb_next c1 = pb_next c" "tot_len c1 = tot_len c" "pb_len c1 = pb_len c" "payload c1 = payload c" "payload b1 = payload b"
    "pb_len b1 = pb_len b" "pb_next b1 = Some x" "pb_ref b1 = pb_ref b" by (simp_all add: c1_def b1_def)
  note f0 = own_put [OF x(1,2), of b1]
  have q: "own_packet ?n (pb_next c) qs" "x \<notin> set qs" using own_packet_tl [OF f0(1) [unfolded ps]] x(3) xy by auto
  note f = own_put [OF q, of c1]
  have ib: "in_buf ?m a k = in_buf m a k" for a k unfolding in_buf_def by (simp split: option.split)
  have q0: "own_packet m (pb_next c) qs" "y \<notin> set qs" using own_packet_tl [OF x(1) [unfolded ps]] x(2,3) ps by auto
  have lq: "lens (pb ?m) qs = lens (pb m) qs" using f(3) own_put(3) [OF q0, of b1] by (rule trans)
  have "unat (pb_ref c1) = unat (pb_ref c) + 1" "0 < unat (pb_ref c)" using rc c(1) by (simp_all add: c1_def word_less_nat_alt)
  then have r1: "0 < pb_ref c1" "1 < pb_ref c1" by (simp_all add: word_less_nat_alt)
  have px: "own_packet ?m (Some x) ps" unfolding ps using f(1) p1(2) s c r1(1) ib lq off(1) x(3)
    by (intro own_consI [of _ _ c1]) (simp_all add: ps)
  have lx: "lens (pb ?m) ps = lens (pb m) ps" using lq p1(2) x(3) s by (simp add: ps)
  have py: "own_packet ?m (Some y) (y # ps)" using px p1(1) s b ib lx ut off(2) by (intro own_consI [of _ _ b1]) simp_all
  have ba: "bytes_at ?m a k = bytes_at m a k" for a k unfolding bytes_at_def by (simp split: option.split)
  have pa: "pay ?m y = pay m y" "pay ?m x = pay m x" unfolding pay_def p1 x(3) b(1) by (simp_all add: ba s)
  have co: "content ?m (y # ps) = pay m y @ content m ps" using pa f(2) own_put(2) [OF q0, of b1] by (simp add: ps)
  have lab: "label_ok y b1" "label_ok x c1" using pm_invD [OF inv] x(3) b(1) by (simp_all add: b1_def c1_def label_ok_ref)
  have i0: "pm_inv L ?n" using pm_inv_put [OF inv b(1) lab(1)] .
  have "pb ?n x = Some c" using x(3) xy by simp
  from pm_inv_put [OF i0 this lab(2)] have "pm_inv L ?m" .
  moreover have "dom (pb ?m) = dom (pb m)" using x(3) b(1) by (auto simp: put_pb_def)
  moreover have "len_at (pb ?m) y = len_at (pb m) y" using xy b(1) s by simp
  moreover have "pools ?m = pools m" by simp
  ultimately show ?thesis using e co px py p1(2) r1(2) by blast
qed

text \<open>
  The packet \<open>zs\<close> that gets the header for the packet \<open>ps\<close> of the caller: the same, or a new pbuf in front of it, which then holds a
  reference on it; a new pbuf alone if there is no data.
\<close>

definition headed :: "pmem \<Rightarrow> ptr \<Rightarrow> ptr list \<Rightarrow> pmem \<Rightarrow> ptr \<Rightarrow> ptr list \<Rightarrow> bool" where
  "headed m x ps m1 z zs \<longleftrightarrow> own_packet m1 (Some z) zs \<and> 8 \<le> len_at (pb m1) z \<and> own_packet m1 (Some x) ps \<and>
     (z = x \<and> zs = ps \<or>
      pb m z = None \<and> z \<notin> set ps \<and> (zs = [z] \<or> zs = z # ps \<and> (\<exists>b. pb m1 x = Some b \<and> 1 < pb_ref b)))"

lemma own_live: "own_packet m p xs \<Longrightarrow> z \<in> set xs \<Longrightarrow> pb m z \<noteq> None"
  using path_live [of "pb m" p xs None z] by (auto simp: own_packet_def)

lemma header_new:
  assumes p: "own_packet m (Some x) ps" "sendable m x" "lens (pb m) ps + 8 < 65536"
    and n: "new_packet m m2 z [z] 8" "pm_inv L m2"
  shows "\<exists>m3 hs zs. (do { b \<leftarrow> pb m2 x; if tot_len b \<noteq> 0 then pbuf_chain (Some z) (Some x) m2 else Some m2 }) = Some m3 \<and>
    headed m x ps m3 z zs \<and> length hs = 8 \<and> content m3 zs = hs @ content m ps \<and> pm_inv L m3 \<and> pools m3 = pools m2"
proof -
  have z: "pb m z = None" "\<And>y. y \<noteq> z \<Longrightarrow> pb m2 y = pb m y" "\<And>bf. bf \<noteq> Own z \<Longrightarrow> dat m2 bf = dat m bf"
    using n(1) by (auto simp: new_packet_def heap_bufs_def split: ptr.splits)
  have zp: "z \<notin> set ps" using own_live [OF p(1)] z(1) by blast
  have o: "own_packet m2 (Some x) ps" "content m2 ps = content m ps"
    using own_packet_frame [OF _ _ p(1), of m2] z(2,3) zp by (metis (no_types) buf.inject(1))+
  have lz: "len_at (pb m2) z = 8" "own_packet m2 (Some z) [z]" using n(1) new_packet_own [OF n(1)] by (simp_all add: new_packet_def)
  obtain qs b where b: "ps = x # qs" "pb m2 x = Some b" "pb_ref b < 255" using own_cons [OF p(1)] p(2) z(2) zp by (auto simp: sendable_def)
  have ll: "lens (pb m2) ps = lens (pb m) ps" using z(2) zp by (intro lens_cong) (metis len_at_def)
  have tb: "unat (tot_len b) = lens (pb m) ps" using own_packet_tl [OF o(1) [unfolded b(1)]] b(1,2) ll by auto
  have lp: "length (pay m2 z) = 8" using own_lens [OF lz(2)] lz(1) by simp
  show ?thesis
  proof (cases "tot_len b = 0")
    case True
    then have "content m ps = []" using own_lens [OF p(1)] tb by simp
    moreover have "headed m x ps m2 z [z]" using lz o z(1) zp by (simp add: headed_def)
    moreover have "content m2 [z] = pay m2 z" by simp
    ultimately show ?thesis using True b(2) lp n(2) by (intro exI [of _ m2] exI [of _ "pay m2 z"] exI [of _ "[z]"]) simp
  next
    case False
    obtain m3 where m3: "pbuf_chain (Some z) (Some x) m2 = Some m3" "own_packet m3 (Some z) (z # ps)" "content m3 (z # ps) = pay m2 z @ content m2 ps"
      "pm_inv L m3" "pools m3 = pools m2" "len_at (pb m3) z = len_at (pb m2) z" "own_packet m3 (Some x) ps" "\<exists>b. pb m3 x = Some b \<and> 1 < pb_ref b"
      using chain_own [OF lz(2) o(1) zp b(2,3) _ n(2)] lz(1) ll p(3) by auto
    have "headed m x ps m3 z (z # ps)" using m3(2,6,7,8) lz(1) z(1) zp by (simp add: headed_def)
    moreover have "(do { b \<leftarrow> pb m2 x; if tot_len b \<noteq> 0 then pbuf_chain (Some z) (Some x) m2 else Some m2 }) = Some m3" using False b(2) m3(1) by simp
    ultimately show ?thesis using m3(3,4,5) o(2) lp by metis
  qed
qed

lemma header_pbuf_ok:
  assumes p: "own_packet m (Some x) ps" "sendable m x" "lens (pb m) ps + 8 < 65536" and inv: "pm_inv L m"
  shows "\<exists>q m1 L'. header_pbuf x m = Some (q, m1) \<and> pm_inv L' m1 \<and> pools m1 = pools m \<and>
    (case q of None \<Rightarrow> pb m1 = pb m \<and> dat m1 = dat m
     | Some z \<Rightarrow> \<exists>zs hs. headed m x ps m1 z zs \<and> length hs = 8 \<and> content m1 zs = hs @ content m ps)"
  using add_header_packet [OF p, simplified]
proof (elim disjE exE conjE)
  fix b b' hs
  let ?m = "put_pb x b' m"
  assume a: "pb m x = Some b" "pbuf_add_header (Some x) 8 m = Some (False, ?m)" "label_ok x b' = label_ok x b" "8 \<le> unat (pb_len b')"
    "own_packet ?m (Some x) ps" "length hs = 8" "content ?m ps = hs @ content m ps"
  have "label_ok x b'" using pm_invD(1) [OF inv a(1)] a(3) by simp
  from pm_inv_put [OF inv a(1) this] have i: "pm_inv L ?m" .
  have "headed m x ps ?m x ps" using a(4,5) by (simp add: headed_def)
  moreover have "header_pbuf x m = Some (Some x, ?m)" using a(2) by (simp add: header_pbuf_def)
  ultimately show ?thesis using i a(6,7) by (intro exI [of _ "Some x"] exI [of _ ?m] exI [of _ L]) auto
next
  assume a: "pbuf_add_header (Some x) 8 m = Some (True, m)"
  obtain r m2 where m2: "pbuf_alloc PBUF_IP 8 PBUF_RAM m = Some (r, m2)"
    "case r of None \<Rightarrow> pm_inv L m2 \<and> pb m2 = pb m \<and> dat m2 = dat m | Some z \<Rightarrow> \<exists>xs L'. new_packet m m2 z xs 8 \<and> pm_inv L' m2"
    using pbuf_alloc_ram [OF inv, of PBUF_IP 8] by (fastforce split: option.splits)
  have pl: "pools m2 = pools m" using alloc_ram_pools [OF m2(1)] .
  show ?thesis
  proof (cases r)
    case None
    then show ?thesis using a m2 pl by (intro exI [of _ None] exI [of _ m2] exI [of _ L]) (simp add: header_pbuf_def)
  next
    case (Some z)
    then obtain L' where n: "new_packet m m2 z [z] 8" "pm_inv L' m2" using m2 ram_packet_single by fastforce
    obtain m3 hs zs where m3: "(do { b \<leftarrow> pb m2 x; if tot_len b \<noteq> 0 then pbuf_chain (Some z) (Some x) m2 else Some m2 }) = Some m3"
      "headed m x ps m3 z zs" "length hs = 8" "content m3 zs = hs @ content m ps" "pm_inv L' m3" "pools m3 = pools m2"
      using header_new [OF p n] by blast
    have "header_pbuf x m = Some (Some z, m3)" using a m2(1) Some m3(1) by (simp add: header_pbuf_def bind_Some_conv)
    then show ?thesis using m3 pl by (intro exI [of _ "Some z"] exI [of _ m3] exI [of _ L']) auto
  qed
qed

text \<open>Steps that leave the structures alone but for the data of the header and the flags.\<close>

definition hdr_step :: "pmem \<Rightarrow> pmem \<Rightarrow> bool" where
  "hdr_step m m' \<longleftrightarrow> pools m' = pools m \<and> (\<forall>L. pm_inv L m \<longrightarrow> pm_inv L m') \<and>
     (\<forall>p xs. own_packet m p xs \<longrightarrow> own_packet m' p xs) \<and>
     (\<forall>y. map_option (\<lambda>b. (pb_next b, pb_ref b, pb_len b, tot_len b)) (pb m' y) = map_option (\<lambda>b. (pb_next b, pb_ref b, pb_len b, tot_len b)) (pb m y))"

lemma step_trans: "hdr_step m m1 \<Longrightarrow> hdr_step m1 m2 \<Longrightarrow> hdr_step m m2"
  by (auto simp: hdr_step_def)

lemma step_get: "hdr_step m m' \<Longrightarrow> pb m y = Some b \<Longrightarrow> \<exists>b'. pb m' y = Some b' \<and> pb_next b' = pb_next b \<and> pb_ref b' = pb_ref b \<and> pb_len b' = pb_len b \<and> tot_len b' = tot_len b"
  unfolding hdr_step_def by (elim conjE allE [of _ y]) (cases "pb m' y"; simp)

lemma step_len: "hdr_step m m' \<Longrightarrow> len_at (pb m') y = len_at (pb m) y"
  unfolding hdr_step_def len_at_def by (elim conjE allE [of _ y]) (cases "pb m' y"; cases "pb m y"; simp)

lemma writes_step:
  assumes w: "writes B m m'"
  shows "hdr_step m m'"
  unfolding hdr_step_def own_packet_def writes_sel [OF w] writes_pm_inv [OF w] writes_data_ok [OF w] buf_at_def by simp

lemma field_step:
  assumes "own_packet m (Some q) qs" "8 \<le> len_at (pb m) q" "i < 4"
  shows "\<exists>m'. put_field q i v m = Some m' \<and> hdr_step m m' \<and> own_packet m' (Some q) qs \<and>
    content m' qs = overwrite (2 * i) [ucast v, ucast (drop_bit 8 v)] (content m qs)"
proof -
  have "2 * i + 2 \<le> len_at (pb m) q" using assms(2,3) by linarith
  from put_field_own [OF assms(1) this, of v] show ?thesis using writes_step by blast
qed

lemma flag_step:
  assumes "pb m q = Some b"
  shows "hdr_step m (put_pb q (b\<lparr>pb_flags := pb_flags b OR PBUF_FLAG_MCASTLOOP\<rparr>) m)" (is "hdr_step m ?m")
    "content (put_pb q (b\<lparr>pb_flags := pb_flags b OR PBUF_FLAG_MCASTLOOP\<rparr>) m) qs = content m qs"
proof -
  let ?b = "b\<lparr>pb_flags := pb_flags b OR PBUF_FLAG_MCASTLOOP\<rparr>"
  have "(pb_flags b OR 4) AND 2 = pb_flags b AND 2" by (simp add: bit.conj_disj_distrib2)
  then have lab: "label_ok q ?b = label_ok q b" by (simp add: label_ok_def split: ptr.split)
  have i: "pm_inv L ?m" if "pm_inv L m" for L using pm_inv_put [OF that assms] lab pm_invD(1) [OF that assms] by blast
  have la: "len_at (pb ?m) = len_at (pb m)" "buf_at ?m = buf_at m" "pay ?m = pay m"
    using assms by (auto simp: fun_eq_iff len_at_def buf_at_def pay_def bytes_at_def split: option.split)
  have ln: "lens (pb ?m) = lens (pb m)"
  proof
    show "lens (pb ?m) xs = lens (pb m) xs" for xs by (rule lens_cong) (simp only: la)
  qed
  have ib: "in_buf ?m = in_buf m" by (auto simp: in_buf_def fun_eq_iff split: option.split)
  have ch: "path (pb ?m) p xs e = path (pb m) p xs e" for p xs e using assms by (induction xs arbitrary: p) auto
  have tt: "tots (pb ?m) xs = tots (pb m) xs" for xs using assms by (induction xs) (auto simp: ln [unfolded put_pb_sel])
  have "data_ok ?m xs = data_ok m xs" "refs_pos (pb ?m) xs = refs_pos (pb m) xs" for xs using assms by (induction xs) (auto simp: ib)
  then have o: "own_packet ?m p xs = own_packet m p xs" for p xs unfolding own_packet_def ch tt la by simp
  show "hdr_step m ?m" unfolding hdr_step_def using i o assms by simp
  show "content ?m qs = content m qs" by (induction qs) (simp_all add: la)
qed

subsection \<open>Header and checksum\<close>

abbreviation (input) field_bytes :: "u16 \<Rightarrow> bytes" where "field_bytes v \<equiv> [ucast v, ucast (drop_bit 8 v)]"

lemma htons_htons [simp]: "lwip_htons (lwip_htons v) = v"
proof -
  let ?x = "unat v"
  have "?x div 256 < 256" "?x mod 256 < 256" using unat16_less [of v] by simp_all
  then have "unat (lwip_htons (lwip_htons v)) = ?x" unfolding unat_htons by simp
  then show ?thesis by (simp only: word_unat_eq_iff)
qed

lemma length_8: "length hs = 8 \<longleftrightarrow> (\<exists>a b c d e f g h. hs = [a, b, c, d, e, f, g, h])"
  by (auto simp: numeral_eq_Suc length_Suc_conv)

lemma write_header_ok:
  assumes p: "own_packet m (Some q) qs" "8 \<le> len_at (pb m) q" "content m qs = hs @ bs" "length hs = 8"
  shows "\<exists>m' e f. write_header c dst port q m = Some m' \<and> hdr_step m m' \<and>
    content m' qs = field_bytes (lwip_htons (local_port c)) @ field_bytes (lwip_htons port) @ [e, f, 0, 0] @ bs"
proof -
  obtain a0 a1 a2 a3 e f g h where hs: "hs = [a0, a1, a2, a3, e, f, g, h]" using p(4) unfolding length_8 by (elim exE) (rule that)
  let ?h = "field_bytes (lwip_htons (local_port c)) @ field_bytes (lwip_htons port) @ [e, f, 0, 0] @ bs"
  have i: "0 < (4::nat)" "1 < (4::nat)" "3 < (4::nat)" by simp_all
  obtain m1 where m1: "put_field q 0 (lwip_htons (local_port c)) m = Some m1" "hdr_step m m1" "own_packet m1 (Some q) qs"
    "content m1 qs = overwrite (2 * 0) (field_bytes (lwip_htons (local_port c))) (content m qs)"
    using field_step [OF p(1,2) i(1)] by blast
  have l1: "8 \<le> len_at (pb m1) q" unfolding step_len [OF m1(2)] by (rule p(2))
  obtain m2 where m2: "put_field q 1 (lwip_htons port) m1 = Some m2" "hdr_step m1 m2" "own_packet m2 (Some q) qs"
    "content m2 qs = overwrite (2 * 1) (field_bytes (lwip_htons port)) (content m1 qs)"
    using field_step [OF m1(3) l1 i(2)] by blast
  have l2: "8 \<le> len_at (pb m2) q" unfolding step_len [OF m2(2)] by (rule l1)
  obtain m3 where m3: "put_field q 3 0 m2 = Some m3" "hdr_step m2 m3" "own_packet m3 (Some q) qs"
    "content m3 qs = overwrite (2 * 3) (field_bytes 0) (content m2 qs)"
    using field_step [OF m2(3) l2 i(3)] by blast
  have s: "hdr_step m m3" using m1(2) m2(2) m3(2) step_trans by blast
  have co: "content m3 qs = ?h" unfolding m3(4) m2(4) m1(4) p(3) hs by (simp add: overwrite_def numeral_eq_Suc)
  obtain rs where qs: "qs = q # rs" using own_cons [OF p(1)] by blast
  obtain b where b: "pb m q = Some b" "8 \<le> pb_len b"
    using own_packet_tl [OF p(1) [unfolded qs]] p(2) by (auto simp: word_le_nat_alt)
  obtain b3 where b3: "pb m3 q = Some b3" using own_packet_tl [OF m3(3) [unfolded qs]] by blast
  let ?m = "put_pb q (b3\<lparr>pb_flags := pb_flags b3 OR PBUF_FLAG_MCASTLOOP\<rparr>) m3"
  have w: "write_header c dst port q m =
      Some (if udp_flags c AND UDP_FLAGS_MULTICAST_LOOP \<noteq> 0 \<and> ip_addr_ismulticast dst then ?m else m3)"
    using b m1(1) m2(1) m3(1) b3 by (simp add: write_header_def)
  show ?thesis
  proof (cases "udp_flags c AND UDP_FLAGS_MULTICAST_LOOP \<noteq> 0 \<and> ip_addr_ismulticast dst")
    case True
    then have "write_header c dst port q m = Some ?m" using w by simp
    then show ?thesis using step_trans [OF s flag_step(1) [OF b3]] trans [OF flag_step(2) [OF b3] co] by blast
  next
    case False
    then have "write_header c dst port q m = Some m3" using w by (simp only: if_False)
    then show ?thesis using s co by blast
  qed
qed

lemma pseudo_even: "length (u_addr src) = 16 \<Longrightarrow> length (u_addr dst) = 16 \<Longrightarrow> even (length (pseudo_header src dst proto n)) \<and> length (pseudo_header src dst proto n) \<le> 40"
  by (simp add: pseudo_header_def be16_def)

text \<open>A checksum of zero is replaced by its other representation in ones' complement.\<close>

lemma chksum_nonzero:
  assumes "even (length as)" "length as + length bs \<le> 0x1fffe" "v = inet_chksum od (as @ [0, 0] @ bs)" "w = (if v = 0 then 0xffff else v)"
  shows "inet_chksum od' (as @ field_bytes w @ bs) = 0" "w \<noteq> 0"
proof -
  show "w \<noteq> 0" using assms(4) by simp
  show "inet_chksum od' (as @ field_bytes w @ bs) = 0"
  proof (cases "v = 0")
    case False
    then show ?thesis using chksum_inserted [OF assms(1-3)] assms(4) by simp
  next
    case True
    have l: "length (as @ [0, 0] @ bs) \<le> 0x20000" "length (as @ field_bytes w @ bs) \<le> 0x20000" using assms(2) by auto
    have h: "hsum False (as @ field_bytes w @ bs) = hsum False (as @ [0, 0] @ bs) + 65535"
      using True assms(1,4) by (simp add: hsum_append)
    have "hsum False (as @ [0, 0] @ bs) mod 65535 = 0" using True assms(3) chksum_zero [OF l(1)] by simp
    then show ?thesis unfolding chksum_zero [OF l(2)] h by simp
  qed
qed

text \<open>
  A datagram as it leaves UDP: the ports, the length, the data, and a checksum over the pseudo header and itself, which is left out
  only for IPv4 and on request.
\<close>

definition datagram :: "'r udp_pcb \<Rightarrow> ip_addr \<Rightarrow> ip_addr \<Rightarrow> u16 \<Rightarrow> bytes \<Rightarrow> bytes \<Rightarrow> bool" where
  "datagram c src dst port bs d \<longleftrightarrow> length d = 8 + length bs \<and> drop 8 d = bs \<and>
     hdr_field d 0 = local_port c \<and> hdr_field d 1 = port \<and> hdr_field d 2 = of_nat (length d) \<and>
     (if IP_IS_V6 dst \<or> udp_flags c AND UDP_FLAGS_NOCHKSUM = 0
      then hdr_field d 3 \<noteq> 0 \<and> inet_chksum False (pseudo_header src dst IP_PROTO_UDP (of_nat (length d)) @ d) = 0
      else hdr_field d 3 = 0)"

lemma hdr_field_eq:
  "hdr_field (field_bytes (lwip_htons a) @ field_bytes (lwip_htons b) @ field_bytes (lwip_htons c) @ field_bytes (lwip_htons d) @ bs) 0 = a"
  "hdr_field (field_bytes (lwip_htons a) @ field_bytes (lwip_htons b) @ field_bytes (lwip_htons c) @ field_bytes (lwip_htons d) @ bs) 1 = b"
  "hdr_field (field_bytes (lwip_htons a) @ field_bytes (lwip_htons b) @ field_bytes (lwip_htons c) @ field_bytes (lwip_htons d) @ bs) 2 = c"
  "hdr_field (field_bytes (lwip_htons a) @ field_bytes (lwip_htons b) @ field_bytes (lwip_htons c) @ field_bytes (lwip_htons d) @ bs) 3 = d"
  by (simp_all add: hdr_field_def unat_halves16)

lemma field_zero: "lwip_htons v = 0 \<longleftrightarrow> v = 0"
proof -
  have z: "lwip_htons 0 = 0" by (simp add: lwip_htons_def)
  then have "v = 0" if "lwip_htons v = 0" using htons_htons [of v] that by simp
  then show ?thesis using z by blast
qed

lemma pseudo_returns:
  assumes "chain (pb m) p xs" "data_ok m xs"
  shows "\<exists>v. ip_chksum_pseudo is_odd p proto n src dst m = Some v"
proof -
  define acc where "acc = (if ip_type dst = IPADDR_TYPE_V6 then ip6_pseudo_acc src dst else ip4_pseudo_acc src dst)"
  have "unat (FOLD_U32T (FOLD_U32T u)) < 65536" for u unfolding fold_fold using oc_le [of "unat u"] by simp
  then have al: "unat acc < 65536" by (simp add: acc_def ip6_pseudo_acc_def ip4_pseudo_acc_def)
  obtain acc' sw' where "chksum_loop is_odd p acc False m = Some (acc', sw')" using chksum_loop_chain [OF assms al] by blast
  then show ?thesis
    by (auto simp: ip_chksum_pseudo_def ip6_chksum_pseudo_def inet_chksum_pseudo_def inet_cksum_pseudo_base_def acc_def split: if_splits)
qed

lemma write_chksum_ok:
  assumes p: "own_packet m (Some q) qs" "8 \<le> len_at (pb m) q"
    and d: "content m qs = field_bytes (lwip_htons (local_port c)) @ field_bytes (lwip_htons port) @ [e, f, 0, 0] @ bs"
    and lite: "udp_flags c AND UDP_FLAGS_UDPLITE = 0"
  shows "\<exists>m'. write_chksum is_odd c src dst q m = Some (IP_PROTO_UDP, m') \<and> hdr_step m m' \<and> own_packet m' (Some q) qs \<and>
    (length (u_addr src) = 16 \<longrightarrow> length (u_addr dst) = 16 \<longrightarrow> datagram c src dst port bs (content m' qs))"
proof -
  obtain rs where qs: "qs = q # rs" using own_cons [OF p(1)] by blast
  obtain b where b: "pb m q = Some b" "unat (tot_len b) = lens (pb m) qs" using own_packet_tl [OF p(1) [unfolded qs]] qs by auto
  have len: "length (content m qs) = lens (pb m) qs" "lens (pb m) qs < 65536" "lens (pb m) qs = 8 + length bs"
    using own_lens [OF p(1)] d by simp_all
  define n where "n = (of_nat (8 + length bs) :: u16)"
  have tb: "tot_len b = n" unfolding n_def len(3) [symmetric] b(2) [symmetric] by simp
  let ?f = "field_bytes (lwip_htons (local_port c)) @ field_bytes (lwip_htons port) @ field_bytes (lwip_htons n)"
  have i: "2 < (4::nat)" "3 < (4::nat)" by simp_all
  obtain m1 where m1: "put_field q 2 (lwip_htons n) m = Some m1" "hdr_step m m1" "own_packet m1 (Some q) qs"
    "content m1 qs = overwrite (2 * 2) (field_bytes (lwip_htons n)) (content m qs)" using field_step [OF p i(1)] by blast
  have d1: "content m1 qs = ?f @ [0, 0] @ bs" unfolding m1(4) d by (simp add: overwrite_def numeral_eq_Suc)
  have l1: "8 \<le> len_at (pb m1) q" unfolding step_len [OF m1(2)] by (rule p(2))
  show ?thesis
  proof (cases "IP_IS_V6 dst \<or> udp_flags c AND UDP_FLAGS_NOCHKSUM = 0")
    case False
    have d0: "content m1 qs = ?f @ field_bytes (lwip_htons 0) @ bs" unfolding d1 by (simp add: lwip_htons_def)
    have h: "hdr_field (content m1 qs) 0 = local_port c" "hdr_field (content m1 qs) 1 = port" "hdr_field (content m1 qs) 2 = n"
      "hdr_field (content m1 qs) 3 = 0" unfolding d0 append_assoc by (rule hdr_field_eq)+
    have "length (content m1 qs) = 8 + length bs" "drop 8 (content m1 qs) = bs" unfolding d1 by simp_all
    moreover from this have "of_nat (length (content m1 qs)) = n" by (simp only: n_def)
    ultimately have "datagram c src dst port bs (content m1 qs)" unfolding datagram_def using False h by (simp only: if_False simp_thms)
    moreover have "write_chksum is_odd c src dst q m = Some (IP_PROTO_UDP, m1)"
      using False lite b(1) tb m1(1) by (simp add: write_chksum_def)
    ultimately show ?thesis using m1(2,3) by auto
  next
    case True
    obtain v where ck: "ip_chksum_pseudo is_odd (Some q) IP_PROTO_UDP n src dst m1 = Some v"
      using pseudo_returns [of m1 "Some q" qs] m1(3) unfolding own_packet_def by blast
    define w where "w = (if v = 0 then 0xffff else v)"
    obtain m2 where m2: "put_field q 3 w m1 = Some m2" "hdr_step m1 m2" "own_packet m2 (Some q) qs"
      "content m2 qs = overwrite (2 * 3) (field_bytes w) (content m1 qs)" using field_step [OF m1(3) l1 i(2)] by blast
    have d2: "content m2 qs = ?f @ field_bytes (lwip_htons (lwip_htons w)) @ bs" unfolding m2(4) d1 by (simp add: overwrite_def numeral_eq_Suc)
    have h: "hdr_field (content m2 qs) 0 = local_port c" "hdr_field (content m2 qs) 1 = port" "hdr_field (content m2 qs) 2 = n"
      "hdr_field (content m2 qs) 3 = lwip_htons w" unfolding d2 append_assoc by (rule hdr_field_eq)+
    have ld: "length (content m2 qs) = 8 + length bs" "drop 8 (content m2 qs) = bs" unfolding d2 by simp_all
    then have nd: "of_nat (length (content m2 qs)) = n" by (simp only: n_def)
    have dg: "datagram c src dst port bs (content m2 qs)" if a: "length (u_addr src) = 16" "length (u_addr dst) = 16"
    proof -
      have "lens (pb m1) qs < 65536" using own_lens [OF m1(3)] by blast
      with m1(3) a have v0: "v = inet_chksum False (pseudo_header src dst IP_PROTO_UDP n @ content m1 qs)"
        using pseudo_chain [of src dst m1 "Some q" qs is_odd IP_PROTO_UDP n False] ck by (simp add: own_packet_def)
      have ev: "even (length (pseudo_header src dst IP_PROTO_UDP n @ ?f))" "length (pseudo_header src dst IP_PROTO_UDP n @ ?f) + length bs \<le> 0x1fffe"
        using pseudo_even [OF a, of IP_PROTO_UDP n] len by simp_all
      have v: "v = inet_chksum False ((pseudo_header src dst IP_PROTO_UDP n @ ?f) @ [0, 0] @ bs)" unfolding v0 d1 by simp
      have "pseudo_header src dst IP_PROTO_UDP n @ content m2 qs = (pseudo_header src dst IP_PROTO_UDP n @ ?f) @ field_bytes w @ bs" unfolding d2 by simp
      then have "inet_chksum False (pseudo_header src dst IP_PROTO_UDP n @ content m2 qs) = 0"
        using chksum_nonzero(1) [OF ev v w_def] by (simp only:)
      then show ?thesis
        unfolding datagram_def using True h ld nd chksum_nonzero(2) [OF ev v w_def] field_zero by (simp only: if_True simp_thms)
    qed
    moreover have "write_chksum is_odd c src dst q m = Some (IP_PROTO_UDP, m2)"
      using True lite b(1) tb m1(1) ck m2(1) by (simp add: write_chksum_def w_def)
    ultimately show ?thesis using step_trans [OF m1(2) m2(2)] m2(3) by blast
  qed
qed

subsection \<open>The way down\<close>

text \<open>
  What UDP relies on: \<^verbatim>\<open>ip_output_if_src\<close> returns, keeps the memory well-formed and takes no reference away from the packet nor from
  any other pbuf but those of \<open>Q\<close>, the ones that the lower layers hold, such as packets that wait for an address.
\<close>

definition output_ok :: "ptr set \<Rightarrow> (ptr \<Rightarrow> ip_addr \<Rightarrow> ip_addr \<Rightarrow> u8 \<Rightarrow> u8 \<Rightarrow> u8 \<Rightarrow> udp_netif \<Rightarrow> pmem \<Rightarrow> (err_t \<times> pmem) option) \<Rightarrow> bool" where
  "output_ok Q out \<longleftrightarrow> (\<forall>q qs src dst t o' pr n m L. pm_inv L m \<longrightarrow> own_packet m (Some q) qs \<longrightarrow> set qs \<inter> Q = {} \<longrightarrow>
     (\<exists>e m' L'. out q src dst t o' pr n m = Some (e, m') \<and> pm_inv L' m' \<and> pools m' MEMP_UDP_PCB = pools m MEMP_UDP_PCB \<and>
       (\<forall>z b. z \<notin> Q \<longrightarrow> pb m z = Some b \<longrightarrow> (\<exists>b'. pb m' z = Some b' \<and> pb_next b' = pb_next b \<and> pb_ref b \<le> pb_ref b'))))"

lemma chain_kept:
  assumes "\<And>y b. y \<in> set xs \<Longrightarrow> h y = Some b \<Longrightarrow> \<exists>b'. h' y = Some b' \<and> pb_next b' = pb_next b \<and> 0 < pb_ref b'" "chain h p xs"
  shows "chain h' p xs \<and> refs_pos h' xs"
  using assms
proof (induction xs arbitrary: p)
  case (Cons x xs)
  then obtain b where b: "p = Some x" "h x = Some b" "chain h (pb_next b) xs" by auto
  obtain b' where b': "h' x = Some b'" "pb_next b' = pb_next b" "0 < pb_ref b'" using Cons.prems(1) [of x b] b(2) by auto
  have "chain h' (pb_next b) xs \<and> refs_pos h' xs" using Cons.prems(1) b(3) by (intro Cons.IH) auto
  then show ?case using b b' by simp
qed simp

lemma free_header:
  assumes inv: "pm_inv L m" and z: "chain (pb m) (Some z) zs" "refs_pos (pb m) zs" "z \<notin> set ps" and x: "chain (pb m) (Some x) ps" "refs_pos (pb m) ps"
    and s: "zs = [z] \<or> zs = z # ps \<and> (\<exists>b. pb m x = Some b \<and> 1 < pb_ref b)"
  shows "\<exists>n m' L'. pbuf_free (Some z) m = Some (n, m') \<and> pm_inv L' m' \<and> pools m' MEMP_UDP_PCB = pools m MEMP_UDP_PCB \<and>
    chain (pb m') (Some x) ps \<and> refs_pos (pb m') ps"
proof -
  obtain m' where m': "pbuf_free (Some z) m = Some (of_nat (nfree (pb m) zs), m')" "pb m' = unref (pb m) zs"
    "pm_inv (drop_lives (take (nfree (pb m) zs) zs) L) m'" using pbuf_free_chain [OF inv z(1,2)] by blast
  have "free_loop (Some z) 0 m = Some (of_nat (nfree (pb m) zs), m')" using m'(1) by (simp add: pbuf_free_def)
  from free_loop_pools [OF this, of MEMP_UDP_PCB] have pl: "pools m' MEMP_UDP_PCB = pools m MEMP_UDP_PCB" by simp
  obtain bz where bz: "pb m z = Some bz" using z(1) s by (auto split: if_splits)
  have "\<exists>b'. unref (pb m) zs y = Some b' \<and> pb_next b' = pb_next b \<and> 0 < pb_ref b'" if y: "y \<in> set ps" "pb m y = Some b" for y b
  proof -
    have yz: "y \<noteq> z" using y(1) z(3) by blast
    have r: "0 < pb_ref b" using x(2) y by (auto simp: refs_pos_def list_all_iff)
    consider "zs = [z]" | qs c where "zs = z # x # qs" "pb m x = Some c" "1 < pb_ref c" using s chain_Some [OF x(1)] by blast
    then show ?thesis
    proof cases
      case 1
      then show ?thesis using bz y(2) yz r by simp
    next
      case 2
      have c: "pb_ref c \<noteq> 1" "0 < pb_ref c - 1" using 2(3) by (auto simp: word_less_nat_alt unat_sub word_le_nat_alt)
      have "x \<noteq> z" using z(3) chain_Some [OF x(1)] by auto
      then show ?thesis using 2(1,2) bz y(2) yz r c by (cases "y = x") auto
    qed
  qed
  then have "chain (pb m') (Some x) ps \<and> refs_pos (pb m') ps" unfolding m'(2) by (intro chain_kept [OF _ x(1)])
  then show ?thesis using m'(1,3) pl by blast
qed

text \<open>
  The outcome of sending: the packet is still the caller's, and either there was no memory for a header or IP got one datagram with
  the data of the packet.
\<close>

definition handed_down :: "out_env \<Rightarrow> 'r udp_pcb \<Rightarrow> ip_addr \<Rightarrow> ip_addr \<Rightarrow> u16 \<Rightarrow> udp_netif \<Rightarrow> bytes \<Rightarrow> err_t \<Rightarrow> bool" where
  "handed_down E c src dst port n bs e \<longleftrightarrow> (\<exists>q qs m1 m2. own_packet m1 (Some q) qs \<and>
     (length (u_addr src) = 16 \<longrightarrow> length (u_addr dst) = 16 \<longrightarrow> datagram c src dst port bs (content m1 qs)) \<and>
     ip_output_if_src E q src dst (if ip_addr_ismulticast dst then mcast_ttl c else ttl c) (tos c) IP_PROTO_UDP n m1 = Some (e, m2))"

definition still_held :: "ptr \<Rightarrow> ptr list \<Rightarrow> pmem \<Rightarrow> pmem \<Rightarrow> bool" where
  "still_held x ps m m' \<longleftrightarrow> (\<exists>L. pm_inv L m') \<and> chain (pb m') (Some x) ps \<and> refs_pos (pb m') ps \<and> pools m' MEMP_UDP_PCB = pools m MEMP_UDP_PCB"

lemma still_heldI:
  "pm_inv L m' \<Longrightarrow> chain (pb m') (Some x) ps \<Longrightarrow> refs_pos (pb m') ps \<Longrightarrow> pools m' MEMP_UDP_PCB = pools m MEMP_UDP_PCB \<Longrightarrow> still_held x ps m m'"
  unfolding still_held_def by blast

lemma after_output:
  assumes h: "headed m x ps m1 z zs" and f: "hdr_step m1 m3" "own_packet m3 (Some z) zs" and i: "pm_inv L m4"
    and k: "\<And>y b. y \<notin> Q \<Longrightarrow> pb m3 y = Some b \<Longrightarrow> \<exists>b'. pb m4 y = Some b' \<and> pb_next b' = pb_next b \<and> pb_ref b \<le> pb_ref b'"
    and q: "set zs \<inter> Q = {}" "set ps \<inter> Q = {}"
  shows "\<exists>m5. (if z \<noteq> x then do { (n, m5) \<leftarrow> pbuf_free (Some z) m4; Some m5 } else Some m4) = Some m5 \<and> still_held x ps m4 m5"
proof -
  have k': "chain (pb m4) p xs \<and> refs_pos (pb m4) xs" if o: "own_packet m3 p xs" and d: "set xs \<inter> Q = {}" for p xs
  proof (rule chain_kept)
    show "chain (pb m3) p xs" using o by (simp add: own_packet_def)
    fix y b assume y: "y \<in> set xs" "pb m3 y = Some b"
    have r: "0 < pb_ref b" using o y by (auto simp: own_packet_def refs_pos_def list_all_iff)
    have "y \<notin> Q" using d y(1) by blast
    from k [OF this y(2)] r show "\<exists>b'. pb m4 y = Some b' \<and> pb_next b' = pb_next b \<and> 0 < pb_ref b'" by (meson order_less_le_trans)
  qed
  have o3: "own_packet m3 (Some x) ps" using h f(1) by (simp add: headed_def hdr_step_def)
  note kx = k' [OF o3 q(2)] and kz = k' [OF f(2) q(1)]
  show ?thesis
  proof (cases "z = x")
    case True
    then show ?thesis using still_heldI [OF i conjunct1 [OF kx] conjunct2 [OF kx], of m4] by simp
  next
    case False
    then have zs: "z \<notin> set ps" "zs = [z] \<or> zs = z # ps \<and> (\<exists>b. pb m1 x = Some b \<and> 1 < pb_ref b)" using h by (auto simp: headed_def)
    have "\<exists>b. pb m4 x = Some b \<and> 1 < pb_ref b" if b: "pb m1 x = Some b" "1 < pb_ref b" for b
    proof -
      obtain b3 where b3: "pb m3 x = Some b3" "pb_ref b3 = pb_ref b" using step_get [OF f(1) b(1)] by blast
      have "x \<notin> Q" using own_cons [OF o3] q(2) by auto
      from k [OF this b3(1)] b(2) b3(2) show ?thesis by auto
    qed
    then have "zs = [z] \<or> zs = z # ps \<and> (\<exists>b. pb m4 x = Some b \<and> 1 < pb_ref b)" using zs(2) by blast
    from free_header [OF i conjunct1 [OF kz] conjunct2 [OF kz] zs(1) conjunct1 [OF kx] conjunct2 [OF kx] this]
    obtain n m5 L5 where m5: "pbuf_free (Some z) m4 = Some (n, m5)" "pm_inv L5 m5" "pools m5 MEMP_UDP_PCB = pools m4 MEMP_UDP_PCB"
      "chain (pb m5) (Some x) ps" "refs_pos (pb m5) ps" by blast
    then show ?thesis using False still_heldI [OF m5(2,4,5,3)] by simp
  qed
qed

lemma send_datagram_ok:
  assumes inv: "pm_inv L (udp_mem s)" and p: "own_packet (udp_mem s) (Some x) ps" "sendable (udp_mem s) x" "lens (pb (udp_mem s)) ps + 8 < 65536"
    and lite: "udp_flags c AND UDP_FLAGS_UDPLITE = 0"
    and out: "output_ok Q (ip_output_if_src E)" "Q \<subseteq> dom (pb (udp_mem s))" "set ps \<inter> Q = {}"
  shows "\<exists>e s'. send_datagram E c x dst port n src s = Some (e, s') \<and> pcbs s' = pcbs s \<and> udp_pcbs s' = udp_pcbs s \<and> udp_port s' = udp_port s \<and>
    still_held x ps (udp_mem s) (udp_mem s') \<and>
    (e = ERR_MEM \<and> udp_stats s' = udp_stats s \<or> handed_down E c src dst port n (content (udp_mem s) ps) e)"
proof -
  let ?m = "udp_mem s"
  obtain q m1 L1 where m1: "header_pbuf x ?m = Some (q, m1)" "pm_inv L1 m1" "pools m1 = pools ?m"
    "case q of None \<Rightarrow> pb m1 = pb ?m \<and> dat m1 = dat ?m
     | Some z \<Rightarrow> \<exists>zs hs. headed ?m x ps m1 z zs \<and> length hs = 8 \<and> content m1 zs = hs @ content ?m ps"
    using header_pbuf_ok [OF p inv] by blast
  show ?thesis
  proof (cases q)
    case None
    then have "still_held x ps ?m m1" using m1 p(1) by (intro still_heldI [OF m1(2)]) (auto simp: own_packet_def)
    then show ?thesis using None m1(1) by (simp add: send_datagram_def)
  next
    case (Some z)
    then obtain zs hs where h: "headed ?m x ps m1 z zs" "length hs = 8" "content m1 zs = hs @ content ?m ps" using m1(4) by auto
    have oz: "own_packet m1 (Some z) zs" "8 \<le> len_at (pb m1) z" using h(1) by (simp_all add: headed_def)
    obtain m2 e f where m2: "write_header c dst port z m1 = Some m2" "hdr_step m1 m2"
      "content m2 zs = field_bytes (lwip_htons (local_port c)) @ field_bytes (lwip_htons port) @ [e, f, 0, 0] @ content ?m ps"
      using write_header_ok [OF oz h(3,2)] by blast
    have o2: "own_packet m2 (Some z) zs" "8 \<le> len_at (pb m2) z"
      using m2(2) oz unfolding step_len [OF m2(2)] by (simp_all add: hdr_step_def)
    obtain m3 where m3: "write_chksum (out_is_odd E) c src dst z m2 = Some (IP_PROTO_UDP, m3)" "hdr_step m2 m3" "own_packet m3 (Some z) zs"
      "length (u_addr src) = 16 \<longrightarrow> length (u_addr dst) = 16 \<longrightarrow> datagram c src dst port (content ?m ps) (content m3 zs)"
      using write_chksum_ok [OF o2 m2(3) lite] by blast
    have s3: "hdr_step m1 m3" using step_trans [OF m2(2) m3(2)] .
    have i3: "pm_inv L1 m3" "pools m3 = pools ?m" using s3 m1(2,3) unfolding hdr_step_def by metis+
    have zq: "set zs \<inter> Q = {}" using h(1) out(2,3) by (auto simp: headed_def)
    let ?t = "if ip_addr_ismulticast dst then mcast_ttl c else ttl c"
    obtain r m4 L4 where m4: "ip_output_if_src E z src dst ?t (tos c) IP_PROTO_UDP n m3 = Some (r, m4)" "pm_inv L4 m4"
      "pools m4 MEMP_UDP_PCB = pools m3 MEMP_UDP_PCB"
      "\<forall>y b. y \<notin> Q \<longrightarrow> pb m3 y = Some b \<longrightarrow> (\<exists>b'. pb m4 y = Some b' \<and> pb_next b' = pb_next b \<and> pb_ref b \<le> pb_ref b')"
      using out(1) i3(1) m3(3) zq unfolding output_ok_def by blast
    obtain m5 where m5: "(if z \<noteq> x then do { (n, m5) \<leftarrow> pbuf_free (Some z) m4; Some m5 } else Some m4) = Some m5" "still_held x ps m4 m5"
      using after_output [OF h(1) s3 m3(3) m4(2) _ zq out(3)] m4(4) by blast
    have "send_datagram E c x dst port n src s = Some (r, count_stats (\<lambda>t. t\<lparr>st_xmit := st_xmit t + 1\<rparr>) (s\<lparr>udp_mem := m5\<rparr>))"
      unfolding send_datagram_def using m1(1) Some m2(1) m3(1) m4(1) m5(1) by (simp add: Let_def)
    moreover have "handed_down E c src dst port n (content ?m ps) r" unfolding handed_down_def using m3(3,4) m4(1) by blast
    moreover have "still_held x ps ?m m5" using m5(2) m4(3) i3(2) by (simp add: still_held_def)
    ultimately show ?thesis by simp
  qed
qed

lemma wf_sent:
  "udp_wf s xs \<Longrightarrow> pcbs s' = pcbs s \<Longrightarrow> udp_pcbs s' = udp_pcbs s \<Longrightarrow> udp_port s' = udp_port s \<Longrightarrow> still_held x ps (udp_mem s) (udp_mem s') \<Longrightarrow> udp_wf s' xs"
  by (simp add: udp_wf_def still_held_def)

text \<open>The control block that sends is bound.\<close>

lemma bind_to_send:
  assumes W: "udp_wf s xs" and c: "pcbs s y = Some c"
  shows "\<exists>s1 xs1 c1. (if local_port c = 0 then udp_bind r (Some y) (Some (local_ip c)) (local_port c) s else Some (ERR_OK, s)) = Some (ERR_OK, s1) \<and>
    udp_wf s1 xs1 \<and> pcbs s1 = (pcbs s)(y \<mapsto> c1) \<and> udp_mem s1 = udp_mem s \<and> y \<in> set xs1 \<and> local_port c1 \<noteq> 0 \<and> addr_ok (local_ip c1) \<and>
    (\<exists>ip p n. c1 = c\<lparr>local_ip := ip, local_port := p, udp_next := n\<rparr>) \<and> (local_port c \<noteq> 0 \<longrightarrow> c1 = c)"
proof (cases "local_port c = 0")
  case True
  have ok: "addr_ok (bind_ip r (Some (local_ip c)))" using udp_wfD(9) [OF W c] by (intro bind_ip_ok) auto
  from bind_any [OF W c this] obtain s1 xs1 p where s1: "udp_bind r (Some y) (Some (local_ip c)) 0 s = Some (ERR_OK, s1)"
    "bound y c (bind_ip r (Some (local_ip c))) p s s1 xs1" "UDP_LOCAL_PORT_RANGE_START \<le> p" by blast
  then obtain n where n: "udp_wf s1 xs1" "y \<in> set xs1" "udp_mem s1 = udp_mem s"
    "pcbs s1 = (pcbs s)(y \<mapsto> c\<lparr>local_ip := ip_addr_set (bind_ip r (Some (local_ip c))), local_port := p, udp_next := n\<rparr>)"
    by (auto simp: bound_def)
  let ?c = "c\<lparr>local_ip := ip_addr_set (bind_ip r (Some (local_ip c))), local_port := p, udp_next := n\<rparr>"
  have "local_port ?c \<noteq> 0" "addr_ok (local_ip ?c)" using s1(3) set_ok [OF ok] by auto
  then show ?thesis using True s1(1) n by (intro exI [of _ s1] exI [of _ xs1] exI [of _ ?c]) auto
next
  case False
  have e: "\<exists>ip p n. c = c\<lparr>local_ip := ip, local_port := p, udp_next := n\<rparr>"
    by (rule exI [of _ "local_ip c"], rule exI [of _ "local_port c"], rule exI [of _ "udp_next c"]) simp
  show ?thesis using False W c udp_wfD(8,9) [OF W c]
    by (intro exI [of _ s] exI [of _ xs] exI [of _ c] conjI e) (simp_all add: fun_upd_idem)
qed

lemma sendto_bound:
  assumes c: "pcbs s y = Some c" and v: "IP_ADDR_PCB_VERSION_MATCH c (src_addr c src)" "IP_ADDR_PCB_VERSION_MATCH c dst"
    and b: "(if local_port c = 0 then udp_bind (out_ip6_route E) (Some y) (Some (local_ip c)) (local_port c) s else Some (ERR_OK, s)) = Some (ERR_OK, s1)"
    and s1: "pcbs s1 y = Some c1" "udp_mem s1 = udp_mem s" and lite: "udp_flags c1 AND UDP_FLAGS_UDPLITE = 0"
    and inv: "pm_inv L (udp_mem s)" and p: "own_packet (udp_mem s) (Some x) ps" "sendable (udp_mem s) x" "lens (pb (udp_mem s)) ps + 8 < 65536"
    and out: "output_ok Q (ip_output_if_src E)" "Q \<subseteq> dom (pb (udp_mem s))" "set ps \<inter> Q = {}"
  shows "\<exists>e s'. udp_sendto_if_src E (Some y) (Some x) (Some dst) port (Some n) (Some src) s = Some (e, s') \<and> pcbs s' = pcbs s1 \<and>
    udp_pcbs s' = udp_pcbs s1 \<and> udp_port s' = udp_port s1 \<and> still_held x ps (udp_mem s) (udp_mem s') \<and>
    (e = ERR_MEM \<or> handed_down E c1 (src_addr c1 src) dst port n (content (udp_mem s) ps) e)"
proof -
  obtain qs where ps: "ps = x # qs" using own_cons [OF p(1)] by blast
  obtain b' where b': "pb (udp_mem s) x = Some b'" "unat (tot_len b') = lens (pb (udp_mem s)) ps"
    using own_packet_tl [OF p(1) [unfolded ps]] ps by auto
  have "unat (tot_len b' + 8) = unat (tot_len b') + 8" using p(3) b'(2) by (subst unat_add_no_overflow) auto
  then have nl: "\<not> tot_len b' + 8 < tot_len b'" by (simp add: word_less_nat_alt)
  obtain e s' where s': "send_datagram E c1 x dst port n (src_addr c1 src) s1 = Some (e, s')" "pcbs s' = pcbs s1" "udp_pcbs s' = udp_pcbs s1"
    "udp_port s' = udp_port s1" "still_held x ps (udp_mem s) (udp_mem s')"
    "e = ERR_MEM \<and> udp_stats s' = udp_stats s1 \<or> handed_down E c1 (src_addr c1 src) dst port n (content (udp_mem s) ps) e"
    using send_datagram_ok [of L s1 x ps c1 Q E dst port n "src_addr c1 src"] inv p lite out s1(2) by auto
  have "udp_sendto_if_src E (Some y) (Some x) (Some dst) port (Some n) (Some src) s = Some (e, s')"
    unfolding udp_sendto_if_src_def using c v b s1 b'(1) nl s'(1) by simp
  then show ?thesis using s'(2-6) by blast
qed

lemma sendto_if_src_ok:
  assumes W: "udp_wf s xs" and c: "pcbs s y = Some c" and v: "IP_ADDR_PCB_VERSION_MATCH c (src_addr c src)" "IP_ADDR_PCB_VERSION_MATCH c dst"
    and lite: "udp_flags c AND UDP_FLAGS_UDPLITE = 0" and inv: "pm_inv L (udp_mem s)"
    and p: "own_packet (udp_mem s) (Some x) ps" "sendable (udp_mem s) x" "lens (pb (udp_mem s)) ps + 8 < 65536"
    and out: "output_ok Q (ip_output_if_src E)" "Q \<subseteq> dom (pb (udp_mem s))" "set ps \<inter> Q = {}"
  shows "\<exists>e s' xs' c'. udp_sendto_if_src E (Some y) (Some x) (Some dst) port (Some n) (Some src) s = Some (e, s') \<and> udp_wf s' xs' \<and>
    pcbs s' = (pcbs s)(y \<mapsto> c') \<and> y \<in> set xs' \<and> local_port c' \<noteq> 0 \<and> addr_ok (local_ip c') \<and> (local_port c \<noteq> 0 \<longrightarrow> c' = c) \<and>
    still_held x ps (udp_mem s) (udp_mem s') \<and> (e = ERR_MEM \<or> handed_down E c' (src_addr c' src) dst port n (content (udp_mem s) ps) e)"
proof -
  obtain s1 xs1 c1 where s1: "(if local_port c = 0 then udp_bind (out_ip6_route E) (Some y) (Some (local_ip c)) (local_port c) s else Some (ERR_OK, s)) = Some (ERR_OK, s1)"
    "udp_wf s1 xs1" "pcbs s1 = (pcbs s)(y \<mapsto> c1)" "udp_mem s1 = udp_mem s" "y \<in> set xs1" "local_port c1 \<noteq> 0" "addr_ok (local_ip c1)"
    "\<exists>ip p n. c1 = c\<lparr>local_ip := ip, local_port := p, udp_next := n\<rparr>" "local_port c \<noteq> 0 \<longrightarrow> c1 = c"
    using bind_to_send [OF W c, of "out_ip6_route E"] by blast
  have f1: "udp_flags c1 AND UDP_FLAGS_UDPLITE = 0" "pcbs s1 y = Some c1" using s1(3,8) lite by auto
  obtain e s' where s': "udp_sendto_if_src E (Some y) (Some x) (Some dst) port (Some n) (Some src) s = Some (e, s')" "pcbs s' = pcbs s1"
    "udp_pcbs s' = udp_pcbs s1" "udp_port s' = udp_port s1" "still_held x ps (udp_mem s) (udp_mem s')"
    "e = ERR_MEM \<or> handed_down E c1 (src_addr c1 src) dst port n (content (udp_mem s) ps) e"
    using sendto_bound [OF c v s1(1) f1(2) s1(4) f1(1) inv p out] by blast
  have "udp_wf s' xs1" using wf_sent [OF s1(2) s'(2-4)] s'(5) s1(4) by simp
  moreover have "pcbs s' = (pcbs s)(y \<mapsto> c1)" using s'(2) s1(3) by simp
  ultimately show ?thesis using s1(5,6,7,9) s'(1,5,6) by blast
qed

text \<open>Every path of \<open>udp_sendto\<close> without a route, an address or room returns an error and leaves the memory alone.\<close>

lemma sendto_refused:
  assumes c: "pcbs s y = Some c" and b: "pb (udp_mem s) x = Some b"
  shows "\<not> IP_ADDR_PCB_VERSION_MATCH c dst \<Longrightarrow> udp_sendto E (Some y) (Some x) (Some dst) port s = Some (ERR_VAL, s)"
    "IP_ADDR_PCB_VERSION_MATCH c dst \<Longrightarrow> sendto_netif E c dst = None \<Longrightarrow>
     udp_sendto E (Some y) (Some x) (Some dst) port s = Some (ERR_RTE, count_stats (\<lambda>t. t\<lparr>st_rterr := st_rterr t + 1\<rparr>) s)"
    "IP_ADDR_PCB_VERSION_MATCH c dst \<Longrightarrow> sendto_netif E c dst = Some n \<Longrightarrow> sendto_src E c dst n = None \<Longrightarrow>
     udp_sendto E (Some y) (Some x) (Some dst) port s = Some (ERR_RTE, s)"
    "IP_ADDR_PCB_VERSION_MATCH c dst \<Longrightarrow> sendto_netif E c dst = Some n \<Longrightarrow> sendto_src E c dst n = Some src \<Longrightarrow>
     \<not> IP_ADDR_PCB_VERSION_MATCH c (src_addr c src) \<Longrightarrow> udp_sendto E (Some y) (Some x) (Some dst) port s = Some (ERR_VAL, s)"
    "IP_ADDR_PCB_VERSION_MATCH c dst \<Longrightarrow> sendto_netif E c dst = Some n \<Longrightarrow> sendto_src E c dst n = Some src \<Longrightarrow>
     IP_ADDR_PCB_VERSION_MATCH c (src_addr c src) \<Longrightarrow> local_port c \<noteq> 0 \<Longrightarrow> 65536 \<le> unat (tot_len b) + 8 \<Longrightarrow>
     udp_sendto E (Some y) (Some x) (Some dst) port s = Some (ERR_MEM, s)"
proof -
  have w: "tot_len b + 8 < tot_len b" if "65536 \<le> unat (tot_len b) + 8"
  proof -
    have "unat (tot_len b) < 65536" by (rule unat16_less)
    then have "(unat (tot_len b) + 8) mod 65536 < unat (tot_len b)" using that by (simp add: mod_if)
    then show ?thesis by (simp add: word_less_nat_alt unat_word_ariths)
  qed
  show "IP_ADDR_PCB_VERSION_MATCH c dst \<Longrightarrow> sendto_netif E c dst = Some n \<Longrightarrow> sendto_src E c dst n = Some src \<Longrightarrow>
     IP_ADDR_PCB_VERSION_MATCH c (src_addr c src) \<Longrightarrow> local_port c \<noteq> 0 \<Longrightarrow> 65536 \<le> unat (tot_len b) + 8 \<Longrightarrow>
     udp_sendto E (Some y) (Some x) (Some dst) port s = Some (ERR_MEM, s)"
    using c b w by (simp add: udp_sendto_def udp_sendto_if_def udp_sendto_if_src_def)
qed (use c in \<open>simp_all add: udp_sendto_def udp_sendto_if_def udp_sendto_if_src_def\<close>)

lemma sendto_ok_path:
  assumes "pcbs s y = Some c" "IP_ADDR_PCB_VERSION_MATCH c dst" "sendto_netif E c dst = Some n" "sendto_src E c dst n = Some src"
  shows "udp_sendto E (Some y) (Some x) (Some dst) port s = udp_sendto_if_src E (Some y) (Some x) (Some dst) port (Some n) (Some src) s"
  using assms by (simp add: udp_sendto_def udp_sendto_if_def)

subsection \<open>The other side\<close>

lemma datagram_valid:
  assumes d: "datagram c src dst port bs d" and g: "current_iphdr_src g = src" "current_iphdr_dest g = dst"
  shows "udp_valid g d"
proof -
  have "8 \<le> length d" using d by (simp add: datagram_def)
  have z: "d ! 6 = 0 \<and> d ! 7 = 0" if "hdr_field d 3 = 0"
    using that field_zero half_zero by (simp add: hdr_field_def)
  then show ?thesis using d g by (auto simp: datagram_def udp_valid_def split: if_splits)
qed

lemma datagram_received:
  assumes d: "datagram c src dst port bs (content m1 qs)" and l: "length (u_addr src) = 16" "length (u_addr dst) = 16"
    and R: "udp_wf r rs" "pm_inv L1 (udp_mem r)" "own_packet (udp_mem r) (Some z) zs" "8 \<le> len_at (pb (udp_mem r)) z"
    and c: "content (udp_mem r) zs = content m1 qs" and u: "\<not> ip_addr_isbroadcast (current_iphdr_dest g) (current_netif g)"
    and p: "current_header_proto g = IP_PROTO_UDP" and g: "current_iphdr_src g = src" "current_iphdr_dest g = dst"
    and k: "receiver g inp (local_port c) port r w k"
  shows "\<exists>r1. udp_input F g (Some z) inp r = (case udp_recv_fn k of None \<Rightarrow> free_packet (Some z) r1
      | Some f \<Rightarrow> env_recv F f w z src (local_port c) r1) \<and> content (udp_mem r1) zs = bs"
proof -
  let ?d = "content (udp_mem r) zs"
  have h: "hdr_field ?d 0 = local_port c" "hdr_field ?d 1 = port" "drop 8 ?d = bs" using d by (simp_all add: datagram_def c)
  have a: "length (u_addr (current_iphdr_src g)) = 16" "length (u_addr (current_iphdr_dest g)) = 16" using l g by simp_all
  have v: "udp_valid g ?d" unfolding c using datagram_valid [OF d g] .
  have k': "receiver g inp (hdr_field ?d 0) (hdr_field ?d 1) r w k" unfolding h(1,2) by (rule k)
  from input_delivered [OF R refl u p a v k', of F] show ?thesis unfolding h g by blast
qed

subsection \<open>UDP below the adapter\<close>

text \<open>\<^verbatim>\<open>udp_sendto\<close> on a control block as the adapter of the SDK calls it: the adapter keeps the memory, UDP the rest.\<close>

definition lwip_sendto :: "out_env \<Rightarrow> nat \<Rightarrow> 'r udp \<Rightarrow> sendto_fn" where
  "lwip_sendto E y s x ip port m = do { (e, s') \<leftarrow> udp_sendto E (Some y) (Some x) (Some ip) port (s\<lparr>udp_mem := m\<rparr>); Some (e, udp_mem s') }"

lemma lwip_sendto_run:
  assumes c: "pcbs s y = Some c" "local_port c \<noteq> 0" "udp_flags c AND UDP_FLAGS_UDPLITE = 0" and out: "output_ok {} (ip_output_if_src E)"
    and m: "pm_inv L m" "own_packet m (Some x) ps" "sendable m x"
  shows "\<exists>e m'. lwip_sendto E y s x ip port m = Some (e, m') \<and> still_held x ps m m' \<and>
    (IP_ADDR_PCB_VERSION_MATCH c ip \<and> sendto_netif E c ip = Some n \<and> sendto_src E c ip n = Some src \<and> IP_ADDR_PCB_VERSION_MATCH c (src_addr c src) \<and>
     lens (pb m) ps + 8 < 65536 \<longrightarrow> e = ERR_MEM \<or> handed_down E c (src_addr c src) ip port n (content m ps) e)"
proof -
  let ?s = "s\<lparr>udp_mem := m\<rparr>"
  have h: "still_held x ps m m" using m(1,2) by (intro still_heldI) (auto simp: own_packet_def)
  have cs: "pcbs ?s y = Some c" "udp_mem ?s = m" using c(1) by simp_all
  obtain qs where ps: "ps = x # qs" using own_cons [OF m(2)] by blast
  obtain b where b: "pb (udp_mem ?s) x = Some b" "unat (tot_len b) = lens (pb m) ps" using own_packet_tl [OF m(2) [unfolded ps]] ps by auto
  note refused = sendto_refused [OF cs(1) b(1), where E = E and dst = ip and port = port]
  have nb: "(if local_port c = 0 then udp_bind (out_ip6_route E) (Some y) (Some (local_ip c)) (local_port c) ?s else Some (ERR_OK, ?s)) = Some (ERR_OK, ?s)"
    using c(2) by simp
  have sent: "\<exists>e s'. udp_sendto E (Some y) (Some x) (Some ip) port ?s = Some (e, s') \<and> still_held x ps m (udp_mem s') \<and>
      (e = ERR_MEM \<or> handed_down E c (src_addr c sr) ip port k (content m ps) e)"
    if "IP_ADDR_PCB_VERSION_MATCH c ip" "sendto_netif E c ip = Some k" "sendto_src E c ip k = Some sr" "IP_ADDR_PCB_VERSION_MATCH c (src_addr c sr)"
      "lens (pb m) ps + 8 < 65536" for k sr
    unfolding sendto_ok_path [OF cs(1) that(1-3)]
    using sendto_bound [OF cs(1) that(4,1) nb cs(1) refl c(3), unfolded cs(2), OF m that(5) out empty_subsetI Int_empty_right, of port k] by blast
  consider "\<not> IP_ADDR_PCB_VERSION_MATCH c ip" | "IP_ADDR_PCB_VERSION_MATCH c ip" "sendto_netif E c ip = None"
    | k where "IP_ADDR_PCB_VERSION_MATCH c ip" "sendto_netif E c ip = Some k" "sendto_src E c ip k = None"
    | k sr where "IP_ADDR_PCB_VERSION_MATCH c ip" "sendto_netif E c ip = Some k" "sendto_src E c ip k = Some sr" "\<not> IP_ADDR_PCB_VERSION_MATCH c (src_addr c sr)"
    | k sr where "IP_ADDR_PCB_VERSION_MATCH c ip" "sendto_netif E c ip = Some k" "sendto_src E c ip k = Some sr" "IP_ADDR_PCB_VERSION_MATCH c (src_addr c sr)"
      "65536 \<le> unat (tot_len b) + 8"
    | k sr where "IP_ADDR_PCB_VERSION_MATCH c ip" "sendto_netif E c ip = Some k" "sendto_src E c ip k = Some sr" "IP_ADDR_PCB_VERSION_MATCH c (src_addr c sr)"
      "lens (pb m) ps + 8 < 65536" using b(2) by (metis not_less option.exhaust)
  then show ?thesis
  proof cases
    case 1
    then show ?thesis using refused(1) h by (simp add: lwip_sendto_def)
  next
    case 2
    then show ?thesis using refused(2) h by (simp add: lwip_sendto_def)
  next
    case 3
    then show ?thesis using refused(3) h by (auto simp: lwip_sendto_def)
  next
    case 4
    then show ?thesis using refused(4) h by (auto simp: lwip_sendto_def)
  next
    case 5
    then show ?thesis using refused(5) h c(2) b(2) by (auto simp: lwip_sendto_def)
  next
    case 6
    from sent [OF this] obtain e s' where s': "udp_sendto E (Some y) (Some x) (Some ip) port ?s = Some (e, s')" "still_held x ps m (udp_mem s')"
      "e = ERR_MEM \<or> handed_down E c (src_addr c sr) ip port k (content m ps) e" by blast
    have "lwip_sendto E y s x ip port m = Some (e, udp_mem s')" using s'(1) by (simp add: lwip_sendto_def)
    then show ?thesis using s'(2,3) 6(2,3) by auto
  qed
qed

lemma lwip_sendto_ok:
  assumes "pcbs s y = Some c" "local_port c \<noteq> 0" "udp_flags c AND UDP_FLAGS_UDPLITE = 0" "output_ok {} (ip_output_if_src E)"
  shows "sendto_ok (lwip_sendto E y s)"
  unfolding sendto_ok_def
proof (intro allI impI)
  fix x ip port m L assume "pm_inv L m" "own_packet m (Some x) [x]" "sendable m x"
  from lwip_sendto_run [OF assms this] obtain e m' where "lwip_sendto E y s x ip port m = Some (e, m')" "still_held x [x] m m'" by blast
  then show "\<exists>e m' L'. lwip_sendto E y s x ip port m = Some (e, m') \<and> pm_inv L' m' \<and> chain (pb m') (Some x) [x] \<and> refs_pos (pb m') [x]"
    unfolding still_held_def by blast
qed

subsection \<open>A sample\<close>

definition sample_out :: out_env where
  "sample_out = \<lparr>out_is_odd = (\<lambda>_. False), netif_get_by_index = (\<lambda>_. None), ip_route = (\<lambda>_ _. Some (current_netif (sample_globals 17))),
     ip4_route_src = (\<lambda>_ _. None), out_ip6_route = (\<lambda>_ _. None), ip6_select_source_address = (\<lambda>_ _. None), netif_get_ip6_addr_match = (\<lambda>_ _. False),
     ip_output_if_src = (\<lambda>_ _ _ _ _ _ _ m. Some (ERR_OK, m))\<rparr>"

lemma sample_out_ok: "output_ok {} (ip_output_if_src sample_out)"
  unfolding output_ok_def sample_out_def by auto

lemma sample_sendable: "length bs < 65536 \<Longrightarrow> sendable (sample_packet bs) (Custom 0)"
  by (simp add: sendable_def sample_packet_def unat_of_nat take_bit_eq_mod)

lemma sample_route:
  "sendto_netif sample_out sample_pcb sample_addr = Some (current_netif (sample_globals 17))"
  "sendto_src sample_out sample_pcb sample_addr (current_netif (sample_globals 17)) = Some (Src_Addr sample_addr)"
  "IP_ADDR_PCB_VERSION_MATCH sample_pcb sample_addr" "udp_flags sample_pcb AND UDP_FLAGS_UDPLITE = 0" "local_port sample_pcb = 5353"
proof -
  have "addr_word sample_addr 0 = 0x0100a8c0" unfolding addr_word_def sample_addr_def by code_simp
  then have "\<not> ip_addr_ismulticast sample_addr"
    by (simp add: ip_addr_ismulticast_def IP_IS_V6_def ip4_addr_ismulticast_def) (simp add: sample_addr_def lwip_htonl_def)
  then show "sendto_netif sample_out sample_pcb sample_addr = Some (current_netif (sample_globals 17))"
    by (simp add: sendto_netif_def sample_out_def sample_pcb_def)
qed (simp_all add: sendto_src_def sample_pcb_def sample_addr_def IP_IS_V6_def ip_addr_any_def ip4_addr_isany_def IP_ADDR_PCB_VERSION_MATCH_def
    sample_globals_def Let_def)

subsection \<open>Properties\<close>

text \<open>
  C18: \<open>udp_sendto\<close> with a route and a source address returns, whether the control block was bound or not; it is bound afterwards and
  the list of control blocks is well-formed. Unless there was no memory for a header, IP gets one datagram with the port of the
  control block, the port of the receiver, the length, a valid checksum and exactly the data of the packet, however it is cut into
  pbufs, and the result of IP is returned. The packet still belongs to the caller.
\<close>

theorem udp_sendto_datagram:
  assumes "udp_wf s xs" "pcbs s y = Some c" "IP_ADDR_PCB_VERSION_MATCH c dst" "sendto_netif E c dst = Some n" "sendto_src E c dst n = Some src"
    and "IP_ADDR_PCB_VERSION_MATCH c (src_addr c src)" "length (u_addr (src_addr c src)) = 16" "length (u_addr dst) = 16"
    and "udp_flags c AND UDP_FLAGS_UDPLITE = 0" "pm_inv L (udp_mem s)" "own_packet (udp_mem s) (Some x) ps" "sendable (udp_mem s) x"
    and "lens (pb (udp_mem s)) ps + 8 < 65536" "output_ok Q (ip_output_if_src E)" "Q \<subseteq> dom (pb (udp_mem s))" "set ps \<inter> Q = {}"
  shows "\<exists>e s' xs' c'. udp_sendto E (Some y) (Some x) (Some dst) port s = Some (e, s') \<and> udp_wf s' xs' \<and> pcbs s' = (pcbs s)(y \<mapsto> c') \<and>
    local_port c' \<noteq> 0 \<and> still_held x ps (udp_mem s) (udp_mem s') \<and>
    (e = ERR_MEM \<or> (\<exists>q qs m1 m2. own_packet m1 (Some q) qs \<and> datagram c' (src_addr c' src) dst port (content (udp_mem s) ps) (content m1 qs) \<and>
       ip_output_if_src E q (src_addr c' src) dst (if ip_addr_ismulticast dst then mcast_ttl c' else ttl c') (tos c') IP_PROTO_UDP n m1 = Some (e, m2)))"
proof -
  obtain e s' xs' c' where s': "udp_sendto E (Some y) (Some x) (Some dst) port s = Some (e, s')" "udp_wf s' xs'" "pcbs s' = (pcbs s)(y \<mapsto> c')"
    "local_port c' \<noteq> 0" "addr_ok (local_ip c')" "still_held x ps (udp_mem s) (udp_mem s')"
    "e = ERR_MEM \<or> handed_down E c' (src_addr c' src) dst port n (content (udp_mem s) ps) e"
    unfolding sendto_ok_path [OF assms(2-5)] using sendto_if_src_ok [OF assms(1,2,6,3,9-16)] by blast
  have "length (u_addr (src_addr c' src)) = 16" using assms(7) s'(5) by (cases src) (simp_all add: addr_ok_def)
  then show ?thesis using s' assms(8) unfolding handed_down_def by blast
qed

theorem udp_sendto_datagram_witness:
  "\<exists>y e s'. udp_sendto sample_out (Some y) (Some (Custom 0)) (Some sample_addr) 5353 (sample_udp [1, 2, 3] y) = Some (e, s') \<and> e \<in> {ERR_OK, ERR_MEM}"
proof -
  obtain y where y: "udp_wf (sample_udp [1, 2, 3] y) [y]" using sample_udp_ok by blast
  have l: "length ([1, 2, 3] :: bytes) < 65536" by simp
  have m: "udp_mem (sample_udp [1, 2, 3] y) = sample_packet [1, 2, 3]" "pcbs (sample_udp [1, 2, 3] y) y = Some sample_pcb"
    by (simp_all add: sample_udp_def)
  note k = sample_packet_ok [OF l, folded m(1)]
  note r = sample_route
  have s: "src_addr c (Src_Addr sample_addr) = sample_addr" for c :: "unit udp_pcb" by simp
  have ln: "lens (pb (udp_mem (sample_udp [1, 2, 3] y))) [Custom 0] + 8 < 65536" using k(4) by simp
  from udp_sendto_datagram [OF y m(2) r(3,1,2), unfolded s, OF r(3) sample_addr_ok(1) sample_addr_ok(1) r(4) k(1,2)
        sample_sendable [OF l, folded m(1)] ln sample_out_ok empty_subsetI Int_empty_right, of "5353"]
  show ?thesis
  proof (elim exE conjE disjE, goal_cases)
    case (1 e s')
    then show ?case by (intro exI conjI) auto
  next
    case (2 e s' xs' c' q qs m1 m2)
    then have "e = ERR_OK" by (simp add: sample_out_def)
    then show ?case using 2(1) by (intro exI conjI) auto
  qed
qed

text \<open>
  C16: the datagrams are understood on the other side: what \<open>udp_sendto\<close> hands to IP, arriving at any stack in any cut into pbufs
  whose first holds the header, goes to the control block that is bound to the destination; its receive function is called
  with exactly the data that was sent, the address of the sender and the port of the sending control block.
\<close>

theorem udp_datagram_roundtrip:
  assumes "udp_wf s xs" "pcbs s y = Some c" "IP_ADDR_PCB_VERSION_MATCH c dst" "sendto_netif E c dst = Some n" "sendto_src E c dst n = Some src"
    and "IP_ADDR_PCB_VERSION_MATCH c (src_addr c src)" "length (u_addr (src_addr c src)) = 16" "length (u_addr dst) = 16"
    and "udp_flags c AND UDP_FLAGS_UDPLITE = 0" "pm_inv L (udp_mem s)" "own_packet (udp_mem s) (Some x) ps" "sendable (udp_mem s) x"
    and "lens (pb (udp_mem s)) ps + 8 < 65536" "output_ok Q (ip_output_if_src E)" "Q \<subseteq> dom (pb (udp_mem s))" "set ps \<inter> Q = {}"
  shows "\<exists>e s' c'. udp_sendto E (Some y) (Some x) (Some dst) port s = Some (e, s') \<and> pcbs s' y = Some c' \<and>
    (e = ERR_MEM \<or> (\<exists>q qs m1 m2 t. own_packet m1 (Some q) qs \<and> ip_output_if_src E q (src_addr c' src) dst t (tos c') IP_PROTO_UDP n m1 = Some (e, m2) \<and>
       length (content m1 qs) = 8 + length (content (udp_mem s) ps) \<and>
       (\<forall>F g inp z zs L1 r rs w k. udp_wf r rs \<longrightarrow> pm_inv L1 (udp_mem r) \<longrightarrow> own_packet (udp_mem r) (Some z) zs \<longrightarrow> 8 \<le> len_at (pb (udp_mem r)) z \<longrightarrow>
          content (udp_mem r) zs = content m1 qs \<longrightarrow> \<not> ip_addr_isbroadcast (current_iphdr_dest g) (current_netif g) \<longrightarrow>
          current_header_proto g = IP_PROTO_UDP \<longrightarrow> current_iphdr_src g = src_addr c' src \<longrightarrow> current_iphdr_dest g = dst \<longrightarrow>
          receiver g inp (local_port c') port r w (k :: 'q udp_pcb) \<longrightarrow>
          (\<exists>r1. udp_input F g (Some z) inp r = (case udp_recv_fn k of None \<Rightarrow> free_packet (Some z) r1
                                                | Some f \<Rightarrow> env_recv F f w z (src_addr c' src) (local_port c') r1) \<and>
             content (udp_mem r1) zs = content (udp_mem s) ps))))"
proof -
  obtain e s' xs' c' where s': "udp_sendto E (Some y) (Some x) (Some dst) port s = Some (e, s')" "pcbs s' = (pcbs s)(y \<mapsto> c')" "addr_ok (local_ip c')"
    "e = ERR_MEM \<or> handed_down E c' (src_addr c' src) dst port n (content (udp_mem s) ps) e"
    unfolding sendto_ok_path [OF assms(2-5)] using sendto_if_src_ok [OF assms(1,2,6,3,9-16)] by blast
  have l: "length (u_addr (src_addr c' src)) = 16" using assms(7) s'(3) by (cases src) (simp_all add: addr_ok_def)
  have y: "pcbs s' y = Some c'" using s'(2) by simp
  show ?thesis
  proof (cases "e = ERR_MEM")
    case True
    then show ?thesis using s'(1) y by blast
  next
    case False
    then obtain q qs m1 m2 where d: "datagram c' (src_addr c' src) dst port (content (udp_mem s) ps) (content m1 qs)" "own_packet m1 (Some q) qs"
      "ip_output_if_src E q (src_addr c' src) dst (if ip_addr_ismulticast dst then mcast_ttl c' else ttl c') (tos c') IP_PROTO_UDP n m1 = Some (e, m2)"
      using s'(4) l assms(8) unfolding handed_down_def by blast
    have "\<exists>r1. udp_input F g (Some z) inp r = (case udp_recv_fn k of None \<Rightarrow> free_packet (Some z) r1
          | Some f \<Rightarrow> env_recv F f w z (src_addr c' src) (local_port c') r1) \<and> content (udp_mem r1) zs = content (udp_mem s) ps"
      if R: "udp_wf r rs" "pm_inv L1 (udp_mem r)" "own_packet (udp_mem r) (Some z) zs" "8 \<le> len_at (pb (udp_mem r)) z"
        "content (udp_mem r) zs = content m1 qs" "\<not> ip_addr_isbroadcast (current_iphdr_dest g) (current_netif g)" "current_header_proto g = IP_PROTO_UDP"
        "current_iphdr_src g = src_addr c' src" "current_iphdr_dest g = dst" "receiver g inp (local_port c') port r w k"
      for F g inp z zs L1 r rs w and k :: "'q udp_pcb"
      using datagram_received [OF d(1) l assms(8) R] by blast
    moreover have "length (content m1 qs) = 8 + length (content (udp_mem s) ps)" using d(1) by (simp add: datagram_def)
    ultimately show ?thesis using s'(1) y d(2,3) by blast
  qed
qed

theorem udp_datagram_roundtrip_witness:
  "\<exists>y e s'. udp_sendto sample_out (Some y) (Some (Custom 0)) (Some sample_addr) 5353 (sample_udp [1, 2, 3] y) = Some (e, s') \<and>
     (e = ERR_MEM \<or> (\<exists>d r1. udp_input sample_env (sample_globals 17) (Some (Custom 0)) (current_netif (sample_globals 17)) (sample_udp d y) = Some r1 \<and>
        content (udp_mem r1) [Custom 0] = [1, 2, 3]))"
proof -
  obtain y where W: "\<forall>bs. udp_wf (sample_udp bs y) [y]" using sample_udp_ok by blast
  have l: "length ([1, 2, 3] :: bytes) < 65536" by simp
  have m: "udp_mem (sample_udp bs y) = sample_packet bs" "pcbs (sample_udp bs y) y = Some sample_pcb" for bs by (simp_all add: sample_udp_def)
  note k = sample_packet_ok [folded m(1)] and r = sample_route
  have s: "src_addr c (Src_Addr sample_addr) = sample_addr" for c :: "unit udp_pcb" by simp
  have ln: "lens (pb (udp_mem (sample_udp [1, 2, 3] y))) [Custom 0] + 8 < 65536" using k(4) [OF l] by simp
  have g: "current_header_proto (sample_globals 17) = 17" "current_iphdr_src (sample_globals 17) = sample_addr" "current_iphdr_dest (sample_globals 17) = sample_addr"
    by (simp_all add: sample_globals_def Let_def)
  from udp_datagram_roundtrip [where 'q = unit, OF W [rule_format] m(2) r(3,1,2), unfolded s, OF r(3) sample_addr_ok(1) sample_addr_ok(1) r(4) k(1,2) [OF l]
        sample_sendable [OF l, folded m(1)] ln sample_out_ok empty_subsetI Int_empty_right, of "5353", unfolded k(3) [OF l]]
  show ?thesis
  proof (elim exE conjE disjE, goal_cases)
    case (1 e s')
    then show ?case by (intro exI conjI) auto
  next
    case (2 e s' c' q qs m1 m2 t)
    let ?d = "content m1 qs"
    have ld: "length ?d < 65536" "8 \<le> len_at (pb (udp_mem (sample_udp ?d y))) (Custom 0)" using 2(5) k(4) [of ?d] by simp_all
    from 2(6) [rule_format, OF W [rule_format] k(1) [OF ld(1)] k(2) [OF ld(1)] ld(2) k(3) [OF ld(1)] sample_addr_ok(2) g sample_receiver,
        of sample_env "current_netif (sample_globals 17)"]
    have "\<exists>r1. udp_input sample_env (sample_globals 17) (Some (Custom 0)) (current_netif (sample_globals 17)) (sample_udp ?d y) = Some r1 \<and>
        content (udp_mem r1) [Custom 0] = [1, 2, 3]" by (auto simp: sample_pcb_def sample_env_def)
    then show ?case using 2(1) by blast
  qed
qed



end
