(* ===== verification/Spec2Isabelle.thy ===== *)
theory Spec2Isabelle
  imports Heap_Refine Memp Tapif Nabto_Tcp Nabto_Mdns Sys_Arch Threads Thread_Objects Chksum Timeouts Tcpip Echo_Apps Ip4_Addr Udp_Output
begin

text \<open>
  A verification library for the FreeRTOS simulator of Nabto Edge: a program that runs the Nabto
  Embedded SDK on FreeRTOS with the lwIP stack, on a TAP interface of the host.

  \<^bold>\<open>The program.\<close> Frames enter and leave through the TAP interface (\<^verbatim>\<open>lwip-port/netif/tapif.c\<close>), whose
  threads exchange them with the stack by two bounded lists (\<^verbatim>\<open>lwip-port/netif/list.c\<close>). The stack keeps
  every packet in packet buffers (\<^verbatim>\<open>lwip/src/core/pbuf.c\<close>), taken from a heap (\<^verbatim>\<open>mem.c\<close>) and from pools of
  fixed-size elements (\<^verbatim>\<open>memp.c\<close>), and uses the kernel through \<^verbatim>\<open>lwip-port/sys_arch.c\<close>. It runs in one
  thread (\<^verbatim>\<open>lwip/src/api/tcpip.c\<close>), which takes messages from a mailbox and calls the timers of the protocols
  (\<^verbatim>\<open>lwip/src/core/timeouts.c\<close>) while it waits. The SDK reaches the
  stack through adapters with asynchronous operations: UDP, DNS and local addresses
  (\<^verbatim>\<open>src/nabto_lwip/nm_nabto_lwip.c\<close>), TCP (\<^verbatim>\<open>nm_nabto_lwip_tcp.c\<close>), mDNS (\<^verbatim>\<open>src/nabto_mdns_lwip\<close>); it runs on
  the threads, mutexes and condition variables of \<^verbatim>\<open>src/nabto_device_threads_freertos.c\<close>. The integration
  test talks to the echo servers of \<^verbatim>\<open>lwip-contrib/apps\<close>.

  \<^bold>\<open>Conventions.\<close> Definitions keep the names of the source. An operation that may stop without an
  orderly return has an \<open>option\<close> result: \<open>None\<close> is a failed \<^verbatim>\<open>LWIP_ASSERT\<close> or \<^verbatim>\<open>LWIP_ERROR\<close>, \<^verbatim>\<open>exit(1)\<close>,
  an access through \<^verbatim>\<open>NULL\<close> or to a freed object, a wait that does not end, or a loop that does not
  end. Loops without an evident bound are \<open>partial_function (option)\<close> and their termination is part of
  the theorems; no fuel is used. Machine integers are words. Error codes are the constructors of
  \<open>err_t\<close> and \<open>np_error_code\<close>. Code without source here (FreeRTOS, the SDK, the C library, the kernel of
  the host) and the protocols of lwIP enter as arguments: functions, or the result of a call (\<open>ok\<close> for
  \<^verbatim>\<open>malloc\<close>, an \<open>err_t\<close>), with what is relied on as named hypotheses (\<open>input_keeps\<close>, \<open>sendto_ok\<close>, \<open>output_ok\<close>,
  \<open>recursive_mutex\<close>, \<open>kernel_ok\<close>, \<open>sems_ok\<close>, \<open>work_ok\<close>, \<open>rtos_queue\<close>, \<open>fifo\<close>). The configuration is that of \<^verbatim>\<open>src/lwipopts.h\<close>.

  \<^bold>\<open>Theories.\<close>
  \<^item> \<open>Sim_Prelude\<close>: types, error codes, \<open>require\<close>, alignment, and facts on options, words and lists.
  \<^item> \<open>Alloc_Spec\<close>: the contract of an allocator as a locale, and what its clients may rely on.
  \<^item> \<open>Mem_Heap\<close>, \<open>Heap_Refine\<close>: \<^verbatim>\<open>mem.c\<close>. The heap is the map of its headers; the abstract heap is the
    list of blocks that partition it. \<open>mem_malloc\<close>, \<open>mem_free\<close> and \<open>mem_trim\<close> return and refine first
    fit, release with coalescing, and shrinking; blocks are aligned, in bounds and disjoint; every
    program that frees what it holds runs. One case stops: trimming the last block.
  \<^item> \<open>Memp\<close>: \<^verbatim>\<open>memp.c\<close>. The free list of each pool; the same contract for elements.
  \<^item> \<open>Pbuf\<close>: the data and operations of \<^verbatim>\<open>pbuf.c\<close>, on a store of structures over the two allocators.
    \<open>Pbuf_Inv\<close>, \<open>Pbuf_Alloc\<close>: the invariant \<open>pm_inv\<close> (every structure is backed by exactly one allocated
    block or element) and allocation, release and reference counts. \<open>Pbuf_Data\<close>, \<open>Pbuf_Write\<close>: a packet
    is a byte string (\<open>content\<close>), however it is cut into structures; copying, comparing, searching,
    writing and cloning are the operations on byte strings. \<open>Pbuf_Chain\<close>: joining, splitting, cutting,
    headers.
  \<^item> \<open>Fifo_Spec\<close>: bounded queues as a locale, with the behaviour of programs of pushes and pops.
    \<open>Pkt_List\<close>: \<^verbatim>\<open>list.c\<close> on a store of elements, an instance.
  \<^item> \<open>Tapif\<close>: \<^verbatim>\<open>tapif.c\<close>. The operations of the stack and of the three threads are the steps of
    \<open>tap_step\<close>; on every run frames are neither lost, duplicated, reordered nor altered.
  \<^item> \<open>Completion\<close>: the contract of asynchronous operations as a locale: every event is resolved at most
    once, and the others are pending. \<open>Nabto_Udp\<close>, \<open>Nabto_Tcp\<close>, \<open>Nabto_Dns\<close> are instances and show what
    the operations transport (\<open>Ip_Convert\<close>: addresses). The contract does not cover two places where
    the code breaks it: receives on an aborted UDP socket, and TCP connects; both are proved.
  \<^item> \<open>Nabto_Mdns\<close>: multicast groups over every run, shut-down, and the answer to a query.
  \<^item> \<open>Sys_Arch\<close>: \<^verbatim>\<open>sys_arch.c\<close>. Mailboxes are bounded queues if those of FreeRTOS are; the core lock is
    modelled by its single accesses and is safe in every interleaving of tasks, as is its check.
  \<^item> \<open>Threads\<close>: the condition variable by its single accesses. Without time limits the counter and the
    semaphore always match the waiting threads; a wait that times out can break this. \<open>Thread_Objects\<close>:
    threads, mutexes and condition variables as objects that own semaphores, from creation to release, in every
    order the SDK may use them: no deleted semaphore is used and nothing is left over.
  \<^item> \<open>Chksum\<close>: \<^verbatim>\<open>inet_chksum.c\<close>. The checksum of a packet, with or without pseudo header, is the one's
    complement sum of its bytes, for every cut into structures and every alignment; it accepts what it
    produced and detects the change of a byte.
  \<^item> \<open>Timeouts\<close>: \<^verbatim>\<open>timeouts.c\<close>. The list of timeouts is ordered by due time across the wrap-around of
    the clock; on every run no protocol timer is lost and no call of \<^verbatim>\<open>sys_check_timeouts\<close> runs for ever.
  \<^item> \<open>Tcpip\<close>: \<^verbatim>\<open>tcpip.c\<close>. Messages are handled once and in order, their elements return to the pool, and the
    thread sleeps at most until the next timer is due.
  \<^item> \<open>Echo_Apps\<close>: the echo servers. The TCP server returns the stream it received, in order.
  \<^item> \<open>Ip4_Addr\<close>: \<^verbatim>\<open>ipv4/ip4_addr.c\<close>. Net masks and broadcast addresses; printing and reading an address are inverse.
  \<^item> \<open>Linked_List\<close>: lists linked through a field, generic. \<open>Udp_Pcb\<close>, \<open>Udp_Input\<close>, \<open>Udp_Output\<close>: \<^verbatim>\<open>lwip/src/core/udp.c\<close>.
    The control blocks with the list and the pool they live in: ports stay exclusive on every run (a change of the address of an
    interface is considered when no control block has the new address). A datagram that arrives reaches the one
    control block it is for, or is dropped and counted; a datagram that is sent has its header and checksum and is accepted on the other
    side; the adapter of the SDK on top of it sends what it is given. \<open>lwip_sendto\<close> meets the contract \<open>sendto_ok\<close> that the
    adapters assume. One datagram of UDP-Lite can stop the program.

  \<^bold>\<open>Bounds.\<close> The counters of the core lock are bytes: nesting is considered up to 255. The condition
  variable is considered for fewer than \<open>2^31\<close> threads, the maximum of its semaphore. Lists hold 42
  packets of at most 1518 bytes, mDNS packets at most 1500 bytes. Statistics counters wrap.
  Due times are compared in 32 bits: two checks of the timers, with the work of the timers, are less than \<open>2^31\<close> milliseconds less
  one minute apart. The chain of an echo connection is shorter than 64 KiB, as the receive window is.

  \<^bold>\<open>Not modelled.\<close> The other protocols of lwIP (IP, ARP, ICMP, TCP, DNS, DHCP, its socket API and
  other applications): a third-party stack, whose parts that are called are arguments. FreeRTOS, the SDK:
  no source here. \<^verbatim>\<open>lwip-port/netif/pcapif.c\<close>: not compiled with the TAP interface. The start-up code
  (\<^verbatim>\<open>platform_integration.c\<close>, \<^verbatim>\<open>lwip_port_init.c\<close>, \<^verbatim>\<open>default_netif.c\<close>), \<^verbatim>\<open>console.c\<close>, \<^verbatim>\<open>freertos_port.c\<close>,
  \<^verbatim>\<open>freertos_calloc.c\<close>: sequences of calls without state. The demos and the integration test:
  clients of the SDK. Of \<^verbatim>\<open>tapif.c\<close> the races inside a list operation (the lists are
  shared without a lock): a step is a whole operation. Of \<^verbatim>\<open>pbuf.c\<close> what the configuration leaves out.
\<close>

end
